(* ===== verification/Prelude.thy ===== *)
theory Prelude
  imports Main "HOL-Library.Word"
begin

text \<open>
  Shared vocabulary of the development: the byte and integer types of the firmware, C string
  literals as byte lists, the outcome of a piece of C code that may not return, checked array
  writes, and the parts of the C library the sources use (number parsing and printing).
\<close>

unbundle bit_operations_syntax

section \<open>Machine types and string literals\<close>

type_synonym byte = "8 word"
type_synonym u16 = "16 word"
type_synonym u32 = "32 word"

text \<open>The bytes of a C string literal, without the terminating NUL.\<close>

primrec str :: "string \<Rightarrow> byte list" where
  "str [] = []"
| "str (c # cs) = of_char c # str cs"

lemma str_append [simp]: "str (a @ b) = str a @ str b"
  by (induction a) auto

lemma length_str [simp]: "length (str s) = length s"
  by (induction s) auto

text \<open>The string held by a char array: everything before the first NUL.\<close>

definition cstr :: "byte list \<Rightarrow> byte list" where
  "cstr buf = takeWhile (\<lambda>b. b \<noteq> 0) buf"

lemma cstr_no_nul [simp]: "0 \<notin> set (cstr buf)"
  by (auto simp: cstr_def dest: set_takeWhileD)

lemma cstr_append_nul [simp]: "0 \<notin> set s \<Longrightarrow> cstr (s @ 0 # r) = s"
  unfolding cstr_def by (subst takeWhile_append2) auto

lemma cstr_id: "0 \<notin> set s \<Longrightarrow> cstr s = s"
  by (auto simp: cstr_def takeWhile_eq_all_conv)

section \<open>Outcomes\<close>

text \<open>
  A call returns a value and a state, or the task stops inside it: it was deleted
  (\<open>vTaskDelete\<close>), it raised an exception of the firmware (\<open>longjmp\<close> to the innermost
  handler), it waits for input that never comes, it accessed an array out of its bounds, it did
  something else the C language leaves undefined, or the fuel of the model ran out.
\<close>

datatype stop = Deleted | Raised u32 | Blocked | OutOfBounds | Undefined | OutOfFuel

datatype ('a, 's) outcome = Ret 'a 's | Stop stop 's

primrec andthen :: "('a, 's) outcome \<Rightarrow> ('a \<Rightarrow> 's \<Rightarrow> ('b, 's) outcome) \<Rightarrow> ('b, 's) outcome" where
  "andthen (Ret a s) k = k a s"
| "andthen (Stop w s) k = Stop w s"

lemma andthen_assoc: "andthen (andthen m k) h = andthen m (\<lambda>a s. andthen (k a s) h)"
  by (cases m) auto

lemma andthen_Ret_iff:
  "andthen m k = Ret b s' \<longleftrightarrow> (\<exists>a s. m = Ret a s \<and> k a s = Ret b s')"
  by (cases m) auto

lemma andthen_Stop_iff:
  "andthen m k = Stop w s' \<longleftrightarrow> m = Stop w s' \<or> (\<exists>a s. m = Ret a s \<and> k a s = Stop w s')"
  by (cases m) auto

lemma andthen_cong [fundef_cong]:
  "m = m' \<Longrightarrow> (\<And>a s. m' = Ret a s \<Longrightarrow> k a s = k' a s) \<Longrightarrow> andthen m k = andthen m' k'"
  by (cases m') auto

text \<open>
  A small Hoare logic: a call that returns satisfies \<open>Q\<close>, one that stops does so for a reason in
  \<open>E\<close>.
\<close>

primrec ensures :: "('a \<Rightarrow> 's \<Rightarrow> bool) \<Rightarrow> (stop \<Rightarrow> bool) \<Rightarrow> ('a, 's) outcome \<Rightarrow> bool" where
  "ensures Q E (Ret a s) = Q a s"
| "ensures Q E (Stop w s) = E w"

lemma ensures_andthen:
  assumes "ensures R E m" and "\<And>a s. R a s \<Longrightarrow> ensures Q E (k a s)"
  shows "ensures Q E (andthen m k)"
  using assms by (cases m) auto

lemma ensures_mono:
  assumes "ensures R E m" and "\<And>a s. R a s \<Longrightarrow> Q a s"
  shows "ensures Q E m"
  using assms by (cases m) auto

lemma ensures_if:
  "(b \<Longrightarrow> ensures Q E m) \<Longrightarrow> (\<not> b \<Longrightarrow> ensures Q E k) \<Longrightarrow> ensures Q E (if b then m else k)"
  by simp

text \<open>A write \<open>buf[i] = c\<close> into an array, checked against its size.\<close>

definition put_at :: "nat \<Rightarrow> 'e \<Rightarrow> 'e list \<Rightarrow> 's \<Rightarrow> ('e list, 's) outcome" where
  "put_at i c buf s = (if i < length buf then Ret (buf[i := c]) s else Stop OutOfBounds s)"

lemma put_at_in [simp]: "i < length buf \<Longrightarrow> put_at i c buf s = Ret (buf[i := c]) s"
  by (simp add: put_at_def)

lemma ensures_put_at:
  "i < length b \<Longrightarrow> Q (b[i := c]) s \<Longrightarrow> ensures Q E (put_at i c b s)"
  by simp

lemma take_update_Suc: "i < length xs \<Longrightarrow> take (Suc i) (xs[i := x]) = take i xs @ [x]"
  by (simp add: take_Suc_conv_app_nth)

text \<open>
  A property of the state that holds wherever a call ends: when it returns, when it raises, so that the
  handler of the exception finds it, and also where it waits, ends its task or is stopped by the fuel. A loop
  that never returns keeps it if it keeps it for every fuel.
\<close>

primrec keeps :: "('s \<Rightarrow> bool) \<Rightarrow> ('a, 's) outcome \<Rightarrow> bool" where
  "keeps I (Ret a s) = I s"
| "keeps I (Stop w s) = I s"

named_theorems keeps_intros

lemma keeps_andthen:
  "keeps I m \<Longrightarrow> (\<And>a s. I s \<Longrightarrow> keeps I (k a s)) \<Longrightarrow> keeps I (andthen m k)"
  by (cases m) auto

lemma keeps_if [keeps_intros]:
  "(b \<Longrightarrow> keeps I m) \<Longrightarrow> (\<not> b \<Longrightarrow> keeps I k) \<Longrightarrow> keeps I (if b then m else k)"
  by simp

lemma keeps_Ret [keeps_intros]: "I s \<Longrightarrow> keeps I (Ret a s)"
  by simp

lemma keeps_put_at [keeps_intros]: "I s \<Longrightarrow> keeps I (put_at i c b s)"
  by (simp add: put_at_def)

lemma keeps_case_option [keeps_intros]:
  "(x = None \<Longrightarrow> keeps I m) \<Longrightarrow> (\<And>a. x = Some a \<Longrightarrow> keeps I (k a)) \<Longrightarrow>
     keeps I (case x of None \<Rightarrow> m | Some a \<Rightarrow> k a)"
  by (cases x) auto

section \<open>Hexadecimal digits\<close>

definition hexdigit :: "nat \<Rightarrow> byte" where
  "hexdigit n = (if n < 10 then of_nat (48 + n) else of_nat (55 + n))"

text \<open>\<open>snprintf(buf, 3, "%02X", c)\<close> of an unsigned char.\<close>

definition hex2 :: "byte \<Rightarrow> byte list" where
  "hex2 c = [hexdigit (unat c div 16), hexdigit (unat c mod 16)]"

definition hexval :: "byte \<Rightarrow> nat option" where
  "hexval b =
     (if 48 \<le> b \<and> b \<le> 57 then Some (unat b - 48)
      else if 65 \<le> b \<and> b \<le> 70 then Some (unat b - 55)
      else if 97 \<le> b \<and> b \<le> 102 then Some (unat b - 87)
      else None)"

definition isspace :: "byte \<Rightarrow> bool" where
  "isspace b \<longleftrightarrow> b = 32 \<or> (9 \<le> b \<and> b \<le> 13)"

text \<open>A nibble, split in two halves so that \<open>auto\<close> can try its values.\<close>

lemma less_16E:
  assumes "(n::nat) < 16"
  obtains q r where "n = 4 * q + r" "q \<in> {0, 1, 2, 3}" "r \<in> {0, 1, 2, 3}"
proof (rule that)
  show "n = 4 * (n div 4) + n mod 4" by simp
  show "n div 4 \<in> {0, 1, 2, 3}" using assms by auto
  show "n mod 4 \<in> {0, 1, 2, 3}" by auto
qed

lemma hexval_hexdigit [simp]: "n < 16 \<Longrightarrow> hexval (hexdigit n) = Some n"
  by (erule less_16E; elim insertE emptyE; simp add: hexval_def hexdigit_def)

lemma hexdigit_not_space [simp]: "n < 16 \<Longrightarrow> \<not> isspace (hexdigit n)"
  by (erule less_16E; elim insertE emptyE; simp add: isspace_def hexdigit_def)

lemma hexdigit_plain [simp]:
  "n < 16 \<Longrightarrow> hexdigit n \<noteq> 43 \<and> hexdigit n \<noteq> 45 \<and> hexdigit n \<noteq> 120 \<and> hexdigit n \<noteq> 88
     \<and> hexdigit n \<noteq> 0"
  by (erule less_16E; elim insertE emptyE; simp add: hexdigit_def)

text \<open>
  The value of the longest prefix of hexadecimal digits, added to \<open>acc\<close>, and what is left.
\<close>

fun hexrun :: "nat \<Rightarrow> byte list \<Rightarrow> nat \<times> byte list" where
  "hexrun acc [] = (acc, [])"
| "hexrun acc (b # bs) =
     (case hexval b of None \<Rightarrow> (acc, b # bs) | Some d \<Rightarrow> hexrun (16 * acc + d) bs)"

definition skip_0x :: "byte list \<Rightarrow> byte list" where
  "skip_0x bs =
     (case bs of z # x # r \<Rightarrow> if z = 48 \<and> (x = 120 \<or> x = 88) then r else bs | _ \<Rightarrow> bs)"

text \<open>
  \<open>strtol(s, NULL, 16)\<close> of the string \<open>s\<close>: white space, a sign, \<open>0x\<close>, digits; 0 when
  there is no digit; clamped to the 32-bit \<open>long\<close> of the target.
\<close>

definition strtol16 :: "byte list \<Rightarrow> int" where
  "strtol16 s =
     (let t = dropWhile isspace s;
          neg = (t \<noteq> [] \<and> hd t = 45);
          u = (if t \<noteq> [] \<and> (hd t = 45 \<or> hd t = 43) then tl t else t);
          v = int (fst (hexrun 0 (skip_0x u)))
      in if neg then max (- v) (- (2 ^ 31)) else min v (2 ^ 31 - 1))"

lemma unat_byte_split: "16 * (unat (c::byte) div 16) + unat c mod 16 = unat c"
  by simp

lemma unat_byte_div16: "unat (c::byte) div 16 < 16"
  using unsigned_less [where ?'a = nat, of c] by simp

lemma length_hex2 [simp]: "length (hex2 c) = 2"
  by (simp add: hex2_def)

lemma hexrun_hex2 [simp]: "hexrun 0 (hex2 c) = (unat c, [])"
  by (simp add: hex2_def unat_byte_div16)

lemma strtol16_hex2 [simp]: "strtol16 (hex2 c) = uint c"
proof -
  have "strtol16 (hex2 c) = min (int (unat c)) (2 ^ 31 - 1)"
    unfolding strtol16_def Let_def
    by (simp add: hex2_def unat_byte_div16 skip_0x_def)
  also have "\<dots> = uint c"
    using unsigned_less [where ?'a = int, of c] by simp
  finally show ?thesis .
qed

end
