(* ===== verification/Cbuf.thy ===== *)
theory Cbuf
  imports Prelude
begin

text \<open>
  The circular buffer macros of \<open>src/main/CBUF.h\<close>. The macros are generic in the type of the
  two free-running indices and in the entry type, so the record is too: \<open>'i word\<close> is the index
  type and the length of \<open>m_entry\<close> is the array size. Masks and differences are computed in the
  32-bit \<open>size_t\<close> of the target, as the C promotions do. Pointers into \<open>m_entry\<close> are indices.
  The theory ends with the queue interface its clients use and its interpretation.
\<close>

record ('w, 'e) cbuf =
  m_get_idx :: 'w
  m_put_idx :: 'w
  m_entry :: "'e list"

section \<open>The macros\<close>

definition CBUF_Init :: "('i::len word, 'e) cbuf \<Rightarrow> ('i word, 'e) cbuf" where
  "CBUF_Init q = q\<lparr>m_get_idx := 0, m_put_idx := 0\<rparr>"

definition CBUF_Len :: "('i::len word, 'e) cbuf \<Rightarrow> 'i word" where
  "CBUF_Len q = m_put_idx q - m_get_idx q"

definition CBUF_Size :: "('i::len word, 'e) cbuf \<Rightarrow> u32" where
  "CBUF_Size q = of_nat (length (m_entry q))"

definition CBUF_Space :: "('i::len word, 'e) cbuf \<Rightarrow> u32" where
  "CBUF_Space q = CBUF_Size q - ucast (CBUF_Len q)"

definition CBUF_Mask :: "('i::len word, 'e) cbuf \<Rightarrow> u32" where
  "CBUF_Mask q = CBUF_Size q - 1"

definition CBUF_Wrapped :: "('i::len word, 'e) cbuf \<Rightarrow> bool" where
  "CBUF_Wrapped q \<longleftrightarrow> (ucast (m_put_idx q XOR m_get_idx q) :: u32) AND NOT (CBUF_Mask q) \<noteq> 0"

definition CBUF_ContigLen :: "('i::len word, 'e) cbuf \<Rightarrow> u32" where
  "CBUF_ContigLen q =
     (if CBUF_Wrapped q then CBUF_Size q - (ucast (m_get_idx q) AND CBUF_Mask q)
      else ucast (CBUF_Len q))"

definition CBUF_ContigSpace :: "('i::len word, 'e) cbuf \<Rightarrow> u32" where
  "CBUF_ContigSpace q =
     (if CBUF_Wrapped q then CBUF_Space q
      else CBUF_Size q - (ucast (m_put_idx q) AND CBUF_Mask q))"

definition CBUF_GetPushEntryPtr :: "('i::len word, 'e) cbuf \<Rightarrow> nat" where
  "CBUF_GetPushEntryPtr q = unat ((ucast (m_put_idx q) :: u32) AND CBUF_Mask q)"

definition CBUF_GetPopEntryPtr :: "('i::len word, 'e) cbuf \<Rightarrow> nat" where
  "CBUF_GetPopEntryPtr q = unat ((ucast (m_get_idx q) :: u32) AND CBUF_Mask q)"

definition CBUF_GetLastEntryPtr :: "('i::len word, 'e) cbuf \<Rightarrow> nat" where
  "CBUF_GetLastEntryPtr q = unat ((ucast (m_put_idx q) - 1 :: u32) AND CBUF_Mask q)"

definition CBUF_AdvancePushIdx :: "('i::len word, 'e) cbuf \<Rightarrow> ('i word, 'e) cbuf" where
  "CBUF_AdvancePushIdx q = q\<lparr>m_put_idx := m_put_idx q + 1\<rparr>"

definition CBUF_AdvancePushIdxBy :: "('i::len word, 'e) cbuf \<Rightarrow> 'i word \<Rightarrow> ('i word, 'e) cbuf" where
  "CBUF_AdvancePushIdxBy q n = q\<lparr>m_put_idx := m_put_idx q + n\<rparr>"

definition CBUF_AdvancePopIdx :: "('i::len word, 'e) cbuf \<Rightarrow> ('i word, 'e) cbuf" where
  "CBUF_AdvancePopIdx q = q\<lparr>m_get_idx := m_get_idx q + 1\<rparr>"

definition CBUF_AdvancePopIdxBy :: "('i::len word, 'e) cbuf \<Rightarrow> 'i word \<Rightarrow> ('i word, 'e) cbuf" where
  "CBUF_AdvancePopIdxBy q n = q\<lparr>m_get_idx := m_get_idx q + n\<rparr>"

definition CBUF_Push :: "'e \<Rightarrow> ('i::len word, 'e) cbuf \<Rightarrow> ('i word, 'e) cbuf" where
  "CBUF_Push x q =
     q\<lparr>m_entry := (m_entry q)[unat ((ucast (m_put_idx q) :: u32) AND CBUF_Mask q) := x],
       m_put_idx := m_put_idx q + 1\<rparr>"

definition CBUF_Pop :: "('i::len word, 'e) cbuf \<Rightarrow> 'e \<times> ('i word, 'e) cbuf" where
  "CBUF_Pop q =
     (m_entry q ! unat ((ucast (m_get_idx q) :: u32) AND CBUF_Mask q),
      q\<lparr>m_get_idx := m_get_idx q + 1\<rparr>)"

definition CBUF_Get :: "('i::len word, 'e) cbuf \<Rightarrow> u32 \<Rightarrow> 'e" where
  "CBUF_Get q i = m_entry q ! unat ((ucast (m_get_idx q) + i :: u32) AND CBUF_Mask q)"

definition CBUF_GetEnd :: "('i::len word, 'e) cbuf \<Rightarrow> u32 \<Rightarrow> 'e" where
  "CBUF_GetEnd q i = m_entry q ! unat ((ucast (m_put_idx q) - i - 1 :: u32) AND CBUF_Mask q)"

definition CBUF_IsEmpty :: "('i::len word, 'e) cbuf \<Rightarrow> bool" where
  "CBUF_IsEmpty q \<longleftrightarrow> CBUF_Len q = 0"

definition CBUF_IsFull :: "('i::len word, 'e) cbuf \<Rightarrow> bool" where
  "CBUF_IsFull q \<longleftrightarrow> CBUF_Space q = 0"

definition CBUF_Error :: "('i::len word, 'e) cbuf \<Rightarrow> bool" where
  "CBUF_Error q \<longleftrightarrow> CBUF_Size q < ucast (CBUF_Len q)"

lemmas cbuf_index_defs =
  CBUF_GetPushEntryPtr_def CBUF_GetPopEntryPtr_def CBUF_GetLastEntryPtr_def CBUF_Get_def
  CBUF_GetEnd_def CBUF_Push_def CBUF_Pop_def

section \<open>Well-formed buffers and their contents\<close>

text \<open>
  The array size is a power of two not larger than the index range (the header asks for strictly
  smaller; \<open>dbg_msg_queue\<close> in \<open>platform.c\<close> has size 256 with 8-bit indices, so the equal case is
  covered too). The largest number of entries the indices can express is the capacity.
\<close>

definition cbuf_capacity :: "('i::len word, 'e) cbuf \<Rightarrow> nat" where
  "cbuf_capacity q = min (length (m_entry q)) (2 ^ LENGTH('i) - 1)"

definition cbuf_count :: "('i::len word, 'e) cbuf \<Rightarrow> nat" where
  "cbuf_count q = unat (CBUF_Len q)"

definition cbuf_wf :: "('i::len word, 'e) cbuf \<Rightarrow> bool" where
  "cbuf_wf q \<longleftrightarrow>
     (\<exists>k. length (m_entry q) = 2 ^ k \<and> k \<le> LENGTH('i) \<and> k < 32 \<and> LENGTH('i) \<le> 32)
     \<and> cbuf_count q \<le> cbuf_capacity q"

definition cbuf_slot :: "('i::len word, 'e) cbuf \<Rightarrow> nat \<Rightarrow> nat" where
  "cbuf_slot q j = (unat (m_get_idx q) + j) mod length (m_entry q)"

definition cbuf_contents :: "('i::len word, 'e) cbuf \<Rightarrow> 'e list" where
  "cbuf_contents q = map (\<lambda>j. m_entry q ! cbuf_slot q j) [0..<cbuf_count q]"

definition cbuf_room :: "('i::len word, 'e) cbuf \<Rightarrow> nat" where
  "cbuf_room q = cbuf_capacity q - cbuf_count q"

lemma length_cbuf_contents [simp]: "length (cbuf_contents q) = cbuf_count q"
  by (simp add: cbuf_contents_def)

lemma contents_empty_iff: "cbuf_contents q = [] \<longleftrightarrow> cbuf_count q = 0"
  by (simp flip: length_0_conv)

lemma unat_and_mask:
  assumes "k < 32"
  shows "unat ((x :: u32) AND (of_nat (2 ^ k) - 1)) = unat x mod 2 ^ k"
proof -
  have "(of_nat (2 ^ k) - 1 :: u32) = mask k"
    by (simp add: mask_eq_exp_minus_1)
  then have "x AND (of_nat (2 ^ k) - 1) = take_bit k x"
    by (simp only: take_bit_eq_mask)
  moreover have "unat (take_bit k x) = unat x mod 2 ^ k"
    by (simp only: unsigned_take_bit_eq take_bit_eq_mod [of k "unat x"])
  ultimately show ?thesis by simp
qed

lemma unat_ucast_u32:
  assumes "LENGTH('i::len) \<le> 32"
  shows "unat (ucast (w :: 'i word) :: u32) = unat w"
proof -
  have "unat w < 2 ^ LENGTH('i)" by (rule unsigned_less)
  also have "\<dots> \<le> 2 ^ 32" using assms by (intro power_increasing) auto
  finally show ?thesis by (simp add: unsigned_ucast_eq take_bit_nat_eq_self)
qed

lemma cbuf_wf_sizeE:
  fixes q :: "('i::len word, 'e) cbuf"
  assumes "cbuf_wf q"
  obtains k where "length (m_entry q) = 2 ^ k" "k \<le> LENGTH('i)" "k < 32" "LENGTH('i) \<le> 32"
    "length (m_entry q) dvd 2 ^ LENGTH('i)"
  using assms unfolding cbuf_wf_def by (metis le_imp_power_dvd)

lemma unat_plus_mod:
  fixes a b :: "'i::len word"
  assumes "n dvd 2 ^ LENGTH('i)"
  shows "unat (a + b) mod n = (unat a + unat b) mod n"
  by (simp add: unat_word_ariths mod_mod_cancel [OF assms])

lemma push_index:
  assumes "cbuf_wf q"
  shows "unat ((ucast (m_put_idx q) :: u32) AND CBUF_Mask q) = cbuf_slot q (cbuf_count q)"
proof -
  obtain k where k: "length (m_entry q) = 2 ^ k" "k < 32" "LENGTH('a) \<le> 32"
    and d: "length (m_entry q) dvd 2 ^ LENGTH('a)"
    using cbuf_wf_sizeE [OF assms] by metis
  have "unat (m_put_idx q) mod 2 ^ k = (unat (m_get_idx q) + unat (CBUF_Len q)) mod 2 ^ k"
    using unat_plus_mod [of "2 ^ k" "m_get_idx q" "CBUF_Len q"] d k by (simp add: CBUF_Len_def)
  with k show ?thesis
    by (simp add: CBUF_Mask_def CBUF_Size_def unat_and_mask unat_ucast_u32 cbuf_slot_def
        cbuf_count_def del: of_nat_power)
qed

lemma pop_index:
  assumes "cbuf_wf q"
  shows "unat ((ucast (m_get_idx q) :: u32) AND CBUF_Mask q) = cbuf_slot q 0"
proof -
  obtain k where "length (m_entry q) = 2 ^ k" "k < 32" "LENGTH('a) \<le> 32"
    using cbuf_wf_sizeE [OF assms] by metis
  then show ?thesis
    by (simp add: CBUF_Mask_def CBUF_Size_def unat_and_mask unat_ucast_u32 cbuf_slot_def
        del: of_nat_power)
qed

section \<open>What the operations do to the contents\<close>

lemma CBUF_Push_fields [simp]:
  "m_get_idx (CBUF_Push x q) = m_get_idx q"
  "m_put_idx (CBUF_Push x q) = m_put_idx q + 1"
  "length (m_entry (CBUF_Push x q)) = length (m_entry q)"
  by (simp_all add: CBUF_Push_def)

lemma CBUF_Pop_fields [simp]:
  "m_get_idx (snd (CBUF_Pop q)) = m_get_idx q + 1"
  "m_put_idx (snd (CBUF_Pop q)) = m_put_idx q"
  "m_entry (snd (CBUF_Pop q)) = m_entry q"
  by (simp_all add: CBUF_Pop_def)

lemma cbuf_capacity_push_pop [simp]:
  "cbuf_capacity (CBUF_Push x q) = cbuf_capacity q"
  "cbuf_capacity (snd (CBUF_Pop q)) = cbuf_capacity q"
  by (simp_all add: cbuf_capacity_def)

lemma unat_inc: "unat (w :: 'i::len word) < 2 ^ LENGTH('i) - 1 \<Longrightarrow> unat (w + 1) = unat w + 1"
  by (simp add: unat_word_ariths unsigned_1)

lemma cbuf_capacity_le:
  fixes q :: "('i::len word, 'e) cbuf"
  shows "cbuf_capacity q \<le> length (m_entry q)" "cbuf_capacity q \<le> 2 ^ LENGTH('i) - 1"
  by (simp_all add: cbuf_capacity_def)

lemma CBUF_Len_push_pop [simp]:
  "CBUF_Len (CBUF_Push x q) = CBUF_Len q + 1"
  "CBUF_Len (snd (CBUF_Pop q)) = CBUF_Len q - 1"
  by (simp_all add: CBUF_Len_def)

lemma cbuf_count_push:
  fixes q :: "('i::len word, 'e) cbuf"
  assumes "0 < cbuf_room q"
  shows "cbuf_count (CBUF_Push x q) = cbuf_count q + 1"
proof -
  have "unat (CBUF_Len q) < 2 ^ LENGTH('i) - 1"
    using assms cbuf_capacity_le(2) [of q] by (simp add: cbuf_room_def cbuf_count_def)
  then show ?thesis by (simp add: cbuf_count_def unat_inc)
qed

lemma cbuf_count_pop:
  "0 < cbuf_count q \<Longrightarrow> cbuf_count (snd (CBUF_Pop q)) = cbuf_count q - 1"
  unfolding cbuf_count_def CBUF_Len_push_pop by (subst unat_minus_one) auto

lemma cbuf_wf_push: "cbuf_wf q \<Longrightarrow> 0 < cbuf_room q \<Longrightarrow> cbuf_wf (CBUF_Push x q)"
  by (auto simp: cbuf_wf_def cbuf_count_push) (simp add: cbuf_room_def)

lemma cbuf_wf_pop: "cbuf_wf q \<Longrightarrow> 0 < cbuf_count q \<Longrightarrow> cbuf_wf (snd (CBUF_Pop q))"
  by (auto simp: cbuf_wf_def cbuf_count_pop)

lemma cbuf_room_push: "0 < cbuf_room q \<Longrightarrow> cbuf_room (CBUF_Push x q) = cbuf_room q - 1"
  by (simp add: cbuf_room_def cbuf_count_push)

lemma cbuf_room_pop:
  "cbuf_wf q \<Longrightarrow> 0 < cbuf_count q \<Longrightarrow> cbuf_room (snd (CBUF_Pop q)) = cbuf_room q + 1"
  by (auto simp: cbuf_room_def cbuf_count_pop cbuf_wf_def)

text \<open>Slots of entries at different distances below the size are different.\<close>

lemma cbuf_slot_inj:
  assumes "i < j" "j < length (m_entry q)"
  shows "cbuf_slot q i \<noteq> cbuf_slot q j"
proof
  assume "cbuf_slot q i = cbuf_slot q j"
  then have "length (m_entry q) dvd (unat (m_get_idx q) + j) - (unat (m_get_idx q) + i)"
    unfolding cbuf_slot_def by (metis mod_eq_dvd_iff_nat add_le_mono1 add.commute assms(1) less_imp_le)
  then have "length (m_entry q) dvd j - i" by simp
  with assms show False by (auto dest: dvd_imp_le)
qed

lemma cbuf_contents_push:
  assumes wf: "cbuf_wf q" and room: "0 < cbuf_room q"
  shows "cbuf_contents (CBUF_Push x q) = cbuf_contents q @ [x]"
proof -
  let ?n = "cbuf_count q" and ?q = "CBUF_Push x q"
  have n: "?n < length (m_entry q)"
    using room cbuf_capacity_le(1) [of q] by (simp add: cbuf_room_def)
  have slot: "cbuf_slot ?q j = cbuf_slot q j" for j by (simp add: cbuf_slot_def)
  have e: "m_entry ?q = (m_entry q)[cbuf_slot q ?n := x]"
    using push_index [OF wf] by (simp add: CBUF_Push_def)
  have "m_entry ?q ! cbuf_slot q j = m_entry q ! cbuf_slot q j" if "j < ?n" for j
    using cbuf_slot_inj [OF that n] by (simp add: e)
  moreover have "cbuf_slot q ?n < length (m_entry q)"
    using n by (auto simp: cbuf_slot_def intro: mod_less_divisor)
  ultimately show ?thesis
    by (simp add: cbuf_contents_def cbuf_count_push [OF room] slot e)
qed

lemma cbuf_slot_pop:
  assumes "cbuf_wf q"
  shows "cbuf_slot (snd (CBUF_Pop q)) j = cbuf_slot q (Suc j)"
proof -
  let ?s = "length (m_entry q)"
  obtain d: "?s dvd 2 ^ LENGTH('a)" using cbuf_wf_sizeE [OF assms] by metis
  have "(unat (m_get_idx q + 1) + j) mod ?s = (unat (m_get_idx q + 1) mod ?s + j) mod ?s"
    by (simp add: mod_simps)
  also have "\<dots> = ((unat (m_get_idx q) + 1) mod ?s + j) mod ?s"
    using unat_plus_mod [OF d, of "m_get_idx q" 1] by simp
  also have "\<dots> = (unat (m_get_idx q) + Suc j) mod ?s"
    by (simp add: mod_simps)
  finally show ?thesis by (simp add: cbuf_slot_def)
qed

lemma cbuf_contents_pop:
  assumes wf: "cbuf_wf q" and ne: "cbuf_contents q = x # xs"
  shows "fst (CBUF_Pop q) = x" "cbuf_contents (snd (CBUF_Pop q)) = xs" "0 < cbuf_count q"
proof -
  show pos: "0 < cbuf_count q" using ne by (metis length_cbuf_contents length_greater_0_conv list.discI)
  then obtain n where n: "cbuf_count q = Suc n" by (cases "cbuf_count q") auto
  have split: "cbuf_contents q =
      m_entry q ! cbuf_slot q 0 # map (\<lambda>j. m_entry q ! cbuf_slot q (Suc j)) [0..<n]"
    by (simp add: cbuf_contents_def n upt_conv_Cons map_Suc_upt [symmetric] del: upt_Suc)
  show "fst (CBUF_Pop q) = x"
    using split ne pop_index [OF wf] by (simp add: CBUF_Pop_def)
  show "cbuf_contents (snd (CBUF_Pop q)) = xs"
    using split ne by (simp add: cbuf_contents_def cbuf_slot_pop [OF wf] cbuf_count_pop [OF pos] n)
qed

lemma CBUF_IsEmpty_iff: "CBUF_IsEmpty q \<longleftrightarrow> cbuf_contents q = []"
  by (simp add: CBUF_IsEmpty_def flip: length_0_conv) (simp add: cbuf_count_def unat_eq_0)

section \<open>The queue interface and its provider\<close>

text \<open>
  What the clients of the buffer rely on: a queue with a number of free places, seen through the
  list of its entries. \<open>pop_n\<close> is a reader that takes the next \<open>n\<close> entries.
\<close>

primrec pop_n :: "('q \<Rightarrow> 'e \<times> 'q) \<Rightarrow> nat \<Rightarrow> 'q \<Rightarrow> 'e list \<times> 'q" where
  "pop_n pop 0 q = ([], q)"
| "pop_n pop (Suc n) q =
     (let (x, q1) = pop q; (xs, q2) = pop_n pop n q1 in (x # xs, q2))"

locale fifo =
  fixes push :: "'e \<Rightarrow> 'q \<Rightarrow> 'q"
    and pop :: "'q \<Rightarrow> 'e \<times> 'q"
    and is_empty :: "'q \<Rightarrow> bool"
    and contents :: "'q \<Rightarrow> 'e list"
    and room :: "'q \<Rightarrow> nat"
    and ok :: "'q \<Rightarrow> bool"
  assumes ok_push: "ok q \<Longrightarrow> 0 < room q \<Longrightarrow> ok (push x q)"
    and contents_push: "ok q \<Longrightarrow> 0 < room q \<Longrightarrow> contents (push x q) = contents q @ [x]"
    and room_push: "ok q \<Longrightarrow> 0 < room q \<Longrightarrow> room (push x q) = room q - 1"
    and ok_pop: "ok q \<Longrightarrow> contents q \<noteq> [] \<Longrightarrow> ok (snd (pop q))"
    and pop_first: "ok q \<Longrightarrow> contents q = x # xs \<Longrightarrow> fst (pop q) = x"
    and contents_pop: "ok q \<Longrightarrow> contents q = x # xs \<Longrightarrow> contents (snd (pop q)) = xs"
    and room_pop: "ok q \<Longrightarrow> contents q \<noteq> [] \<Longrightarrow> room (snd (pop q)) = room q + 1"
    and is_empty_iff: "ok q \<Longrightarrow> is_empty q \<longleftrightarrow> contents q = []"
begin

lemma push_all:
  "ok q \<Longrightarrow> length xs \<le> room q \<Longrightarrow>
     ok (fold push xs q) \<and> contents (fold push xs q) = contents q @ xs
     \<and> room (fold push xs q) = room q - length xs"
proof (induction xs arbitrary: q)
  case (Cons x xs)
  then have "0 < room q" by (auto simp: Suc_le_eq intro: Nat.gr0I)
  with Cons show ?case by (simp add: ok_push contents_push room_push)
qed simp

lemma pop_prefix:
  "ok q \<Longrightarrow> contents q = xs @ ys \<Longrightarrow>
     fst (pop_n pop (length xs) q) = xs \<and> contents (snd (pop_n pop (length xs) q)) = ys
     \<and> ok (snd (pop_n pop (length xs) q))"
proof (induction xs arbitrary: q)
  case (Cons x xs)
  have "contents (snd (pop q)) = xs @ ys" and "ok (snd (pop q))" and "fst (pop q) = x"
    using Cons.prems by (auto intro: contents_pop ok_pop pop_first)
  with Cons.IH [of "snd (pop q)"] show ?case by (auto simp: Let_def split: prod.split)
qed simp

lemma write_then_read:
  assumes "ok q" "contents q = []" "length xs \<le> room q"
  shows "fst (pop_n pop (length xs) (fold push xs q)) = xs"
  using push_all [OF assms(1,3)] assms(2) pop_prefix [of "fold push xs q" xs "[]"] by simp

end

interpretation cb: fifo
  "CBUF_Push :: 'e \<Rightarrow> ('i::len word, 'e) cbuf \<Rightarrow> ('i word, 'e) cbuf" CBUF_Pop CBUF_IsEmpty
  cbuf_contents cbuf_room cbuf_wf
  by unfold_locales
    (auto simp: cbuf_wf_push cbuf_contents_push cbuf_room_push cbuf_contents_pop CBUF_IsEmpty_iff
       length_greater_0_conv [symmetric] cbuf_wf_pop cbuf_room_pop
       simp del: length_greater_0_conv)

section \<open>One reader and one writer without mutual exclusion\<close>

text \<open>
  The header promises that one reader and one writer need no lock. The two sides of a push and a
  pop are separate memory accesses, so they are separate steps here: the writer stores the entry
  and later advances the put index; the reader loads an entry and later advances the get index.
  Any interleaving is allowed. The writer starts only when there is room and the reader only when
  the buffer is not empty; each checks this alone.
\<close>

record ('w, 'e) spsc =
  shared_buf :: "('w, 'e) cbuf"
  stored :: "'e option"
  loaded :: "'e option"
  sent :: "'e list"
  got :: "'e list"

inductive spsc_step :: "('i::len word, 'e) spsc \<Rightarrow> ('i word, 'e) spsc \<Rightarrow> bool" where
  store: "stored s = None \<Longrightarrow> 0 < cbuf_room (shared_buf s) \<Longrightarrow>
     spsc_step s (s\<lparr>shared_buf := (shared_buf s)\<lparr>m_entry := (m_entry (shared_buf s))[CBUF_GetPushEntryPtr (shared_buf s) := x]\<rparr>,
                   stored := Some x\<rparr>)"
| publish: "stored s = Some x \<Longrightarrow>
     spsc_step s (s\<lparr>shared_buf := CBUF_AdvancePushIdx (shared_buf s), stored := None, sent := sent s @ [x]\<rparr>)"
| load: "loaded s = None \<Longrightarrow> \<not> CBUF_IsEmpty (shared_buf s) \<Longrightarrow>
     spsc_step s (s\<lparr>loaded := Some (m_entry (shared_buf s) ! CBUF_GetPopEntryPtr (shared_buf s))\<rparr>)"
| consume: "loaded s = Some y \<Longrightarrow>
     spsc_step s (s\<lparr>shared_buf := CBUF_AdvancePopIdx (shared_buf s), loaded := None, got := got s @ [y]\<rparr>)"

definition spsc_inv :: "('i::len word, 'e) spsc \<Rightarrow> bool" where
  "spsc_inv s \<longleftrightarrow>
     cbuf_wf (shared_buf s) \<and> sent s = got s @ cbuf_contents (shared_buf s)
     \<and> (\<forall>x. stored s = Some x \<longrightarrow>
          0 < cbuf_room (shared_buf s) \<and> m_entry (shared_buf s) ! CBUF_GetPushEntryPtr (shared_buf s) = x)
     \<and> (\<forall>y. loaded s = Some y \<longrightarrow>
          cbuf_contents (shared_buf s) \<noteq> [] \<and> hd (cbuf_contents (shared_buf s)) = y)"

definition spsc_start :: "('i::len word, 'e) cbuf \<Rightarrow> ('i word, 'e) spsc" where
  "spsc_start q = \<lparr>shared_buf = CBUF_Init q, stored = None, loaded = None, sent = [], got = []\<rparr>"

inductive spsc_reachable ::
  "('i::len word, 'e) cbuf \<Rightarrow> ('i word, 'e) spsc \<Rightarrow> bool" for q where
  start: "spsc_reachable q (spsc_start q)"
| step: "spsc_reachable q s \<Longrightarrow> spsc_step s t \<Longrightarrow> spsc_reachable q t"

lemma advance_push_eq: "CBUF_AdvancePushIdx q = CBUF_Push (m_entry q ! CBUF_GetPushEntryPtr q) q"
  by (simp add: CBUF_AdvancePushIdx_def CBUF_Push_def CBUF_GetPushEntryPtr_def)

lemma advance_pop_eq: "CBUF_AdvancePopIdx q = snd (CBUF_Pop q)"
  by (simp add: CBUF_AdvancePopIdx_def CBUF_Pop_def)

lemma push_ptr_slot: "cbuf_wf q \<Longrightarrow> CBUF_GetPushEntryPtr q = cbuf_slot q (cbuf_count q)"
  by (simp add: CBUF_GetPushEntryPtr_def push_index)

lemma pop_ptr_hd:
  assumes "cbuf_wf q" "cbuf_contents q \<noteq> []"
  shows "m_entry q ! CBUF_GetPopEntryPtr q = hd (cbuf_contents q)"
  using cbuf_contents_pop(1) [OF assms(1), of "hd (cbuf_contents q)" "tl (cbuf_contents q)"] assms(2)
  by (simp add: CBUF_Pop_def CBUF_GetPopEntryPtr_def)

lemma store_fields [simp]:
  "cbuf_count (q\<lparr>m_entry := (m_entry q)[i := x]\<rparr>) = cbuf_count q"
  "cbuf_room (q\<lparr>m_entry := (m_entry q)[i := x]\<rparr>) = cbuf_room q"
  "cbuf_wf (q\<lparr>m_entry := (m_entry q)[i := x]\<rparr>) = cbuf_wf q"
  "CBUF_GetPushEntryPtr (q\<lparr>m_entry := (m_entry q)[i := x]\<rparr>) = CBUF_GetPushEntryPtr q"
  "cbuf_slot (q\<lparr>m_entry := (m_entry q)[i := x]\<rparr>) j = cbuf_slot q j"
  by (simp_all add: cbuf_count_def CBUF_Len_def cbuf_room_def cbuf_capacity_def cbuf_wf_def
      CBUF_GetPushEntryPtr_def CBUF_Mask_def CBUF_Size_def cbuf_slot_def)

lemma store_unpublished:
  assumes wf: "cbuf_wf q" and room: "0 < cbuf_room q"
  shows "cbuf_contents (q\<lparr>m_entry := (m_entry q)[CBUF_GetPushEntryPtr q := x]\<rparr>) = cbuf_contents q"
    and "CBUF_GetPushEntryPtr q < length (m_entry q)"
proof -
  have n: "cbuf_count q < length (m_entry q)"
    using room cbuf_capacity_le(1) [of q] by (simp add: cbuf_room_def)
  then show "CBUF_GetPushEntryPtr q < length (m_entry q)"
    by (simp add: push_ptr_slot [OF wf] cbuf_slot_def) (meson le_less_trans mod_less_divisor zero_le)
  show "cbuf_contents (q\<lparr>m_entry := (m_entry q)[CBUF_GetPushEntryPtr q := x]\<rparr>) = cbuf_contents q"
    using cbuf_slot_inj [THEN not_sym, OF _ n]
    by (simp add: cbuf_contents_def push_ptr_slot [OF wf])
qed

lemma spsc_inv_start: "cbuf_wf q \<Longrightarrow> spsc_inv (spsc_start q)"
  by (auto simp: spsc_inv_def spsc_start_def CBUF_Init_def cbuf_wf_def cbuf_contents_def
      cbuf_count_def CBUF_Len_def cbuf_capacity_def)

lemma spsc_inv_step: "spsc_step s t \<Longrightarrow> spsc_inv s \<Longrightarrow> spsc_inv t"
proof (induction rule: spsc_step.induct)
  case (store s x)
  then show ?case by (simp add: spsc_inv_def store_unpublished)
next
  case (publish s x)
  then show ?case
    by (auto simp: spsc_inv_def advance_push_eq cbuf_contents_push cbuf_wf_push)
next
  case (load s)
  then show ?case by (simp add: spsc_inv_def CBUF_IsEmpty_iff pop_ptr_hd)
next
  case (consume s y)
  then obtain ys where c: "cbuf_contents (shared_buf s) = y # ys" and wf: "cbuf_wf (shared_buf s)"
    unfolding spsc_inv_def by (metis list.collapse)
  have "0 < cbuf_count (shared_buf s)" by (rule cbuf_contents_pop(3) [OF wf c])
  moreover have "CBUF_GetPushEntryPtr (snd (CBUF_Pop (shared_buf s))) = CBUF_GetPushEntryPtr (shared_buf s)"
    by (simp add: CBUF_GetPushEntryPtr_def CBUF_Mask_def CBUF_Size_def)
  ultimately show ?case
    using consume c wf cbuf_contents_pop [OF wf c]
    by (auto simp: spsc_inv_def advance_pop_eq cbuf_wf_pop cbuf_room_pop)
qed

lemma spsc_inv_reachable: "spsc_reachable q s \<Longrightarrow> cbuf_wf q \<Longrightarrow> spsc_inv s"
  by (induction rule: spsc_reachable.induct) (auto intro: spsc_inv_start spsc_inv_step)

section \<open>Random access and status\<close>

lemma cbuf_size_u32:
  assumes "cbuf_wf q"
  shows "unat (CBUF_Size q) = length (m_entry q)" "length (m_entry q) < 2 ^ 32"
proof -
  obtain k where k: "length (m_entry q) = 2 ^ k" "k < 32" using cbuf_wf_sizeE [OF assms] by metis
  from power_strict_increasing [OF k(2), of "2::nat"] k(1)
  show "length (m_entry q) < 2 ^ 32" by simp
  then show "unat (CBUF_Size q) = length (m_entry q)"
    by (simp add: CBUF_Size_def unsigned_of_nat take_bit_nat_eq_self)
qed

lemma cbuf_len_u32: "cbuf_wf (q :: ('i::len word, 'e) cbuf) \<Longrightarrow> unat (ucast (CBUF_Len q) :: u32) = cbuf_count q"
  by (metis cbuf_wf_sizeE unat_ucast_u32 cbuf_count_def)

lemma cbuf_count_le: "cbuf_wf q \<Longrightarrow> cbuf_count q \<le> length (m_entry q)"
  using cbuf_capacity_le(1) [of q] by (simp add: cbuf_wf_def)

lemma unat_of_nat_u32: "n < 2 ^ 32 \<Longrightarrow> unat (of_nat n :: u32) = n"
  by (simp add: unsigned_of_nat take_bit_nat_eq_self)

lemma get_index:
  assumes wf: "cbuf_wf q" and j: "j < length (m_entry q)"
  shows "unat ((ucast (m_get_idx q) + of_nat j :: u32) AND CBUF_Mask q) = cbuf_slot q j"
proof -
  obtain k where k: "length (m_entry q) = 2 ^ k" "k < 32" "LENGTH('a) \<le> 32"
    using cbuf_wf_sizeE [OF wf] by metis
  have d: "(2::nat) ^ k dvd 2 ^ LENGTH(32)" using le_imp_power_dvd [of k 32 "2::nat"] k(2) by simp
  have j32: "j < 2 ^ 32" using j cbuf_size_u32(2) [OF wf] by simp
  have "unat ((ucast (m_get_idx q) + of_nat j :: u32) AND CBUF_Mask q)
      = unat (ucast (m_get_idx q) + of_nat j :: u32) mod 2 ^ k"
    using k by (simp add: CBUF_Mask_def CBUF_Size_def unat_and_mask del: of_nat_power)
  also have "\<dots> = (unat (m_get_idx q) + j) mod 2 ^ k"
    using unat_plus_mod [OF d, of "ucast (m_get_idx q)" "of_nat j"] j32
    by (simp add: unat_ucast_u32 [OF k(3)] unat_of_nat_u32)
  finally show ?thesis using k(1) by (simp add: cbuf_slot_def)
qed

lemma take_bit_add_cong:
  fixes a b c :: u32
  assumes "take_bit k a = take_bit k b" and d: "(2::nat) ^ k dvd 2 ^ LENGTH(32)"
  shows "take_bit k (a + c) = take_bit k (b + c)"
proof -
  have u: "unat (take_bit k x) = unat x mod 2 ^ k" for x :: u32
    by (simp only: unsigned_take_bit_eq take_bit_eq_mod [of k "unat x"])
  have "unat a mod 2 ^ k = unat b mod 2 ^ k" using assms(1) by (simp only: u [symmetric])
  then have "(unat a + unat c) mod 2 ^ k = (unat b + unat c) mod 2 ^ k"
    by (metis mod_add_left_eq)
  then have "unat (take_bit k (a + c)) = unat (take_bit k (b + c))"
    by (simp only: u unat_plus_mod [OF d])
  then show ?thesis by (simp only: word_unat_eq_iff)
qed

text \<open>Below the mask, the put index is the get index plus the number of entries.\<close>

lemma put_index_back:
  assumes wf: "cbuf_wf q" and j: "j < cbuf_count q"
  shows "(ucast (m_put_idx q) - of_nat j - 1 :: u32) AND CBUF_Mask q
       = (ucast (m_get_idx q) + of_nat (cbuf_count q - 1 - j)) AND CBUF_Mask q"
proof -
  obtain k where k: "length (m_entry q) = 2 ^ k" "k < 32" using cbuf_wf_sizeE [OF wf] by metis
  have m: "x AND CBUF_Mask q = take_bit k x" for x :: u32
    using k(1) by (simp add: CBUF_Mask_def CBUF_Size_def take_bit_eq_mask mask_eq_exp_minus_1)
  let ?p = "ucast (m_put_idx q) :: u32" and ?g = "ucast (m_get_idx q) :: u32"
  have c: "cbuf_count q < 2 ^ 32"
    using cbuf_count_le [OF wf] cbuf_size_u32(2) [OF wf] by simp
  obtain k' where k': "length (m_entry q) = 2 ^ k'" "k' < 32" "LENGTH('a) \<le> 32"
    using cbuf_wf_sizeE [OF wf] by metis
  have d: "(2::nat) ^ k dvd 2 ^ LENGTH(32)" using le_imp_power_dvd [of k 32 "2::nat"] k(2) by simp
  have "unat (take_bit k ?p) = unat (take_bit k (?g + of_nat (cbuf_count q)))"
  proof -
    have "unat (take_bit k ?p) = cbuf_slot q (cbuf_count q)"
      using push_index [OF wf] by (simp add: m)
    also have "\<dots> = (unat ?g + cbuf_count q) mod 2 ^ k"
      by (simp add: cbuf_slot_def k(1) unat_ucast_u32 [OF k'(3)])
    also have "\<dots> = unat (?g + of_nat (cbuf_count q)) mod 2 ^ k"
      using unat_plus_mod [OF d, of ?g "of_nat (cbuf_count q)"] by (simp add: unat_of_nat_u32 [OF c])
    also have "\<dots> = unat (take_bit k (?g + of_nat (cbuf_count q)))"
      by (simp only: unsigned_take_bit_eq take_bit_eq_mod [of k "unat _"])
    finally show ?thesis .
  qed
  then have tb: "take_bit k ?p = take_bit k (?g + of_nat (cbuf_count q))"
    by (simp only: word_unat_eq_iff)
  have r: "?p - of_nat j - 1 = ?p - of_nat (Suc j)"
    "?g + of_nat (cbuf_count q - 1 - j) = (?g + of_nat (cbuf_count q)) - of_nat (Suc j)"
    using j by (simp_all add: of_nat_diff)
  show ?thesis unfolding m r unfolding diff_conv_add_uminus
    by (rule take_bit_add_cong [OF tb d])
qed

text \<open>
  C20. On a well-formed buffer the macros implement a bounded queue: a push with room appends, a
  pop of a non-empty buffer returns and removes the oldest entry, both keep the buffer
  well formed, and \<open>CBUF_IsEmpty\<close> tells whether there is an entry.
\<close>

theorem cbuf_refines_queue:
  fixes q :: "('i::len word, 'e) cbuf"
  assumes "cbuf_wf q"
  shows "(0 < cbuf_room q \<longrightarrow> cbuf_wf (CBUF_Push x q)
            \<and> cbuf_contents (CBUF_Push x q) = cbuf_contents q @ [x])
       \<and> (\<forall>y ys. cbuf_contents q = y # ys \<longrightarrow>
            fst (CBUF_Pop q) = y \<and> cbuf_contents (snd (CBUF_Pop q)) = ys
            \<and> cbuf_wf (snd (CBUF_Pop q)))
       \<and> (CBUF_IsEmpty q \<longleftrightarrow> cbuf_contents q = [])"
  using assms by (auto simp: cb.ok_push cb.contents_push cb.is_empty_iff
      intro: cb.pop_first cb.contents_pop cb.ok_pop)

text \<open>
  C28. With one reader and one writer interleaving their memory accesses in any order, what the
  reader has taken followed by what is still buffered is exactly what the writer has published,
  in order: nothing is lost, duplicated or read before it is written.
\<close>

theorem spsc_no_loss:
  fixes q :: "('i::len word, 'e) cbuf"
  assumes "cbuf_wf q" and "spsc_reachable q s"
  shows "sent s = got s @ cbuf_contents (shared_buf s)
       \<and> (loaded s = Some y \<longrightarrow> length (got s) < length (sent s) \<and> sent s ! length (got s) = y)"
proof -
  have "spsc_inv s" by (rule spsc_inv_reachable [OF assms(2,1)])
  then show ?thesis
    by (auto simp: spsc_inv_def nth_append hd_conv_nth contents_empty_iff)
qed

text \<open>
  The status and random-access macros agree with the contents: free space, fullness (never
  reported when the array is as large as the index range), absence of overflow, access from both
  ends and the last entry.
\<close>

theorem cbuf_status:
  fixes q :: "('i::len word, 'e) cbuf"
  assumes wf: "cbuf_wf q"
  shows "unat (CBUF_Space q) = length (m_entry q) - length (cbuf_contents q)
       \<and> (CBUF_IsFull q \<longleftrightarrow> length (cbuf_contents q) = length (m_entry q))
       \<and> (length (m_entry q) = 2 ^ LENGTH('i) \<longrightarrow> \<not> CBUF_IsFull q)
       \<and> \<not> CBUF_Error q
       \<and> (\<forall>j < length (cbuf_contents q). CBUF_Get q (of_nat j) = cbuf_contents q ! j
            \<and> CBUF_GetEnd q (of_nat j) = rev (cbuf_contents q) ! j)
       \<and> (cbuf_contents q \<noteq> [] \<longrightarrow> m_entry q ! CBUF_GetLastEntryPtr q = last (cbuf_contents q))"
proof -
  let ?n = "cbuf_count q"
  note le = cbuf_count_le [OF wf]
  have le': "ucast (CBUF_Len q) \<le> CBUF_Size q"
    using le by (simp add: word_le_nat_alt cbuf_len_u32 [OF wf] cbuf_size_u32(1) [OF wf])
  then have sp: "unat (CBUF_Space q) = length (m_entry q) - ?n"
    by (simp add: CBUF_Space_def unat_sub cbuf_len_u32 [OF wf] cbuf_size_u32(1) [OF wf])
  have full: "CBUF_IsFull q \<longleftrightarrow> ?n = length (m_entry q)"
    using sp le by (simp add: CBUF_IsFull_def) (metis diff_is_0_eq le_antisym order_refl unat_eq_0)
  have small: "?n < 2 ^ LENGTH('i)" by (simp add: cbuf_count_def)
  have get: "CBUF_Get q (of_nat j) = cbuf_contents q ! j" if "j < ?n" for j
    using that le get_index [OF wf, of j] by (simp add: CBUF_Get_def cbuf_contents_def)
  have "CBUF_GetEnd q (of_nat j) = CBUF_Get q (of_nat (?n - 1 - j))" if "j < ?n" for j
    using put_index_back [OF wf that] by (simp add: CBUF_GetEnd_def CBUF_Get_def)
  then have rear: "CBUF_GetEnd q (of_nat j) = rev (cbuf_contents q) ! j" if "j < ?n" for j
    using that get [of "?n - 1 - j"] by (simp add: rev_nth)
  have "m_entry q ! CBUF_GetLastEntryPtr q = last (cbuf_contents q)" if "cbuf_contents q \<noteq> []"
  proof -
    have "0 < ?n" using that by (metis length_cbuf_contents length_greater_0_conv)
    with rear [of 0] that show ?thesis
      by (simp add: CBUF_GetEnd_def CBUF_GetLastEntryPtr_def rev_nth last_conv_nth)
  qed
  with sp full small get rear le' show ?thesis
    by (simp add: CBUF_Error_def not_less)
qed

subsection \<open>The properties at a concrete buffer\<close>

text \<open>A buffer of four entries whose indices have passed 255.\<close>

definition cbuf_example :: "(8 word, nat) cbuf" where
  "cbuf_example = \<lparr>m_get_idx = 254, m_put_idx = 1, m_entry = [10, 11, 12, 13]\<rparr>"

lemma cbuf_example_facts:
  "cbuf_count cbuf_example = 3" "cbuf_room cbuf_example = 1" "cbuf_contents cbuf_example = [12, 13, 10]"
proof -
  show c: "cbuf_count cbuf_example = 3" "cbuf_room cbuf_example = 1"
    by (simp_all add: cbuf_count_def CBUF_Len_def cbuf_room_def cbuf_capacity_def cbuf_example_def)
  have "[0..<3] = [0, 1, 2 :: nat]" by (simp add: upt_conv_Cons)
  then show "cbuf_contents cbuf_example = [12, 13, 10]"
    by (simp add: cbuf_contents_def c) (simp add: cbuf_slot_def cbuf_example_def)
qed

lemma cbuf_example_wf: "cbuf_wf cbuf_example"
  unfolding cbuf_wf_def cbuf_example_facts
  by (auto simp: cbuf_example_def cbuf_capacity_def intro!: exI [of _ 2])

theorem cbuf_refines_queue_witness:
  "cbuf_contents (CBUF_Push 14 cbuf_example) = [12, 13, 10, 14] \<and> fst (CBUF_Pop cbuf_example) = 12
   \<and> cbuf_contents (snd (CBUF_Pop cbuf_example)) = [13, 10] \<and> \<not> CBUF_IsEmpty cbuf_example"
  using cbuf_refines_queue [OF cbuf_example_wf, of 14] by (simp add: cbuf_example_facts)

theorem cbuf_status_witness:
  "unat (CBUF_Space cbuf_example) = 1 \<and> \<not> CBUF_IsFull cbuf_example \<and> \<not> CBUF_Error cbuf_example
   \<and> CBUF_Get cbuf_example 1 = 13 \<and> CBUF_GetEnd cbuf_example 0 = 10"
proof -
  have l: "length (m_entry cbuf_example) = 4" by (simp add: cbuf_example_def)
  have j: "1 < length (cbuf_contents cbuf_example)" "0 < length (cbuf_contents cbuf_example)"
    by (simp_all add: cbuf_example_facts)
  from cbuf_status [OF cbuf_example_wf] j show ?thesis
    by (auto simp: cbuf_example_facts l dest: spec [of _ 1] spec [of _ 0])
qed

lemma spsc_example:
  "spsc_reachable cbuf_example \<lparr>shared_buf = CBUF_AdvancePushIdx ((CBUF_Init cbuf_example)\<lparr>m_entry := [5, 11, 12, 13]\<rparr>),
     stored = None, loaded = None, sent = [5], got = []\<rparr>"
proof -
  let ?q = "CBUF_Init cbuf_example"
  let ?s1 = "\<lparr>shared_buf = ?q\<lparr>m_entry := [5, 11, 12, 13]\<rparr>, stored = Some 5, loaded = None, sent = [], got = []\<rparr>"
  have "0 < cbuf_room ?q"
    by (simp add: cbuf_room_def cbuf_capacity_def cbuf_count_def CBUF_Len_def CBUF_Init_def cbuf_example_def)
  then have "spsc_step (spsc_start cbuf_example) ?s1"
    using spsc_step.store [of "spsc_start cbuf_example" 5]
    by (simp add: spsc_start_def CBUF_Init_def cbuf_example_def CBUF_GetPushEntryPtr_def CBUF_Mask_def CBUF_Size_def)
  moreover have "spsc_step ?s1 \<lparr>shared_buf = CBUF_AdvancePushIdx (?q\<lparr>m_entry := [5, 11, 12, 13]\<rparr>),
     stored = None, loaded = None, sent = [5], got = []\<rparr>"
    using spsc_step.publish [of ?s1 5] by simp
  ultimately show ?thesis by (blast intro: spsc_reachable.intros)
qed

theorem spsc_no_loss_witness:
  "[5] = [] @ cbuf_contents (CBUF_AdvancePushIdx ((CBUF_Init cbuf_example)\<lparr>m_entry := [5, 11, 12, 13]\<rparr>))"
  using spsc_no_loss [OF cbuf_example_wf spsc_example, of 0] by simp

end
