(* ===== verification/DebugLog.thy ===== *)
theory DebugLog
  imports Cbuf
begin

text \<open>
  The debug log path: \<open>putc_remote\<close> and \<open>debug_putc\<close> of \<open>src/main/platform.c\<close> put log characters
  into the circular buffer \<open>dbg_msg_queue\<close> and signal its semaphore at each newline; \<open>dbg_task\<close>
  drains the buffer into \<open>http_debug_putc\<close> of \<open>src/main/http.c\<close>, which collects lines and
  broadcasts them to the \<open>/debugws\<close> websockets. The websocket broadcast of the HTTP library is
  recorded as the list of messages handed to it.
\<close>

record dbg_state =
  dbg_msg_queue :: "(8 word, byte) cbuf"
  dbg_sem :: bool
  http_buf :: "byte list"
  http_bufsize :: nat
  debugws :: "byte list list"

definition http_debug_putc :: "byte \<Rightarrow> bool \<Rightarrow> dbg_state \<Rightarrow> dbg_state" where
  "http_debug_putc c flush d =
     (let b = (http_buf d)[http_bufsize d := c]; n = Suc (http_bufsize d)
      in if flush \<or> n = length b
         then d\<lparr>http_buf := b, debugws := debugws d @ [take n b], http_bufsize := 0\<rparr>
         else d\<lparr>http_buf := b, http_bufsize := n\<rparr>)"

definition debug_putc :: "byte \<Rightarrow> bool \<Rightarrow> dbg_state \<Rightarrow> dbg_state" where
  "debug_putc c flush d =
     (let d1 = d\<lparr>dbg_msg_queue := CBUF_Push c (dbg_msg_queue d)\<rparr>
      in if flush then d1\<lparr>dbg_sem := True\<rparr> else d1)"

definition putc_remote :: "byte \<Rightarrow> dbg_state \<Rightarrow> dbg_state" where
  "putc_remote c d =
     (let d1 = (if c = 10 then debug_putc 13 False d else d)
      in debug_putc c (c = 10) d1)"

text \<open>The inner loop of \<open>dbg_task\<close>: pop until the buffer is empty.\<close>

function dbg_drain :: "dbg_state \<Rightarrow> dbg_state" where
  "dbg_drain d =
     (if CBUF_IsEmpty (dbg_msg_queue d) then d
      else let (c, q) = CBUF_Pop (dbg_msg_queue d)
           in dbg_drain (http_debug_putc c (c = 10) (d\<lparr>dbg_msg_queue := q\<rparr>)))"
  by pat_completeness auto
termination
proof (relation "measure (\<lambda>d. cbuf_count (dbg_msg_queue d))", simp)
  fix d :: dbg_state and p c q
  assume ne: "\<not> CBUF_IsEmpty (dbg_msg_queue d)" and "p = CBUF_Pop (dbg_msg_queue d)" "(c, q) = p"
  then have q: "q = snd (CBUF_Pop (dbg_msg_queue d))" by (metis snd_conv)
  have "dbg_msg_queue (http_debug_putc c (c = 10) (d\<lparr>dbg_msg_queue := q\<rparr>)) = q"
    by (simp add: http_debug_putc_def Let_def)
  moreover have "0 < cbuf_count (dbg_msg_queue d)"
    using ne by (simp add: CBUF_IsEmpty_iff contents_empty_iff)
  ultimately show "(http_debug_putc c (c = 10) (d\<lparr>dbg_msg_queue := q\<rparr>), d)
      \<in> measure (\<lambda>d. cbuf_count (dbg_msg_queue d))"
    by (simp add: q cbuf_count_pop)
qed

declare dbg_drain.simps [simp del]

text \<open>One round of the outer loop: blocked (\<open>None\<close>) until the semaphore is given.\<close>

definition dbg_task_round :: "dbg_state \<Rightarrow> dbg_state option" where
  "dbg_task_round d = (if dbg_sem d then Some (dbg_drain (d\<lparr>dbg_sem := False\<rparr>)) else None)"

text \<open>\<open>CBUF_Init(dbg_msg_queue)\<close> and the semaphore as \<open>app_main\<close> sets them up.\<close>

definition dbg_init :: "byte list \<Rightarrow> byte list \<Rightarrow> dbg_state" where
  "dbg_init mem hbuf =
     \<lparr>dbg_msg_queue = CBUF_Init \<lparr>m_get_idx = 0, m_put_idx = 0, m_entry = mem\<rparr>, dbg_sem = False,
      http_buf = hbuf, http_bufsize = 0, debugws = []\<rparr>"

section \<open>Invariant and what each operation adds\<close>

definition dbg_ok :: "dbg_state \<Rightarrow> bool" where
  "dbg_ok d \<longleftrightarrow> cbuf_wf (dbg_msg_queue d) \<and> length (m_entry (dbg_msg_queue d)) = 256
     \<and> length (http_buf d) = 256 \<and> http_bufsize d < 256"

text \<open>All bytes that reached the HTTP side, sent or still collected.\<close>

definition delivered :: "dbg_state \<Rightarrow> byte list" where
  "delivered d = concat (debugws d) @ take (http_bufsize d) (http_buf d)"

definition pending :: "dbg_state \<Rightarrow> byte list" where
  "pending d = cbuf_contents (dbg_msg_queue d)"

text \<open>The log text as the terminal needs it: each newline preceded by a carriage return.\<close>

primrec crlf :: "byte list \<Rightarrow> byte list" where
  "crlf [] = []"
| "crlf (c # cs) = (if c = 10 then 13 # 10 # crlf cs else c # crlf cs)"

lemma dbg_room:
  "dbg_ok d \<Longrightarrow> cbuf_room (dbg_msg_queue d) = 255 - length (pending d)"
  by (simp add: dbg_ok_def cbuf_room_def cbuf_capacity_def pending_def)

lemma http_debug_putc_delivered:
  assumes "length (http_buf d) = 256" "http_bufsize d < 256"
  shows "delivered (http_debug_putc c f d) = delivered d @ [c]"
  using assms by (simp add: http_debug_putc_def delivered_def Let_def take_update_Suc)

lemma http_debug_putc_frame [simp]:
  "dbg_msg_queue (http_debug_putc c f d) = dbg_msg_queue d"
  "dbg_sem (http_debug_putc c f d) = dbg_sem d"
  "length (http_buf (http_debug_putc c f d)) = length (http_buf d)"
  by (simp_all add: http_debug_putc_def Let_def)

lemma http_debug_putc_bound:
  "length (http_buf d) = 256 \<Longrightarrow> http_bufsize d < 256 \<Longrightarrow> http_bufsize (http_debug_putc c f d) < 256"
  by (simp add: http_debug_putc_def Let_def)

lemma debug_putc_step:
  assumes "dbg_ok d" "length (pending d) < 255"
  shows "dbg_ok (debug_putc c f d)" "pending (debug_putc c f d) = pending d @ [c]"
    "delivered (debug_putc c f d) = delivered d" "dbg_sem (debug_putc c f d) = (f \<or> dbg_sem d)"
    "debugws (debug_putc c f d) = debugws d"
  using assms dbg_room [OF assms(1)]
  by (simp_all add: debug_putc_def Let_def dbg_ok_def pending_def delivered_def cb.ok_push
      cb.contents_push)

lemma putc_remote_step:
  assumes ok: "dbg_ok d" and room: "length (pending d) + length (crlf [c]) \<le> 255"
  shows "dbg_ok (putc_remote c d)" "pending (putc_remote c d) = pending d @ crlf [c]"
    "delivered (putc_remote c d) = delivered d" "dbg_sem (putc_remote c d) = (c = 10 \<or> dbg_sem d)"
proof -
  have 1: "dbg_ok (debug_putc 13 False d)" "pending (debug_putc 13 False d) = pending d @ [13]"
    "delivered (debug_putc 13 False d) = delivered d" "dbg_sem (debug_putc 13 False d) = dbg_sem d"
    using debug_putc_step [OF ok] room by (simp_all split: if_splits)
  show "dbg_ok (putc_remote c d)" "pending (putc_remote c d) = pending d @ crlf [c]"
    "delivered (putc_remote c d) = delivered d" "dbg_sem (putc_remote c d) = (c = 10 \<or> dbg_sem d)"
    using room 1 debug_putc_step [OF ok, of c] debug_putc_step [OF 1(1), of c]
    by (simp_all add: putc_remote_def Let_def split: if_splits)
qed

lemma crlf_append [simp]: "crlf (a @ b) = crlf a @ crlf b"
  by (induction a) auto

lemma putc_remote_text:
  "dbg_ok d \<Longrightarrow> length (pending d) + length (crlf t) \<le> 255 \<Longrightarrow>
     dbg_ok (fold putc_remote t d) \<and> pending (fold putc_remote t d) = pending d @ crlf t
     \<and> delivered (fold putc_remote t d) = delivered d
     \<and> dbg_sem (fold putc_remote t d) = (10 \<in> set t \<or> dbg_sem d)"
proof (induction t arbitrary: d)
  case (Cons c t)
  have s: "length (crlf (c # t)) = length (crlf [c]) + length (crlf t)"
    using arg_cong [OF crlf_append [of "[c]" t], of length] by simp
  have room: "length (pending d) + length (crlf [c]) \<le> 255" using Cons.prems(2) s by simp
  note st = putc_remote_step [OF Cons.prems(1) room]
  have "length (pending (putc_remote c d)) + length (crlf t) \<le> 255"
    using Cons.prems(2) s by (simp add: st(2))
  from Cons.IH [OF st(1) this] show ?case by (auto simp: st)
qed simp

lemma dbg_drain_all:
  "dbg_ok d \<Longrightarrow> dbg_ok (dbg_drain d) \<and> pending (dbg_drain d) = []
     \<and> delivered (dbg_drain d) = delivered d @ pending d \<and> dbg_sem (dbg_drain d) = dbg_sem d"
proof (induction d rule: dbg_drain.induct)
  case (1 d)
  show ?case
  proof (cases "cbuf_contents (dbg_msg_queue d)")
    case Nil
    with "1.prems" show ?thesis
      by (subst (1 2 3 4) dbg_drain.simps) (simp add: CBUF_IsEmpty_iff pending_def)
  next
    case (Cons c cs)
    let ?p = "CBUF_Pop (dbg_msg_queue d)"
    let ?d = "http_debug_putc c (c = 10) (d\<lparr>dbg_msg_queue := snd ?p\<rparr>)"
    have wf: "cbuf_wf (dbg_msg_queue d)" using "1.prems" by (simp add: dbg_ok_def)
    have ne: "\<not> CBUF_IsEmpty (dbg_msg_queue d)" by (simp add: CBUF_IsEmpty_iff Cons)
    have p: "?p = (c, snd ?p)" using cb.pop_first [OF wf Cons] by (metis prod.collapse)
    have eq: "dbg_drain d = dbg_drain ?d"
      by (subst dbg_drain.simps, subst p) (simp add: ne)
    have d': "dbg_ok ?d" "pending ?d = cs" "delivered ?d = delivered d @ [c]" "dbg_sem ?d = dbg_sem d"
      using "1.prems" cb.ok_pop [OF wf] cb.contents_pop [OF wf Cons] Cons
      by (auto simp: dbg_ok_def pending_def http_debug_putc_bound http_debug_putc_delivered)
         (simp_all add: delivered_def)
    with "1.IH" [OF ne refl p [symmetric]] eq show ?thesis by (simp add: pending_def Cons)
  qed
qed

text \<open>
  Log text shorter than the free space of the queue reaches the debug websocket side complete
  and in order, with each newline turned into CR LF, and \<open>dbg_task\<close> is woken exactly when the text
  holds a newline (or a wake-up was already pending).
\<close>

theorem debug_log_delivery:
  assumes "dbg_ok d" and "length (pending d) + length (crlf t) \<le> 255"
  shows "(case dbg_task_round (fold putc_remote t d) of
            None \<Rightarrow> 10 \<notin> set t \<and> \<not> dbg_sem d
          | Some e \<Rightarrow> (10 \<in> set t \<or> dbg_sem d) \<and> dbg_ok e \<and> pending e = []
              \<and> delivered e = delivered d @ pending d @ crlf t)"
proof -
  let ?f = "fold putc_remote t d"
  note f = putc_remote_text [OF assms]
  have "dbg_ok (?f\<lparr>dbg_sem := False\<rparr>)" "pending (?f\<lparr>dbg_sem := False\<rparr>) = pending ?f"
    "delivered (?f\<lparr>dbg_sem := False\<rparr>) = delivered ?f"
    using f by (simp_all add: dbg_ok_def pending_def delivered_def)
  with dbg_drain_all [of "?f\<lparr>dbg_sem := False\<rparr>"] f show ?thesis
    by (auto simp: dbg_task_round_def)
qed

text \<open>The 8-bit indices count modulo 256, the size of the buffer, so a full buffer looks empty.\<close>

lemma pending_count_debug_putc:
  "length (pending (debug_putc c f d)) = (length (pending d) + 1) mod 256"
  by (simp add: pending_def debug_putc_def Let_def cbuf_count_def unat_word_ariths)

lemma pending_count_putc_remote:
  "length (pending (putc_remote c d)) = (length (pending d) + length (crlf [c])) mod 256"
  by (simp add: putc_remote_def Let_def pending_count_debug_putc mod_simps)

text \<open>
  The queue holds no more than 255 bytes and does not notice overruns: whatever is logged, the
  number of pending bytes is the number logged modulo 256, so a burst of 256 bytes is lost whole.
\<close>

theorem debug_log_overrun:
  "length (pending (fold putc_remote t d)) = (length (pending d) + length (crlf t)) mod 256
   \<and> (length (m_entry (dbg_msg_queue d)) = 256 \<longrightarrow> \<not> CBUF_IsFull (dbg_msg_queue d))"
proof (rule conjI)
  show "length (pending (fold putc_remote t d)) = (length (pending d) + length (crlf t)) mod 256"
  proof (induction t arbitrary: d)
    case Nil
    have "cbuf_count (dbg_msg_queue d) < 2 ^ LENGTH(8)" unfolding cbuf_count_def by (rule unsigned_less)
    then show ?case by (simp add: pending_def)
  next
    case (Cons c t)
    have "length (crlf (c # t)) = length (crlf [c]) + length (crlf t)" by simp
    with Cons [of "putc_remote c d"] show ?case
      by (simp only: fold_simps o_apply pending_count_putc_remote mod_add_left_eq add.assoc)
  qed
next
  show "length (m_entry (dbg_msg_queue d)) = 256 \<longrightarrow> \<not> CBUF_IsFull (dbg_msg_queue d)"
  proof
    assume l: "length (m_entry (dbg_msg_queue d)) = 256"
    let ?n = "ucast (CBUF_Len (dbg_msg_queue d)) :: u32"
    have "unat ?n < 256"
      using unsigned_less [where ?'a = nat, of "CBUF_Len (dbg_msg_queue d)"] by (simp add: unat_ucast_u32)
    then have "?n \<noteq> 256" by auto
    with l show "\<not> CBUF_IsFull (dbg_msg_queue d)"
      by (simp add: CBUF_IsFull_def CBUF_Space_def CBUF_Size_def)
  qed
qed

subsection \<open>The properties at a concrete queue\<close>

definition dbg_example :: dbg_state where
  "dbg_example = dbg_init (replicate 256 0) (replicate 256 0)"

lemma dbg_example_ok: "dbg_ok dbg_example" "pending dbg_example = []" "\<not> dbg_sem dbg_example"
  "delivered dbg_example = []" "length (m_entry (dbg_msg_queue dbg_example)) = 256"
  by (auto simp: dbg_example_def dbg_init_def dbg_ok_def pending_def delivered_def cbuf_wf_def
      cbuf_contents_def cbuf_count_def CBUF_Len_def CBUF_Init_def cbuf_capacity_def intro!: exI [of _ 8])

theorem debug_log_delivery_witness:
  "\<exists>e. dbg_task_round (fold putc_remote [104, 105, 10] dbg_example) = Some e \<and> delivered e = [104, 105, 13, 10]"
  using debug_log_delivery [OF dbg_example_ok(1), of "[104, 105, 10]"] dbg_example_ok
  by (auto split: option.splits)

theorem debug_log_overrun_witness:
  "pending (fold putc_remote (replicate 256 65) dbg_example) = [] \<and> \<not> CBUF_IsFull (dbg_msg_queue dbg_example)"
proof -
  have "length (crlf (replicate n 65)) = n" for n by (induction n) auto
  with debug_log_overrun [of "replicate 256 65" dbg_example] dbg_example_ok show ?thesis by simp
qed

end
