(* ===== verification/Bridge.thy ===== *)
theory Bridge
  imports Prelude "HOL-Library.Sublist"
begin

text \<open>
  The two tasks of \<open>src/main/platform.c\<close> that bridge the serial port to the network: \<open>net_uart_task\<close> accepts a TCP client
  and writes what it and UDP peers send to the UART, \<open>uart_rx_task\<close> hands what the UART receives to the web
  sockets, the client and the last peer. The tasks share the variables without a lock. A step of a task is from the return
  of a call that may block to the next such call, with the values the call has been given; the steps of the two tasks
  interleave freely.
\<close>

section \<open>The state\<close>

text \<open>
  The call \<open>uart_rx_task\<close> is in: the queue of events and \<open>uart_read_bytes\<close>, each with \<open>bufpos\<close>; the broadcast to the
  web sockets, \<open>send\<close> to a socket, the log and \<open>close\<close> when it has failed, \<open>sendto\<close> a peer and the log when it has failed, each with the
  bytes. \<open>Overrun\<close>: memory outside the buffer has been given to \<open>uart_read_bytes\<close>.
\<close>

datatype rx_position =
    In_queue int
  | In_read int
  | In_broadcast "byte list"
  | In_send int "byte list"
  | In_log_send "byte list"
  | In_close int "byte list"
  | In_sendto nat "byte list"
  | In_log_sendto
  | Overrun

text \<open>
  The call \<open>net_uart_task\<close> is in: \<open>select\<close> on the servers and a client (0: none); \<open>accept\<close>, the log when it has failed, the log
  and \<open>setsockopt\<close> when not; \<open>recvfrom\<close>, its log, and \<open>uart_write_bytes\<close>; \<open>recv\<close>, its log, \<open>uart_write_bytes\<close>
  and \<open>close\<close>. With them what else \<open>select\<close> has found: whether a datagram waits, and the client whose socket is readable.
\<close>

datatype net_position =
    In_select int
  | In_accept bool "int option"
  | In_log_accept bool "int option"
  | In_options bool "int option"
  | In_recvfrom "int option"
  | In_log_recvfrom "int option"
  | In_write_datagram "byte list" "int option"
  | In_recv
  | In_log_recv
  | In_write "byte list"
  | In_close_client int

text \<open>
  The variables the tasks share, and what they have done: the sockets accepted and not closed,
  the bytes written to the UART and broadcast to the web sockets, the data sent to TCP clients and
  UDP peers. The counters have 32 bits; \<open>udp_peer_addr\<close> is 0 when there is no peer.
\<close>

record bridge =
  tcp_client_sock :: int
  udp_peer_addr :: nat
  uart_tx_count :: u32
  uart_rx_count :: u32
  uart_overrun_cnt :: u32
  uart_errors :: u32
  uart_queue_full_cnt :: u32
  rx_at :: rx_position
  net_at :: net_position
  open_socks :: "int list"
  to_uart :: "byte list"
  to_web :: "byte list"
  to_tcp :: "(int \<times> byte list) list"
  to_udp :: "(nat \<times> byte list) list"

definition bridge_boot :: bridge where
  "bridge_boot = \<lparr>tcp_client_sock = 0, udp_peer_addr = 0, uart_tx_count = 0, uart_rx_count = 0, uart_overrun_cnt = 0,
     uart_errors = 0, uart_queue_full_cnt = 0, rx_at = In_queue 0, net_at = In_select 0, open_socks = [], to_uart = [],
     to_web = [], to_tcp = [], to_udp = []\<rparr>"

section \<open>The tasks\<close>

datatype uart_event = FIFO_OVF | FRAME_ERR | BUFFER_FULL | UART_other

definition count_event :: "uart_event \<Rightarrow> bridge \<Rightarrow> bridge" where
  "count_event ev s =
     (case ev of
        FIFO_OVF \<Rightarrow> s\<lparr>uart_overrun_cnt := uart_overrun_cnt s + 1\<rparr>
      | FRAME_ERR \<Rightarrow> s\<lparr>uart_errors := uart_errors s + 1\<rparr>
      | BUFFER_FULL \<Rightarrow> s\<lparr>uart_queue_full_cnt := uart_queue_full_cnt s + 1\<rparr>
      | UART_other \<Rightarrow> s)"

text \<open>
  What the call in progress returns: an event (\<open>None\<close>: the wait is over), the bytes read (\<open>None\<close>: -1), how many
  bytes \<open>send\<close> has taken and whether \<open>sendto\<close> has worked (\<open>None\<close>, \<open>False\<close>: -1).
\<close>

record rx_return =
  event_got :: "uart_event option"
  bytes_read :: "byte list option"
  bytes_sent :: "nat option"
  datagram_sent :: bool

definition rx_peer :: "byte list \<Rightarrow> bridge \<Rightarrow> bridge" where
  "rx_peer b s = s\<lparr>rx_at := (if udp_peer_addr s \<noteq> 0 then In_sendto (udp_peer_addr s) b else In_queue 0)\<rparr>"

definition rx_client :: "byte list \<Rightarrow> bridge \<Rightarrow> bridge" where
  "rx_client b s = (if tcp_client_sock s \<noteq> 0 then s\<lparr>rx_at := In_send (tcp_client_sock s) b\<rparr> else rx_peer b s)"

definition uart_rx_step :: "nat \<Rightarrow> rx_return \<Rightarrow> bridge \<Rightarrow> bridge" where
  "uart_rx_step TCP_MSS e s =
     (case rx_at s of
        In_queue k \<Rightarrow> (case event_got e of None \<Rightarrow> s | Some ev \<Rightarrow> (count_event ev s)\<lparr>rx_at := In_read k\<rparr>)
      | In_read k \<Rightarrow>
          if k < 0 then s\<lparr>rx_at := Overrun\<rparr>
          else
            (case bytes_read e of
               None \<Rightarrow> s\<lparr>rx_at := In_queue (-1)\<rparr>
             | Some b \<Rightarrow>
                 if int TCP_MSS < k + int (length b) then s\<lparr>rx_at := Overrun\<rparr>
                 else if b = [] then s\<lparr>rx_at := In_queue 0\<rparr>
                 else s\<lparr>uart_rx_count := uart_rx_count s + of_nat (length b), rx_at := In_broadcast b\<rparr>)
      | In_broadcast b \<Rightarrow> rx_client b (s\<lparr>to_web := to_web s @ b\<rparr>)
      | In_send fd b \<Rightarrow>
          (case bytes_sent e of
             None \<Rightarrow> s\<lparr>rx_at := In_log_send b\<rparr>
           | Some n \<Rightarrow> rx_peer b (s\<lparr>to_tcp := to_tcp s @ [(fd, take n b)]\<rparr>))
      | In_log_send b \<Rightarrow> s\<lparr>rx_at := In_close (tcp_client_sock s) b\<rparr>
      | In_close fd b \<Rightarrow> rx_peer b (s\<lparr>open_socks := remove1 fd (open_socks s), tcp_client_sock := 0\<rparr>)
      | In_sendto peer b \<Rightarrow>
          if datagram_sent e then s\<lparr>to_udp := to_udp s @ [(peer, b)], rx_at := In_queue 0\<rparr>
          else s\<lparr>rx_at := In_log_sendto\<rparr>
      | In_log_sendto \<Rightarrow> s\<lparr>udp_peer_addr := 0, rx_at := In_queue 0\<rparr>
      | Overrun \<Rightarrow> s)"

text \<open>
  What the calls of the other task return: what \<open>select\<close> has found, of the TCP server, the UDP server and the client
  (\<open>None\<close>: nothing within a second, or an error); the socket of \<open>accept\<close>, negative for an error; the peer and the bytes
  of \<open>recvfrom\<close>, and the bytes of \<open>recv\<close> (\<open>None\<close>: -1). No bytes count as an error, as does the end of a stream.
\<close>

record net_return =
  found :: "(bool \<times> bool \<times> bool) option"
  sock_accepted :: int
  datagram_got :: "(nat \<times> byte list) option"
  bytes_got :: "byte list option"

definition net_loop :: "bridge \<Rightarrow> bridge" where
  "net_loop s = s\<lparr>net_at := In_select (tcp_client_sock s)\<rparr>"

definition net_client :: "int option \<Rightarrow> bridge \<Rightarrow> bridge" where
  "net_client c s = (if tcp_client_sock s \<noteq> 0 \<and> c = Some (tcp_client_sock s) then s\<lparr>net_at := In_recv\<rparr> else net_loop s)"

definition net_datagram :: "bool \<Rightarrow> int option \<Rightarrow> bridge \<Rightarrow> bridge" where
  "net_datagram u c s = (if u then s\<lparr>net_at := In_recvfrom c\<rparr> else net_client c s)"

definition written_to_uart :: "byte list \<Rightarrow> bridge \<Rightarrow> bridge" where
  "written_to_uart b s = s\<lparr>to_uart := to_uart s @ b, uart_tx_count := uart_tx_count s + of_nat (length b)\<rparr>"

definition net_uart_step :: "net_return \<Rightarrow> bridge \<Rightarrow> bridge" where
  "net_uart_step e s =
     (case net_at s of
        In_select fd \<Rightarrow>
          (case found e of
             None \<Rightarrow> net_loop s
           | Some (t, u, r) \<Rightarrow>
               (let c = (if r \<and> fd \<noteq> 0 then Some fd else None)
                in if t then s\<lparr>net_at := In_accept u c\<rparr> else net_datagram u c s))
      | In_accept u c \<Rightarrow>
          (let s = s\<lparr>tcp_client_sock := sock_accepted e\<rparr>
           in if sock_accepted e < 0 then s\<lparr>net_at := In_log_accept u c\<rparr>
              else s\<lparr>open_socks := sock_accepted e # open_socks s, net_at := In_options u c\<rparr>)
      | In_log_accept u c \<Rightarrow> net_datagram u c (s\<lparr>tcp_client_sock := 0\<rparr>)
      | In_options u c \<Rightarrow> net_datagram u c s
      | In_recvfrom c \<Rightarrow>
          (case datagram_got e of
             None \<Rightarrow> s\<lparr>net_at := In_log_recvfrom c\<rparr>
           | Some (peer, b) \<Rightarrow>
               s\<lparr>udp_peer_addr := peer, net_at := (if b = [] then In_log_recvfrom c else In_write_datagram b c)\<rparr>)
      | In_log_recvfrom c \<Rightarrow> net_client c s
      | In_write_datagram b c \<Rightarrow> net_client c (written_to_uart b s)
      | In_recv \<Rightarrow>
          (case bytes_got e of
             None \<Rightarrow> s\<lparr>net_at := In_log_recv\<rparr>
           | Some b \<Rightarrow> s\<lparr>net_at := (if b = [] then In_log_recv else In_write b)\<rparr>)
      | In_log_recv \<Rightarrow> s\<lparr>net_at := In_close_client (tcp_client_sock s)\<rparr>
      | In_write b \<Rightarrow> net_loop (written_to_uart b s)
      | In_close_client fd \<Rightarrow> net_loop (s\<lparr>open_socks := remove1 fd (open_socks s), tcp_client_sock := 0\<rparr>))"

datatype bridge_step = Rx rx_return | Net net_return

fun bridge_does :: "nat \<Rightarrow> bridge_step \<Rightarrow> bridge \<Rightarrow> bridge" where
  "bridge_does mss (Rx e) s = uart_rx_step mss e s"
| "bridge_does mss (Net e) s = net_uart_step e s"

definition bridge_run :: "nat \<Rightarrow> bridge_step list \<Rightarrow> bridge \<Rightarrow> bridge" where
  "bridge_run mss = fold (bridge_does mss)"

lemma bridge_run_simps [simp]: "bridge_run mss [] s = s" "bridge_run mss (x # xs) s = bridge_run mss xs (bridge_does mss x s)"
  by (simp_all add: bridge_run_def)

section \<open>What the bridge keeps\<close>

text \<open>
  The bytes that are counted but not yet on the web, and those on the web that are not yet with the client or the peer.
\<close>

definition for_web :: "bridge \<Rightarrow> byte list" where
  "for_web s = (case rx_at s of In_broadcast b \<Rightarrow> b | _ \<Rightarrow> [])"

definition for_tcp :: "bridge \<Rightarrow> byte list" where
  "for_tcp s = (case rx_at s of In_send _ b \<Rightarrow> b | _ \<Rightarrow> [])"

definition for_udp :: "bridge \<Rightarrow> byte list" where
  "for_udp s = (case rx_at s of In_send _ b \<Rightarrow> b | In_log_send b \<Rightarrow> b | In_close _ b \<Rightarrow> b | In_sendto _ b \<Rightarrow> b | _ \<Rightarrow> [])"

definition bridge_ok :: "bridge \<Rightarrow> bool" where
  "bridge_ok s \<longleftrightarrow> uart_tx_count s = of_nat (length (to_uart s)) \<and> uart_rx_count s = of_nat (length (to_web s @ for_web s))
     \<and> subseq (concat (map snd (to_tcp s)) @ for_tcp s) (to_web s) \<and> subseq (concat (map snd (to_udp s)) @ for_udp s) (to_web s)"

text \<open>What only moves a task, or changes the shared variables that are no counters, keeps it.\<close>

lemma ok_net [simp]:
  "bridge_ok (s\<lparr>net_at := x\<rparr>) = bridge_ok s" "bridge_ok (s\<lparr>tcp_client_sock := c\<rparr>) = bridge_ok s"
  "bridge_ok (s\<lparr>udp_peer_addr := p\<rparr>) = bridge_ok s" "bridge_ok (s\<lparr>open_socks := o'\<rparr>) = bridge_ok s"
  by (simp_all add: bridge_ok_def for_web_def for_tcp_def for_udp_def cong: rx_position.case_cong)

lemma ok_written [simp]: "bridge_ok (written_to_uart b s) = bridge_ok s"
  by (auto simp: bridge_ok_def for_web_def for_tcp_def for_udp_def written_to_uart_def)

lemma ok_net_parts [simp]:
  "bridge_ok (net_loop s) = bridge_ok s" "bridge_ok (net_client c s) = bridge_ok s" "bridge_ok (net_datagram u c s) = bridge_ok s"
  by (simp_all add: net_loop_def net_client_def net_datagram_def)

lemma net_step_ok: "bridge_ok (net_uart_step e s) = bridge_ok s"
  by (simp add: net_uart_step_def Let_def split: net_position.split option.split prod.split)

lemma subseq_part: "subseq (xs @ b) ys \<Longrightarrow> subseq (xs @ take n b) ys"
  using list_emb_append_mono [of "(=)" xs xs "take n b" b] subseq_order.trans prefix_imp_subseq [OF take_is_prefix [of n b]]
  by blast

lemma subseq_left: "subseq (xs @ b) ys \<Longrightarrow> subseq xs ys"
  using subseq_part [of xs b ys 0] by simp

lemma ok_count: "bridge_ok s \<Longrightarrow> rx_at s = In_queue k \<Longrightarrow> bridge_ok ((count_event ev s)\<lparr>rx_at := In_read k\<rparr>)"
  by (cases ev) (simp_all add: bridge_ok_def count_event_def for_web_def for_tcp_def for_udp_def)

lemma rx_step_ok:
  assumes "bridge_ok s"
  shows "bridge_ok (uart_rx_step mss e s)"
proof (cases "rx_at s")
  case (In_queue k)
  then show ?thesis using assms ok_count by (simp add: uart_rx_step_def split: option.split)
next
  case (In_broadcast b)
  have "subseq (concat (map snd (to_tcp s))) (to_web s)" "subseq (concat (map snd (to_udp s))) (to_web s)"
    using assms by (auto simp: bridge_ok_def for_tcp_def for_udp_def In_broadcast)
  then have "subseq (concat (map snd (to_tcp s)) @ b) (to_web s @ b)" "subseq (concat (map snd (to_udp s)) @ b) (to_web s @ b)"
    by (simp_all add: list_emb_append_mono)
  then show ?thesis using assms
    by (auto simp: uart_rx_step_def In_broadcast rx_client_def rx_peer_def bridge_ok_def for_web_def for_tcp_def for_udp_def
        dest: subseq_left)
next
  case (In_send fd b)
  then show ?thesis using assms
    by (auto simp: uart_rx_step_def rx_peer_def bridge_ok_def for_web_def for_tcp_def for_udp_def
        split: option.split dest: subseq_left subseq_part)
qed (use assms in \<open>auto simp: uart_rx_step_def rx_peer_def bridge_ok_def for_web_def for_tcp_def for_udp_def Let_def
      split: option.split dest: subseq_left\<close>)


lemma bridge_does_ok: "bridge_ok s \<Longrightarrow> bridge_ok (bridge_does mss x s)"
  by (cases x) (simp_all add: rx_step_ok net_step_ok)

lemma bridge_run_ok: "bridge_ok s \<Longrightarrow> bridge_ok (bridge_run mss xs s)"
  by (induction xs arbitrary: s) (simp_all add: bridge_does_ok)

text \<open>The position in the buffer is 0 while the reads do not fail.\<close>

definition good_read :: "nat \<Rightarrow> byte list option \<Rightarrow> bool" where
  "good_read mss r \<longleftrightarrow> (case r of None \<Rightarrow> False | Some b \<Rightarrow> length b \<le> mss)"

definition in_bounds :: "bridge \<Rightarrow> bool" where
  "in_bounds s \<longleftrightarrow> (case rx_at s of In_queue k \<Rightarrow> k = 0 | In_read k \<Rightarrow> k = 0 | Overrun \<Rightarrow> False | _ \<Rightarrow> True)"

lemma rx_frame [simp]:
  "rx_at (net_loop s) = rx_at s" "rx_at (net_client c s) = rx_at s" "rx_at (net_datagram u c s) = rx_at s"
  "rx_at (written_to_uart b s) = rx_at s" "rx_at (count_event ev s) = rx_at s"
  by (simp_all add: net_loop_def net_client_def net_datagram_def written_to_uart_def count_event_def split: uart_event.split)

lemma net_keeps_rx: "rx_at (net_uart_step e s) = rx_at s"
  by (simp add: net_uart_step_def Let_def split: net_position.split option.split prod.split)

lemma bounds_kept: "in_bounds s \<Longrightarrow> good_read mss (bytes_read e) \<Longrightarrow> in_bounds (uart_rx_step mss e s)"
  by (auto simp: in_bounds_def uart_rx_step_def good_read_def rx_client_def rx_peer_def Let_def
      split: rx_position.splits option.splits)

lemma run_in_bounds:
  "in_bounds s \<Longrightarrow> \<forall>e. Rx e \<in> set xs \<longrightarrow> good_read mss (bytes_read e) \<Longrightarrow> in_bounds (bridge_run mss xs s)"
proof (induction xs arbitrary: s)
  case (Cons x xs)
  have "in_bounds (bridge_does mss x s)"
    using Cons.prems bounds_kept by (cases x) (auto simp: in_bounds_def net_keeps_rx)
  then show ?case using Cons.IH Cons.prems(2) by simp
qed simp

text \<open>
  C39. However the steps of the two tasks interleave, whatever the calls return, sends that take only a part of the bytes
  included: the counters are the numbers of bytes modulo \<open>2 ^ 32\<close>, of those written to the UART, and of those read from it,
  which are on the web or in the broadcast; and what the TCP clients and the UDP peers were sent is, in order and without
  repetition, part of what was broadcast to the web. As long as the driver reports no failed read and returns at most what
  the buffer holds, the reads stay inside the buffer; after a failed read they do not, see \<open>failed_read_overruns\<close>.
\<close>

theorem bridge_invariant:
  "let s = bridge_run mss xs bridge_boot
   in uart_tx_count s = of_nat (length (to_uart s)) \<and> uart_rx_count s = of_nat (length (to_web s @ for_web s))
     \<and> subseq (concat (map snd (to_tcp s))) (to_web s) \<and> subseq (concat (map snd (to_udp s))) (to_web s)
     \<and> ((\<forall>e. Rx e \<in> set xs \<longrightarrow> good_read mss (bytes_read e)) \<longrightarrow> rx_at s \<noteq> Overrun)"
proof -
  have "bridge_ok bridge_boot" "in_bounds bridge_boot"
    by (simp_all add: bridge_boot_def bridge_ok_def for_web_def for_tcp_def for_udp_def in_bounds_def)
  then show ?thesis using bridge_run_ok [of bridge_boot mss xs] run_in_bounds [of bridge_boot xs mss]
    by (auto simp: bridge_ok_def in_bounds_def Let_def dest: subseq_left)
qed

section \<open>What goes wrong\<close>

text \<open>
  The position after a failed read is -1, and the next read is given memory before the buffer.
\<close>

theorem failed_read_overruns:
  assumes "rx_at s = In_read k" and "bytes_read e = None" and "event_got e' = Some ev"
  shows "rx_at (uart_rx_step mss e'' (uart_rx_step mss e' (uart_rx_step mss e s))) = Overrun"
  using assms by (cases "k < 0") (simp_all add: uart_rx_step_def)

text \<open>
  A connection that comes while another is open replaces it without closing it: however the tasks go on, the old socket
  stays open, until its number is accepted again.
\<close>

definition left_alone :: "int \<Rightarrow> bridge \<Rightarrow> bool" where
  "left_alone c s \<longleftrightarrow> c \<in> set (open_socks s) \<and> tcp_client_sock s \<noteq> c \<and> (\<forall>b. rx_at s \<noteq> In_close c b) \<and> net_at s \<noteq> In_close_client c"

lemma left_alone_parts:
  "left_alone c s \<Longrightarrow> left_alone c (net_loop s)" "left_alone c s \<Longrightarrow> left_alone c (net_client x s)"
  "left_alone c s \<Longrightarrow> left_alone c (net_datagram u x s)" "left_alone c s \<Longrightarrow> left_alone c (written_to_uart b s)"
  "left_alone c s \<Longrightarrow> left_alone c (rx_peer b s)" "left_alone c s \<Longrightarrow> left_alone c (rx_client b s)"
  by (simp_all add: left_alone_def net_loop_def net_client_def net_datagram_def written_to_uart_def rx_peer_def rx_client_def)

lemma left_alone_net:
  assumes "left_alone c s" and "sock_accepted e \<noteq> c" and "c \<noteq> 0"
  shows "left_alone c (net_uart_step e s)"
proof (cases "net_at s")
  case (In_close_client fd)
  then have "left_alone c (s\<lparr>open_socks := remove1 fd (open_socks s), tcp_client_sock := 0\<rparr>)"
    using assms(1,3) by (auto simp: left_alone_def)
  from left_alone_parts(1) [OF this] show ?thesis by (simp add: net_uart_step_def In_close_client)
next
  case (In_log_accept u x)
  have "left_alone c (s\<lparr>tcp_client_sock := 0\<rparr>)" using assms(1,3) by (simp add: left_alone_def)
  from left_alone_parts(3) [OF this] show ?thesis by (simp add: net_uart_step_def In_log_accept)
qed (use assms left_alone_parts in \<open>auto simp: net_uart_step_def Let_def left_alone_def split: option.split prod.split\<close>)


lemma left_alone_rx:
  assumes "left_alone c s" and "c \<noteq> 0"
  shows "left_alone c (uart_rx_step mss e s)"
proof (cases "rx_at s")
  case (In_close fd b)
  then have "left_alone c (s\<lparr>open_socks := remove1 fd (open_socks s), tcp_client_sock := 0\<rparr>)"
    using assms by (auto simp: left_alone_def)
  from left_alone_parts(5) [OF this] show ?thesis by (simp add: uart_rx_step_def In_close)
next
  case (In_broadcast b)
  have "left_alone c (s\<lparr>to_web := to_web s @ b\<rparr>)" using assms by (simp add: left_alone_def)
  from left_alone_parts(6) [OF this] show ?thesis by (simp add: uart_rx_step_def In_broadcast)
next
  case (In_send fd b)
  have "left_alone c (s\<lparr>to_tcp := to_tcp s @ [(fd, take n b)]\<rparr>)" for n using assms by (simp add: left_alone_def)
  from left_alone_parts(5) [OF this] assms show ?thesis by (auto simp: uart_rx_step_def In_send left_alone_def split: option.split)
next
  case (In_queue k)
  then show ?thesis using assms
    by (auto simp: uart_rx_step_def left_alone_def count_event_def split: option.split uart_event.split)
qed (use assms in \<open>auto simp: uart_rx_step_def Let_def left_alone_def split: option.split\<close>)

lemma left_alone_run:
  "left_alone c s \<Longrightarrow> c \<noteq> 0 \<Longrightarrow> \<forall>e. Net e \<in> set xs \<longrightarrow> sock_accepted e \<noteq> c \<Longrightarrow> left_alone c (bridge_run mss xs s)"
proof (induction xs arbitrary: s)
  case (Cons x xs)
  have "left_alone c (bridge_does mss x s)"
    using Cons.prems left_alone_net left_alone_rx by (cases x) auto
  then show ?case using Cons.IH Cons.prems(2,3) by simp
qed simp

theorem replaced_client_leaks:
  assumes "tcp_client_sock s = c" and "0 < c" and "c \<in> set (open_socks s)" and "\<forall>b. rx_at s \<noteq> In_close c b"
    and "net_at s = In_accept u f" and "sock_accepted e \<noteq> c" and "\<forall>e. Net e \<in> set xs \<longrightarrow> sock_accepted e \<noteq> c"
  shows "c \<in> set (open_socks (bridge_run mss (Net e # xs) s)) \<and> tcp_client_sock (bridge_run mss (Net e # xs) s) \<noteq> c"
proof -
  have "left_alone c (net_uart_step e s)" using assms(1-6) by (simp add: net_uart_step_def left_alone_def Let_def)
  from left_alone_run [OF this _ assms(7)] assms(2) show ?thesis by (simp add: left_alone_def)
qed

text \<open>
  The two tasks race for the socket: while a \<open>send\<close> to the client hangs, another connection is accepted; when the \<open>send\<close> then fails,
  it is the new connection that is closed, and the dead one stays open.
\<close>

theorem new_client_closed:
  assumes "rx_at s = In_send c b" and "net_at s = In_accept u f" and "open_socks s = [c]" and "0 < d" and "d \<noteq> c"
    and "sock_accepted e = d" and "bytes_sent e' = None"
  shows "let t = bridge_run mss [Net e, Rx e', Rx e1, Rx e2] s in open_socks t = [c] \<and> tcp_client_sock t = 0"
  using assms by (simp add: uart_rx_step_def net_uart_step_def rx_peer_def Let_def)

subsection \<open>The properties at concrete runs\<close>

definition rx_returns :: rx_return where
  "rx_returns = \<lparr>event_got = Some UART_other, bytes_read = Some [1, 2], bytes_sent = Some 1, datagram_sent = True\<rparr>"

definition net_returns :: net_return where
  "net_returns = \<lparr>found = Some (True, True, False), sock_accepted = 5, datagram_got = Some (9, [3]), bytes_got = Some [4]\<rparr>"

definition bridge_demo :: "bridge_step list" where
  "bridge_demo = [Net net_returns, Net net_returns, Rx rx_returns, Rx rx_returns, Rx rx_returns]"

lemma bridge_demo_run: "rx_at (bridge_run 1460 bridge_demo bridge_boot) = In_send 5 [1, 2]" "open_socks (bridge_run 1460 bridge_demo bridge_boot) = [5]"
  "tcp_client_sock (bridge_run 1460 bridge_demo bridge_boot) = 5" "net_at (bridge_run 1460 bridge_demo bridge_boot) = In_options True None"
  by (simp_all add: bridge_demo_def net_returns_def rx_returns_def bridge_boot_def uart_rx_step_def net_uart_step_def rx_client_def
      count_event_def Let_def)

theorem bridge_invariant_witness:
  "rx_at (bridge_run 1460 bridge_demo bridge_boot) \<noteq> Overrun \<and> uart_rx_count (bridge_run 1460 bridge_demo bridge_boot) = 2
   \<and> to_web (bridge_run 1460 bridge_demo bridge_boot) = [1, 2]"
proof -
  have w: "to_web (bridge_run 1460 bridge_demo bridge_boot) = [1, 2]"
    by (simp add: bridge_demo_def net_returns_def rx_returns_def bridge_boot_def uart_rx_step_def net_uart_step_def rx_client_def
        count_event_def Let_def)
  have "\<forall>e. Rx e \<in> set bridge_demo \<longrightarrow> good_read 1460 (bytes_read e)"
    by (auto simp: bridge_demo_def rx_returns_def good_read_def)
  then show ?thesis using bridge_invariant [of 1460 bridge_demo] w bridge_demo_run(1) by (simp add: Let_def for_web_def)
qed

theorem failed_read_overruns_witness:
  "rx_at (uart_rx_step 1460 rx_returns (uart_rx_step 1460 rx_returns (uart_rx_step 1460 (rx_returns\<lparr>bytes_read := None\<rparr>)
     (bridge_boot\<lparr>rx_at := In_read 0\<rparr>)))) = Overrun"
  by (rule failed_read_overruns) (simp_all add: rx_returns_def bridge_boot_def)

theorem new_client_closed_witness:
  "let s = bridge_boot\<lparr>tcp_client_sock := 5, open_socks := [5], rx_at := In_send 5 [1], net_at := In_accept False None\<rparr>;
       t = bridge_run 1460 [Net (net_returns\<lparr>sock_accepted := 6\<rparr>), Rx (rx_returns\<lparr>bytes_sent := None\<rparr>), Rx rx_returns, Rx rx_returns] s
   in open_socks t = [5] \<and> tcp_client_sock t = 0"
  using new_client_closed [of "bridge_boot\<lparr>tcp_client_sock := 5, open_socks := [5], rx_at := In_send 5 [1], net_at := In_accept False None\<rparr>"
      5 "[1]" False None 6 "net_returns\<lparr>sock_accepted := 6\<rparr>" "rx_returns\<lparr>bytes_sent := None\<rparr>"]
  by (simp add: bridge_boot_def)

theorem replaced_client_leaks_witness:
  "5 \<in> set (open_socks (bridge_run 1460 [Net (net_returns\<lparr>sock_accepted := 6\<rparr>), Rx rx_returns]
     (bridge_boot\<lparr>tcp_client_sock := 5, open_socks := [5], net_at := In_accept False None\<rparr>)))"
  using replaced_client_leaks [of "bridge_boot\<lparr>tcp_client_sock := 5, open_socks := [5], net_at := In_accept False None\<rparr>"
      5 False None "net_returns\<lparr>sock_accepted := 6\<rparr>" "[Rx rx_returns]"]
  by (simp add: bridge_boot_def)

end
