(* ===== verification/Channel.thy ===== *)
theory Channel
  imports Prelude
begin

text \<open>
  The character interface of the class \<open>GDB\<close> (\<open>src/main/gdb_if.hpp\<close>): the virtual methods
  \<open>gdb_if_getchar\<close>, \<open>gdb_if_getchar_to\<close> and \<open>gdb_if_putchar\<close> that the packet layer calls and
  \<open>GDB_client\<close> implements, as a table of functions on the state, and the contract between the two.
\<close>

record 's gdb_if =
  if_getchar :: "'s \<Rightarrow> (byte, 's) outcome"
  if_getchar_to :: "int \<Rightarrow> 's \<Rightarrow> (byte, 's) outcome"
  if_putchar :: "byte \<Rightarrow> bool \<Rightarrow> 's \<Rightarrow> (unit, 's) outcome"

text \<open>
  What the debugger at the other end does, as the firmware can observe it: a byte arrives, nothing
  arrives for longer than the timeout in use, or the connection ends. After the last event nothing
  arrives any more.
\<close>

datatype arrival = Byte byte | Silence | Hangup

fun next_byte :: "arrival list \<Rightarrow> (byte \<times> arrival list) option" where
  "next_byte [] = None"
| "next_byte (Byte b # r) = Some (b, r)"
| "next_byte (Silence # r) = next_byte r"
| "next_byte (Hangup # r) = None"

lemma next_byte_shorter: "next_byte ev = Some (b, r) \<Longrightarrow> length r < length ev"
  by (induction ev rule: next_byte.induct) (auto intro: less_SucI)

text \<open>
  The contract. \<open>input\<close> is what is still to arrive, \<open>written\<close> everything the firmware has put,
  \<open>sent\<close> the part of it that left for the peer, \<open>live\<close> that the connection works, \<open>rest\<close> the
  part of the state the channel must not touch. A \<open>getchar\<close> waits through silence; a
  \<open>getchar_to\<close> answers silence with \<open>0xFF\<close>; a flushed put leaves nothing behind.
\<close>

text \<open>Reading a number of characters, and putting a string without a flush.\<close>

primrec read_n :: "('s \<Rightarrow> (byte, 's) outcome) \<Rightarrow> nat \<Rightarrow> 's \<Rightarrow> (byte list, 's) outcome" where
  "read_n getc 0 s = Ret [] s"
| "read_n getc (Suc n) s =
     andthen (getc s) (\<lambda>b s. andthen (read_n getc n s) (\<lambda>bs s. Ret (b # bs) s))"

primrec write_all :: "(byte \<Rightarrow> bool \<Rightarrow> 's \<Rightarrow> (unit, 's) outcome) \<Rightarrow> byte list \<Rightarrow> 's \<Rightarrow> (unit, 's) outcome" where
  "write_all putc [] s = Ret () s"
| "write_all putc (b # bs) s = andthen (putc b False s) (\<lambda>_ s. write_all putc bs s)"

locale gdb_channel =
  fixes ifc :: "'s gdb_if"
    and live :: "'s \<Rightarrow> bool"
    and input :: "'s \<Rightarrow> arrival list"
    and written :: "'s \<Rightarrow> byte list"
    and sent :: "'s \<Rightarrow> byte list"
    and rest :: "'s \<Rightarrow> 'r"
  assumes put: "live s \<Longrightarrow> \<exists>s'. if_putchar ifc c f s = Ret () s' \<and> live s'
        \<and> written s' = written s @ [c] \<and> input s' = input s \<and> rest s' = rest s
        \<and> (f \<longrightarrow> sent s' = written s')"
    and get: "live s \<Longrightarrow> next_byte (input s) = Some (b, r) \<Longrightarrow>
      \<exists>s'. if_getchar ifc s = Ret b s' \<and> live s' \<and> input s' = r \<and> written s' = written s
        \<and> sent s' = sent s \<and> rest s' = rest s"
    and get_to_byte: "live s \<Longrightarrow> input s = Byte b # r \<Longrightarrow>
      \<exists>s'. if_getchar_to ifc t s = Ret b s' \<and> live s' \<and> input s' = r \<and> written s' = written s
        \<and> sent s' = sent s \<and> rest s' = rest s"
    and get_to_silence: "live s \<Longrightarrow> 0 \<le> t \<Longrightarrow> input s = Silence # r \<Longrightarrow>
      \<exists>s'. if_getchar_to ifc t s = Ret 255 s' \<and> live s' \<and> input s' = r \<and> written s' = written s
        \<and> sent s' = sent s \<and> rest s' = rest s"
    and get_to_end: "live s \<Longrightarrow> 0 \<le> t \<Longrightarrow> input s = [] \<Longrightarrow>
      \<exists>s'. if_getchar_to ifc t s = Ret 255 s' \<and> live s' \<and> input s' = [] \<and> written s' = written s
        \<and> sent s' = sent s \<and> rest s' = rest s"
    and get_stops: "live s \<Longrightarrow> next_byte (input s) = None \<Longrightarrow>
      \<exists>w s'. if_getchar ifc s = Stop w s' \<and> (w = Blocked \<or> w = Deleted)"
    and get_to_hangup: "live s \<Longrightarrow> input s = Hangup # r \<Longrightarrow> \<exists>s'. if_getchar_to ifc t s = Stop Deleted s'"
begin

text \<open>The contract in elimination form, for stepping through code that calls the methods.\<close>

lemma putE:
  assumes "live s"
  obtains s' where "if_putchar ifc c f s = Ret () s'" "live s'" "written s' = written s @ [c]"
    "input s' = input s" "rest s' = rest s" "f \<Longrightarrow> sent s' = written s'"
  using put [OF assms] by blast

lemma getE:
  assumes "live s" "next_byte (input s) = Some (b, r)"
  obtains s' where "if_getchar ifc s = Ret b s'" "live s'" "input s' = r"
    "written s' = written s" "sent s' = sent s" "rest s' = rest s"
  using get [OF assms] by blast

lemma read_chars:
  "live s \<Longrightarrow> input s = map Byte bs @ r \<Longrightarrow>
     \<exists>s'. read_n (if_getchar ifc) (length bs) s = Ret bs s' \<and> live s' \<and> input s' = r
       \<and> written s' = written s \<and> sent s' = sent s \<and> rest s' = rest s"
proof (induction bs arbitrary: s)
  case (Cons b bs)
  obtain s1 where s1: "if_getchar ifc s = Ret b s1" "live s1" "input s1 = map Byte bs @ r"
    "written s1 = written s" "sent s1 = sent s" "rest s1 = rest s"
    by (rule getE [of s b "map Byte bs @ r"]) (use Cons.prems in auto)
  with Cons.IH [OF s1(2,3)] show ?case by auto
qed auto

lemma write_chars:
  "live s \<Longrightarrow>
     \<exists>s'. write_all (if_putchar ifc) bs s = Ret () s' \<and> live s' \<and> input s' = input s
       \<and> written s' = written s @ bs \<and> rest s' = rest s"
proof (induction bs arbitrary: s)
  case (Cons b bs)
  obtain s1 where "if_putchar ifc b False s = Ret () s1" "live s1" "written s1 = written s @ [b]"
    "input s1 = input s" "rest s1 = rest s"
    by (rule putE [OF Cons.prems, of b False]) auto
  with Cons.IH [of s1] show ?case by auto
qed auto

end

end
