(* ===== verification/GdbLock.thy ===== *)
theory GdbLock
  imports Prelude
begin

text \<open>
  The recursive lock of the GDB server: \<open>gdb_lock\<close>, \<open>gdb_unlock\<close>, \<open>gdb_breaklock\<close> and
  \<open>gdb_restorelock\<close> of \<open>src/main/gdb_if.cpp\<close> with the guard objects \<open>GDBLock\<close> and
  \<open>GDBBreakLock\<close> of \<open>src/main/gdb_if.hpp\<close>. First the operations as one task runs them to the end,
  then the same operations as interleaved steps of any number of tasks over the FreeRTOS mutex.
\<close>

section \<open>The operations\<close>

text \<open>
  The mutex knows its holder; \<open>gdb_mutex_lockcount\<close> is the nesting depth. Taking a mutex another
  task holds blocks: \<open>None\<close>. The timeout \<open>-1\<close> is \<open>portMAX_DELAY\<close>, so a take does not fail.
\<close>

record 't lock =
  mutex_holder :: "'t option"
  gdb_mutex_lockcount :: int

definition xSemaphoreTake :: "'t \<Rightarrow> 't lock \<Rightarrow> 't lock option" where
  "xSemaphoreTake t l =
     (if mutex_holder l = None then Some (l\<lparr>mutex_holder := Some t\<rparr>) else None)"

definition gdb_lock :: "'t \<Rightarrow> 't lock \<Rightarrow> 't lock option" where
  "gdb_lock t l =
     (if mutex_holder l = Some t then Some (l\<lparr>gdb_mutex_lockcount := gdb_mutex_lockcount l + 1\<rparr>)
      else map_option (\<lambda>l. l\<lparr>gdb_mutex_lockcount := gdb_mutex_lockcount l + 1\<rparr>) (xSemaphoreTake t l))"

definition gdb_unlock :: "'t \<Rightarrow> 't lock \<Rightarrow> 't lock" where
  "gdb_unlock t l =
     (if mutex_holder l = Some t then
        (let l1 = l\<lparr>gdb_mutex_lockcount := gdb_mutex_lockcount l - 1\<rparr>
         in if gdb_mutex_lockcount l1 = 0 then l1\<lparr>mutex_holder := None\<rparr> else l1)
      else l)"

definition gdb_breaklock :: "'t \<Rightarrow> 't lock \<Rightarrow> int \<times> 't lock" where
  "gdb_breaklock t l =
     (if mutex_holder l = Some t
      then (gdb_mutex_lockcount l, l\<lparr>gdb_mutex_lockcount := 0, mutex_holder := None\<rparr>)
      else (0, l))"

definition gdb_restorelock :: "'t \<Rightarrow> int \<Rightarrow> 't lock \<Rightarrow> 't lock option" where
  "gdb_restorelock t state l =
     (if state = 0 then Some l
      else map_option (\<lambda>l. l\<lparr>gdb_mutex_lockcount := state\<rparr>) (xSemaphoreTake t l))"

text \<open>The lock is free, or held by a task at a positive depth.\<close>

definition lock_ok :: "'t lock \<Rightarrow> bool" where
  "lock_ok l \<longleftrightarrow> (if mutex_holder l = None then gdb_mutex_lockcount l = 0
     else 0 < gdb_mutex_lockcount l)"

definition depth_of :: "'t \<Rightarrow> 't lock \<Rightarrow> int" where
  "depth_of t l = (if mutex_holder l = Some t then gdb_mutex_lockcount l else 0)"

text \<open>What a lock user relies on: guards nest, and a break gives the lock up and gets it back.\<close>

locale nesting_lock =
  fixes acquire :: "'t \<Rightarrow> 'l \<Rightarrow> 'l option"
    and release :: "'t \<Rightarrow> 'l \<Rightarrow> 'l"
    and suspend :: "'t \<Rightarrow> 'l \<Rightarrow> 'd \<times> 'l"
    and resume :: "'t \<Rightarrow> 'd \<Rightarrow> 'l \<Rightarrow> 'l option"
    and free :: "'l \<Rightarrow> bool"
    and owner :: "'l \<Rightarrow> 't option"
    and good :: "'l \<Rightarrow> bool"
  assumes acquire_good: "good l \<Longrightarrow> acquire t l = Some l' \<Longrightarrow> good l' \<and> owner l' = Some t"
    and acquire_free: "good l \<Longrightarrow> acquire t l = None \<longleftrightarrow> \<not> (free l \<or> owner l = Some t)"
    and release_acquire: "good l \<Longrightarrow> acquire t l = Some l' \<Longrightarrow> release t l' = l"
    and suspend_free: "good l \<Longrightarrow> owner l = Some t \<or> free l \<Longrightarrow>
      free (snd (suspend t l)) \<and> good (snd (suspend t l))"
    and resume_suspend: "good l \<Longrightarrow> owner l = Some t \<or> free l \<Longrightarrow>
      resume t (fst (suspend t l)) (snd (suspend t l)) = Some l"
begin

text \<open>A guarded section that leaves the lock as it found it is transparent.\<close>

lemma guarded_section:
  assumes "good l" "free l \<or> owner l = Some t" "\<And>l'. good l' \<Longrightarrow> owner l' = Some t \<Longrightarrow> body l' = Some l'"
  shows "Option.bind (Option.bind (acquire t l) body) (\<lambda>l'. Some (release t l')) = Some l"
proof -
  obtain l' where l': "acquire t l = Some l'"
    using acquire_free [OF assms(1), of t] assms(2) by (cases "acquire t l") auto
  with acquire_good [OF assms(1) l'] release_acquire [OF assms(1) l'] assms(3) show ?thesis by simp
qed

text \<open>Giving the lock up inside nested guards lets another task run a whole guarded section.\<close>

lemma section_during_break:
  assumes "good l" "owner l = Some t" "t \<noteq> u"
  shows "\<exists>l1. acquire u (snd (suspend t l)) = Some l1
           \<and> Option.bind (Some (release u l1)) (resume t (fst (suspend t l))) = Some l"
proof -
  have s: "free (snd (suspend t l))" "good (snd (suspend t l))"
    using suspend_free [OF assms(1)] assms(2) by auto
  obtain l1 where l1: "acquire u (snd (suspend t l)) = Some l1"
    using acquire_free [OF s(2), of u] s(1) by (cases "acquire u (snd (suspend t l))") auto
  then show ?thesis
    using release_acquire [OF s(2) l1] resume_suspend [OF assms(1)] assms(2) by simp
qed

end

interpretation gl: nesting_lock
  "gdb_lock :: 't \<Rightarrow> 't lock \<Rightarrow> 't lock option" gdb_unlock gdb_breaklock gdb_restorelock
  "\<lambda>l. mutex_holder l = None" mutex_holder lock_ok
  by unfold_locales
    (auto simp: gdb_lock_def gdb_unlock_def gdb_breaklock_def gdb_restorelock_def xSemaphoreTake_def
       lock_ok_def Let_def split: if_splits)

text \<open>
  A guard that finds the lock free or already its own leaves it exactly as it found it, at any
  nesting depth, and while a task that holds the lock waits inside a \<open>GDBBreakLock\<close>, any other task
  can run a guarded section, after which the waiting task gets the lock back at the same depth.
\<close>

theorem gdb_lock_nesting:
  assumes "lock_ok l" and "mutex_holder l = None \<or> mutex_holder l = Some t"
  shows "\<exists>l'. gdb_lock t l = Some l' \<and> depth_of t l' = depth_of t l + 1 \<and> gdb_unlock t l' = l
       \<and> (t \<noteq> u \<longrightarrow> (\<exists>l1. gdb_lock u (snd (gdb_breaklock t l')) = Some l1
            \<and> gdb_restorelock t (fst (gdb_breaklock t l')) (gdb_unlock u l1) = Some l'))"
proof -
  obtain l' where l': "gdb_lock t l = Some l'"
    using gl.acquire_free [OF assms(1), of t] assms(2) by (cases "gdb_lock t l") auto
  have "depth_of t l' = depth_of t l + 1"
    using l' assms by (auto simp: gdb_lock_def xSemaphoreTake_def depth_of_def lock_ok_def split: if_splits)
  with l' gl.release_acquire [OF assms(1) l'] gl.section_during_break [of l' t u]
    gl.acquire_good [OF assms(1) l'] show ?thesis by auto
qed

section \<open>Interleaved tasks\<close>

text \<open>
  The same code as separate accesses to the mutex and to \<open>gdb_mutex_lockcount\<close>. A task is between
  calls (\<open>Idle\<close>), at one of the statements of the four functions, or inside a \<open>GDBBreakLock\<close>
  (\<open>Broken\<close>). \<open>depth\<close> counts the guards the task has open; it is not a variable of the program.
  \<open>saved\<close> is the \<open>state\<close> member of the break guard. The scheduler may run any task at any step.
\<close>

datatype lock_pc =
    Idle
  | LockTake | LockInc
  | UnlockDec | UnlockTest | UnlockGive
  | BreakClear | BreakGive | Broken
  | RestoreTake | RestoreSet

record lock_task =
  lpc :: lock_pc
  depth :: nat
  saved :: int

record 't lock_sys =
  mutex :: "'t lock"
  tasks :: "'t \<Rightarrow> lock_task"

definition at_pc :: "'t \<Rightarrow> lock_pc \<Rightarrow> 't lock_sys \<Rightarrow> 't lock_sys" where
  "at_pc t p s = s\<lparr>tasks := (tasks s)(t := (tasks s t)\<lparr>lpc := p\<rparr>)\<rparr>"

definition set_holder :: "'t option \<Rightarrow> 't lock_sys \<Rightarrow> 't lock_sys" where
  "set_holder h s = s\<lparr>mutex := (mutex s)\<lparr>mutex_holder := h\<rparr>\<rparr>"

definition set_count :: "int \<Rightarrow> 't lock_sys \<Rightarrow> 't lock_sys" where
  "set_count n s = s\<lparr>mutex := (mutex s)\<lparr>gdb_mutex_lockcount := n\<rparr>\<rparr>"

definition set_depth :: "'t \<Rightarrow> nat \<Rightarrow> 't lock_sys \<Rightarrow> 't lock_sys" where
  "set_depth t n s = s\<lparr>tasks := (tasks s)(t := (tasks s t)\<lparr>depth := n\<rparr>)\<rparr>"

definition set_saved :: "'t \<Rightarrow> int \<Rightarrow> 't lock_sys \<Rightarrow> 't lock_sys" where
  "set_saved t n s = s\<lparr>tasks := (tasks s)(t := (tasks s t)\<lparr>saved := n\<rparr>)\<rparr>"

abbreviation pc_of :: "'t lock_sys \<Rightarrow> 't \<Rightarrow> lock_pc" where
  "pc_of s t \<equiv> lpc (tasks s t)"

abbreviation held_by :: "'t lock_sys \<Rightarrow> 't \<Rightarrow> bool" where
  "held_by s t \<equiv> mutex_holder (mutex s) = Some t"

abbreviation lockcount :: "'t lock_sys \<Rightarrow> int" where
  "lockcount s \<equiv> gdb_mutex_lockcount (mutex s)"

inductive lock_step :: "'t \<Rightarrow> 't lock_sys \<Rightarrow> 't lock_sys \<Rightarrow> bool" where
  lock_again: "pc_of s t = Idle \<Longrightarrow> held_by s t \<Longrightarrow> lock_step t s (at_pc t LockInc s)"
| lock_first: "pc_of s t = Idle \<Longrightarrow> \<not> held_by s t \<Longrightarrow> lock_step t s (at_pc t LockTake s)"
| lock_take: "pc_of s t = LockTake \<Longrightarrow> mutex_holder (mutex s) = None \<Longrightarrow>
     lock_step t s (at_pc t LockInc (set_holder (Some t) s))"
| lock_inc: "pc_of s t = LockInc \<Longrightarrow>
     lock_step t s (at_pc t Idle (set_depth t (Suc (depth (tasks s t))) (set_count (lockcount s + 1) s)))"
| unlock_skip: "pc_of s t = Idle \<Longrightarrow> 0 < depth (tasks s t) \<Longrightarrow> \<not> held_by s t \<Longrightarrow> lock_step t s s"
| unlock_begin: "pc_of s t = Idle \<Longrightarrow> 0 < depth (tasks s t) \<Longrightarrow> held_by s t \<Longrightarrow>
     lock_step t s (at_pc t UnlockDec s)"
| unlock_dec: "pc_of s t = UnlockDec \<Longrightarrow>
     lock_step t s (at_pc t UnlockTest (set_depth t (depth (tasks s t) - 1) (set_count (lockcount s - 1) s)))"
| unlock_zero: "pc_of s t = UnlockTest \<Longrightarrow> lockcount s = 0 \<Longrightarrow> lock_step t s (at_pc t UnlockGive s)"
| unlock_more: "pc_of s t = UnlockTest \<Longrightarrow> lockcount s \<noteq> 0 \<Longrightarrow> lock_step t s (at_pc t Idle s)"
| unlock_give: "pc_of s t = UnlockGive \<Longrightarrow> lock_step t s (at_pc t Idle (set_holder None s))"
| break_other: "pc_of s t = Idle \<Longrightarrow> \<not> held_by s t \<Longrightarrow>
     lock_step t s (at_pc t Broken (set_saved t 0 s))"
| break_begin: "pc_of s t = Idle \<Longrightarrow> held_by s t \<Longrightarrow>
     lock_step t s (at_pc t BreakClear (set_saved t (lockcount s) s))"
| break_clear: "pc_of s t = BreakClear \<Longrightarrow> lock_step t s (at_pc t BreakGive (set_count 0 s))"
| break_give: "pc_of s t = BreakGive \<Longrightarrow> lock_step t s (at_pc t Broken (set_holder None s))"
| restore_none: "pc_of s t = Broken \<Longrightarrow> saved (tasks s t) = 0 \<Longrightarrow> lock_step t s (at_pc t Idle s)"
| restore_begin: "pc_of s t = Broken \<Longrightarrow> saved (tasks s t) \<noteq> 0 \<Longrightarrow> lock_step t s (at_pc t RestoreTake s)"
| restore_take: "pc_of s t = RestoreTake \<Longrightarrow> mutex_holder (mutex s) = None \<Longrightarrow>
     lock_step t s (at_pc t RestoreSet (set_holder (Some t) s))"
| restore_set: "pc_of s t = RestoreSet \<Longrightarrow>
     lock_step t s (at_pc t Idle (set_count (saved (tasks s t)) s))"

definition lock_start :: "'t lock_sys" where
  "lock_start =
     \<lparr>mutex = \<lparr>mutex_holder = None, gdb_mutex_lockcount = 0\<rparr>,
      tasks = (\<lambda>_. \<lparr>lpc = Idle, depth = 0, saved = 0\<rparr>)\<rparr>"

inductive lock_reachable :: "'t lock_sys \<Rightarrow> bool" where
  start: "lock_reachable lock_start"
| step: "lock_reachable s \<Longrightarrow> lock_step t s s' \<Longrightarrow> lock_reachable s'"

lemmas lock_updates = at_pc_def set_holder_def set_count_def set_depth_def set_saved_def

text \<open>What each task's program point says of the mutex and the count.\<close>

fun task_inv :: "lock_pc \<Rightarrow> bool \<Rightarrow> int \<Rightarrow> int \<Rightarrow> int \<Rightarrow> bool" where
  "task_inv Idle h n d v = (h = (0 < d) \<and> (h \<longrightarrow> n = d))"
| "task_inv LockTake h n d v = (\<not> h \<and> d = 0)"
| "task_inv LockInc h n d v = (h \<and> n = d)"
| "task_inv UnlockDec h n d v = (h \<and> n = d \<and> 0 < d)"
| "task_inv UnlockTest h n d v = (h \<and> n = d)"
| "task_inv UnlockGive h n d v = (h \<and> n = 0 \<and> d = 0)"
| "task_inv BreakClear h n d v = (h \<and> v = d \<and> 0 < d)"
| "task_inv BreakGive h n d v = (h \<and> v = d \<and> 0 < d \<and> n = 0)"
| "task_inv Broken h n d v = (\<not> h \<and> v = d)"
| "task_inv RestoreTake h n d v = (\<not> h \<and> v = d \<and> 0 < d)"
| "task_inv RestoreSet h n d v = (h \<and> v = d \<and> 0 < d)"

definition lock_inv :: "'t lock_sys \<Rightarrow> bool" where
  "lock_inv s \<longleftrightarrow>
     (mutex_holder (mutex s) = None \<longrightarrow> lockcount s = 0)
     \<and> (\<forall>t. task_inv (pc_of s t) (held_by s t) (lockcount s) (int (depth (tasks s t)))
               (saved (tasks s t)))"

lemma lock_inv_start: "lock_inv lock_start"
  by (simp add: lock_inv_def lock_start_def)

lemma task_inv_not_held:
  "task_inv p False n d v \<Longrightarrow> task_inv p False n' d v"
  by (cases p) auto

lemma lock_inv_step:
  assumes "lock_step t s s'" and inv: "lock_inv s"
  shows "lock_inv s'"
proof -
  have t: "task_inv (pc_of s t) (held_by s t) (lockcount s) (int (depth (tasks s t))) (saved (tasks s t))"
    and n: "mutex_holder (mutex s) = None \<longrightarrow> lockcount s = 0"
    using inv by (auto simp: lock_inv_def)
  have u: "task_inv (pc_of s u) (held_by s u) (lockcount s) (int (depth (tasks s u))) (saved (tasks s u))"
    for u using inv by (simp add: lock_inv_def)
  have other: "task_inv (pc_of s u) False m (int (depth (tasks s u))) (saved (tasks s u))"
    if "u \<noteq> t" "held_by s t \<or> mutex_holder (mutex s) = None" for u m
    using u [of u] that by (auto intro: task_inv_not_held)
  from assms(1) show ?thesis
    using t n u other
    by (cases rule: lock_step.cases)
       (auto simp: lock_inv_def lock_updates)
qed

lemma lock_inv_reachable: "lock_reachable s \<Longrightarrow> lock_inv s"
  by (induction rule: lock_reachable.induct) (auto intro: lock_inv_start lock_inv_step)

text \<open>
  C10. Mutual exclusion for any number of tasks under any scheduling: two tasks that run guarded
  code (at least one guard open, no break in progress) are the same task, and the lock count is
  exactly the number of guards it has open.
\<close>

theorem gdb_lock_mutual_exclusion:
  assumes "lock_reachable s"
    and "pc_of s t = Idle" "0 < depth (tasks s t)"
    and "pc_of s u = Idle" "0 < depth (tasks s u)"
  shows "t = u \<and> held_by s t \<and> lockcount s = int (depth (tasks s t))"
proof -
  have "task_inv Idle (held_by s v) (lockcount s) (int (depth (tasks s v))) (saved (tasks s v))"
    if "pc_of s v = Idle" for v
    using lock_inv_reachable [OF assms(1)] that by (metis lock_inv_def)
  from this [OF assms(2)] this [OF assms(4)] assms(3,5) show ?thesis by simp
qed

text \<open>
  The lock itself never deadlocks: the task that holds the mutex always has a step, so a task
  waiting in \<open>xSemaphoreTake\<close> either can take the mutex or waits for another task that can run.
\<close>

theorem gdb_lock_progress:
  assumes "lock_reachable s" and "pc_of s t \<in> {LockTake, RestoreTake}"
  shows "(\<exists>s'. lock_step t s s') \<or> (\<exists>u s'. u \<noteq> t \<and> held_by s u \<and> lock_step u s s')"
proof (cases "mutex_holder (mutex s)")
  case None
  with assms(2) show ?thesis by (auto intro: lock_step.intros)
next
  case (Some u)
  have inv: "task_inv (pc_of s v) (held_by s v) (lockcount s) (int (depth (tasks s v))) (saved (tasks s v))"
    for v using lock_inv_reachable [OF assms(1)] by (simp add: lock_inv_def)
  have "u \<noteq> t" using inv [of t] assms(2) Some by auto
  moreover have "\<exists>s'. lock_step u s s'"
  proof (cases "pc_of s u")
    case UnlockTest
    then show ?thesis
      by (cases "lockcount s = 0") (blast intro: unlock_zero unlock_more)+
  qed (use inv [of u] Some in \<open>auto intro: lock_step.intros\<close>)
  ultimately show ?thesis using Some by auto
qed

text \<open>A task alone in the system performs its micro steps to the end as the operations say.\<close>

lemma lock_steps_alone:
  assumes "lock_reachable s" "pc_of s t = Idle" "gdb_lock t (mutex s) = Some l"
  shows "\<exists>s'. lock_reachable s' \<and> mutex s' = l \<and> pc_of s' t = Idle
           \<and> depth (tasks s' t) = Suc (depth (tasks s t))"
proof -
  have "\<exists>s1. lock_reachable s1 \<and> pc_of s1 t = LockInc \<and> depth (tasks s1 t) = depth (tasks s t)
      \<and> (mutex s1)\<lparr>gdb_mutex_lockcount := lockcount s1 + 1\<rparr> = l"
  proof (cases "held_by s t")
    case True
    then have "lock_reachable (at_pc t LockInc s)"
      using assms by (blast intro: lock_reachable.step lock_again)
    with True assms(3) show ?thesis
      by (intro exI [of _ "at_pc t LockInc s"]) (auto simp: gdb_lock_def lock_updates)
  next
    case False
    let ?s = "at_pc t LockTake s"
    have "lock_reachable ?s" using assms False by (auto intro: lock_reachable.step lock_first)
    moreover have "lock_step t ?s (at_pc t LockInc (set_holder (Some t) ?s))"
      using assms(3) False by (intro lock_take) (auto simp: gdb_lock_def xSemaphoreTake_def lock_updates split: if_splits)
    ultimately have "lock_reachable (at_pc t LockInc (set_holder (Some t) ?s))"
      by (rule lock_reachable.step)
    with assms(3) False show ?thesis
      by (intro exI [of _ "at_pc t LockInc (set_holder (Some t) ?s)"])
        (auto simp: gdb_lock_def xSemaphoreTake_def lock_updates split: if_splits)
  qed
  then obtain s1 where s1: "lock_reachable s1" "pc_of s1 t = LockInc"
    "depth (tasks s1 t) = depth (tasks s t)"
    "(mutex s1)\<lparr>gdb_mutex_lockcount := lockcount s1 + 1\<rparr> = l" by blast
  from lock_reachable.step [OF s1(1) lock_inc [OF s1(2)]] s1 show ?thesis
    by (intro exI [of _ "at_pc t Idle (set_depth t (Suc (depth (tasks s1 t))) (set_count (lockcount s1 + 1) s1))"])
       (auto simp: lock_updates)
qed

text \<open>Runs that the hypotheses of the theorems above describe.\<close>

definition one_guard :: "nat lock_sys" where
  "one_guard = \<lparr>mutex = \<lparr>mutex_holder = Some 1, gdb_mutex_lockcount = 1\<rparr>,
     tasks = (\<lambda>_. \<lparr>lpc = Idle, depth = 0, saved = 0\<rparr>)(1 := \<lparr>lpc = Idle, depth = 1, saved = 0\<rparr>)\<rparr>"

definition one_waits :: "nat lock_sys" where
  "one_waits = \<lparr>mutex = \<lparr>mutex_holder = Some 1, gdb_mutex_lockcount = 1\<rparr>,
     tasks = (\<lambda>_. \<lparr>lpc = Idle, depth = 0, saved = 0\<rparr>)
       (1 := \<lparr>lpc = Idle, depth = 1, saved = 0\<rparr>, 2 := \<lparr>lpc = LockTake, depth = 0, saved = 0\<rparr>)\<rparr>"

lemma one_guard_reachable: "lock_reachable one_guard"
proof -
  let ?s1 = "at_pc 1 LockTake lock_start :: nat lock_sys"
  let ?s2 = "at_pc 1 LockInc (set_holder (Some 1) ?s1)"
  have 1: "lock_reachable ?s1"
    by (rule lock_reachable.step [OF lock_reachable.start lock_first]) (auto simp: lock_start_def)
  have 2: "lock_reachable ?s2"
    by (rule lock_reachable.step [OF 1 lock_take]) (auto simp: lock_start_def lock_updates)
  have "lock_step 1 ?s2 one_guard"
    using lock_inc [of ?s2 1] by (simp add: one_guard_def lock_start_def lock_updates fun_upd_def cong: if_cong)
  with 2 show ?thesis by (rule lock_reachable.step)
qed

lemma one_waits_reachable: "lock_reachable one_waits"
proof -
  have "lock_step 2 one_guard one_waits"
    using lock_first [of one_guard 2] by (simp add: one_guard_def one_waits_def lock_updates fun_upd_def cong: if_cong)
  then show ?thesis by (rule lock_reachable.step [OF one_guard_reachable])
qed

theorem gdb_lock_mutual_exclusion_witness:
  "pc_of one_guard 1 = Idle \<and> 0 < depth (tasks one_guard 1) \<and> held_by one_guard 1
     \<and> lockcount one_guard = 1"
  using gdb_lock_mutual_exclusion [OF one_guard_reachable, of 1 1] by (simp add: one_guard_def)

theorem gdb_lock_progress_witness:
  "pc_of one_waits 2 = LockTake \<and>
     ((\<exists>s'. lock_step 2 one_waits s') \<or> (\<exists>u s'. u \<noteq> 2 \<and> held_by one_waits u \<and> lock_step u one_waits s'))"
proof -
  have "pc_of one_waits 2 = LockTake" by (simp add: one_waits_def)
  with gdb_lock_progress [OF one_waits_reachable, of 2] show ?thesis by simp
qed

theorem gdb_lock_nesting_witness:
  "\<exists>l'. gdb_lock 1 \<lparr>mutex_holder = None, gdb_mutex_lockcount = 0\<rparr> = Some l'
     \<and> gdb_unlock (1::nat) l' = \<lparr>mutex_holder = None, gdb_mutex_lockcount = 0\<rparr>
     \<and> (\<exists>l1. gdb_lock 2 (snd (gdb_breaklock 1 l')) = Some l1
          \<and> gdb_restorelock 1 (fst (gdb_breaklock 1 l')) (gdb_unlock 2 l1) = Some l')"
  using gdb_lock_nesting [of "\<lparr>mutex_holder = None, gdb_mutex_lockcount = 0\<rparr>" "1::nat" 2]
  by (auto simp: lock_ok_def)

end
