(* ===== verification/GdbClient.thy ===== *)
theory GdbClient
  imports Channel GdbLock
begin

text \<open>
  The transport of one debugger connection: the buffering methods of \<open>GDB_client\<close> in
  \<open>src/main/gdb_if.cpp\<close> over a TCP socket, the end of the connection, and the proof that they
  satisfy the character interface the packet layer uses.
\<close>

definition BUFFER_SIZE :: nat where "BUFFER_SIZE = 256"

text \<open>
  The network as the socket calls see it: \<open>recv\<close> returns the next bytes that have arrived (at
  least one), \<open>select\<close> times out, or \<open>recv\<close> reports the end of the connection. The list is what
  the peer will do; after it the peer stays silent. \<open>net_tx\<close> says how many more calls of \<open>send\<close>
  succeed (\<open>None\<close>: all of them); a successful blocking \<open>send\<close> takes all the bytes.
\<close>

datatype net_rx = Arrives byte "byte list" | Quiet | Closed

record client =
  buf :: "byte list"
  bufsize :: nat
  buffer :: "byte list"
  buffer_index :: nat
  buffer_size :: nat
  sock :: int
  num_clients :: int
  sock_closed :: bool
  this_task :: nat
  gdb_mutex :: "nat lock"
  net_rx :: "net_rx list"
  net_tx :: "nat option"
  net_sent :: "byte list"

section \<open>Sockets\<close>

text \<open>\<open>recv(sock, buffer, BUFFER_SIZE, 0)\<close>: \<open>None\<close> when the call fails or the peer has closed.\<close>

fun sock_recv :: "net_rx list \<Rightarrow> (byte list option \<times> net_rx list) option" where
  "sock_recv [] = None"
| "sock_recv (Quiet # r) = sock_recv r"
| "sock_recv (Closed # r) = Some (None, Closed # r)"
| "sock_recv (Arrives b bs # r) =
     Some (Some (take BUFFER_SIZE (b # bs)),
           (case drop BUFFER_SIZE (b # bs) of [] \<Rightarrow> r | c # cs \<Rightarrow> Arrives c cs # r))"

text \<open>\<open>select\<close> on the socket: readable (\<open>Some True\<close>), timed out (\<open>Some False\<close>), or waiting for ever.\<close>

fun sock_select :: "int \<Rightarrow> net_rx list \<Rightarrow> (bool \<times> net_rx list) option" where
  "sock_select timeout [] = (if 0 \<le> timeout then Some (False, []) else None)"
| "sock_select timeout (Quiet # r) =
     (if 0 \<le> timeout then Some (False, r) else sock_select timeout r)"
| "sock_select timeout (ev # r) = Some (True, ev # r)"

section \<open>The methods of GDB_client\<close>

text \<open>\<open>destroy\<close>: the client is counted out, gives up the lock, closes its socket and deletes its
  own task, so the call does not return.\<close>

definition destroy :: "'x client_scheme \<Rightarrow> ('a, 'x client_scheme) outcome" where
  "destroy s = Stop Deleted
     (s\<lparr>num_clients := num_clients s - 1, gdb_mutex := snd (gdb_breaklock (this_task s) (gdb_mutex s)),
        sock_closed := True\<rparr>)"

definition gdb_if_getchar :: "'x client_scheme \<Rightarrow> (byte, 'x client_scheme) outcome" where
  "gdb_if_getchar s =
     andthen
       (if buffer_size s \<le> buffer_index s then
          (case sock_recv (net_rx s) of
             None \<Rightarrow> Stop Blocked s
           | Some (None, r) \<Rightarrow> destroy (s\<lparr>net_rx := r\<rparr>)
           | Some (Some bs, r) \<Rightarrow>
               Ret () (s\<lparr>net_rx := r, buffer := bs @ drop (length bs) (buffer s),
                         buffer_size := length bs, buffer_index := 0\<rparr>))
        else Ret () s)
       (\<lambda>_ s. Ret (buffer s ! buffer_index s) (s\<lparr>buffer_index := Suc (buffer_index s)\<rparr>))"

text \<open>
  \<open>gdb_if_getchar_to\<close> runs inside a \<open>GDBBreakLock\<close>: the lock is given up at entry and taken back
  on every return. While it is free, other tasks may run their guarded sections: \<open>others\<close> is what
  they do to the part of the state that is not this client's.
\<close>

definition with_broken_lock ::
  "('x \<Rightarrow> 'x) \<Rightarrow> ('x client_scheme \<Rightarrow> ('a, 'x client_scheme) outcome) \<Rightarrow>
     'x client_scheme \<Rightarrow> ('a, 'x client_scheme) outcome" where
  "with_broken_lock others body s =
     (let (state, l) = gdb_breaklock (this_task s) (gdb_mutex s);
          s1 = client.more_update others (s\<lparr>gdb_mutex := l\<rparr>)
      in andthen (body s1)
           (\<lambda>a s2. case gdb_restorelock (this_task s2) state (gdb_mutex s2) of
              None \<Rightarrow> Stop Blocked s2
            | Some l \<Rightarrow> Ret a (s2\<lparr>gdb_mutex := l\<rparr>)))"

definition gdb_if_getchar_to ::
  "('x \<Rightarrow> 'x) \<Rightarrow> int \<Rightarrow> 'x client_scheme \<Rightarrow> (byte, 'x client_scheme) outcome" where
  "gdb_if_getchar_to others timeout =
     with_broken_lock others (\<lambda>s.
       if buffer_index s < buffer_size s then
         Ret (buffer s ! buffer_index s) (s\<lparr>buffer_index := Suc (buffer_index s)\<rparr>)
       else
         (case sock_select timeout (net_rx s) of
            None \<Rightarrow> Stop Blocked s
          | Some (True, r) \<Rightarrow> gdb_if_getchar (s\<lparr>net_rx := r\<rparr>)
          | Some (False, r) \<Rightarrow> Ret 0xFF (s\<lparr>net_rx := r\<rparr>)))"

definition gdb_if_putchar :: "byte \<Rightarrow> bool \<Rightarrow> 'x client_scheme \<Rightarrow> (unit, 'x client_scheme) outcome" where
  "gdb_if_putchar c flush s =
     andthen (put_at (bufsize s) c (buf s) s)
       (\<lambda>b s. let s1 = s\<lparr>buf := b, bufsize := Suc (bufsize s)\<rparr>
         in if flush \<or> bufsize s1 = length (buf s1) then
              (if 0 < sock s1 then
                 (case net_tx s1 of
                    Some 0 \<Rightarrow> destroy s1
                  | tx \<Rightarrow> Ret () (s1\<lparr>net_sent := net_sent s1 @ take (bufsize s1) (buf s1),
                                     net_tx := map_option (\<lambda>n. n - 1) tx, bufsize := 0\<rparr>))
               else Ret () (s1\<lparr>bufsize := 0\<rparr>))
            else Ret () s1)"

definition client_if :: "('x \<Rightarrow> 'x) \<Rightarrow> ('x client_scheme) gdb_if" where
  "client_if others =
     \<lparr>if_getchar = gdb_if_getchar, if_getchar_to = gdb_if_getchar_to others,
      if_putchar = gdb_if_putchar\<rparr>"

section \<open>Invariant and the view as a character channel\<close>

definition client_bounds :: "'x client_scheme \<Rightarrow> bool" where
  "client_bounds s \<longleftrightarrow> length (buf s) = 256 \<and> bufsize s < 256
     \<and> length (buffer s) = BUFFER_SIZE \<and> buffer_size s \<le> BUFFER_SIZE
     \<and> buffer_index s \<le> buffer_size s"

definition client_live :: "'x client_scheme \<Rightarrow> bool" where
  "client_live s \<longleftrightarrow> client_bounds s \<and> 0 < sock s \<and> net_tx s = None \<and> \<not> sock_closed s
     \<and> lock_ok (gdb_mutex s)
     \<and> (mutex_holder (gdb_mutex s) = None \<or> mutex_holder (gdb_mutex s) = Some (this_task s))"

primrec rx_arrivals :: "net_rx \<Rightarrow> arrival list" where
  "rx_arrivals (Arrives b bs) = map Byte (b # bs)"
| "rx_arrivals Quiet = [Silence]"
| "rx_arrivals Closed = [Hangup]"

definition client_input :: "'x client_scheme \<Rightarrow> arrival list" where
  "client_input s =
     map Byte (drop (buffer_index s) (take (buffer_size s) (buffer s)))
     @ concat (map rx_arrivals (net_rx s))"

definition client_written :: "'x client_scheme \<Rightarrow> byte list" where
  "client_written s = net_sent s @ take (bufsize s) (buf s)"

text \<open>Everything the channel leaves alone: the identity of the client and the lock.\<close>

definition client_rest :: "'x client_scheme \<Rightarrow> int \<times> int \<times> nat \<times> nat lock" where
  "client_rest s = (sock s, num_clients s, this_task s, gdb_mutex s)"

lemma sock_recv_next:
  "next_byte (concat (map rx_arrivals rx)) = Some (b, r) \<Longrightarrow>
     \<exists>bs rx'. sock_recv rx = Some (Some (b # bs), rx') \<and> length (b # bs) \<le> BUFFER_SIZE
       \<and> r = map Byte bs @ concat (map rx_arrivals rx')"
proof (induction rx rule: sock_recv.induct)
  case (4 c bs rx)
  let ?t = "take BUFFER_SIZE (c # bs)" and ?d = "drop BUFFER_SIZE (c # bs)"
  have "?t = c # take (BUFFER_SIZE - 1) bs" by (simp add: BUFFER_SIZE_def)
  moreover have "r = map Byte (take (BUFFER_SIZE - 1) bs) @ map Byte ?d @ concat (map rx_arrivals rx)"
    using 4 by (simp add: BUFFER_SIZE_def flip: map_append append_assoc)
  moreover have "map Byte ?d @ concat (map rx_arrivals rx) =
      concat (map rx_arrivals (case ?d of [] \<Rightarrow> rx | c # cs \<Rightarrow> Arrives c cs # rx))"
    by (simp split: list.split)
  ultimately show ?case using 4 by (auto simp: BUFFER_SIZE_def)
qed auto

lemma take_buffer_unread:
  assumes "length bs \<le> length xs"
  shows "take (length bs) (bs @ drop (length bs) xs) = bs" "length (bs @ drop (length bs) xs) = length xs"
  using assms by auto

lemma client_put:
  assumes "client_live s"
  shows "\<exists>s'. gdb_if_putchar c f s = Ret () s' \<and> client_live s'
     \<and> client_written s' = client_written s @ [c] \<and> client_input s' = client_input s
     \<and> client_rest s' = client_rest s \<and> (f \<longrightarrow> net_sent s' = client_written s')"
  using assms
  by (auto simp: gdb_if_putchar_def client_live_def client_bounds_def Let_def client_written_def
      client_input_def client_rest_def take_update_Suc split: option.splits)

lemma client_input_buffered:
  assumes "client_bounds s" "buffer_index s < buffer_size s"
  shows "client_input s = Byte (buffer s ! buffer_index s)
     # client_input (s\<lparr>buffer_index := Suc (buffer_index s)\<rparr>)"
proof -
  have "buffer_index s < length (take (buffer_size s) (buffer s))"
    using assms by (simp add: client_bounds_def)
  from Cons_nth_drop_Suc [OF this] assms(2) show ?thesis
    by (simp add: client_input_def flip: list.map(2) append_Cons)
qed

lemma client_input_drained:
  "buffer_size s \<le> buffer_index s \<Longrightarrow> client_input s = concat (map rx_arrivals (net_rx s))"
  by (simp add: client_input_def)

lemma client_get:
  assumes live: "client_live s" and nb: "next_byte (client_input s) = Some (b, r)"
  shows "\<exists>s'. gdb_if_getchar s = Ret b s' \<and> client_live s' \<and> client_input s' = r
     \<and> client_written s' = client_written s \<and> net_sent s' = net_sent s \<and> client_rest s' = client_rest s"
proof (cases "buffer_size s \<le> buffer_index s")
  case False
  have "client_bounds s" using live by (simp add: client_live_def)
  from client_input_buffered [OF this] False nb live show ?thesis
    by (auto simp: gdb_if_getchar_def client_live_def client_bounds_def client_written_def client_rest_def)
next
  case True
  then obtain bs rx where rx: "sock_recv (net_rx s) = Some (Some (b # bs), rx)"
    "length (b # bs) \<le> BUFFER_SIZE" "r = map Byte bs @ concat (map rx_arrivals rx)"
    using sock_recv_next nb by (metis client_input_drained)
  have "length (buffer s) = BUFFER_SIZE" using live by (simp add: client_live_def client_bounds_def)
  with take_buffer_unread [of "b # bs" "buffer s"] rx(2) have
    t: "take (length bs) (bs @ drop (Suc (length bs)) (buffer s)) = bs"
    and l: "Suc (length bs + (length (buffer s) - Suc (length bs))) = BUFFER_SIZE" by auto
  show ?thesis
    using True rx live t l
    by (auto simp: gdb_if_getchar_def client_live_def client_bounds_def client_written_def
        client_rest_def client_input_def drop_Suc)
qed

text \<open>Around the body of \<open>gdb_if_getchar_to\<close> the lock comes back as it was.\<close>

lemma with_broken_lock_Ret:
  assumes live: "client_live s"
    and body: "\<And>s1. client_live s1 \<Longrightarrow> client_input s1 = client_input s \<Longrightarrow>
      client_written s1 = client_written s \<Longrightarrow> net_sent s1 = net_sent s \<Longrightarrow>
      \<exists>s2. body s1 = Ret b s2 \<and> client_live s2 \<and> client_input s2 = r
        \<and> client_written s2 = client_written s1 \<and> net_sent s2 = net_sent s1
        \<and> client_rest s2 = client_rest s1"
  shows "\<exists>s'. with_broken_lock others body s = Ret b s' \<and> client_live s' \<and> client_input s' = r
     \<and> client_written s' = client_written s \<and> net_sent s' = net_sent s \<and> client_rest s' = client_rest s"
proof -
  let ?l = "gdb_mutex s" and ?t = "this_task s"
  have own: "lock_ok ?l" "mutex_holder ?l = Some ?t \<or> mutex_holder ?l = None"
    using live by (auto simp: client_live_def)
  let ?b = "gdb_breaklock ?t ?l"
  let ?s1 = "client.more_update others (s\<lparr>gdb_mutex := snd ?b\<rparr>)"
  have "client_live ?s1"
    using live gl.suspend_free [OF own] by (simp add: client_live_def client_bounds_def)
  then obtain s2 where s2: "body ?s1 = Ret b s2" "client_live s2" "client_input s2 = r"
    "client_written s2 = client_written s" "net_sent s2 = net_sent s" "client_rest s2 = client_rest ?s1"
    using body [of ?s1] by (auto simp: client_input_def client_written_def)
  have "gdb_restorelock ?t (fst ?b) (snd ?b) = Some ?l" by (rule gl.resume_suspend [OF own])
  then have "with_broken_lock others body s = Ret b (s2\<lparr>gdb_mutex := ?l\<rparr>)"
    using s2(1,6) by (simp add: with_broken_lock_def Let_def case_prod_beta client_rest_def)
  with s2 live show ?thesis
    by (auto simp: client_live_def client_bounds_def client_input_def client_written_def client_rest_def)
qed

lemma sock_select_byte:
  "concat (map rx_arrivals rx) = Byte b # r \<Longrightarrow> sock_select t rx = Some (True, rx)"
  by (cases rx; cases "hd rx") auto

lemma sock_select_silence:
  "0 \<le> t \<Longrightarrow> concat (map rx_arrivals rx) = Silence # r \<Longrightarrow>
     \<exists>rx'. sock_select t rx = Some (False, rx') \<and> concat (map rx_arrivals rx') = r"
  by (cases rx; cases "hd rx") auto

lemma sock_select_end:
  "0 \<le> t \<Longrightarrow> concat (map rx_arrivals rx) = [] \<Longrightarrow> sock_select t rx = Some (False, []) \<and> rx = []"
  by (cases rx; cases "hd rx") auto

lemma client_get_to_byte:
  assumes "client_live s" and "client_input s = Byte b # r"
  shows "\<exists>s'. gdb_if_getchar_to others t s = Ret b s' \<and> client_live s' \<and> client_input s' = r
     \<and> client_written s' = client_written s \<and> net_sent s' = net_sent s \<and> client_rest s' = client_rest s"
  unfolding gdb_if_getchar_to_def
proof (rule with_broken_lock_Ret [OF assms(1)])
  fix s1 :: "'a client_scheme"
  assume s1: "client_live s1" "client_input s1 = client_input s"
  then have inp: "client_input s1 = Byte b # r" using assms(2) by simp
  let ?body = "if buffer_index s1 < buffer_size s1 then
       Ret (buffer s1 ! buffer_index s1) (s1\<lparr>buffer_index := Suc (buffer_index s1)\<rparr>)
     else (case sock_select t (net_rx s1) of
            None \<Rightarrow> Stop Blocked s1
          | Some (True, r) \<Rightarrow> gdb_if_getchar (s1\<lparr>net_rx := r\<rparr>)
          | Some (False, r) \<Rightarrow> Ret 0xFF (s1\<lparr>net_rx := r\<rparr>))"
  have "?body = gdb_if_getchar s1"
  proof (cases "buffer_index s1 < buffer_size s1")
    case True
    then show ?thesis by (simp add: gdb_if_getchar_def)
  next
    case False
    with inp sock_select_byte [of "net_rx s1" b r t] show ?thesis
      by (simp add: client_input_drained)
  qed
  with client_get [OF s1(1), of b r] inp show "\<exists>s2. ?body = Ret b s2 \<and> client_live s2
     \<and> client_input s2 = r \<and> client_written s2 = client_written s1 \<and> net_sent s2 = net_sent s1
     \<and> client_rest s2 = client_rest s1" by simp
qed

lemma client_get_to_timeout:
  assumes "client_live s" "0 \<le> t" and "client_input s = Silence # r \<or> client_input s = [] \<and> r = []"
  shows "\<exists>s'. gdb_if_getchar_to others t s = Ret 255 s' \<and> client_live s' \<and> client_input s' = r
     \<and> client_written s' = client_written s \<and> net_sent s' = net_sent s \<and> client_rest s' = client_rest s"
  unfolding gdb_if_getchar_to_def
proof (rule with_broken_lock_Ret [OF assms(1)])
  fix s1 :: "'a client_scheme"
  assume s1: "client_live s1" "client_input s1 = client_input s"
  have "client_bounds s1" using s1(1) by (simp add: client_live_def)
  with client_input_buffered [of s1] have drained: "buffer_size s1 \<le> buffer_index s1"
    using assms(3) s1(2) by (cases "buffer_index s1 < buffer_size s1") auto
  then have inp: "concat (map rx_arrivals (net_rx s1)) = client_input s"
    using s1(2) by (simp add: client_input_drained)
  obtain rx where "sock_select t (net_rx s1) = Some (False, rx)" "concat (map rx_arrivals rx) = r"
    using sock_select_silence [OF assms(2), of "net_rx s1" r] sock_select_end [OF assms(2), of "net_rx s1"]
      assms(3) inp by auto
  with drained s1(1) show "\<exists>s2. (if buffer_index s1 < buffer_size s1 then
       Ret (buffer s1 ! buffer_index s1) (s1\<lparr>buffer_index := Suc (buffer_index s1)\<rparr>)
     else (case sock_select t (net_rx s1) of
            None \<Rightarrow> Stop Blocked s1
          | Some (True, r) \<Rightarrow> gdb_if_getchar (s1\<lparr>net_rx := r\<rparr>)
          | Some (False, r) \<Rightarrow> Ret 0xFF (s1\<lparr>net_rx := r\<rparr>))) = Ret 255 s2 \<and> client_live s2
     \<and> client_input s2 = r \<and> client_written s2 = client_written s1 \<and> net_sent s2 = net_sent s1
     \<and> client_rest s2 = client_rest s1"
    by (simp add: client_live_def client_bounds_def client_input_drained client_written_def client_rest_def)
qed

lemma sock_recv_hangup:
  "concat (map rx_arrivals rx) = replicate k Silence @ Hangup # r \<Longrightarrow>
     \<exists>rx'. sock_recv rx = Some (None, rx')"
proof (induction rx arbitrary: k rule: sock_recv.induct)
  case (2 rx)
  then show ?case by (cases k) auto
next
  case (4 b bs rx)
  then show ?case by (cases k) auto
qed auto

lemma sock_select_hangup:
  "concat (map rx_arrivals rx) = Hangup # r \<Longrightarrow> sock_select t rx = Some (True, rx)"
  by (cases rx; cases "hd rx") auto

lemma getchar_hangup:
  assumes live: "client_live s" and inp: "client_input s = replicate k Silence @ Hangup # r"
  shows "\<exists>s'. gdb_if_getchar s = Stop Deleted s' \<and> num_clients s' = num_clients s - 1
     \<and> sock_closed s' \<and> mutex_holder (gdb_mutex s') = None \<and> lock_ok (gdb_mutex s')"
proof -
  have "client_bounds s" using live by (simp add: client_live_def)
  with client_input_buffered [of s] have drained: "buffer_size s \<le> buffer_index s"
    using inp by (cases k; cases "buffer_index s < buffer_size s") auto
  then obtain rx where "sock_recv (net_rx s) = Some (None, rx)"
    using sock_recv_hangup inp by (metis client_input_drained)
  with drained gl.suspend_free [of "gdb_mutex s" "this_task s"] live show ?thesis
    by (auto simp: gdb_if_getchar_def destroy_def client_live_def)
qed

lemma sock_recv_none:
  "next_byte (concat (map rx_arrivals rx)) = None \<Longrightarrow>
     sock_recv rx = None \<or> (\<exists>rx'. sock_recv rx = Some (None, rx'))"
  by (induction rx rule: sock_recv.induct) auto

lemma getchar_stops:
  assumes live: "client_live s" and nb: "next_byte (client_input s) = None"
  shows "\<exists>w. (\<exists>s'. gdb_if_getchar s = Stop w s') \<and> (w = Blocked \<or> w = Deleted)"
proof -
  have "client_bounds s" using live by (simp add: client_live_def)
  with client_input_buffered [of s] have drained: "buffer_size s \<le> buffer_index s"
    using nb by (cases "buffer_index s < buffer_size s") auto
  with nb sock_recv_none [of "net_rx s"] show ?thesis
    by (auto simp: gdb_if_getchar_def destroy_def client_input_drained)
qed

lemma getchar_to_hangup:
  assumes "client_live s" and "client_input s = Hangup # r"
  shows "\<exists>s'. gdb_if_getchar_to others t s = Stop Deleted s' \<and> num_clients s' = num_clients s - 1
            \<and> sock_closed s' \<and> mutex_holder (gdb_mutex s') = None"
proof -
  obtain st l where bl: "gdb_breaklock (this_task s) (gdb_mutex s) = (st, l)" by fastforce
  let ?s1 = "client.more_update others (s\<lparr>gdb_mutex := l\<rparr>)"
  have live: "client_live ?s1" and inp: "client_input ?s1 = Hangup # r"
    using assms gl.suspend_free [of "gdb_mutex s" "this_task s"] bl
    by (auto simp: client_live_def client_bounds_def client_input_def)
  have "client_bounds ?s1" using live by (simp add: client_live_def)
  with client_input_buffered [of ?s1] inp have drained: "\<not> buffer_index ?s1 < buffer_size ?s1" by auto
  then have "sock_select t (net_rx ?s1) = Some (True, net_rx ?s1)"
    using inp sock_select_hangup by (metis client_input_drained not_less)
  with drained getchar_hangup [OF live, of 0 r] inp show ?thesis
    by (auto simp: gdb_if_getchar_to_def with_broken_lock_def bl)
qed

interpretation cl: gdb_channel "client_if others" client_live client_input client_written net_sent
  client_rest for others
proof unfold_locales
  fix s :: "'a client_scheme" and r t
  assume "client_live s" "client_input s = Hangup # r"
  then show "\<exists>s'. if_getchar_to (client_if others) t s = Stop Deleted s'"
    using getchar_to_hangup [of s r others t] by (auto simp: client_if_def)
qed (auto simp: client_if_def client_put client_get client_get_to_byte client_get_to_timeout
      getchar_stops)

section \<open>Properties\<close>

text \<open>
  However the network cuts the stream into \<open>recv\<close> results, and whatever silence lies between,
  \<open>gdb_if_getchar\<close> delivers the bytes the debugger sent, each once and in order, and changes
  nothing else.
\<close>

theorem client_reads_stream:
  fixes s :: "'x client_scheme"
  assumes "client_live s" and "client_input s = map Byte bs @ r"
  shows "\<exists>s'. read_n gdb_if_getchar (length bs) s = Ret bs s' \<and> client_live s'
     \<and> client_input s' = r \<and> client_written s' = client_written s \<and> client_rest s' = client_rest s"
  using cl.read_chars [of s bs r "\<lambda>x. x"] assms by (auto simp: client_if_def)

definition client_example :: client where
  "client_example = \<lparr>buf = replicate 256 0, bufsize = 0, buffer = replicate 256 0, buffer_index = 0,
     buffer_size = 0, sock = 4, num_clients = 1, sock_closed = False, this_task = 1,
     gdb_mutex = \<lparr>mutex_holder = Some 1, gdb_mutex_lockcount = 2\<rparr>,
     net_rx = [Arrives 36 [113, 67], Quiet, Arrives 35 []], net_tx = None, net_sent = []\<rparr>"

lemma client_example_live [simp]: "client_live client_example"
  by (simp add: client_live_def client_bounds_def client_example_def lock_ok_def BUFFER_SIZE_def)

lemma client_example_input [simp]:
  "client_input client_example = [Byte 36, Byte 113, Byte 67, Silence, Byte 35]"
  by (simp add: client_input_def client_example_def)

theorem client_reads_stream_witness:
  "\<exists>s'. read_n gdb_if_getchar 3 client_example = Ret [36, 113, 67] s' \<and> client_input s' = [Silence, Byte 35]"
proof -
  have "client_input client_example = map Byte [36, 113, 67] @ [Silence, Byte 35]" by simp
  from client_reads_stream [OF client_example_live this] show ?thesis
    by (auto simp: numeral_eq_Suc)
qed

definition bounded_outcome :: "('a, 'x client_scheme) outcome \<Rightarrow> bool" where
  "bounded_outcome o1 =
     (case o1 of Ret _ s \<Rightarrow> client_bounds s | Stop w s \<Rightarrow> w \<noteq> OutOfBounds \<and> (w \<noteq> Deleted \<longrightarrow> client_bounds s))"

lemma sock_recv_length:
  "sock_recv rx = Some (Some bs, rx') \<Longrightarrow> 0 < length bs \<and> length bs \<le> BUFFER_SIZE"
  by (induction rx rule: sock_recv.induct) (auto simp: BUFFER_SIZE_def)

lemma getchar_bounded:
  assumes "client_bounds s"
  shows "bounded_outcome (gdb_if_getchar s)"
proof (cases "buffer_size s \<le> buffer_index s")
  case False
  with assms show ?thesis by (simp add: gdb_if_getchar_def bounded_outcome_def client_bounds_def)
next
  case True
  with assms sock_recv_length [of "net_rx s"] show ?thesis
    by (auto simp: gdb_if_getchar_def bounded_outcome_def client_bounds_def destroy_def Suc_le_eq
        split: option.splits)
qed

lemma with_broken_lock_bounded:
  assumes body: "\<And>s. client_bounds s \<Longrightarrow> bounded_outcome (body s)" and s: "client_bounds s"
  shows "bounded_outcome (with_broken_lock others body s)"
proof -
  obtain st l where bl: "gdb_breaklock (this_task s) (gdb_mutex s) = (st, l)" by fastforce
  let ?s1 = "client.more_update others (s\<lparr>gdb_mutex := l\<rparr>)"
  have "client_bounds ?s1" using s by (simp add: client_bounds_def)
  note b = body [OF this]
  show ?thesis
  proof (cases "body ?s1")
    case (Ret a s2)
    have "client_bounds (s2\<lparr>gdb_mutex := l'\<rparr>)" for l'
      using b Ret by (simp add: bounded_outcome_def client_bounds_def)
    with b Ret show ?thesis
      by (simp add: with_broken_lock_def bl bounded_outcome_def split: option.splits)
  next
    case (Stop w s2)
    with b show ?thesis by (simp add: with_broken_lock_def bl bounded_outcome_def)
  qed
qed

lemma getchar_to_bounded:
  assumes "client_bounds s"
  shows "bounded_outcome (gdb_if_getchar_to others t s)"
  unfolding gdb_if_getchar_to_def
proof (rule with_broken_lock_bounded [OF _ assms])
  fix s :: "'a client_scheme"
  assume s: "client_bounds s"
  show "bounded_outcome (if buffer_index s < buffer_size s then
       Ret (buffer s ! buffer_index s) (s\<lparr>buffer_index := Suc (buffer_index s)\<rparr>)
     else (case sock_select t (net_rx s) of
            None \<Rightarrow> Stop Blocked s
          | Some (True, r) \<Rightarrow> gdb_if_getchar (s\<lparr>net_rx := r\<rparr>)
          | Some (False, r) \<Rightarrow> Ret 0xFF (s\<lparr>net_rx := r\<rparr>)))"
  proof (cases "buffer_index s < buffer_size s")
    case True
    with s show ?thesis by (simp add: bounded_outcome_def client_bounds_def)
  next
    case False
    have "client_bounds (s\<lparr>net_rx := r\<rparr>)" for r using s by (simp add: client_bounds_def)
    with False s getchar_bounded show ?thesis
      by (auto simp: bounded_outcome_def split: option.splits bool.splits)
  qed
qed

lemma putchar_bounded:
  assumes "client_bounds s"
  shows "bounded_outcome (gdb_if_putchar c f s)"
  using assms
  by (auto simp: gdb_if_putchar_def bounded_outcome_def client_bounds_def Let_def destroy_def
      split: option.splits nat.splits)

text \<open>
  The buffers are never overrun: whatever the state of the network and of the lock, each of
  the three methods keeps every index inside its array unless it ends the task, and no write is
  out of bounds.
\<close>

theorem client_buffers_bounded:
  fixes s :: "'x client_scheme"
  assumes "client_bounds s"
  shows "bounded_outcome (gdb_if_getchar s) \<and> bounded_outcome (gdb_if_getchar_to others t s)
       \<and> bounded_outcome (gdb_if_putchar c f s)"
  using assms by (simp add: getchar_bounded getchar_to_bounded putchar_bounded)

text \<open>
  When the debugger disconnects, the next read ends the task cleanly from either read method:
  the client is counted out once, its socket is closed, and the lock is free for the other clients
  even if this task held it at any depth.
\<close>

theorem client_disconnect:
  fixes s :: "'x client_scheme"
  assumes "client_live s" and "client_input s = Hangup # r"
  shows "(\<exists>s'. gdb_if_getchar s = Stop Deleted s' \<and> num_clients s' = num_clients s - 1
            \<and> sock_closed s' \<and> mutex_holder (gdb_mutex s') = None)
       \<and> (\<exists>s'. gdb_if_getchar_to others t s = Stop Deleted s' \<and> num_clients s' = num_clients s - 1
            \<and> sock_closed s' \<and> mutex_holder (gdb_mutex s') = None)"
  using getchar_hangup [OF assms(1), of 0 r] getchar_to_hangup [OF assms] assms(2) by auto

theorem client_buffers_bounded_witness:
  "bounded_outcome (gdb_if_putchar 36 True client_example)"
  using client_buffers_bounded [of client_example "\<lambda>x. x" 20 36 True]
  by (simp add: client_bounds_def client_example_def BUFFER_SIZE_def)

theorem client_disconnect_witness:
  "\<exists>s'. gdb_if_getchar_to (\<lambda>x. x) 20 (client_example\<lparr>net_rx := [Closed]\<rparr>) = Stop Deleted s'
     \<and> num_clients s' = 0 \<and> mutex_holder (gdb_mutex s') = None"
proof -
  have "client_live (client_example\<lparr>net_rx := [Closed]\<rparr>)"
    "client_input (client_example\<lparr>net_rx := [Closed]\<rparr>) = Hangup # []"
    using client_example_live
    by (auto simp: client_live_def client_bounds_def client_input_def client_example_def)
  from client_disconnect [OF this, of "\<lambda>x. x" 20] show ?thesis
    by (auto simp: client_example_def)
qed

end
