(* ===== verification/Clib.thy ===== *)
theory Clib
  imports Prelude
begin

text \<open>
  The formatted input and output of the C library, as far as the sources use it: \<open>vasprintf\<close> and
  \<open>snprintf\<close> with the conversions \<open>d u x X s %\<close>, a zero flag and a width; \<open>sscanf\<close> with literal
  characters, \<open>x\<close> with a width, \<open>d\<close> and \<open>n\<close>; \<open>atoi\<close>. Integers are the 32-bit ones of the target.
\<close>

section \<open>Printing numbers\<close>

function digits :: "nat \<Rightarrow> nat \<Rightarrow> nat list" where
  "digits b n = (if n < b \<or> b < 2 then [n] else digits b (n div b) @ [n mod b])"
  by pat_completeness auto
termination
  by (relation "measure snd") auto

declare digits.simps [simp del]

definition hexdigit_lower :: "nat \<Rightarrow> byte" where
  "hexdigit_lower n = (if n < 10 then of_nat (48 + n) else of_nat (87 + n))"

definition fmt_dec :: "nat \<Rightarrow> byte list" where
  "fmt_dec n = map hexdigit (digits 10 n)"

definition fmt_hex :: "nat \<Rightarrow> byte list" where
  "fmt_hex n = map hexdigit_lower (digits 16 n)"

definition fmt_HEX :: "nat \<Rightarrow> byte list" where
  "fmt_HEX n = map hexdigit (digits 16 n)"

definition fmt_int :: "int \<Rightarrow> byte list" where
  "fmt_int i = (if i < 0 then 45 # fmt_dec (nat (- i)) else fmt_dec (nat i))"

definition pad_to :: "bool \<Rightarrow> nat \<Rightarrow> byte list \<Rightarrow> byte list" where
  "pad_to zero width t = replicate (width - length t) (if zero then 48 else 32) @ t"

section \<open>vasprintf\<close>

datatype farg = FNum u32 | FStr "byte list"

fun isdigit :: "byte \<Rightarrow> bool" where
  "isdigit b = (48 \<le> b \<and> b \<le> 57)"

definition fmt_width :: "byte list \<Rightarrow> nat" where
  "fmt_width ds = foldl (\<lambda>a d. 10 * a + (unat d - 48)) 0 ds"

text \<open>
  A conversion after the percent sign: the flag \<open>0\<close>, the width, length modifiers \<open>l\<close>, the
  conversion character. \<open>None\<close> when there is none.
\<close>

definition parse_conv :: "byte list \<Rightarrow> (bool \<times> nat \<times> byte \<times> byte list) option" where
  "parse_conv f =
     (let zero = (f \<noteq> [] \<and> hd f = 48);
          f1 = (if zero then tl f else f);
          width = fmt_width (takeWhile isdigit f1);
          f2 = dropWhile (\<lambda>b. b = 108) (dropWhile isdigit f1)
      in case f2 of [] \<Rightarrow> None | c # f3 \<Rightarrow> Some (zero, width, c, f3))"

lemma parse_conv_shorter:
  assumes "parse_conv f = Some (z, w, c, f3)"
  shows "length f3 < length f"
proof -
  let ?f1 = "if f \<noteq> [] \<and> hd f = 48 then tl f else f"
  have "length (dropWhile (\<lambda>b. b = 108) (dropWhile isdigit ?f1)) \<le> length ?f1"
    by (meson length_dropWhile_le order_trans)
  also have "length ?f1 \<le> length f" by simp
  finally show ?thesis
    using assms by (auto simp: parse_conv_def Let_def split: list.splits)
qed

text \<open>
  \<open>None\<close> is undefined behaviour: an unknown conversion, or one whose argument is missing or of the
  wrong kind.
\<close>

function vasprintf :: "byte list \<Rightarrow> farg list \<Rightarrow> byte list option" where
  "vasprintf [] args = Some []"
| "vasprintf (b # f) args =
     (if b \<noteq> 37 then map_option (\<lambda>t. b # t) (vasprintf f args)
      else (case parse_conv f of
         None \<Rightarrow> None
       | Some (z, w, c, f3) \<Rightarrow>
           if c = 37 then map_option (\<lambda>t. 37 # t) (vasprintf f3 args)
           else (case args of
              [] \<Rightarrow> None
            | FStr s # args' \<Rightarrow>
                if c = 115 then map_option (\<lambda>t. pad_to z w s @ t) (vasprintf f3 args') else None
            | FNum n # args' \<Rightarrow>
                if c = 100 then map_option (\<lambda>t. pad_to z w (fmt_int (sint n)) @ t) (vasprintf f3 args')
                else if c = 117 then map_option (\<lambda>t. pad_to z w (fmt_dec (unat n)) @ t) (vasprintf f3 args')
                else if c = 120 then map_option (\<lambda>t. pad_to z w (fmt_hex (unat n)) @ t) (vasprintf f3 args')
                else if c = 88 then map_option (\<lambda>t. pad_to z w (fmt_HEX (unat n)) @ t) (vasprintf f3 args')
                else None)))"
  by pat_completeness auto
termination
  by (relation "measure (\<lambda>(f, args). length f)") (auto dest!: parse_conv_shorter)

lemma vasprintf_plain: "37 \<notin> set f \<Longrightarrow> vasprintf f args = Some f"
  by (induction f) auto

lemma vasprintf_plain_append:
  "37 \<notin> set p \<Longrightarrow> vasprintf (p @ f) args = map_option (\<lambda>t. p @ t) (vasprintf f args)"
  by (induction p) (auto simp: map_option_case split: option.splits)

section \<open>sscanf and atoi\<close>

datatype scan_item = Lit byte | Hex nat | Dec | Pos

datatype scan_val = SNum u32 | SPos nat

definition sign_len :: "byte list \<Rightarrow> nat" where
  "sign_len t = (if t \<noteq> [] \<and> (hd t = 43 \<or> hd t = 45) then 1 else 0)"

definition prefix_len :: "byte list \<Rightarrow> nat" where
  "prefix_len t =
     (case t of z # x # d # _ \<Rightarrow> if z = 48 \<and> (x = 120 \<or> x = 88) \<and> hexval d \<noteq> None then 2 else 0
      | _ \<Rightarrow> 0)"

definition hex_value :: "byte list \<Rightarrow> nat" where
  "hex_value ds = foldl (\<lambda>a d. 16 * a + the (hexval d)) 0 ds"

definition clamp_signed :: "bool \<Rightarrow> nat \<Rightarrow> u32" where
  "clamp_signed neg v =
     (if neg then of_int (max (- int v) (- (2 ^ 31))) else of_int (min (int v) (2 ^ 31 - 1)))"

definition clamp_unsigned :: "bool \<Rightarrow> nat \<Rightarrow> u32" where
  "clamp_unsigned neg v =
     (let u = of_nat (min v (2 ^ 32 - 1)) in if neg \<and> v < 2 ^ 32 then - u else u)"

text \<open>A number of at most \<open>width\<close> characters (0: no limit) after white space, and the characters used.\<close>

definition scan_hex :: "nat \<Rightarrow> byte list \<Rightarrow> (u32 \<times> nat) option" where
  "scan_hex width inp =
     (let ws = length (takeWhile isspace inp);
          t = (if width = 0 then drop ws inp else take width (drop ws inp));
          sg = sign_len t; u = drop sg t; px = prefix_len u;
          ds = takeWhile (\<lambda>b. hexval b \<noteq> None) (drop px u)
      in if ds = [] then None
         else Some (clamp_unsigned (sg = 1 \<and> hd t = 45) (hex_value ds), ws + sg + px + length ds))"

definition scan_dec :: "byte list \<Rightarrow> (u32 \<times> nat) option" where
  "scan_dec inp =
     (let ws = length (takeWhile isspace inp); t = drop ws inp;
          sg = sign_len t; ds = takeWhile isdigit (drop sg t)
      in if ds = [] then None
         else Some (clamp_signed (sg = 1 \<and> hd t = 45) (fmt_width ds), ws + sg + length ds))"

text \<open>The values assigned by \<open>sscanf\<close>, in order; it stops at the first item that does not match.\<close>

fun sscanf_at :: "nat \<Rightarrow> byte list \<Rightarrow> scan_item list \<Rightarrow> scan_val list" where
  "sscanf_at p inp [] = []"
| "sscanf_at p inp (Lit c # f) =
     (case inp of [] \<Rightarrow> [] | b # r \<Rightarrow> if b = c then sscanf_at (Suc p) r f else [])"
| "sscanf_at p inp (Hex w # f) =
     (case scan_hex w inp of None \<Rightarrow> []
      | Some (v, k) \<Rightarrow> SNum v # sscanf_at (p + k) (drop k inp) f)"
| "sscanf_at p inp (Dec # f) =
     (case scan_dec inp of None \<Rightarrow> []
      | Some (v, k) \<Rightarrow> SNum v # sscanf_at (p + k) (drop k inp) f)"
| "sscanf_at p inp (Pos # f) = SPos p # sscanf_at p inp f"

definition sscanf :: "byte list \<Rightarrow> scan_item list \<Rightarrow> scan_val list" where
  "sscanf inp f = sscanf_at 0 inp f"

definition lits :: "string \<Rightarrow> scan_item list" where
  "lits s = map Lit (str s)"

text \<open>The number of conversions, which is what \<open>sscanf\<close> returns (\<open>%n\<close> does not count).\<close>

definition scan_count :: "scan_val list \<Rightarrow> nat" where
  "scan_count vs = length (filter (\<lambda>v. case v of SNum _ \<Rightarrow> True | SPos _ \<Rightarrow> False) vs)"

definition atoi :: "byte list \<Rightarrow> u32" where
  "atoi s = (case scan_dec (cstr s) of None \<Rightarrow> 0 | Some (v, _) \<Rightarrow> v)"

section \<open>Lengths and round trips\<close>

lemma length_digits_bound: "2 \<le> b \<Longrightarrow> n < b ^ Suc k \<Longrightarrow> length (digits b n) \<le> Suc k"
proof (induction k arbitrary: n)
  case 0
  then show ?case by (simp add: digits.simps)
next
  case (Suc k)
  show ?case
  proof (cases "n < b")
    case True
    then show ?thesis by (simp add: digits.simps)
  next
    case False
    have "n div b < b ^ Suc k"
      using Suc.prems by (simp add: less_mult_imp_div_less mult.commute)
    from Suc.IH [OF Suc.prems(1) this] False Suc.prems(1) show ?thesis
      by (subst digits.simps) simp
  qed
qed

lemma digits_less: "2 \<le> b \<Longrightarrow> d \<in> set (digits b n) \<Longrightarrow> d < b"
proof (induction b n rule: digits.induct)
  case (1 b n)
  then show ?case by (cases "n < b") (auto simp: digits.simps [of b n])
qed

lemma digits_nonempty [simp]: "digits b n \<noteq> []"
  by (subst digits.simps) simp

lemma digits_value:
  "2 \<le> b \<Longrightarrow> foldl (\<lambda>a d. b * a + d) 0 (digits b n) = n"
proof (induction b n rule: digits.induct)
  case (1 b n)
  then show ?case by (cases "n < b") (auto simp: digits.simps [of b n])
qed

lemma hexval_hexdigit_lower [simp]: "n < 16 \<Longrightarrow> hexval (hexdigit_lower n) = Some n"
  by (erule less_16E; elim insertE emptyE; simp add: hexval_def hexdigit_lower_def)

lemma hexdigit_lower_plain [simp]:
  "n < 16 \<Longrightarrow> hexdigit_lower n \<noteq> 43 \<and> hexdigit_lower n \<noteq> 45 \<and> hexdigit_lower n \<noteq> 120
     \<and> hexdigit_lower n \<noteq> 88 \<and> \<not> isspace (hexdigit_lower n)"
  by (erule less_16E; elim insertE emptyE; simp add: hexdigit_lower_def isspace_def)

lemma hex_value_fmt [simp]: "hex_value (fmt_hex n) = n"
proof -
  have "foldl (\<lambda>a d. 16 * a + the (hexval d)) x (map hexdigit_lower ds) = foldl (\<lambda>a d. 16 * a + d) x ds"
    if "\<forall>d\<in>set ds. d < 16" for ds x using that by (induction ds arbitrary: x) auto
  from this [of "digits 16 n" 0] digits_value [of 16 n] digits_less [of 16 _ n] show ?thesis
    by (simp add: hex_value_def fmt_hex_def)
qed

lemma length_fmt_dec_u32: "length (fmt_dec (unat (n :: u32))) \<le> 10"
proof -
  have "unat n < 2 ^ 32" using unsigned_less [where ?'a = nat, of n] by simp
  then have "unat n < 10 ^ Suc 9" by simp
  from length_digits_bound [OF _ this] show ?thesis by (simp add: fmt_dec_def)
qed

lemma length_fmt_int_u32: "length (fmt_int (sint (n :: u32))) \<le> 11"
proof -
  have "- (2 ^ 31) \<le> sint n" "sint n < 2 ^ 31"
    using sint_ge [of n] sint_lt [of n] by simp_all
  then have "nat (- sint n) < 10 ^ Suc 9" "nat (sint n) < 10 ^ Suc 9" by simp_all
  from this [THEN length_digits_bound [rotated]] show ?thesis
    by (simp add: fmt_int_def fmt_dec_def le_SucI)
qed

text \<open>Reading back a hexadecimal number followed by a character that is not a digit.\<close>

lemma scan_hex_fmt:
  assumes n: "n < 2 ^ 32" and k: "r = [] \<or> hexval (hd r) = None \<and> hd r \<noteq> 120 \<and> hd r \<noteq> 88"
    and w: "w = 0 \<or> length (fmt_hex n) \<le> w"
  shows "scan_hex w (fmt_hex n @ r) = Some (of_nat n, length (fmt_hex n))"
proof -
  obtain d ds where ds: "digits 16 n = d # ds" by (metis digits_nonempty list.exhaust)
  have small: "\<forall>d\<in>set (d # ds). d < 16" using digits_less [of 16 _ n] ds by simp
  have f: "fmt_hex n = hexdigit_lower d # map hexdigit_lower ds" by (simp add: fmt_hex_def ds)
  obtain r' where t: "(if w = 0 then fmt_hex n @ r else take w (fmt_hex n @ r)) = fmt_hex n @ r'"
    and r': "r' = [] \<or> hexval (hd r') = None \<and> hd r' \<noteq> 120 \<and> hd r' \<noteq> 88"
  proof (cases "w = 0")
    case True
    with k that show thesis by auto
  next
    case False
    with w k show thesis
      by (intro that [of "take (w - length (fmt_hex n)) r"]) (auto simp: hd_take)
  qed
  have ws: "takeWhile isspace (fmt_hex n @ r) = []" using small by (simp add: f)
  have sg: "sign_len (fmt_hex n @ r') = 0" using small by (simp add: sign_len_def f)
  have px: "prefix_len (fmt_hex n @ r') = 0"
  proof (cases ds)
    case Nil
    with r' show ?thesis by (cases r') (auto simp: prefix_len_def f split: list.split)
  next
    case (Cons e es)
    with small show ?thesis by (simp add: prefix_len_def f split: list.split)
  qed
  have tw: "takeWhile (\<lambda>b. hexval b \<noteq> None) (fmt_hex n @ r') = fmt_hex n"
    using small r' by (subst takeWhile_append2) (auto simp: f takeWhile_eq_Nil_iff)
  have ne: "fmt_hex n \<noteq> []" by (simp add: f)
  have v: "clamp_unsigned False n = of_nat n" using n by (simp add: clamp_unsigned_def min_def)
  show ?thesis
    unfolding scan_hex_def Let_def ws list.size drop_0 t sg px tw hex_value_fmt
    using ne v by simp
qed

lemma fmt_hex_no_nul [simp]: "0 \<notin> set (fmt_hex n)"
proof -
  have "hexdigit_lower d \<noteq> 0" if "d < 16" for d
    using that by (elim less_16E insertE emptyE; simp add: hexdigit_lower_def)
  then show ?thesis using digits_less [of 16 _ n] by (force simp: fmt_hex_def)
qed

lemma fmt_hex_bound: "length (fmt_hex (unat (n :: u32))) \<le> 8"
proof -
  have "unat n < 2 ^ 32" using unsigned_less [where ?'a = nat, of n] by simp
  then have "unat n < 16 ^ Suc 7" by simp
  from length_digits_bound [OF _ this] show ?thesis by (simp add: fmt_hex_def)
qed

lemma cstr_append: "0 \<notin> set h \<Longrightarrow> cstr (h @ r) = h @ cstr r"
  unfolding cstr_def by (subst takeWhile_append2) auto

lemma cstr_nul [simp]: "cstr (0 # r) = []"
  by (simp add: cstr_def)

text \<open>The scanner over a text that was printed.\<close>

lemma sscanf_at_lits:
  "sscanf_at p (str t @ r) (lits t @ f) = sscanf_at (p + length t) r f"
  by (induction t arbitrary: p) (auto simp: lits_def)

lemma sscanf_at_hex:
  fixes n :: u32
  assumes "r = [] \<or> hexval (hd r) = None \<and> hd r \<noteq> 120 \<and> hd r \<noteq> 88" and "w = 0 \<or> w = 8"
  shows "sscanf_at p (fmt_hex (unat n) @ r) (Hex w # f)
    = SNum n # sscanf_at (p + length (fmt_hex (unat n))) r f"
proof -
  have "unat n < 2 ^ 32" using unsigned_less [where ?'a = nat, of n] by simp
  from scan_hex_fmt [OF this assms(1), of w] assms(2) fmt_hex_bound [of n] show ?thesis by auto
qed

lemma sscanf_two_hex:
  fixes a l :: u32
  assumes "r = [] \<or> hexval (hd r) = None \<and> hd r \<noteq> 120 \<and> hd r \<noteq> 88" and "w = 0 \<or> w = 8"
  shows "sscanf (str t @ fmt_hex (unat a) @ str '','' @ fmt_hex (unat l) @ r)
      (lits t @ [Hex w] @ lits '','' @ [Hex w] @ f)
    = SNum a # SNum l # sscanf_at
        (length (str t @ fmt_hex (unat a) @ str '','' @ fmt_hex (unat l))) r f"
proof -
  let ?t2 = "44 # fmt_hex (unat l) @ r"
  have comma: "str '','' = [44]" "lits '','' = [Lit 44]" by (simp_all add: lits_def)
  have "?t2 = [] \<or> hexval (hd ?t2) = None \<and> hd ?t2 \<noteq> 120 \<and> hd ?t2 \<noteq> 88" by (simp add: hexval_def)
  note one = sscanf_at_hex [OF this assms(2)]
  note two = sscanf_at_hex [OF assms]
  show ?thesis
    unfolding sscanf_def comma append_Cons append_Nil append_assoc sscanf_at_lits
    by (simp add: one two add.assoc del: sscanf_at.simps(3))
qed

text \<open>Reading back a decimal number.\<close>

lemma hexdigit_digit: "d < 10 \<Longrightarrow> isdigit (hexdigit d) \<and> unat (hexdigit d) - 48 = d"
proof -
  assume "d < 10"
  then have "d < 16" by simp
  with \<open>d < 10\<close> show ?thesis by (elim less_16E insertE emptyE; simp add: hexdigit_def)
qed

lemma fmt_width_fmt [simp]: "fmt_width (fmt_dec n) = n"
proof -
  have "foldl (\<lambda>a d. 10 * a + (unat d - 48)) x (map hexdigit ds) = foldl (\<lambda>a d. 10 * a + d) x ds"
    if "\<forall>d\<in>set ds. d < 10" for ds x
    using that by (induction ds arbitrary: x) (auto simp: hexdigit_digit)
  from this [of "digits 10 n" 0] digits_value [of 10 n] digits_less [of 10 _ n] show ?thesis
    by (simp add: fmt_width_def fmt_dec_def)
qed

lemma fmt_dec_digits: "\<forall>b\<in>set (fmt_dec n). isdigit b \<and> \<not> isspace b \<and> b \<noteq> 0 \<and> b \<noteq> 43 \<and> b \<noteq> 45"
  using digits_less [of 10 _ n] hexdigit_digit hexdigit_not_space hexdigit_plain
  by (fastforce simp: fmt_dec_def)

lemma atoi_fmt_dec: "n < 2 ^ 31 \<Longrightarrow> atoi (fmt_dec n) = of_nat n"
proof -
  assume n: "n < 2 ^ 31"
  note plain = fmt_dec_digits [of n]
  have ne: "fmt_dec n \<noteq> []" by (simp add: fmt_dec_def)
  have c: "cstr (fmt_dec n) = fmt_dec n" using plain by (intro cstr_id) auto
  have ws: "takeWhile isspace (fmt_dec n) = []"
    using plain ne by (cases "fmt_dec n") auto
  have sg: "sign_len (fmt_dec n) = 0" using plain ne by (cases "fmt_dec n") (auto simp: sign_len_def)
  have ds: "takeWhile isdigit (fmt_dec n) = fmt_dec n" using plain by (simp only: takeWhile_eq_all_conv) blast
  have v: "clamp_signed False n = of_nat n" using n by (simp add: clamp_signed_def min_def)
  show ?thesis
    unfolding atoi_def c scan_dec_def Let_def ws list.size drop_0 sg ds fmt_width_fmt
    using ne v by simp
qed

lemma atoi_minus: "n \<le> 2 ^ 31 \<Longrightarrow> atoi (45 # fmt_dec n) = - of_nat n"
proof -
  assume n: "n \<le> 2 ^ 31"
  note plain = fmt_dec_digits [of n]
  have ne: "fmt_dec n \<noteq> []" by (simp add: fmt_dec_def)
  have c: "cstr (45 # fmt_dec n) = 45 # fmt_dec n" using plain by (intro cstr_id) auto
  have ws: "takeWhile isspace (45 # fmt_dec n) = []" by (simp add: isspace_def)
  have ds: "takeWhile isdigit (fmt_dec n) = fmt_dec n" using plain by (simp only: takeWhile_eq_all_conv) blast
  have v: "clamp_signed True n = - of_nat n" using n by (simp add: clamp_signed_def max_def)
  show ?thesis
    unfolding atoi_def c scan_dec_def Let_def ws list.size drop_0
    using ne v by (simp add: sign_len_def ds)
qed

end
