(* ===== verification/GdbPacket.thy ===== *)
theory GdbPacket
  imports GdbClient Clib
begin

text \<open>
  The GDB remote protocol packets of \<open>src/main/gdb_packet.cpp\<close>: \<open>gdb_getpacket\<close> and the functions
  that send packets, over the character interface of the class \<open>GDB\<close>. They are defined for any
  implementation of the interface; the context \<open>gdb_channel\<close> proves what they do over one that
  keeps the contract, and the properties are stated for \<open>GDB_client\<close>.
\<close>

text \<open>
  Code outside the repository that \<open>gdb_getpacket\<close> uses for the remote-control packets of the
  probe: the two delimiters of \<open>remote.h\<close> and \<open>remote_packet_process\<close>, which works on the packet
  buffer and may write to the connection; and the lock guard around it.
\<close>

record 's remote =
  REMOTE_SOM :: byte
  REMOTE_EOM :: byte
  remote_packet_process :: "nat \<Rightarrow> byte list \<Rightarrow> 's \<Rightarrow> (byte list, 's) outcome"
  guard_lock :: "'s \<Rightarrow> (unit, 's) outcome"
  guard_unlock :: "'s \<Rightarrow> (unit, 's) outcome"

section \<open>Receiving\<close>

text \<open>A complete remote-control packet: terminated, and processed under the lock.\<close>

definition remote_packet ::
  "'s remote \<Rightarrow> nat \<Rightarrow> byte list \<Rightarrow> 's \<Rightarrow> (byte list, 's) outcome" where
  "remote_packet rm i packet s =
     andthen (put_at i 0 packet s) (\<lambda>packet s.
     andthen (guard_lock rm s) (\<lambda>_ s.
     andthen (remote_packet_process rm i packet s) (\<lambda>packet s.
     andthen (guard_unlock rm s) (\<lambda>_ s. Ret packet s))))"

text \<open>
  The loop over the bytes of a remote-control packet. Every loop of the receiver takes one
  character per round, so a fuel larger than the number of characters to come is enough.
\<close>

fun remote_loop ::
  "'s gdb_if \<Rightarrow> 's remote \<Rightarrow> nat \<Rightarrow> nat \<Rightarrow> nat \<Rightarrow> byte list \<Rightarrow> 's \<Rightarrow> (byte list, 's) outcome" where
  "remote_loop ifc rm 0 sz i packet s = Stop OutOfFuel s"
| "remote_loop ifc rm (Suc n) sz i packet s =
     andthen (if_getchar ifc s) (\<lambda>c s.
       if c = REMOTE_SOM rm then remote_loop ifc rm n sz 0 packet s
       else if c = REMOTE_EOM rm then remote_packet rm i packet s
       else if c = 36 then put_at 0 36 packet s
       else if i < sz then
         andthen (put_at i c packet s) (\<lambda>packet s. remote_loop ifc rm n sz (Suc i) packet s)
       else Ret packet s)"

text \<open>
  Waiting for the start of a packet. \<open>Some k\<close>: \<open>gdb_getpacket\<close> returns \<open>k\<close> at once (a timeout, or
  one of the control characters \<open>0x04\<close> and \<open>0x03\<close>); \<open>None\<close>: a \<open>$\<close> has been read. After a
  remote-control packet the first byte of the buffer is cleared, so the wait goes on.
\<close>

fun wait_start ::
  "'s gdb_if \<Rightarrow> 's remote \<Rightarrow> nat \<Rightarrow> nat \<Rightarrow> byte list \<Rightarrow> 's \<Rightarrow> (nat option \<times> byte list, 's) outcome" where
  "wait_start ifc rm 0 sz packet s = Stop OutOfFuel s"
| "wait_start ifc rm (Suc n) sz packet s =
     andthen (if_getchar_to ifc 20 s) (\<lambda>c s.
     andthen (put_at 0 c packet s) (\<lambda>packet s.
       if c = 0xFF then Ret (Some 0, packet) s
       else if c = 0x04 then Ret (Some 1, packet) s
       else if c = 0x03 then Ret (Some 1, packet) s
       else if c \<noteq> 36 \<and> c \<noteq> REMOTE_SOM rm then wait_start ifc rm n sz packet s
       else if c = REMOTE_SOM rm then
         andthen (remote_loop ifc rm (Suc n) sz 0 packet s) (\<lambda>packet s.
         andthen (put_at 0 0 packet s) (\<lambda>packet s. wait_start ifc rm n sz packet s))
       else Ret (None, packet) s))"

text \<open>Capturing the packet data: unescaping, restarting at a \<open>$\<close>, stopping when the buffer is full.\<close>

fun capture ::
  "'s gdb_if \<Rightarrow> nat \<Rightarrow> nat \<Rightarrow> nat \<Rightarrow> byte \<Rightarrow> byte list \<Rightarrow> 's \<Rightarrow> (nat \<times> byte \<times> byte list, 's) outcome" where
  "capture ifc 0 sz i csum packet s = Stop OutOfFuel s"
| "capture ifc (Suc n) sz i csum packet s =
     andthen (if_getchar ifc s) (\<lambda>c s.
       if c = 35 then Ret (i, csum, packet) s
       else if i = sz then Ret (i, csum, packet) s
       else if c = 36 then capture ifc n sz 0 0 packet s
       else if c = 125 then
         andthen (if_getchar ifc s) (\<lambda>c s.
         andthen (put_at i (c XOR 0x20) packet s) (\<lambda>packet s.
           capture ifc n sz (Suc i) (csum + (c + 125)) packet s))
       else
         andthen (put_at i c packet s) (\<lambda>packet s.
           capture ifc n sz (Suc i) (csum + c) packet s))"

definition ack :: "'s gdb_if \<Rightarrow> bool \<Rightarrow> byte \<Rightarrow> 's \<Rightarrow> (unit, 's) outcome" where
  "ack ifc no_ack_mode c s = (if \<not> no_ack_mode then if_putchar ifc c True s else Ret () s)"

text \<open>The two check digits, and whether they are those of the data.\<close>

definition recv_checksum :: "'s gdb_if \<Rightarrow> byte \<Rightarrow> 's \<Rightarrow> (bool, 's) outcome" where
  "recv_checksum ifc csum s =
     andthen (if_getchar ifc s) (\<lambda>c1 s.
     andthen (if_getchar ifc s) (\<lambda>c2 s.
       Ret (uint csum = strtol16 (cstr [c1, c2, 0])) s))"

text \<open>\<open>gdb_getpacket\<close>: the number of bytes received and the packet buffer.\<close>

fun gdb_getpacket ::
  "'s gdb_if \<Rightarrow> 's remote \<Rightarrow> bool \<Rightarrow> nat \<Rightarrow> byte list \<Rightarrow> nat \<Rightarrow> 's \<Rightarrow> (nat \<times> byte list, 's) outcome" where
  "gdb_getpacket ifc rm no_ack_mode 0 packet sz s = Stop OutOfFuel s"
| "gdb_getpacket ifc rm no_ack_mode (Suc n) packet sz s =
     andthen (wait_start ifc rm (Suc n) sz packet s) (\<lambda>(r, packet) s.
       case r of
         Some k \<Rightarrow> Ret (k, packet) s
       | None \<Rightarrow>
           andthen (capture ifc (Suc n) sz 0 0 packet s) (\<lambda>(i, csum, packet) s.
           andthen (recv_checksum ifc csum s) (\<lambda>ok s.
             if ok then
               andthen (ack ifc no_ack_mode 43 s) (\<lambda>_ s.
               andthen (put_at i 0 packet s) (\<lambda>packet s. Ret (i, packet) s))
             else
               andthen (ack ifc no_ack_mode 45 s) (\<lambda>_ s.
                 gdb_getpacket ifc rm no_ack_mode n packet sz s))))"

section \<open>Sending\<close>

definition must_escape :: "byte \<Rightarrow> bool" where
  "must_escape c \<longleftrightarrow> c = 36 \<or> c = 35 \<or> c = 125 \<or> c = 42"

definition gdb_next_char :: "'s gdb_if \<Rightarrow> byte \<Rightarrow> byte \<Rightarrow> 's \<Rightarrow> (byte, 's) outcome" where
  "gdb_next_char ifc c csum s =
     (if must_escape c then
        andthen (if_putchar ifc 125 False s) (\<lambda>_ s.
        andthen (if_putchar ifc (c XOR 0x20) False s) (\<lambda>_ s.
          Ret (csum + (125 + (c XOR 0x20))) s))
      else andthen (if_putchar ifc c False s) (\<lambda>_ s. Ret (csum + c) s))"

primrec put_data :: "'s gdb_if \<Rightarrow> byte list \<Rightarrow> byte \<Rightarrow> 's \<Rightarrow> (byte, 's) outcome" where
  "put_data ifc [] csum s = Ret csum s"
| "put_data ifc (c # cs) csum s =
     andthen (gdb_next_char ifc c csum s) (\<lambda>csum s. put_data ifc cs csum s)"

text \<open>The end of a packet: \<open>#\<close> and the two digits of \<open>snprintf(xmit_csum, 3, "%02X", csum)\<close>, flushed.\<close>

definition put_trailer :: "'s gdb_if \<Rightarrow> byte \<Rightarrow> 's \<Rightarrow> (unit, 's) outcome" where
  "put_trailer ifc csum s =
     andthen (if_putchar ifc 35 False s) (\<lambda>_ s.
     andthen (if_putchar ifc (hex2 csum ! 0) False s) (\<lambda>_ s.
       if_putchar ifc (hex2 csum ! 1) True s))"

definition put_frame :: "'s gdb_if \<Rightarrow> byte \<Rightarrow> byte list \<Rightarrow> 's \<Rightarrow> (unit, 's) outcome" where
  "put_frame ifc pktstart data s =
     andthen (if_putchar ifc pktstart False s) (\<lambda>_ s.
     andthen (put_data ifc data 0 s) (\<lambda>csum s. put_trailer ifc csum s))"

text \<open>
  The retransmission loops. \<open>left\<close> is \<open>3 - tries\<close>. \<open>gdb_putpacket\<close> does not wait in no-ack mode;
  \<open>gdb_putpacket2\<close> has no such test.
\<close>

primrec putpacket_loop ::
  "'s gdb_if \<Rightarrow> bool \<Rightarrow> byte \<Rightarrow> byte list \<Rightarrow> nat \<Rightarrow> 's \<Rightarrow> (unit, 's) outcome" where
  "putpacket_loop ifc wait pktstart data 0 s =
     andthen (put_frame ifc pktstart data s) (\<lambda>_ s.
       if wait then andthen (if_getchar_to ifc 2000 s) (\<lambda>_ s. Ret () s) else Ret () s)"
| "putpacket_loop ifc wait pktstart data (Suc left) s =
     andthen (put_frame ifc pktstart data s) (\<lambda>_ s.
       if wait then
         andthen (if_getchar_to ifc 2000 s) (\<lambda>c s.
           if c \<noteq> 43 then putpacket_loop ifc wait pktstart data left s else Ret () s)
       else Ret () s)"

definition gdb_putpacket ::
  "'s gdb_if \<Rightarrow> bool \<Rightarrow> byte list \<Rightarrow> byte \<Rightarrow> 's \<Rightarrow> (unit, 's) outcome" where
  "gdb_putpacket ifc no_ack_mode packet pktstart s =
     putpacket_loop ifc (\<not> no_ack_mode) pktstart packet 3 s"

definition gdb_putpacket2 ::
  "'s gdb_if \<Rightarrow> byte list \<Rightarrow> byte list \<Rightarrow> 's \<Rightarrow> (unit, 's) outcome" where
  "gdb_putpacket2 ifc packet1 packet2 s = putpacket_loop ifc True 36 (packet1 @ packet2) 3 s"

definition gdb_put_notification :: "'s gdb_if \<Rightarrow> byte list \<Rightarrow> 's \<Rightarrow> (unit, 's) outcome" where
  "gdb_put_notification ifc packet s = put_frame ifc 37 packet s"

text \<open>
  The formatting variants. \<open>vasprintf\<close> builds the packet; a format it has no defined result for is
  outside the model (\<open>None\<close>).
\<close>

definition gdb_putpacket_f ::
  "'s gdb_if \<Rightarrow> bool \<Rightarrow> byte list \<Rightarrow> farg list \<Rightarrow> 's \<Rightarrow> (unit, 's) outcome option" where
  "gdb_putpacket_f ifc no_ack_mode fmt args s =
     map_option (\<lambda>b. gdb_putpacket ifc no_ack_mode b 36 s) (vasprintf fmt args)"

definition gdb_putnotifpacket_f ::
  "'s gdb_if \<Rightarrow> bool \<Rightarrow> byte list \<Rightarrow> farg list \<Rightarrow> 's \<Rightarrow> (unit, 's) outcome option" where
  "gdb_putnotifpacket_f ifc no_ack_mode fmt args s =
     map_option (\<lambda>b. gdb_putpacket ifc no_ack_mode b 37 s) (vasprintf fmt args)"

text \<open>
  Console output: \<open>hexify\<close> (outside the repository) writes two digits for each byte of the string
  behind the letter \<open>O\<close>; \<open>2 * strlen(text) + 1\<close> bytes are sent.
\<close>

definition gdb_out ::
  "'s gdb_if \<Rightarrow> (byte list \<Rightarrow> byte list) \<Rightarrow> bool \<Rightarrow> byte list \<Rightarrow> 's \<Rightarrow> (unit, 's) outcome" where
  "gdb_out ifc hexify no_ack_mode text s =
     (let b = cstr text; i = 2 * length b + 1
      in gdb_putpacket ifc no_ack_mode (take i (79 # hexify b)) 36 s)"

definition gdb_voutf ::
  "'s gdb_if \<Rightarrow> (byte list \<Rightarrow> byte list) \<Rightarrow> bool \<Rightarrow> byte list \<Rightarrow> farg list \<Rightarrow> 's
     \<Rightarrow> (unit, 's) outcome option" where
  "gdb_voutf ifc hexify no_ack_mode fmt args s =
     map_option (\<lambda>b. gdb_out ifc hexify no_ack_mode b s) (vasprintf fmt args)"

section \<open>Frames\<close>

text \<open>What a packet looks like on the wire: the specification the code is compared with.\<close>

fun escape :: "byte list \<Rightarrow> byte list" where
  "escape [] = []"
| "escape (c # cs) = (if must_escape c then 125 # (c XOR 0x20) # escape cs else c # escape cs)"

definition checksum :: "byte list \<Rightarrow> byte" where
  "checksum bs = sum_list bs"

definition frame :: "byte \<Rightarrow> byte list \<Rightarrow> byte list" where
  "frame pktstart data = pktstart # escape data @ 35 # hex2 (checksum (escape data))"

text \<open>
  How often a frame is sent and what is left of the debugger's answers when at most \<open>left\<close>
  repetitions are allowed: until an acknowledgement, with anything else (or silence) as a refusal.
\<close>

fun transmissions :: "nat \<Rightarrow> arrival list \<Rightarrow> nat \<times> arrival list" where
  "transmissions 0 ev = (1, tl ev)"
| "transmissions (Suc left) ev =
     (if ev \<noteq> [] \<and> hd ev = Byte 43 then (1, tl ev)
      else (let (k, r) = transmissions left (tl ev) in (Suc k, r)))"

lemma transmissions_bound: "fst (transmissions left ev) \<le> Suc left \<and> 0 < fst (transmissions left ev)"
  by (induction left arbitrary: ev) (auto simp: Let_def split: prod.split, (metis fst_conv)+)

lemma checksum_simps [simp]:
  "checksum [] = 0" "checksum (c # cs) = c + checksum cs" "checksum (a @ b) = checksum a + checksum b"
  by (simp_all add: checksum_def)

lemma escape_append [simp]: "escape (a @ b) = escape a @ escape b"
  by (induction a) auto

lemma escaped_not_special:
  "must_escape c \<Longrightarrow> c XOR 0x20 \<noteq> 35 \<and> c XOR 0x20 \<noteq> 36 \<and> c XOR 0x20 \<noteq> 42 \<and> c XOR 0x20 \<noteq> 125"
  by (auto simp: must_escape_def)

lemma xor_twice: "(c XOR 0x20) XOR 0x20 = (c :: byte)"
  by (rule bit_word_eqI) (auto simp: bit_simps)

text \<open>An escaped text never contains an unescaped delimiter, so a receiver finds the end of the frame.\<close>

lemma escape_no_delimiter: "35 \<notin> set (escape d) \<and> 36 \<notin> set (escape d) \<and> 42 \<notin> set (escape d)"
  by (induction d) (auto simp: must_escape_def)

lemma length_escape: "length d \<le> length (escape d) \<and> length (escape d) \<le> 2 * length d"
  by (induction d) auto

context gdb_channel
begin

lemma next_char_ok:
  assumes "live s"
  shows "\<exists>s'. gdb_next_char ifc c csum s = Ret (csum + checksum (escape [c])) s' \<and> live s'
     \<and> input s' = input s \<and> written s' = written s @ escape [c] \<and> rest s' = rest s"
proof (cases "must_escape c")
  case False
  obtain s1 where "if_putchar ifc c False s = Ret () s1" "live s1" "written s1 = written s @ [c]"
    "input s1 = input s" "rest s1 = rest s" by (rule putE [OF assms, of c False]) auto
  with False show ?thesis by (simp add: gdb_next_char_def)
next
  case True
  obtain s1 where s1: "if_putchar ifc 125 False s = Ret () s1" "live s1"
    "written s1 = written s @ [125]" "input s1 = input s" "rest s1 = rest s"
    by (rule putE [OF assms, of 125 False]) auto
  obtain s2 where "if_putchar ifc (c XOR 0x20) False s1 = Ret () s2" "live s2"
    "written s2 = written s1 @ [c XOR 0x20]" "input s2 = input s1" "rest s2 = rest s1"
    by (rule putE [OF s1(2), of "c XOR 0x20" False]) auto
  with True s1 show ?thesis by (simp add: gdb_next_char_def)
qed

lemma put_data_ok:
  "live s \<Longrightarrow> \<exists>s'. put_data ifc d csum s = Ret (csum + checksum (escape d)) s' \<and> live s'
     \<and> input s' = input s \<and> written s' = written s @ escape d \<and> rest s' = rest s"
proof (induction d arbitrary: csum s)
  case (Cons c d)
  from next_char_ok [OF Cons.prems, of c csum] obtain s1 where
    s1: "gdb_next_char ifc c csum s = Ret (csum + checksum (escape [c])) s1" "live s1"
    "input s1 = input s" "written s1 = written s @ escape [c]" "rest s1 = rest s" by blast
  have e: "escape (c # d) = escape [c] @ escape d" by simp
  from Cons.IH [OF s1(2), of "csum + checksum (escape [c])"] s1 show ?case
    unfolding e checksum_simps(3) by (auto simp: add.assoc)
qed simp

lemma put_trailer_ok:
  assumes "live s"
  shows "\<exists>s'. put_trailer ifc csum s = Ret () s' \<and> live s' \<and> input s' = input s
     \<and> written s' = written s @ 35 # hex2 csum \<and> sent s' = written s' \<and> rest s' = rest s"
proof -
  obtain s1 where s1: "if_putchar ifc 35 False s = Ret () s1" "live s1"
    "written s1 = written s @ [35]" "input s1 = input s" "rest s1 = rest s"
    by (rule putE [OF assms, of 35 False]) auto
  obtain s2 where s2: "if_putchar ifc (hex2 csum ! 0) False s1 = Ret () s2" "live s2"
    "written s2 = written s1 @ [hex2 csum ! 0]" "input s2 = input s1" "rest s2 = rest s1"
    by (rule putE [OF s1(2), of "hex2 csum ! 0" False]) auto
  obtain s3 where "if_putchar ifc (hex2 csum ! 1) True s2 = Ret () s3" "live s3"
    "written s3 = written s2 @ [hex2 csum ! 1]" "input s3 = input s2" "rest s3 = rest s2"
    "sent s3 = written s3"
    by (rule putE [OF s2(2), of "hex2 csum ! 1" True]) auto
  with s1 s2 show ?thesis by (simp add: put_trailer_def) (simp add: hex2_def)
qed

lemma put_frame_ok:
  assumes "live s"
  shows "\<exists>s'. put_frame ifc b d s = Ret () s' \<and> live s' \<and> input s' = input s
     \<and> written s' = written s @ frame b d \<and> sent s' = written s' \<and> rest s' = rest s"
proof -
  obtain s1 where s1: "if_putchar ifc b False s = Ret () s1" "live s1"
    "written s1 = written s @ [b]" "input s1 = input s" "rest s1 = rest s"
    by (rule putE [OF assms, of b False]) auto
  from put_data_ok [OF s1(2), of d 0] obtain s2 where
    s2: "put_data ifc d 0 s1 = Ret (checksum (escape d)) s2" "live s2" "input s2 = input s1"
    "written s2 = written s1 @ escape d" "rest s2 = rest s1" by auto
  from put_trailer_ok [OF s2(2), of "checksum (escape d)"] s1 s2 show ?thesis
    by (auto simp: put_frame_def frame_def)
qed

lemma answer_ok:
  assumes "live s" "input s = [] \<or> hd (input s) \<noteq> Hangup" "0 \<le> t"
  shows "\<exists>c s'. if_getchar_to ifc t s = Ret c s' \<and> live s' \<and> input s' = tl (input s)
     \<and> written s' = written s \<and> sent s' = sent s \<and> rest s' = rest s
     \<and> (c = 43 \<longleftrightarrow> input s \<noteq> [] \<and> hd (input s) = Byte 43)"
proof (cases "input s")
  case Nil
  with get_to_end [OF assms(1,3)] show ?thesis by fastforce
next
  case (Cons e r)
  with get_to_byte [OF assms(1)] get_to_silence [OF assms(1,3)] assms(2) show ?thesis
    by (cases e) fastforce+
qed

lemma putpacket_loop_ok:
  "live s \<Longrightarrow> Hangup \<notin> set (take (Suc left) (input s)) \<Longrightarrow>
     \<exists>s'. putpacket_loop ifc wait b d left s = Ret () s' \<and> live s' \<and> rest s' = rest s
       \<and> sent s' = written s'
       \<and> (if wait then
            written s' = written s @ concat (replicate (fst (transmissions left (input s))) (frame b d))
            \<and> input s' = snd (transmissions left (input s))
          else written s' = written s @ frame b d \<and> input s' = input s)"
proof (induction left arbitrary: s)
  case 0
  from put_frame_ok [OF 0(1), of b d] obtain s1 where
    s1: "put_frame ifc b d s = Ret () s1" "live s1" "input s1 = input s"
    "written s1 = written s @ frame b d" "sent s1 = written s1" "rest s1 = rest s" by blast
  have "input s1 = [] \<or> hd (input s1) \<noteq> Hangup"
    using 0(2) by (cases "input s") (auto simp: s1(3))
  from answer_ok [OF s1(2) this, of 2000] s1 show ?case by auto
next
  case (Suc left)
  from put_frame_ok [OF Suc.prems(1), of b d] obtain s1 where
    s1: "put_frame ifc b d s = Ret () s1" "live s1" "input s1 = input s"
    "written s1 = written s @ frame b d" "sent s1 = written s1" "rest s1 = rest s" by blast
  have "input s1 = [] \<or> hd (input s1) \<noteq> Hangup"
    using Suc.prems(2) by (cases "input s") (auto simp: s1(3))
  from answer_ok [OF s1(2) this, of 2000] obtain c s2 where
    s2: "if_getchar_to ifc 2000 s1 = Ret c s2" "live s2" "input s2 = tl (input s)"
    "written s2 = written s1" "sent s2 = sent s1" "rest s2 = rest s1"
    "c = 43 \<longleftrightarrow> input s \<noteq> [] \<and> hd (input s) = Byte 43"
    unfolding s1(3) by auto
  have "Hangup \<notin> set (take (Suc left) (input s2))"
    using Suc.prems(2) by (cases "input s") (auto simp: s2(3))
  from Suc.IH [OF s2(2) this] s1 s2 show ?case
    by (cases "wait"; cases "c = 43") (auto simp: Let_def case_prod_beta)
qed

lemma capture_ok:
  "live s \<Longrightarrow> input s = map Byte (escape d @ [35]) @ r \<Longrightarrow> i + length d \<le> sz \<Longrightarrow>
   sz < length p \<Longrightarrow> length d < n \<Longrightarrow>
     \<exists>s'. capture ifc n sz i csum p s =
          Ret (i + length d, csum + checksum (escape d), take i p @ d @ drop (i + length d) p) s'
       \<and> live s' \<and> input s' = r \<and> written s' = written s \<and> sent s' = sent s \<and> rest s' = rest s"
proof (induction d arbitrary: n i csum p s)
  case Nil
  then obtain m where n: "n = Suc m" by (cases n) auto
  obtain s1 where "if_getchar ifc s = Ret 35 s1" "live s1" "input s1 = r" "written s1 = written s"
    "sent s1 = sent s" "rest s1 = rest s"
    by (rule getE [OF Nil(1), of 35 r]) (use Nil in auto)
  then show ?case by (simp add: n)
next
  case (Cons c d)
  then obtain m where n: "n = Suc m" by (cases n) auto
  let ?p = "p[i := c]"
  have p: "take (Suc i) ?p = take i p @ [c]" "drop (Suc i + length d) ?p = drop (i + length (c # d)) p"
    "length ?p = length p" and lt: "i < sz" "i < length p"
    using Cons.prems by (auto simp: take_update_Suc)
  show ?case
  proof (cases "must_escape c")
    case False
    let ?r = "map Byte (escape d @ [35]) @ r"
    obtain s1 where s1: "if_getchar ifc s = Ret c s1" "live s1" "input s1 = ?r"
      "written s1 = written s" "sent s1 = sent s" "rest s1 = rest s"
      by (rule getE [OF Cons.prems(1), of c ?r]) (use Cons.prems False in auto)
    have "c \<noteq> 35" "c \<noteq> 36" "c \<noteq> 125" using False by (auto simp: must_escape_def)
    moreover have "\<exists>s'. capture ifc m sz (Suc i) (csum + c) ?p s1 =
        Ret (Suc i + length d, (csum + c) + checksum (escape d), take (Suc i) ?p @ d @ drop (Suc i + length d) ?p) s'
       \<and> live s' \<and> input s' = r \<and> written s' = written s1 \<and> sent s' = sent s1 \<and> rest s' = rest s1"
      by (rule Cons.IH [OF s1(2,3)]) (use Cons.prems n in auto)
    ultimately show ?thesis
      using s1 lt False by (auto simp: n p add.assoc)
  next
    case True
    let ?r = "map Byte (escape d @ [35]) @ r" and ?e = "c XOR 0x20"
    obtain s1 where s1: "if_getchar ifc s = Ret 125 s1" "live s1" "input s1 = Byte ?e # ?r"
      "written s1 = written s" "sent s1 = sent s" "rest s1 = rest s"
      by (rule getE [OF Cons.prems(1), of 125 "Byte ?e # ?r"]) (use Cons.prems True in auto)
    obtain s2 where s2: "if_getchar ifc s1 = Ret ?e s2" "live s2" "input s2 = ?r"
      "written s2 = written s" "sent s2 = sent s" "rest s2 = rest s"
      by (rule getE [OF s1(2), of ?e ?r]) (use s1 in auto)
    have "\<exists>s'. capture ifc m sz (Suc i) (csum + (?e + 125)) ?p s2 =
        Ret (Suc i + length d, (csum + (?e + 125)) + checksum (escape d),
             take (Suc i) ?p @ d @ drop (Suc i + length d) ?p) s'
       \<and> live s' \<and> input s' = r \<and> written s' = written s2 \<and> sent s' = sent s2 \<and> rest s' = rest s2"
      by (rule Cons.IH [OF s2(2,3)]) (use Cons.prems n in auto)
    moreover have "csum + (?e + 125) + checksum (escape d) = csum + checksum (escape (c # d))"
      using True by (simp add: add.assoc add.left_commute)
    ultimately show ?thesis
      using s1(1) s2 s1(4-6) lt True by (auto simp: n p xor_twice simp del: escape.simps)
  qed
qed

lemma wait_start_dollar:
  assumes "live s" "input s = Byte 36 # r" "REMOTE_SOM rm \<noteq> 36" "p \<noteq> []"
  shows "\<exists>s'. wait_start ifc rm (Suc n) sz p s = Ret (None, p[0 := 36]) s' \<and> live s' \<and> input s' = r
     \<and> written s' = written s \<and> sent s' = sent s \<and> rest s' = rest s"
  using get_to_byte [OF assms(1,2), of 20] assms(3,4) by auto

text \<open>One frame: data, delimiter and two check digits, right or wrong.\<close>

lemma getpacket_frame:
  assumes live: "live s" and inp: "input s = map Byte (36 # escape d @ 35 # [a, b]) @ r"
    and sz: "length d \<le> sz" "sz < length p" and n: "length d \<le> n" and som: "REMOTE_SOM rm \<noteq> 36"
  shows "\<exists>s'. live s' \<and> input s' = r \<and> rest s' = rest s
    \<and> (let q = d @ drop (length d) (p[0 := 36])
       in if uint (checksum (escape d)) = strtol16 (cstr [a, b, 0])
          then gdb_getpacket ifc rm no_ack (Suc n) p sz s = Ret (length d, q[length d := 0]) s'
             \<and> written s' = written s @ (if no_ack then [] else [43])
          else gdb_getpacket ifc rm no_ack (Suc n) p sz s = gdb_getpacket ifc rm no_ack n q sz s'
             \<and> written s' = written s @ (if no_ack then [] else [45]))"
proof -
  let ?i1 = "map Byte (escape d @ [35]) @ map Byte [a, b] @ r"
  have "input s = Byte 36 # ?i1" using inp by simp
  moreover have "p \<noteq> []" using sz by auto
  ultimately obtain s1 where s1: "wait_start ifc rm (Suc n) sz p s = Ret (None, p[0 := 36]) s1"
    "live s1" "input s1 = ?i1" "written s1 = written s" "rest s1 = rest s"
    using wait_start_dollar [OF live _ som] by blast
  let ?q = "d @ drop (length d) (p[0 := 36])"
  have "\<exists>s'. capture ifc (Suc n) sz 0 0 (p[0 := 36]) s1 = Ret (length d, checksum (escape d), ?q) s'
      \<and> live s' \<and> input s' = map Byte [a, b] @ r \<and> written s' = written s1 \<and> sent s' = sent s1
      \<and> rest s' = rest s1"
    using capture_ok [OF s1(2,3), of 0 sz "p[0 := 36]" "Suc n" 0] sz n by simp
  then obtain s2 where s2: "capture ifc (Suc n) sz 0 0 (p[0 := 36]) s1
      = Ret (length d, checksum (escape d), ?q) s2"
    "live s2" "input s2 = Byte a # Byte b # r" "written s2 = written s" "rest s2 = rest s"
    using s1 by auto
  obtain s3 where s3: "if_getchar ifc s2 = Ret a s3" "live s3" "input s3 = Byte b # r"
    "written s3 = written s" "rest s3 = rest s"
    by (rule getE [OF s2(2), of a "Byte b # r"]) (use s2 in auto)
  obtain s4 where s4: "if_getchar ifc s3 = Ret b s4" "live s4" "input s4 = r"
    "written s4 = written s" "rest s4 = rest s"
    by (rule getE [OF s3(2), of b r]) (use s3 in auto)
  have ack: "\<exists>s'. ack ifc no_ack c s4 = Ret () s' \<and> live s' \<and> input s' = r
      \<and> written s' = written s @ (if no_ack then [] else [c]) \<and> rest s' = rest s" for c
  proof (cases no_ack)
    case True
    with s4 show ?thesis by (simp add: ack_def)
  next
    case False
    with put [OF s4(2), of c True] s4 show ?thesis by (auto simp: ack_def)
  qed
  have len: "length d < length ?q" using sz by simp
  show ?thesis
  proof (cases "uint (checksum (escape d)) = strtol16 (cstr [a, b, 0])")
    case True
    with ack [of 43] s1(1) s2(1) s3(1) s4(1) len show ?thesis by (auto simp: Let_def recv_checksum_def)
  next
    case False
    with ack [of 45] s1(1) s2(1) s3(1) s4(1) show ?thesis by (auto simp: Let_def recv_checksum_def)
  qed
qed

text \<open>Any number of damaged frames, each refused, then a good one.\<close>

lemma getpacket_recovers:
  assumes som: "REMOTE_SOM rm \<noteq> 36" and d: "length d \<le> sz"
  shows "live s \<Longrightarrow>
    input s = map Byte (concat (map (\<lambda>(e, a, b). 36 # escape e @ [35, a, b]) bad) @ frame 36 d) @ r \<Longrightarrow>
    (\<forall>(e, a, b) \<in> set bad. length e \<le> sz \<and> uint (checksum (escape e)) \<noteq> strtol16 (cstr [a, b, 0])) \<Longrightarrow>
    sz < length p \<Longrightarrow> sz + length bad \<le> n \<Longrightarrow>
    \<exists>s' p'. gdb_getpacket ifc rm no_ack (Suc n) p sz s = Ret (length d, p') s' \<and> live s'
      \<and> input s' = r \<and> rest s' = rest s \<and> length p' = length p
      \<and> take (length d) p' = d \<and> p' ! length d = 0
      \<and> written s' = written s @ (if no_ack then [] else replicate (length bad) 45 @ [43])"
proof (induction bad arbitrary: s p n)
  case Nil
  let ?c = "checksum (escape d)"
  obtain a b where h: "hex2 ?c = [a, b]" by (simp add: hex2_def)
  have nz: "cstr [a, b, 0] = [a, b]"
  proof -
    have "0 \<notin> set (hex2 ?c)"
      by (auto simp: hex2_def unat_byte_div16 dest: sym)
    then show ?thesis using cstr_append_nul [of "[a, b]" "[]"] h by simp
  qed
  have ok: "uint ?c = strtol16 (cstr [a, b, 0])" using strtol16_hex2 [of ?c] h nz by simp
  have inp: "input s = map Byte (36 # escape d @ 35 # [a, b]) @ r"
    using Nil.prems(2) h by (simp add: frame_def)
  let ?q = "d @ drop (length d) (p[0 := 36])"
  from getpacket_frame [OF Nil.prems(1) inp d Nil.prems(4) _ som, of n no_ack] ok Nil.prems d obtain s'
    where "live s'" "input s' = r" "rest s' = rest s"
      "gdb_getpacket ifc rm no_ack (Suc n) p sz s = Ret (length d, ?q[length d := 0]) s'"
      "written s' = written s @ (if no_ack then [] else [43])" by auto
  moreover have "length d < length ?q" using d Nil.prems by simp
  ultimately show ?case
    using d Nil.prems(4) by (auto simp: nth_append list_update_append)
next
  case (Cons x bad)
  obtain e a b where x: "x = (e, a, b)" by (cases x) auto
  let ?r = "map Byte (concat (map (\<lambda>(e, a, b). 36 # escape e @ [35, a, b]) bad) @ frame 36 d) @ r"
  have inp: "input s = map Byte (36 # escape e @ 35 # [a, b]) @ ?r" using Cons.prems(2) x by simp
  have e: "length e \<le> sz" and bad: "uint (checksum (escape e)) \<noteq> strtol16 (cstr [a, b, 0])"
    using Cons.prems(3) x by auto
  obtain m where n: "n = Suc m" using Cons.prems(5) by (cases n) auto
  let ?q = "e @ drop (length e) (p[0 := 36])"
  have "length e \<le> n" using e Cons.prems(5) by simp
  from getpacket_frame [OF Cons.prems(1) inp e Cons.prems(4) this som, of no_ack] bad obtain s1
    where s1: "live s1" "input s1 = ?r" "rest s1 = rest s"
      "gdb_getpacket ifc rm no_ack (Suc n) p sz s = gdb_getpacket ifc rm no_ack n ?q sz s1"
      "written s1 = written s @ (if no_ack then [] else [45])" by (auto simp: Let_def)
  have "length ?q = length p" using e Cons.prems(4) by simp
  with Cons.IH [OF s1(1,2), of ?q m] Cons.prems s1 n show ?case by auto
qed

end

section \<open>Memory safety of the receiver\<close>

abbreviation in_bounds :: "stop \<Rightarrow> bool" where
  "in_bounds w \<equiv> w \<noteq> OutOfBounds"

definition if_safe :: "('s \<Rightarrow> bool) \<Rightarrow> 's gdb_if \<Rightarrow> bool" where
  "if_safe I ifc \<longleftrightarrow>
     (\<forall>s. I s \<longrightarrow> ensures (\<lambda>_. I) in_bounds (if_getchar ifc s))
     \<and> (\<forall>s t. I s \<longrightarrow> ensures (\<lambda>_. I) in_bounds (if_getchar_to ifc t s))
     \<and> (\<forall>s c f. I s \<longrightarrow> ensures (\<lambda>_. I) in_bounds (if_putchar ifc c f s))"

text \<open>The documented behaviour of the remote-packet processor: it stays inside the buffer it is given.\<close>

definition remote_safe :: "('s \<Rightarrow> bool) \<Rightarrow> 's remote \<Rightarrow> bool" where
  "remote_safe I rm \<longleftrightarrow>
     (\<forall>s. I s \<longrightarrow> ensures (\<lambda>_. I) in_bounds (guard_lock rm s))
     \<and> (\<forall>s. I s \<longrightarrow> ensures (\<lambda>_. I) in_bounds (guard_unlock rm s))
     \<and> (\<forall>s i p. I s \<longrightarrow> i < length p \<longrightarrow>
          ensures (\<lambda>q s. I s \<and> length q = length p) in_bounds (remote_packet_process rm i p s))"

lemma if_safeD:
  assumes "if_safe I ifc" "I s"
  shows "ensures (\<lambda>_. I) in_bounds (if_getchar ifc s)"
    "ensures (\<lambda>_. I) in_bounds (if_getchar_to ifc t s)"
    "ensures (\<lambda>_. I) in_bounds (if_putchar ifc c f s)"
  using assms by (auto simp: if_safe_def)

lemma remote_packet_safe:
  assumes rms: "remote_safe I rm" and "I s" "i < length p"
  shows "ensures (\<lambda>q s. I s \<and> length q = length p) in_bounds (remote_packet rm i p s)"
  unfolding remote_packet_def put_at_in [OF assms(3)] andthen.simps
  apply (rule ensures_andthen [where R = "\<lambda>_. I"])
   apply (use rms \<open>I s\<close> in \<open>simp add: remote_safe_def\<close>)
  apply (rule ensures_andthen [where R = "\<lambda>q s. I s \<and> length q = length p"])
   apply (use rms \<open>i < length p\<close> in \<open>metis remote_safe_def length_list_update\<close>)
  apply (rule ensures_andthen [where R = "\<lambda>_. I"])
   apply (use rms in \<open>auto simp: remote_safe_def\<close>)
  done

lemma remote_loop_safe:
  "if_safe I ifc \<Longrightarrow> remote_safe I rm \<Longrightarrow> I s \<Longrightarrow> i \<le> sz \<Longrightarrow> sz < length p \<Longrightarrow>
     ensures (\<lambda>q s. I s \<and> length q = length p) in_bounds (remote_loop ifc rm n sz i p s)"
proof (induction n arbitrary: i p s)
  case (Suc n)
  show ?case
    using Suc.prems unfolding remote_loop.simps
    by (intro ensures_andthen [OF if_safeD(1) [OF Suc.prems(1,3)]] ensures_if)
       (auto simp: put_at_def Suc.IH remote_packet_safe
         intro: Suc.IH [of _ _ "p[i := _]", simplified])
qed simp

lemma wait_start_safe:
  "if_safe I ifc \<Longrightarrow> remote_safe I rm \<Longrightarrow> I s \<Longrightarrow> sz < length p \<Longrightarrow>
     ensures (\<lambda>(r, q) s. I s \<and> length q = length p) in_bounds (wait_start ifc rm n sz p s)"
proof (induction n arbitrary: p s)
  case (Suc n)
  have len: "0 < length p" using Suc.prems(4) by linarith
  have again: "ensures (\<lambda>(r, q) s. I s \<and> length q = length p) in_bounds (wait_start ifc rm n sz q s1)"
    if "I s1" "length q = length p" for q s1
    using Suc.IH [OF Suc.prems(1,2) that(1), of q] Suc.prems(4) that(2) by simp
  have remote: "ensures (\<lambda>(r, q) s. I s \<and> length q = length p) in_bounds
     (andthen (remote_loop ifc rm (Suc n) sz 0 (p[0 := c]) s1) (\<lambda>packet s.
      andthen (put_at 0 0 packet s) (\<lambda>packet s. wait_start ifc rm n sz packet s)))" if "I s1" for c s1
  proof (rule ensures_andthen [where R = "\<lambda>q s. I s \<and> length q = length p"])
    show "ensures (\<lambda>q s. I s \<and> length q = length p) in_bounds
        (remote_loop ifc rm (Suc n) sz 0 (p[0 := c]) s1)"
      using remote_loop_safe [OF Suc.prems(1,2) that, of 0 sz "p[0 := c]"] Suc.prems(4)
      by (simp del: remote_loop.simps)
  next
    fix q :: "byte list" and s2
    assume q: "I s2 \<and> length q = length p"
    then have "0 < length q" using len by simp
    then have "put_at 0 0 q s2 = Ret (q[0 := 0]) s2" by (rule put_at_in)
    with q again [of s2 "q[0 := 0]"] show "ensures (\<lambda>(r, q) s. I s \<and> length q = length p) in_bounds
        (andthen (put_at 0 0 q s2) (\<lambda>packet s. wait_start ifc rm n sz packet s))" by simp
  qed
  have store: "put_at 0 c p s1 = Ret (p[0 := c]) s1" for c s1 using len by (rule put_at_in)
  show ?case
    unfolding wait_start.simps
    by (rule ensures_andthen [OF if_safeD(2) [OF Suc.prems(1,3)]])
      (auto simp: store again remote simp del: remote_loop.simps)
qed simp

lemma capture_safe:
  "if_safe I ifc \<Longrightarrow> I s \<Longrightarrow> i \<le> sz \<Longrightarrow> sz < length p \<Longrightarrow>
     ensures (\<lambda>(j, c, q) s. I s \<and> length q = length p \<and> j \<le> sz) in_bounds (capture ifc n sz i csum p s)"
proof (induction n arbitrary: i csum p s)
  case (Suc n)
  note get = if_safeD(1) [OF Suc.prems(1)]
  have stored: "ensures (\<lambda>(j, c, q) s. I s \<and> length q = length p \<and> j \<le> sz) in_bounds
      (andthen (put_at i c p s1) (\<lambda>packet s. capture ifc n sz (Suc i) m packet s))"
    if "I s1" "i \<noteq> sz" for c m s1
    using Suc.IH [OF Suc.prems(1) that(1), of "Suc i" "p[i := c]" m] that(2) Suc.prems(3,4) by simp
  show ?case
    using Suc.prems unfolding capture.simps
    by (intro ensures_andthen [OF get] ensures_if stored) (auto intro: Suc.IH)
qed simp

lemma getpacket_safe:
  "if_safe I ifc \<Longrightarrow> remote_safe I rm \<Longrightarrow> I s \<Longrightarrow> sz < length p \<Longrightarrow>
     ensures (\<lambda>(k, q) s. I s \<and> length q = length p) in_bounds (gdb_getpacket ifc rm no_ack n p sz s)"
proof (induction n arbitrary: p s)
  case (Suc n)
  note ifs = Suc.prems(1)
  have ackI: "ensures (\<lambda>_. I) in_bounds (ack ifc no_ack c s1)" if "I s1" for c s1
    using that ifs by (simp add: ack_def if_safeD)
  have sumI: "ensures (\<lambda>_. I) in_bounds (recv_checksum ifc m s1)" if "I s1" for m s1
    unfolding recv_checksum_def using that
    by (intro ensures_andthen [OF if_safeD(1) [OF ifs]]) auto
  have again: "ensures (\<lambda>(k, q) s. I s \<and> length q = length p) in_bounds
      (gdb_getpacket ifc rm no_ack n q sz s1)" if "I s1" "length q = length p" for q s1
    using Suc.IH [OF ifs Suc.prems(2) that(1), of q] Suc.prems(4) that(2) by simp
  show ?case
    unfolding gdb_getpacket.simps
    apply (rule ensures_andthen [OF wait_start_safe [OF Suc.prems]])
    apply (clarsimp split: option.splits simp del: capture.simps)
    apply (rule ensures_andthen [OF capture_safe [OF ifs]], assumption, simp, use Suc.prems in simp)
    apply clarsimp
    apply (rule ensures_andthen [OF sumI], assumption)
    apply (intro ensures_if; rule ensures_andthen [OF ackI], assumption)
    using again Suc.prems(4) by auto
qed simp

section \<open>Termination of the receiver\<close>

abbreviation not_fuel :: "stop \<Rightarrow> bool" where
  "not_fuel w \<equiv> w \<noteq> OutOfFuel"

lemma ensures_put_at_fuel [simp]:
  "(i < length b \<Longrightarrow> Q (b[i := c]) s) \<Longrightarrow> ensures Q not_fuel (put_at i c b s)"
  by (simp add: put_at_def)

lemma ensures_put_then:
  "(i < length b \<Longrightarrow> ensures Q E (k (b[i := c]) s)) \<Longrightarrow> E OutOfBounds \<Longrightarrow>
     ensures Q E (andthen (put_at i c b s) k)"
  by (simp add: put_at_def)

text \<open>
  The documented behaviour of the remote-packet processor, for termination: it comes back, does not
  end the connection, and does not create input.
\<close>

definition remote_ends :: "('s \<Rightarrow> bool) \<Rightarrow> ('s \<Rightarrow> arrival list) \<Rightarrow> 's remote \<Rightarrow> bool" where
  "remote_ends live input rm \<longleftrightarrow>
     (\<forall>s. live s \<longrightarrow>
        ensures (\<lambda>_ s'. live s' \<and> length (input s') \<le> length (input s)) not_fuel (guard_lock rm s)
      \<and> ensures (\<lambda>_ s'. live s' \<and> length (input s') \<le> length (input s)) not_fuel (guard_unlock rm s)
      \<and> (\<forall>i p. ensures (\<lambda>_ s'. live s' \<and> length (input s') \<le> length (input s)) not_fuel
            (remote_packet_process rm i p s)))"

context gdb_channel
begin

abbreviation fewer :: "nat \<Rightarrow> 's \<Rightarrow> bool" where
  "fewer k s \<equiv> live s \<and> length (input s) < k"

lemma get_ends:
  assumes "live s" "length (input s) < Suc k"
  shows "ensures (\<lambda>_. fewer k) not_fuel (if_getchar ifc s)"
proof (cases "next_byte (input s)")
  case None
  with get_stops [OF assms(1)] show ?thesis by auto
next
  case (Some x)
  obtain b r where x: "x = (b, r)" by (cases x) auto
  with Some have nb: "next_byte (input s) = Some (b, r)" by simp
  from get [OF assms(1) nb] next_byte_shorter [OF nb] assms(2) show ?thesis by auto
qed

lemma get_to_ends:
  assumes "live s" "length (input s) < Suc k" "0 \<le> t"
  shows "ensures (\<lambda>c s'. live s' \<and> (c \<noteq> 255 \<longrightarrow> length (input s') < k)) not_fuel (if_getchar_to ifc t s)"
proof (cases "input s")
  case Nil
  with get_to_end [OF assms(1,3)] show ?thesis by auto
next
  case (Cons e r)
  have "(\<exists>b s'. if_getchar_to ifc t s = Ret b s' \<and> live s' \<and> input s' = r)
      \<or> (\<exists>s'. if_getchar_to ifc t s = Stop Deleted s')"
    using Cons get_to_byte [OF assms(1)] get_to_silence [OF assms(1,3)] get_to_hangup [OF assms(1)]
    by (cases e) metis+
  then show ?thesis using Cons assms(2) by auto
qed

lemma put_ends:
  "fewer k s \<Longrightarrow> ensures (\<lambda>_. fewer k) not_fuel (if_putchar ifc c f s)"
  using put [of s c f] by auto

lemma remote_packet_ends:
  assumes rm: "remote_ends live input rm" and s: "fewer k s"
  shows "ensures (\<lambda>_. fewer k) not_fuel (remote_packet rm i p s)"
proof -
  have step: "ensures (\<lambda>_. fewer k) not_fuel (guard_lock rm s1)"
    "ensures (\<lambda>_. fewer k) not_fuel (guard_unlock rm s1)"
    "ensures (\<lambda>_. fewer k) not_fuel (remote_packet_process rm j q s1)" if "fewer k s1" for s1 j q
    using rm that unfolding remote_ends_def by (blast intro: ensures_mono le_less_trans)+
  show ?thesis
    unfolding remote_packet_def
    apply (rule ensures_andthen [where R = "\<lambda>_. fewer k"])
     apply (rule ensures_put_at_fuel, rule s)
    apply (rule ensures_andthen [where R = "\<lambda>_. fewer k"])
     apply (erule step)
    apply (rule ensures_andthen [where R = "\<lambda>_. fewer k"])
     apply (erule step)
    apply (rule ensures_andthen [where R = "\<lambda>_. fewer k"])
     apply (erule step)
    apply simp
    done
qed

lemma remote_loop_ends:
  assumes rm: "remote_ends live input rm"
  shows "live s \<Longrightarrow> length (input s) < k \<Longrightarrow> k \<le> n \<Longrightarrow>
     ensures (\<lambda>_. fewer k) not_fuel (remote_loop ifc rm n sz i p s)"
proof (induction n arbitrary: i p s k)
  case (Suc n)
  then obtain k' where k: "k = Suc k'" by (cases k) auto
  have go: "ensures (\<lambda>_. fewer (Suc k')) not_fuel (remote_loop ifc rm n sz j q s1)" if "fewer k' s1" for j q s1
    using ensures_mono [OF Suc.IH [of s1 k']] that Suc.prems(3) k by simp
  show ?case
    unfolding remote_loop.simps k
    by (intro ensures_andthen [OF get_ends [OF Suc.prems(1), of k']] ensures_if)
      (use Suc.prems k in \<open>auto simp: put_at_def intro: go remote_packet_ends [OF rm]\<close>)
qed simp

lemma wait_start_ends:
  assumes rm: "remote_ends live input rm"
  shows "live s \<Longrightarrow> length (input s) < k \<Longrightarrow> k \<le> n \<Longrightarrow>
     ensures (\<lambda>(r, _). if r = None then fewer k else live) not_fuel (wait_start ifc rm n sz p s)"
proof (induction n arbitrary: p s k)
  case (Suc n)
  then obtain k' where k: "k = Suc k'" by (cases k) auto
  let ?Q = "\<lambda>(r, _). if r = None then fewer (Suc k') else live"
  have go: "ensures ?Q not_fuel (wait_start ifc rm n sz q s1)" if "fewer k' s1" for q s1
    by (rule ensures_mono [OF Suc.IH [of s1 k']]) (use that Suc.prems(3) k in \<open>auto split: if_splits\<close>)
  have remote: "ensures ?Q not_fuel
     (andthen (remote_loop ifc rm (Suc n) sz 0 q s1) (\<lambda>packet s.
      andthen (put_at 0 0 packet s) (\<lambda>packet s. wait_start ifc rm n sz packet s)))"
    if "fewer k' s1" for q s1
    by (rule ensures_andthen [OF remote_loop_ends [OF rm, of s1 k']])
      (use that Suc.prems(3) k in \<open>auto intro!: ensures_put_then go\<close>)
  show ?case
    unfolding wait_start.simps k
    by (rule ensures_andthen [OF get_to_ends [OF Suc.prems(1), of k' 20]])
      (use Suc.prems k in \<open>auto intro!: ensures_put_then go remote simp del: remote_loop.simps\<close>)
qed simp

lemma capture_ends:
  "live s \<Longrightarrow> length (input s) < k \<Longrightarrow> k \<le> n \<Longrightarrow>
     ensures (\<lambda>_. fewer k) not_fuel (capture ifc n sz i csum p s)"
proof (induction n arbitrary: i csum p s k)
  case (Suc n)
  then obtain k' where k: "k = Suc k'" by (cases k) auto
  have go: "ensures (\<lambda>_. fewer (Suc k')) not_fuel (capture ifc n sz j m q s1)" if "fewer k' s1" for j m q s1
    using ensures_mono [OF Suc.IH [of s1 k']] that Suc.prems(3) k by simp
  have esc: "ensures (\<lambda>_. fewer k') not_fuel (if_getchar ifc s1)" if "fewer k' s1" for s1
    using get_ends [of s1 k'] that by simp
  show ?case
    unfolding capture.simps k
    apply (rule ensures_andthen [OF get_ends [OF Suc.prems(1), of k']])
     apply (use Suc.prems k in simp)
    apply (intro ensures_if)
    apply (auto simp: put_at_def go intro!: ensures_andthen [OF esc])
    done
qed simp

lemma getpacket_ends:
  assumes rm: "remote_ends live input rm"
  shows "live s \<Longrightarrow> length (input s) < n \<Longrightarrow>
     ensures (\<lambda>_. live) not_fuel (gdb_getpacket ifc rm no_ack n p sz s)"
proof (induction n arbitrary: p s)
  case (Suc n)
  have ackI: "ensures (\<lambda>_. fewer k) not_fuel (ack ifc no_ack c s1)" if "fewer k s1" for c s1 k
    using put_ends [OF that, of c True] that by (simp add: ack_def)
  have one: "ensures (\<lambda>_. fewer k) not_fuel (if_getchar ifc s1)" if "fewer k s1" for s1 k
    using get_ends [of s1 k] that by simp
  have tail: "ensures (\<lambda>_. live) not_fuel
      (andthen (recv_checksum ifc m s1) (\<lambda>ok s.
         if ok then andthen (ack ifc no_ack 43 s) (\<lambda>_ s.
           andthen (put_at i 0 q s) (\<lambda>packet s. Ret (i, packet) s))
         else andthen (ack ifc no_ack 45 s) (\<lambda>_ s. gdb_getpacket ifc rm no_ack n q sz s)))"
    if "fewer (Suc n) s1" for i m q s1
  proof -
    have less: "ensures (\<lambda>_. fewer n) not_fuel (recv_checksum ifc m s1)"
      unfolding recv_checksum_def
      apply (rule ensures_andthen [OF get_ends [of s1 n]])
        apply (use that in simp_all)
      apply (rule ensures_andthen [OF one], assumption, simp)
      done
    show ?thesis
      by (rule ensures_andthen [OF less], intro ensures_if)
        (auto intro!: ensures_andthen [OF ackI] ensures_put_then Suc.IH)
  qed
  show ?case
    unfolding gdb_getpacket.simps
    apply (rule ensures_andthen [OF wait_start_ends [OF rm Suc.prems order_refl]])
    subgoal for x s1
      by (cases x; cases "fst x")
        (auto simp del: capture.simps intro!: ensures_andthen [OF capture_ends [OF _ _ order_refl]] tail)
    done
qed simp

end

section \<open>Properties\<close>

definition damaged :: "nat \<Rightarrow> byte list \<times> byte \<times> byte \<Rightarrow> bool" where
  "damaged sz = (\<lambda>(d, a, b). length d \<le> sz \<and> uint (checksum (escape d)) \<noteq> strtol16 (cstr [a, b, 0]))"

definition wire :: "byte list \<times> byte \<times> byte \<Rightarrow> byte list" where
  "wire = (\<lambda>(d, a, b). 36 # escape d @ [35, a, b])"

lemma putpacket_no_ack: "gdb_putpacket ifc True d b s = put_frame ifc b d s"
  by (cases "put_frame ifc b d s") (auto simp: gdb_putpacket_def numeral_3_eq_3)

lemma getpacket_receives_all:
  fixes s :: "'x client_scheme"
  assumes "client_live s"
    and "client_input s = map Byte (concat (map wire bad) @ frame 36 d) @ r"
    and "\<forall>x \<in> set bad. damaged sz x" and "length d \<le> sz" and "sz < length p"
    and "sz + length bad < fuel" and "REMOTE_SOM rm \<noteq> 36"
  shows "\<exists>s' p'. gdb_getpacket (client_if others) rm no_ack fuel p sz s = Ret (length d, p') s'
     \<and> client_live s' \<and> client_input s' = r \<and> client_rest s' = client_rest s
     \<and> length p' = length p \<and> take (length d) p' = d \<and> p' ! length d = 0
     \<and> client_written s' = client_written s @ (if no_ack then [] else replicate (length bad) 45 @ [43])"
proof -
  obtain n where n: "fuel = Suc n" using assms(6) by (cases fuel) auto
  show ?thesis
    unfolding n
    by (rule cl.getpacket_recovers) (use assms n in \<open>auto simp: wire_def damaged_def cong: map_cong\<close>)
qed

text \<open>
  C7. Receiving over \<open>GDB_client\<close>: after any number of frames whose check digits are wrong comes a
  good one, and \<open>gdb_getpacket\<close> returns exactly its payload, NUL-terminated, having answered \<open>-\<close> to
  each damaged frame and \<open>+\<close> to the good one (nothing in no-ack mode), with the rest of the input
  untouched.
\<close>

theorem getpacket_receives:
  fixes s :: "'x client_scheme"
  assumes "client_live s"
    and "client_input s = map Byte (concat (map wire bad) @ frame 36 d) @ r"
    and "\<forall>x \<in> set bad. damaged sz x" and "length d \<le> sz" and "sz < length p"
    and "sz + length bad < fuel" and "REMOTE_SOM rm \<noteq> 36"
  shows "\<exists>s' p'. gdb_getpacket (client_if others) rm no_ack fuel p sz s = Ret (length d, p') s'
     \<and> client_live s' \<and> client_input s' = r \<and> client_rest s' = client_rest s
     \<and> length p' = length p \<and> take (length d) p' = d \<and> p' ! length d = 0
     \<and> client_written s' = client_written s @ (if no_ack then [] else replicate (length bad) 45 @ [43])"
  using getpacket_receives_all [OF assms] .

text \<open>
  C17. Sending over \<open>GDB_client\<close>: the bytes that leave for the debugger are the frame of the packet,
  escaped and with its checksum, repeated until a \<open>+\<close> is answered and at most four times; in no-ack
  mode it is sent once and no answer is consumed.
\<close>

theorem putpacket_transmits:
  fixes s :: "'x client_scheme"
  assumes "client_live s" and "Hangup \<notin> set (take 4 (client_input s))"
  shows "\<exists>s'. gdb_putpacket (client_if others) no_ack d b s = Ret () s' \<and> client_live s'
     \<and> client_rest s' = client_rest s
     \<and> net_sent s' = client_written s
          @ concat (replicate (if no_ack then 1 else fst (transmissions 3 (client_input s))) (frame b d))
     \<and> client_input s' = (if no_ack then client_input s else snd (transmissions 3 (client_input s)))"
  using cl.putpacket_loop_ok [of s 3 others "\<not> no_ack" b d] assms
  by (auto simp: gdb_putpacket_def)

text \<open>
  C8. Round trip: what one \<open>GDB_client\<close> sends with \<open>gdb_putpacket\<close>, another one reads back with
  \<open>gdb_getpacket\<close>, for every payload that fits the buffer, the protocol's own delimiters included, while
  acknowledgements are switched off.
\<close>

theorem packet_roundtrip:
  fixes s1 s2 :: "'x client_scheme"
  assumes "client_live s1" and "client_written s1 = []"
    and "gdb_putpacket (client_if others) True d 36 s1 = Ret () s1'"
    and "client_live s2" and "client_input s2 = map Byte (net_sent s1') @ r"
    and "length d \<le> sz" and "sz < length p" and "sz < fuel" and "REMOTE_SOM rm \<noteq> 36"
  shows "\<exists>s2' p'. gdb_getpacket (client_if others) rm no_ack fuel p sz s2 = Ret (length d, p') s2'
     \<and> client_input s2' = r \<and> take (length d) p' = d \<and> p' ! length d = 0"
proof -
  have sent: "net_sent s1' = frame 36 d"
  proof -
    have "put_frame (client_if others) 36 d s1 = Ret () s1'"
      using assms(3) unfolding putpacket_no_ack .
    with cl.put_frame_ok [OF assms(1), of others 36 d] assms(2) show ?thesis by auto
  qed
  obtain n where n: "fuel = Suc n" using assms(8) by (cases fuel) auto
  have "client_input s2 = map Byte (concat (map wire []) @ frame 36 d) @ r"
    using assms(5) sent by simp
  from getpacket_receives_all [OF assms(4) this, of sz p "Suc n" rm others no_ack] assms(6-9) n
  show ?thesis by auto
qed

lemma bounded_ensures: "bounded_outcome m \<Longrightarrow> ensures (\<lambda>_. client_bounds) in_bounds m"
  by (cases m) (auto simp: bounded_outcome_def)

lemma client_if_safe: "if_safe client_bounds (client_if others)"
  unfolding if_safe_def client_if_def gdb_if.simps
  by (intro conjI allI impI bounded_ensures getchar_bounded getchar_to_bounded putchar_bounded)

text \<open>
  C18. Memory safety of the receiver over \<open>GDB_client\<close>: whatever bytes arrive, in whatever pieces,
  with a buffer one byte larger than the limit passed (\<open>pbuf[BUF_SIZE + 1]\<close> in the main loop), no
  write leaves the buffer and the client's own buffers stay within bounds.
\<close>

theorem getpacket_memory_safe:
  fixes s :: "'x client_scheme"
  assumes "client_bounds s" and "sz < length p" and "remote_safe client_bounds rm"
  shows "ensures (\<lambda>(k, q) s. client_bounds s \<and> length q = length p) (\<lambda>w. w \<noteq> OutOfBounds)
     (gdb_getpacket (client_if others) rm no_ack fuel p sz s)"
  using getpacket_safe [OF client_if_safe assms(3,1,2)] .

text \<open>
  C19. Termination of the receiver over \<open>GDB_client\<close>: on any finite input \<open>gdb_getpacket\<close> comes to an
  end, and a fuel larger than the number of arrivals suffices: it returns a packet or a timeout, or
  the task waits for input, or ends with its connection.
\<close>

theorem getpacket_terminates:
  fixes s :: "'x client_scheme"
  assumes "client_live s" and "length (client_input s) < fuel"
    and "remote_ends client_live client_input rm"
  shows "ensures (\<lambda>_. client_live) (\<lambda>w. w \<noteq> OutOfFuel)
     (gdb_getpacket (client_if others) rm no_ack fuel p sz s)"
  using cl.getpacket_ends [OF assms(3,1,2)] .

text \<open>
  \<open>gdb_putpacket2\<close> waits for an acknowledgement even when the session has switched acknowledgements
  off: with a debugger that, as agreed, sends none, the reply goes out four times.
\<close>

theorem putpacket2_ignores_no_ack_mode:
  fixes s :: "'x client_scheme"
  assumes "client_live s" and "client_input s = []"
  shows "(\<exists>s'. gdb_putpacket (client_if others) True (d1 @ d2) 36 s = Ret () s'
            \<and> net_sent s' = client_written s @ frame 36 (d1 @ d2))
       \<and> (\<exists>s'. gdb_putpacket2 (client_if others) d1 d2 s = Ret () s'
            \<and> net_sent s' = client_written s @ concat (replicate 4 (frame 36 (d1 @ d2))))"
  using cl.putpacket_loop_ok [of s 3 others False 36 "d1 @ d2"]
    cl.putpacket_loop_ok [of s 3 others True 36 "d1 @ d2"] assms
  by (auto simp: gdb_putpacket_def gdb_putpacket2_def numeral_eq_Suc Let_def)

subsection \<open>The properties at concrete inputs\<close>

text \<open>A remote-control protocol with the delimiters \<open>!\<close> and \<open>#\<close>, whose processor clears the buffer.\<close>

definition remote_example :: "'s remote" where
  "remote_example = \<lparr>REMOTE_SOM = 33, REMOTE_EOM = 35,
     remote_packet_process = (\<lambda>i p s. Ret (map (\<lambda>_. 0) p) s),
     guard_lock = Ret (), guard_unlock = Ret ()\<rparr>"

definition client_with :: "net_rx list \<Rightarrow> client" where
  "client_with rx = client_example\<lparr>net_rx := rx\<rparr>"

lemma client_with_live [simp]: "client_live (client_with rx)" "client_written (client_with rx) = []"
  using client_example_live
  by (auto simp: client_with_def client_live_def client_bounds_def client_example_def client_written_def)

theorem getpacket_receives_witness:
  "\<exists>s' p'. gdb_getpacket (client_if (\<lambda>x. x)) remote_example False 10 (replicate 8 0) 7
       (client_with [Arrives 36 [113, 35, 48], Arrives 48 [36, 113, 35, 55, 49]]) = Ret (1, p') s'
     \<and> take 1 p' = [113] \<and> client_written s' = [45, 43]"
proof -
  have "client_input (client_with [Arrives 36 [113, 35, 48], Arrives 48 [36, 113, 35, 55, 49]])
      = map Byte (concat (map wire [([113], 48, 48)]) @ frame 36 [113]) @ []"
    by (simp add: client_with_def client_input_def client_example_def wire_def frame_def
        must_escape_def hex2_def hexdigit_def)
  moreover have "damaged 7 ([113], 48, 48)"
    by (simp add: damaged_def must_escape_def cstr_def strtol16_def isspace_def skip_0x_def hexval_def)
  ultimately show ?thesis
    using getpacket_receives [OF client_with_live(1), of _ "[([113], 48, 48)]" "[113]" "[]" 7 "replicate 8 0"
        10 remote_example "\<lambda>x. x" False]
    by (simp add: remote_example_def) blast
qed

theorem putpacket_transmits_witness:
  "\<exists>s'. gdb_putpacket (client_if (\<lambda>x. x)) False [79, 75] 36 (client_with [Quiet, Arrives 43 []]) = Ret () s'
     \<and> net_sent s' = [36, 79, 75, 35, 57, 65, 36, 79, 75, 35, 57, 65]"
proof -
  have i: "client_input (client_with [Quiet, Arrives 43 []]) = [Silence, Byte 43]"
    by (simp add: client_with_def client_input_def client_example_def)
  have "transmissions 3 [Silence, Byte 43] = (2, [])" by (simp add: numeral_3_eq_3)
  moreover have "frame 36 [79, 75] = [36, 79, 75, 35, 57, 65]"
    by (simp add: frame_def must_escape_def hex2_def hexdigit_def)
  ultimately show ?thesis
    using putpacket_transmits [OF client_with_live(1), of "[Quiet, Arrives 43 []]" "\<lambda>x. x" False "[79, 75]" 36]
    by (auto simp: i numeral_2_eq_2)
qed

theorem packet_roundtrip_witness:
  "\<exists>s1' s2' p'. gdb_putpacket (client_if (\<lambda>x. x)) True [36, 113] 36 (client_with []) = Ret () s1'
     \<and> net_sent s1' = [36, 125, 4, 113, 35, 70, 50]
     \<and> gdb_getpacket (client_if (\<lambda>x. x)) remote_example True 10 (replicate 8 0) 7
          (client_with [Arrives 36 [125, 4, 113, 35, 70, 50]]) = Ret (2, p') s2' \<and> take 2 p' = [36, 113]"
proof -
  have i: "client_input (client_with []) = []"
    by (simp add: client_with_def client_input_def client_example_def)
  have "frame 36 [36, 113] = [36, 125, 4, 113, 35, 70, 50]"
    by (simp add: frame_def must_escape_def hex2_def hexdigit_def)
  with putpacket_transmits [OF client_with_live(1), of "[]" "\<lambda>x. x" True "[36, 113]" 36] obtain s1' where
    s1: "gdb_putpacket (client_if (\<lambda>x. x)) True [36, 113] 36 (client_with []) = Ret () s1'"
      "net_sent s1' = [36, 125, 4, 113, 35, 70, 50]" by (auto simp: i)
  have i2: "client_input (client_with [Arrives 36 [125, 4, 113, 35, 70, 50]]) = map Byte (net_sent s1') @ []"
    by (simp add: client_with_def client_input_def client_example_def s1)
  have som: "REMOTE_SOM remote_example \<noteq> 36" by (simp add: remote_example_def)
  have two: "length [36, 113 :: byte] = 2" by simp
  have fits: "(2::nat) \<le> 7" "7 < length (replicate 8 (0 :: byte))" "(7::nat) < 10" by simp_all
  from packet_roundtrip [OF client_with_live s1(1) client_with_live(1) i2 _ _ _ som, unfolded two, OF fits]
  have "\<exists>s2' p'. gdb_getpacket (client_if (\<lambda>x. x)) remote_example True 10 (replicate 8 0) 7
          (client_with [Arrives 36 [125, 4, 113, 35, 70, 50]]) = Ret (2, p') s2' \<and> take 2 p' = [36, 113]"
    by blast
  with s1 show ?thesis by blast
qed

theorem getpacket_memory_safe_witness:
  "ensures (\<lambda>(k, q) s. length q = 8) (\<lambda>w. w \<noteq> OutOfBounds)
     (gdb_getpacket (client_if (\<lambda>x. x)) remote_example False 99 (replicate 8 0) 7
       (client_with [Arrives 33 (replicate 20 65)]))"
proof -
  have "remote_safe client_bounds (remote_example :: client remote)"
    by (simp add: remote_safe_def remote_example_def)
  moreover have "client_bounds (client_with [Arrives 33 (replicate 20 65)])"
    using client_with_live(1) unfolding client_live_def by blast
  ultimately show ?thesis
    using getpacket_memory_safe [of "client_with [Arrives 33 (replicate 20 65)]" 7 "replicate 8 0"
        remote_example "\<lambda>x. x" False 99]
    by (auto elim!: ensures_mono)
qed

theorem getpacket_terminates_witness:
  "ensures (\<lambda>_. client_live) (\<lambda>w. w \<noteq> OutOfFuel)
     (gdb_getpacket (client_if (\<lambda>x. x)) remote_example False 5 (replicate 8 0) 7
       (client_with [Arrives 36 [33, 36], Closed]))"
proof -
  have "remote_ends client_live client_input (remote_example :: client remote)"
    by (simp add: remote_ends_def remote_example_def)
  moreover have "length (client_input (client_with [Arrives 36 [33, 36], Closed])) < 5"
    by (simp add: client_with_def client_input_def client_example_def)
  ultimately show ?thesis
    using getpacket_terminates [OF client_with_live(1)] by blast
qed

theorem putpacket2_ignores_no_ack_mode_witness:
  "\<exists>s'. gdb_putpacket2 (client_if (\<lambda>x. x)) [109] [] (client_with []) = Ret () s'
     \<and> net_sent s' = concat (replicate 4 (frame 36 [109]))"
proof -
  have "client_input (client_with []) = []"
    by (simp add: client_with_def client_input_def client_example_def)
  from putpacket2_ignores_no_ack_mode [OF client_with_live(1) this, of "\<lambda>x. x" "[109]" "[]"]
  show ?thesis by auto
qed

end
