(* ===== verification/Exceptions.thy ===== *)
theory Exceptions
  imports Prelude
begin

text \<open>
  The exception mechanism of \<open>src/components/blackmagic/exception.h\<close> and \<open>exception.c\<close>: handler
  frames linked through \<open>outer\<close> from the task's \<open>innermost_exception\<close> (a pointer in the thread
  local storage, \<open>get_innermost_exception\<close> in \<open>src/main/gdb_if.cpp\<close>), \<open>raise_exception\<close> that
  searches the chain by mask, and the \<open>TRY_CATCH\<close> macro. A frame is known by the address of its
  \<open>struct exception\<close>; the chain is the list of frames, innermost first.
\<close>

definition EXCEPTION_ERROR :: u32 where "EXCEPTION_ERROR = 1"
definition EXCEPTION_TIMEOUT :: u32 where "EXCEPTION_TIMEOUT = 2"
definition EXCEPTION_ALL :: u32 where "EXCEPTION_ALL = - 1"

datatype exc_frame = ExcFrame (frame_addr: nat) (frame_mask: u32)

type_synonym exc_chain = "exc_frame list"

text \<open>
  \<open>raise_exception\<close>: the first frame whose mask meets the type gets the type; the chain becomes
  what is outside that frame, and control jumps to it. Without such a frame the firmware aborts
  (\<open>None\<close>).
\<close>

fun raise_exception :: "u32 \<Rightarrow> exc_chain \<Rightarrow> (nat \<times> exc_chain) option" where
  "raise_exception type [] = None"
| "raise_exception type (e # outer) =
     (if frame_mask e AND type \<noteq> 0 then Some (frame_addr e, outer) else raise_exception type outer)"

text \<open>
  What running a piece of code does to control and to the chain: it falls through, it jumps to the
  \<open>setjmp\<close> of a frame with a type, or it aborts.
\<close>

datatype 'a control =
    Falls 'a exc_chain
  | Jumps nat u32 exc_chain
  | Aborts

definition raising :: "u32 \<Rightarrow> exc_chain \<Rightarrow> 'a control" where
  "raising type chain =
     (case raise_exception type chain of None \<Rightarrow> Aborts | Some (e, outer) \<Rightarrow> Jumps e type outer)"

text \<open>
  \<open>TRY_CATCH(e, mask) body\<close> for the frame at address \<open>e\<close>: \<open>e.type\<close> is zeroed, the frame is pushed,
  \<open>setjmp\<close> returns 0 and the body runs once (the \<open>for\<close> ends by restoring the chain); when a jump
  comes back to this frame, \<open>setjmp\<close> returns the type and the body is skipped. The result is
  \<open>e.type\<close> afterwards with the body's value, if it completed.
\<close>

definition try_catch :: "nat \<Rightarrow> u32 \<Rightarrow> (exc_chain \<Rightarrow> 'a control) \<Rightarrow> exc_chain \<Rightarrow> (u32 \<times> 'a option) control" where
  "try_catch e msk body chain =
     (case body (ExcFrame e msk # chain) of
        Falls a chain' \<Rightarrow> Falls (0, Some a) chain
      | Jumps e' type chain' \<Rightarrow> if e' = e then Falls (type, None) chain' else Jumps e' type chain'
      | Aborts \<Rightarrow> Aborts)"

definition seq :: "(exc_chain \<Rightarrow> 'a control) \<Rightarrow> ('a \<Rightarrow> exc_chain \<Rightarrow> 'b control) \<Rightarrow> exc_chain \<Rightarrow> 'b control" where
  "seq m k chain =
     (case m chain of Falls a c \<Rightarrow> k a c | Jumps e t c \<Rightarrow> Jumps e t c | Aborts \<Rightarrow> Aborts)"

section \<open>Structured meaning\<close>

text \<open>
  Code is structured when on every chain it either falls through with the chain unchanged and a
  value that does not depend on the chain, or raises one type, the same on every chain.
  \<open>Inr a\<close> is the value, \<open>Inl t\<close> the type it raises.
\<close>

definition means :: "(exc_chain \<Rightarrow> 'a control) \<Rightarrow> u32 + 'a \<Rightarrow> bool" where
  "means m r \<longleftrightarrow>
     (\<forall>chain. distinct (map frame_addr chain) \<longrightarrow>
        m chain = (case r of Inr a \<Rightarrow> Falls a chain | Inl t \<Rightarrow> raising t chain))"

lemma means_return: "means (Falls a) (Inr a)"
  by (simp add: means_def)

lemma means_raise: "means (raising t) (Inl t)"
  by (simp add: means_def)

lemma means_seq:
  assumes "means m r" and "\<And>a. r = Inr a \<Longrightarrow> means (k a) (q a)"
  shows "means (seq m k) (case r of Inl t \<Rightarrow> Inl t | Inr a \<Rightarrow> q a)"
  using assms by (auto simp: means_def seq_def raising_def split: sum.splits option.splits prod.splits)

lemma raise_exception_in_chain:
  "raise_exception t chain = Some (e, outer) \<Longrightarrow> e \<in> frame_addr ` set chain"
  by (induction chain) (auto split: if_splits)

lemma means_try_catch:
  assumes body: "means body r" and fresh: "e \<notin> frame_addr ` set chain"
    and d: "distinct (map frame_addr chain)"
  shows "try_catch e msk body chain =
    (case r of
       Inr a \<Rightarrow> Falls (0, Some a) chain
     | Inl t \<Rightarrow> if msk AND t \<noteq> 0 then Falls (t, None) chain else raising t chain)"
proof -
  have "body (ExcFrame e msk # chain) =
      (case r of Inr a \<Rightarrow> Falls a (ExcFrame e msk # chain) | Inl t \<Rightarrow> raising t (ExcFrame e msk # chain))"
    using body fresh d by (simp add: means_def)
  then show ?thesis
    using fresh raise_exception_in_chain [of _ chain]
    by (auto simp: try_catch_def raising_def split: sum.splits option.splits)
qed

text \<open>
  C34. \<open>TRY_CATCH\<close> behaves as a structured handler for any code it protects: normal completion
  leaves type 0 and the chain of handlers as before; an exception whose type meets the mask stops
  the body, leaves exactly that type and again the chain as before; any other exception goes on to
  the outer handlers as if the block were not there, and an exception nobody handles aborts.
\<close>

theorem try_catch_structured:
  assumes "means body r" and "e \<notin> frame_addr ` set chain" and "distinct (map frame_addr chain)"
  shows "try_catch e msk body chain =
    (case r of
       Inr a \<Rightarrow> Falls (0, Some a) chain
     | Inl t \<Rightarrow>
         if msk AND t \<noteq> 0 then Falls (t, None) chain
         else (case raise_exception t chain of
                 None \<Rightarrow> Aborts
               | Some (h, outer) \<Rightarrow> Jumps h t outer))"
  using means_try_catch [OF assms] by (simp add: raising_def split: sum.splits)

text \<open>\<open>EXCEPTION_ALL\<close> catches every exception: a raised type is never 0.\<close>

lemma exception_all_catches: "t \<noteq> 0 \<Longrightarrow> EXCEPTION_ALL AND t \<noteq> 0"
  by (simp add: EXCEPTION_ALL_def)

text \<open>
  Code under a mask that does not match: an error raised inside a handler for timeouts only, with
  a handler for errors outside.
\<close>

theorem try_catch_structured_witness:
  "try_catch 2 EXCEPTION_TIMEOUT (seq (Falls ()) (\<lambda>_. raising EXCEPTION_ERROR))
       [ExcFrame 1 EXCEPTION_ALL]
     = (Jumps 1 EXCEPTION_ERROR [] :: (u32 \<times> unit option) control)
   \<and> try_catch 2 EXCEPTION_ALL (seq (Falls ()) (\<lambda>_. raising EXCEPTION_ERROR)) [ExcFrame 1 EXCEPTION_ALL]
     = (Falls (EXCEPTION_ERROR, None) [ExcFrame 1 EXCEPTION_ALL] :: (u32 \<times> unit option) control)"
proof -
  have m: "means (seq (Falls ()) (\<lambda>_. raising EXCEPTION_ERROR) :: exc_chain \<Rightarrow> unit control)
      (Inl EXCEPTION_ERROR)"
    using means_seq [OF means_return, of "()" "\<lambda>_. raising EXCEPTION_ERROR" "\<lambda>_. Inl EXCEPTION_ERROR"]
    by (simp add: means_raise)
  show ?thesis
    using try_catch_structured [OF m, of 2 "[ExcFrame 1 EXCEPTION_ALL]"]
    by (simp add: EXCEPTION_ERROR_def EXCEPTION_TIMEOUT_def EXCEPTION_ALL_def)
qed

end
