(* ===== verification/GdbServer.thy ===== *)
theory GdbServer
  imports GdbPacket Exceptions
begin

text \<open>
  The state of the GDB server and its surroundings: the members of the class \<open>GDB\<close>
  (\<open>src/main/gdb_if.hpp\<close>) and the static variables of \<open>src/main/gdb_main.cpp\<close>, the calls into the
  Black Magic target library, the library's callbacks, and the guard object \<open>GDB_LOCK\<close>.
\<close>

definition BUF_SIZE :: nat where "BUF_SIZE = 1024"

text \<open>
  A call into the target library, with its arguments. A \<open>target *\<close> is an address, NULL is \<open>None\<close>.
\<close>

type_synonym ptr = "nat option"

datatype call =
    Adiv5_swdp_scan
  | Target_attach_n u32
  | Target_attach ptr
  | Target_add_commands ptr
  | Target_detach ptr
  | Target_reset ptr
  | Target_halt_request ptr
  | Target_halt_resume ptr bool
  | Target_halt_poll ptr
  | Target_regs_size ptr
  | Target_regs_read ptr
  | Target_regs_write ptr "byte list"
  | Target_mem_read ptr u32 u32
  | Target_mem_write ptr u32 "byte list"
  | Target_reg_read ptr u32 nat
  | Target_reg_write ptr u32 "byte list"
  | Target_flash_erase ptr u32 u32
  | Target_flash_write ptr u32 "byte list"
  | Target_flash_complete ptr
  | Target_mem_map ptr nat
  | Target_regs_description ptr
  | Target_set_cmdline ptr "byte list"
  | Target_breakwatch_set ptr int u32 u32
  | Target_breakwatch_clear ptr int u32 u32
  | Target_list_free
  | Command_process ptr "byte list"
  | Generic_crc32 ptr u32 u32
  | Hostio_reply "byte list"
  | Cortexm_ap ptr
  | Adiv5_dp_read
  | Morse "byte list"

text \<open>The target a call works on.\<close>

fun call_target :: "call \<Rightarrow> ptr option" where
  "call_target (Target_attach p) = Some p"
| "call_target (Target_add_commands p) = Some p"
| "call_target (Target_detach p) = Some p"
| "call_target (Target_reset p) = Some p"
| "call_target (Target_halt_request p) = Some p"
| "call_target (Target_halt_resume p _) = Some p"
| "call_target (Target_halt_poll p) = Some p"
| "call_target (Target_regs_size p) = Some p"
| "call_target (Target_regs_read p) = Some p"
| "call_target (Target_regs_write p _) = Some p"
| "call_target (Target_mem_read p _ _) = Some p"
| "call_target (Target_mem_write p _ _) = Some p"
| "call_target (Target_reg_read p _ _) = Some p"
| "call_target (Target_reg_write p _ _) = Some p"
| "call_target (Target_flash_erase p _ _) = Some p"
| "call_target (Target_flash_write p _ _) = Some p"
| "call_target (Target_flash_complete p) = Some p"
| "call_target (Target_mem_map p _) = Some p"
| "call_target (Target_regs_description p) = Some p"
| "call_target (Target_set_cmdline p _) = Some p"
| "call_target (Target_breakwatch_set p _ _ _) = Some p"
| "call_target (Target_breakwatch_clear p _ _ _) = Some p"
| "call_target (Command_process p _) = Some p"
| "call_target (Generic_crc32 p _ _) = Some p"
| "call_target (Cortexm_ap p) = Some p"
| "call_target _ = None"

text \<open>
  \<open>enum target_halt_reason\<close>, the enumerators the code names and all the others; what the library
  may call back while it runs; and what a call gives back: a number (0 is false), a pointer, bytes
  written to memory of the caller, a number written through a pointer (the address of a watchpoint,
  a checksum, a register), and an exception raised instead of returning.
\<close>

datatype halt_reason = HALT_RUNNING | HALT_ERROR | HALT_REQUEST | HALT_WATCHPOINT | HALT_FAULT | HALT_OTHER

datatype callback = Destroyed nat | Printf "byte list" "farg list"

record reply =
  r_int :: int
  r_ptr :: ptr
  r_bytes :: "byte list"
  r_reason :: halt_reason
  r_out :: u32
  r_events :: "callback list"
  r_raised :: "u32 option"

section \<open>State and environment\<close>

record 'w gdb_server = client +
  pbuf :: "byte list"
  non_stop :: bool
  no_ack_mode :: bool
  single_step :: bool
  run_state :: bool
  gdb_needs_detach_notify :: bool
  cur_target :: ptr
  last_target :: ptr
  flash_mode :: bool
  library :: 'w
  calls :: "call list"

text \<open>
  Code outside the repository: the target library (a call answers, and changes the library's own
  state when it completes, after its callbacks), \<open>hexify\<close> and \<open>unhexify\<close>, the remote-control
  protocol; what other tasks do to the shared part of the state while this one waits; and the
  values that happen to be in uninitialised local variables.
\<close>

record 'w env =
  answer :: "call \<Rightarrow> 'w \<Rightarrow> reply \<times> ('w \<Rightarrow> 'w)"
  hexify :: "byte list \<Rightarrow> byte list"
  unhexify :: "byte list \<Rightarrow> nat \<Rightarrow> byte list"
  remote_som :: byte
  remote_eom :: byte
  remote_process :: "nat \<Rightarrow> byte list \<Rightarrow> 'w gdb_server \<Rightarrow> (byte list, 'w gdb_server) outcome"
  others :: "('w, unit) gdb_server_ext \<Rightarrow> ('w, unit) gdb_server_ext"
  uninit :: "nat \<Rightarrow> u32"

type_synonym ('a, 'w) action = "'w gdb_server \<Rightarrow> ('a, 'w gdb_server) outcome"

lemma more_update_id [simp]: "client.more_update (\<lambda>x. x) s = s"
  by (cases s) simp

section \<open>The guard\<close>

text \<open>
  The constructor and the destructor of \<open>GDBLock\<close>. Before the outermost guard gets the mutex, other
  tasks may have run. A call that stops does not run the destructor: \<open>longjmp\<close> unwinds nothing.
\<close>

definition guard_enter :: "'w env \<Rightarrow> (unit, 'w) action" where
  "guard_enter e s =
     (let s1 = (if mutex_holder (gdb_mutex s) = Some (this_task s) then s
                else client.more_update (others e) s)
      in case gdb_lock (this_task s1) (gdb_mutex s1) of
           None \<Rightarrow> Stop Blocked s1
         | Some l \<Rightarrow> Ret () (s1\<lparr>gdb_mutex := l\<rparr>))"

definition guard_leave :: "(unit, 'w) action" where
  "guard_leave s = Ret () (s\<lparr>gdb_mutex := gdb_unlock (this_task s) (gdb_mutex s)\<rparr>)"

definition guarded :: "'w env \<Rightarrow> ('a, 'w) action \<Rightarrow> ('a, 'w) action" where
  "guarded e body s =
     andthen (guard_enter e s) (\<lambda>_ s.
     andthen (body s) (\<lambda>a s.
     andthen (guard_leave s) (\<lambda>_ s. Ret a s)))"

section \<open>Sending\<close>

definition server_if :: "'w env \<Rightarrow> 'w gdb_server gdb_if" where
  "server_if e = client_if (others e)"

definition put :: "'w env \<Rightarrow> byte list \<Rightarrow> (unit, 'w) action" where
  "put e b s = gdb_putpacket (server_if e) (no_ack_mode s) b 36 s"

text \<open>\<open>gdb_putpacketz\<close>: the packet is a string literal.\<close>

definition putz :: "'w env \<Rightarrow> string \<Rightarrow> (unit, 'w) action" where
  "putz e t = put e (str t)"

definition defined :: "('a, 's) outcome option \<Rightarrow> 's \<Rightarrow> ('a, 's) outcome" where
  "defined r s = (case r of None \<Rightarrow> Stop Undefined s | Some m \<Rightarrow> m)"

definition putf :: "'w env \<Rightarrow> string \<Rightarrow> farg list \<Rightarrow> (unit, 'w) action" where
  "putf e fmt args s = defined (gdb_putpacket_f (server_if e) (no_ack_mode s) (str fmt) args s) s"

definition notifyf :: "'w env \<Rightarrow> string \<Rightarrow> farg list \<Rightarrow> (unit, 'w) action" where
  "notifyf e fmt args s = defined (gdb_putnotifpacket_f (server_if e) (no_ack_mode s) (str fmt) args s) s"

section \<open>Callbacks and calls\<close>

text \<open>
  \<open>gdb_target_destroy_callback\<close>: the library is about to free the target \<open>t\<close>.
\<close>

definition gdb_target_destroy_callback :: "'w env \<Rightarrow> nat \<Rightarrow> (unit, 'w) action" where
  "gdb_target_destroy_callback e t s =
     andthen
       (if cur_target s = Some t then
          andthen (gdb_put_notification (server_if e) (str ''%Stop:W00'') s) (\<lambda>_ s.
          andthen (gdb_out (server_if e) (hexify e) (no_ack_mode s)
                     (str ''You are now detached from the previous target.'' @ [10]) s) (\<lambda>_ s.
            Ret () (s\<lparr>gdb_needs_detach_notify := True, cur_target := None\<rparr>)))
        else Ret () s)
       (\<lambda>_ s. Ret () (if last_target s = Some t then s\<lparr>last_target := None\<rparr> else s))"

definition gdb_target_printf :: "'w env \<Rightarrow> byte list \<Rightarrow> farg list \<Rightarrow> (unit, 'w) action" where
  "gdb_target_printf e fmt args s =
     defined (gdb_voutf (server_if e) (hexify e) (no_ack_mode s) fmt args s) s"

fun run_callbacks :: "'w env \<Rightarrow> callback list \<Rightarrow> (unit, 'w) action" where
  "run_callbacks e [] s = Ret () s"
| "run_callbacks e (Destroyed t # cs) s =
     andthen (gdb_target_destroy_callback e t s) (\<lambda>_ s. run_callbacks e cs s)"
| "run_callbacks e (Printf f args # cs) s =
     andthen (gdb_target_printf e f args s) (\<lambda>_ s. run_callbacks e cs s)"

definition lib :: "'w env \<Rightarrow> call \<Rightarrow> (reply, 'w) action" where
  "lib e c s =
     (let (r, effect) = answer e c (library s)
      in andthen (run_callbacks e (r_events r) (s\<lparr>calls := calls s @ [c]\<rparr>)) (\<lambda>_ s.
           let s = s\<lparr>library := effect (library s)\<rparr>
           in case r_raised r of None \<Rightarrow> Ret r s | Some t \<Rightarrow> Stop (Raised t) s))"

text \<open>\<open>TRY_CATCH (e, EXCEPTION_ALL)\<close>, and \<open>e.type\<close> afterwards; see the theory of the exceptions.\<close>

definition try_all :: "(unit, 'w) action \<Rightarrow> (u32, 'w) action" where
  "try_all m s =
     (case m s of
        Ret _ s' \<Rightarrow> Ret 0 s'
      | Stop w s' \<Rightarrow> (case w of Raised t \<Rightarrow> Ret t s' | _ \<Rightarrow> Stop w s'))"

section \<open>The C interface\<close>

text \<open>
  The functions with C linkage in \<open>src/main/gdb_if.cpp\<close> look the client object of the calling task
  up and forward to its method. \<open>gdb_putpacket\<close> forwards to \<open>gdb_putpacket_f\<close>, so that the packet is
  taken as a format string and the size as its first argument.
\<close>

definition shim_putpacket :: "'w env \<Rightarrow> byte list \<Rightarrow> nat \<Rightarrow> (unit, 'w) action" where
  "shim_putpacket e packet n s =
     defined (gdb_putpacket_f (server_if e) (no_ack_mode s) (cstr packet) [FNum (of_nat n)] s) s"

definition shim_put_notification :: "'w env \<Rightarrow> byte list \<Rightarrow> (unit, 'w) action" where
  "shim_put_notification e packet s = gdb_put_notification (server_if e) packet s"

definition shim_putpacket2 :: "'w env \<Rightarrow> byte list \<Rightarrow> byte list \<Rightarrow> (unit, 'w) action" where
  "shim_putpacket2 e packet1 packet2 s = gdb_putpacket2 (server_if e) packet1 packet2 s"

definition shim_out :: "'w env \<Rightarrow> byte list \<Rightarrow> (unit, 'w) action" where
  "shim_out e text s = gdb_out (server_if e) (hexify e) (no_ack_mode s) text s"

definition shim_voutf :: "'w env \<Rightarrow> byte list \<Rightarrow> farg list \<Rightarrow> (unit, 'w) action" where
  "shim_voutf e fmt args s = defined (gdb_voutf (server_if e) (hexify e) (no_ack_mode s) fmt args s) s"

end
