(* ===== verification/GdbMain.thy ===== *)
theory GdbMain
  imports GdbServer
begin

text \<open>
  The GDB server of \<open>src/main/gdb_main.cpp\<close>: the main loop with its packet switch, the handlers of
  the \<open>q\<close>, \<open>v\<close> and \<open>Z\<close> packets, and the monitor commands.
\<close>

definition GDB_SIGINT :: u32 where "GDB_SIGINT = 2"
definition GDB_SIGTRAP :: u32 where "GDB_SIGTRAP = 5"
definition GDB_SIGSEGV :: u32 where "GDB_SIGSEGV = 11"
definition GDB_SIGLOST :: u32 where "GDB_SIGLOST = 29"

section \<open>Helpers for the handlers\<close>

text \<open>\<open>strncmp(p, s, strlen(s)) == 0\<close> and \<open>strcmp(p, s) == 0\<close>, for the NUL-terminated array \<open>p\<close>.\<close>

definition starts :: "string \<Rightarrow> byte list \<Rightarrow> bool" where
  "starts s p = (take (length s) (cstr p) = str s)"

definition equals :: "string \<Rightarrow> byte list \<Rightarrow> bool" where
  "equals s p = (cstr p = str s)"

text \<open>The packet letter: a \<open>case\<close> label of the switch.\<close>

definition is_ch :: "byte \<Rightarrow> char \<Rightarrow> bool" where
  "is_ch b c = (b = of_char c)"

text \<open>The \<open>i\<close>th variable assigned by \<open>sscanf\<close>, or what was in it before.\<close>

definition num_at :: "scan_val list \<Rightarrow> nat \<Rightarrow> u32 \<Rightarrow> u32" where
  "num_at vs i d =
     (if i < length vs then (case vs ! i of SNum v \<Rightarrow> v | SPos p \<Rightarrow> of_nat p) else d)"

text \<open>The \<open>n\<close> bytes from offset \<open>k\<close> of an array, read inside its bounds.\<close>

definition read_at :: "byte list \<Rightarrow> nat \<Rightarrow> nat \<Rightarrow> 's \<Rightarrow> (byte list, 's) outcome" where
  "read_at b k n s = (if k + n \<le> length b then Ret (take n (drop k b)) s else Stop OutOfBounds s)"

text \<open>\<open>hexify(pbuf, b, n)\<close>: the digits and a NUL, written to the packet buffer.\<close>

definition hexify_pbuf :: "'w env \<Rightarrow> byte list \<Rightarrow> (byte list, 'w) action" where
  "hexify_pbuf e b s =
     (let h = hexify e b
      in if length h < length (pbuf s)
         then Ret h (s\<lparr>pbuf := h @ 0 # drop (Suc (length h)) (pbuf s)\<rparr>)
         else Stop OutOfBounds s)"

text \<open>\<open>ERROR_IF_NO_TARGET\<close>: under the guard, \<open>EFF\<close> without a target.\<close>

definition with_target :: "'w env \<Rightarrow> (unit, 'w) action \<Rightarrow> (unit, 'w) action" where
  "with_target e body =
     guarded e (\<lambda>s. if cur_target s = None then putz e ''EFF'' s else body s)"

section \<open>Registers and memory\<close>

definition packet_g :: "'w env \<Rightarrow> (unit, 'w) action" where
  "packet_g e = with_target e (\<lambda>s.
     andthen (lib e (Target_regs_size (cur_target s)) s) (\<lambda>n s.
     andthen (lib e (Target_regs_read (cur_target s)) s) (\<lambda>r s.
     andthen (hexify_pbuf e (r_bytes r) s) (\<lambda>h s.
       put e (take (nat (r_int n) * 2) h) s))))"

definition packet_m :: "'w env \<Rightarrow> (unit, 'w) action" where
  "packet_m e = with_target e (\<lambda>s.
     let vs = sscanf (cstr (pbuf s)) (lits ''m'' @ [Hex 0] @ lits '','' @ [Hex 0]);
         addr = num_at vs 0 (uninit e 0); len = num_at vs 1 (uninit e 1)
     in if length (pbuf s) div 2 < unat len then putz e ''E02'' s
        else
          andthen (lib e (Target_mem_read (cur_target s) addr len) s) (\<lambda>r s.
            if r_int r \<noteq> 0 then putz e ''E01'' s
            else andthen (hexify_pbuf e (r_bytes r) s) (\<lambda>h s. put e (take (unat len * 2) h) s)))"

definition packet_G :: "'w env \<Rightarrow> (unit, 'w) action" where
  "packet_G e = with_target e (\<lambda>s.
     andthen (lib e (Target_regs_size (cur_target s)) s) (\<lambda>n s.
     andthen (read_at (pbuf s) 1 (nat (r_int n) * 2) s) (\<lambda>src s.
     andthen (lib e (Target_regs_write (cur_target s) (unhexify e src (nat (r_int n)))) s) (\<lambda>_ s.
       putz e ''OK'' s))))"

text \<open>\<open>sz\<close> is what \<open>gdb_getpacket\<close> returned; the comparisons are of unsigned numbers.\<close>

definition packet_M :: "'w env \<Rightarrow> nat \<Rightarrow> (unit, 'w) action" where
  "packet_M e sz = with_target e (\<lambda>s.
     let vs = sscanf (cstr (pbuf s)) (lits ''M'' @ [Hex 0] @ lits '','' @ [Hex 0] @ lits '':'' @ [Pos]);
         addr = num_at vs 0 (uninit e 0); len = num_at vs 1 (uninit e 1); hex = num_at vs 2 (uninit e 2)
     in if (of_nat sz - hex) div 2 < len then putz e ''E02'' s
        else
          andthen (read_at (pbuf s) (unat hex) (unat len * 2) s) (\<lambda>src s.
          andthen (lib e (Target_mem_write (cur_target s) addr (unhexify e src (unat len))) s) (\<lambda>r s.
            if r_int r \<noteq> 0 then putz e ''E01'' s else putz e ''OK'' s)))"

definition packet_X :: "'w env \<Rightarrow> nat \<Rightarrow> (unit, 'w) action" where
  "packet_X e sz = with_target e (\<lambda>s.
     let vs = sscanf (cstr (pbuf s)) (lits ''X'' @ [Hex 0] @ lits '','' @ [Hex 0] @ lits '':'' @ [Pos]);
         addr = num_at vs 0 (uninit e 0); len = num_at vs 1 (uninit e 1); bin = num_at vs 2 (uninit e 2)
     in if of_nat sz - bin < len then putz e ''E02'' s
        else
          andthen (read_at (pbuf s) (unat bin) (unat len) s) (\<lambda>data s.
          andthen (lib e (Target_mem_write (cur_target s) addr data) s) (\<lambda>r s.
            if r_int r \<noteq> 0 then putz e ''E01'' s else putz e ''OK'' s)))"

definition packet_p :: "'w env \<Rightarrow> (unit, 'w) action" where
  "packet_p e = with_target e (\<lambda>s.
     let vs = sscanf (cstr (pbuf s)) (lits ''p'' @ [Hex 0]); reg = num_at vs 0 (uninit e 0)
     in andthen (lib e (Target_reg_read (cur_target s) reg 8) s) (\<lambda>r s.
          if 0 < r_int r then
            andthen (hexify_pbuf e (r_bytes r) s) (\<lambda>h s. put e (take (nat (r_int r) * 2) h) s)
          else putz e ''EFF'' s))"

definition packet_P :: "'w env \<Rightarrow> (unit, 'w) action" where
  "packet_P e = with_target e (\<lambda>s.
     let vs = sscanf (cstr (pbuf s)) (lits ''P'' @ [Hex 0] @ lits ''='' @ [Pos]);
         reg = num_at vs 0 (uninit e 0); n = unat (num_at vs 1 (uninit e 1));
         len = length (cstr (drop n (pbuf s))) div 2
     in if length (pbuf s) < n then Stop OutOfBounds s
        else
          andthen (lib e (Target_reg_write (cur_target s) reg (unhexify e (drop n (pbuf s)) len)) s) (\<lambda>r s.
            if 0 < r_int r then putz e ''OK'' s else putz e ''EFF'' s))"

section \<open>Run control\<close>

definition packet_c :: "'w env \<Rightarrow> (unit, 'w) action" where
  "packet_c e = guarded e (\<lambda>s.
     if cur_target s = None then putz e ''X1D'' s
     else andthen (lib e (Target_halt_resume (cur_target s) (single_step s)) s) (\<lambda>_ s.
            Ret () (s\<lparr>run_state := True\<rparr>)))"

definition packet_s :: "'w env \<Rightarrow> (unit, 'w) action" where
  "packet_s e s = packet_c e (s\<lparr>single_step := True\<rparr>)"

definition packet_interrupt :: "'w env \<Rightarrow> (unit, 'w) action" where
  "packet_interrupt e = guarded e (\<lambda>s.
     let s = s\<lparr>run_state := True\<rparr>
     in andthen (lib e (Target_halt_request (cur_target s)) s) (\<lambda>_ s. Ret () s))"

definition packet_halt_reason :: "'w env \<Rightarrow> (unit, 'w) action" where
  "packet_halt_reason e = guarded e (\<lambda>s.
     if cur_target s = None then putz e ''W00'' s
     else andthen (lib e (Target_halt_poll (cur_target s)) s) (\<lambda>r s.
       case r_reason r of
         HALT_ERROR \<Rightarrow>
           andthen (putf e ''X%02X'' [FNum GDB_SIGLOST] s) (\<lambda>_ s.
           andthen (lib e (Morse (str ''TARGET LOST.'')) s) (\<lambda>_ s. Ret () s))
       | HALT_REQUEST \<Rightarrow> putf e ''T%02Xthread:1;core:0;'' [FNum GDB_SIGINT] s
       | HALT_WATCHPOINT \<Rightarrow> putf e ''T%02Xwatch:%08X;'' [FNum GDB_SIGTRAP, FNum (r_out r)] s
       | HALT_FAULT \<Rightarrow> putf e ''T%02Xthread:1;core:0;'' [FNum GDB_SIGSEGV] s
       | HALT_RUNNING \<Rightarrow> putf e ''T%02Xthread:1;core:0;'' [FNum 0] s
       | HALT_OTHER \<Rightarrow> putf e ''T%02Xthread:1;core:0;'' [FNum GDB_SIGTRAP] s))"

definition packet_D :: "'w env \<Rightarrow> (unit, 'w) action" where
  "packet_D e = guarded e (\<lambda>s.
     andthen
       (if cur_target s \<noteq> None then andthen (lib e (Target_detach (cur_target s)) s) (\<lambda>_ s. Ret () s)
        else Ret () s)
       (\<lambda>_ s. putz e ''OK'' (s\<lparr>last_target := cur_target s, cur_target := None\<rparr>)))"

text \<open>The part the packets \<open>k\<close> and \<open>vKill\<close> share.\<close>

definition kill_target :: "'w env \<Rightarrow> (unit, 'w) action" where
  "kill_target e s =
     (if cur_target s \<noteq> None then
        andthen (lib e (Target_reset (cur_target s)) s) (\<lambda>_ s.
        andthen (lib e (Target_detach (cur_target s)) s) (\<lambda>_ s.
          Ret () (s\<lparr>last_target := cur_target s, cur_target := None\<rparr>)))
      else Ret () s)"

definition packet_k :: "'w env \<Rightarrow> (unit, 'w) action" where
  "packet_k e = guarded e (kill_target e)"

text \<open>\<open>cur_target = target_attach(last_target, &gdb_controller)\<close>.\<close>

definition attach_last :: "'w env \<Rightarrow> (unit, 'w) action" where
  "attach_last e s =
     andthen (lib e (Target_attach (last_target s)) s) (\<lambda>r s. Ret () (s\<lparr>cur_target := r_ptr r\<rparr>))"

definition reset_cur :: "'w env \<Rightarrow> (unit, 'w) action" where
  "reset_cur e s = andthen (lib e (Target_reset (cur_target s)) s) (\<lambda>_ s. Ret () s)"

definition packet_R :: "'w env \<Rightarrow> (unit, 'w) action" where
  "packet_R e = guarded e (\<lambda>s.
     if cur_target s \<noteq> None then reset_cur e s
     else if last_target s \<noteq> None then andthen (attach_last e s) (\<lambda>_ s. reset_cur e s)
     else Ret () s)"

section \<open>Breakpoints and watchpoints\<close>

definition handle_z_packet :: "'w env \<Rightarrow> (unit, 'w) action" where
  "handle_z_packet e = guarded e (\<lambda>s.
     let set = is_ch (pbuf s ! 0) CHR ''Z'';
         type = uint (pbuf s ! 1) - 48;
         vs = sscanf (cstr (drop 2 (pbuf s))) (lits '','' @ [Hex 0] @ lits '','' @ [Dec]);
         addr = num_at vs 0 (uninit e 0); len = num_at vs 1 (uninit e 1)
     in andthen
          (if set then lib e (Target_breakwatch_set (cur_target s) type addr len) s
           else lib e (Target_breakwatch_clear (cur_target s) type addr len) s)
          (\<lambda>r s. if r_int r < 0 then putz e ''E01'' s
                 else if 0 < r_int r then putz e [] s
                 else putz e ''OK'' s))"

definition packet_z :: "'w env \<Rightarrow> (unit, 'w) action" where
  "packet_z e = with_target e (handle_z_packet e)"

section \<open>Queries\<close>

text \<open>
  \<open>strncpy(dst, src, n)\<close> of a string: exactly \<open>n\<close> bytes, filled up with NULs.
\<close>

definition strncpy :: "byte list \<Rightarrow> nat \<Rightarrow> byte list" where
  "strncpy src n = take n (cstr src @ replicate n 0)"

text \<open>
  The reply to a chunked read of \<open>text\<close>; \<open>reply[len + 2]\<close> has a size of 32 bits.
\<close>

definition handle_q_string_reply :: "'w env \<Rightarrow> byte list \<Rightarrow> byte list \<Rightarrow> (unit, 'w) action" where
  "handle_q_string_reply e text param s =
     (let vs = sscanf (cstr param) ([Hex 8] @ lits '','' @ [Hex 8]);
          addr = unat (num_at vs 0 0); len = num_at vs 1 0
      in if scan_count vs \<noteq> 2 then putz e ''E01'' s
         else if addr < length (cstr text) then
           (let reply = replicate (unat (len + 2)) 0; at_addr = drop addr (cstr text)
            in andthen (put_at 0 109 reply s) (\<lambda>reply s.
                 if length reply < 1 + unat len then Stop OutOfBounds s
                 else
                   (let reply = take 1 reply @ strncpy at_addr (unat len) @ drop (1 + unat len) reply;
                        n = (if length at_addr < unat len then length at_addr else unat len)
                    in put e (take (n + 1) reply) s)))
         else if addr = length (cstr text) then putz e ''l'' s
         else putz e ''E01'' s)"

definition sfr_region :: "byte list" where
  "sfr_region =
     str ''<memory type='' @ [34] @ str ''ram'' @ [34] @ str '' start='' @ [34] @ str ''0x30000000'' @ [34]
     @ str '' length='' @ [34] @ str ''0xCFFFFFFF'' @ [34] @ str ''/></memory-map>''"

text \<open>
  The memory map with the region of the special function registers written over its closing tag,
  in the 1024 bytes of the heap block; \<open>None\<close> when a byte is written outside the block.
\<close>

definition add_sfr_region :: "byte list \<Rightarrow> byte list option" where
  "add_sfr_region xml =
     (let l = length (cstr xml); tag = length ''</memory-map>''
      in if l < tag \<or> length xml < l - tag + length sfr_region + 1 then None
         else Some (take (l - tag) xml @ sfr_region @ 0 # drop (l - tag + length sfr_region + 1) xml))"

definition reattach :: "'w env \<Rightarrow> (unit, 'w) action" where
  "reattach e s = (if cur_target s = None \<and> last_target s \<noteq> None then attach_last e s else Ret () s)"

definition query_memory_map :: "'w env \<Rightarrow> (unit, 'w) action" where
  "query_memory_map e = guarded e (\<lambda>s.
     andthen (reattach e s) (\<lambda>_ s.
       if cur_target s = None then putz e ''E01'' s
       else
         andthen (lib e (Target_mem_map (cur_target s) 1024) s) (\<lambda>r s.
           case add_sfr_region (r_bytes r) of
             None \<Rightarrow> Stop OutOfBounds s
           | Some b \<Rightarrow> handle_q_string_reply e b (drop 23 (pbuf s)) s)))"

definition query_features :: "'w env \<Rightarrow> (unit, 'w) action" where
  "query_features e = guarded e (\<lambda>s.
     andthen (reattach e s) (\<lambda>_ s.
       if cur_target s = None then putz e ''E01'' s
       else
         andthen (lib e (Target_regs_description (cur_target s)) s) (\<lambda>r s.
           handle_q_string_reply e (r_bytes r) (drop 31 (pbuf s)) s)))"

definition query_rcmd :: "'w env \<Rightarrow> nat \<Rightarrow> (unit, 'w) action" where
  "query_rcmd e len = guarded e (\<lambda>s.
     let datalen = (len - 6) div 2; data = unhexify e (drop 6 (pbuf s)) datalen
     in if starts ''reset'' data then
          (if cur_target s \<noteq> None then andthen (reset_cur e s) (\<lambda>_ s. putz e ''OK'' s)
           else putz e ''E'' s)
        else
          andthen (lib e (Command_process (cur_target s) (cstr data)) s) (\<lambda>r s.
            if equals ''ReadAP'' (r_bytes r) \<or> equals ''WriteDP'' (r_bytes r) then Ret () s
            else if r_int r < 0 then putz e [] s
            else if r_int r = 0 then putz e ''OK'' s
            else if r_int r = 255 then Ret () s
            else putz e ''E'' s))"

definition query_crc :: "'w env \<Rightarrow> u32 \<Rightarrow> u32 \<Rightarrow> (unit, 'w) action" where
  "query_crc e addr alen = guarded e (\<lambda>s.
     if cur_target s = None then putz e ''E01'' s
     else andthen (lib e (Generic_crc32 (cur_target s) addr alen) s) (\<lambda>r s.
       if r_int r = 0 then putz e ''E03'' s else putf e ''C%lx'' [FNum (r_out r)] s))"

definition supported_fmt :: string where
  "supported_fmt = ''PacketSize=%X;qXfer:memory-map:read+;qXfer:features:read+;QNonStop+;QStartNoAckMode+''"

definition handle_q_packet :: "'w env \<Rightarrow> nat \<Rightarrow> (unit, 'w) action" where
  "handle_q_packet e len s =
     (let packet = pbuf s;
          crc = sscanf (cstr packet) (lits ''qCRC:'' @ [Hex 0] @ lits '','' @ [Hex 0])
      in if starts ''qRcmd,'' packet then query_rcmd e len s
         else if starts ''qSupported'' packet then putf e supported_fmt [FNum (of_nat BUF_SIZE)] s
         else if starts ''qAttached'' packet then
           putf e ''%d'' [FNum (if cur_target s \<noteq> None then 1 else 0)] s
         else if starts ''qXfer:memory-map:read::'' packet then query_memory_map e s
         else if starts ''qXfer:features:read:target.xml:'' packet then query_features e s
         else if scan_count crc = 2 then query_crc e (num_at crc 0 0) (num_at crc 1 0) s
         else if equals ''qC'' packet then putz e ''QC1'' s
         else if equals ''qfThreadInfo'' packet \<or> equals ''qsThreadInfo'' packet then
           (if is_ch (packet ! 1) CHR ''f'' then putz e ''m1'' s else putz e ''l'' s)
         else put e [] s)"

section \<open>The v packets\<close>

text \<open>
  The command line of \<open>vRun\<close>: \<open>tok\<close> is the rest of the packet behind the pointer \<open>tok\<close>, \<open>i\<close> the
  offset of the pointer \<open>pbuf\<close> in the array \<open>cmdline\<close>, which has 83 bytes; \<open>None\<close> when a write
  leaves it. \<open>unhexify(pbuf, tok, 2)\<close> writes two bytes.
\<close>

definition isxdigit :: "byte \<Rightarrow> bool" where
  "isxdigit b \<longleftrightarrow> hexval b \<noteq> None"

definition store :: "nat \<Rightarrow> byte list \<Rightarrow> byte list \<Rightarrow> byte list option" where
  "store i bs a = (if i + length bs \<le> length a then Some (take i a @ bs @ drop (i + length bs) a) else None)"

fun vrun_cmdline :: "(byte list \<Rightarrow> nat \<Rightarrow> byte list) \<Rightarrow> byte list \<Rightarrow> nat \<Rightarrow> byte list \<Rightarrow> byte list option" where
  "vrun_cmdline unhex [] i cmdline = Some cmdline"
| "vrun_cmdline unhex (t # tok) i cmdline =
     (if t = 0 then Some cmdline
      else if 83 \<le> length (cstr cmdline) + 3 then Some cmdline
      else if is_ch t CHR '';'' then
        Option.bind (store i [32, 0] cmdline) (\<lambda>c. vrun_cmdline unhex tok (i + 1) c)
      else if isxdigit t \<and> tok \<noteq> [] \<and> isxdigit (hd tok) then
        Option.bind (store i (unhex (t # tok) 2) cmdline) (\<lambda>c.
          if c ! i = 32 \<or> c ! i = 92 then
            Option.bind (store i [92, c ! i, 0] c) (\<lambda>c. vrun_cmdline unhex (tl tok) (i + 2) c)
          else Option.bind (store (i + 1) [0] c) (\<lambda>c. vrun_cmdline unhex (tl tok) (i + 1) c))
      else Some cmdline)"

definition vrun_args :: "byte list \<Rightarrow> byte list" where
  "vrun_args packet =
     (let tok = drop 4 packet in if tok \<noteq> [] \<and> is_ch (hd tok) CHR '';'' then tl tok else tok)"

definition start_program :: "'w env \<Rightarrow> byte list \<Rightarrow> (unit, 'w) action" where
  "start_program e cmdline s =
     andthen (lib e (Target_set_cmdline (cur_target s) (cstr cmdline)) s) (\<lambda>_ s.
     andthen (reset_cur e s) (\<lambda>_ s. putz e ''T05'' s))"

text \<open>\<open>junk\<close>: what is in the local array before its first byte is cleared.\<close>

definition packet_vRun :: "'w env \<Rightarrow> byte list \<Rightarrow> (unit, 'w) action" where
  "packet_vRun e junk s =
     (case vrun_cmdline (unhexify e) (vrun_args (pbuf s)) 0 (junk[0 := 0]) of
        None \<Rightarrow> Stop OutOfBounds s
      | Some cmdline \<Rightarrow>
          guarded e (\<lambda>s.
            if cur_target s \<noteq> None then start_program e cmdline s
            else if last_target s \<noteq> None then
              guarded e (\<lambda>s.
                andthen (attach_last e s) (\<lambda>_ s.
                  if cur_target s \<noteq> None then start_program e cmdline s else putz e ''E01'' s)) s
            else putz e ''E01'' s) s)"

definition packet_vFlashErase :: "'w env \<Rightarrow> u32 \<Rightarrow> u32 \<Rightarrow> (unit, 'w) action" where
  "packet_vFlashErase e addr len = guarded e (\<lambda>s.
     if cur_target s = None then putz e ''EFF'' s
     else
       andthen
         (if \<not> flash_mode s then
            andthen (reset_cur e s) (\<lambda>_ s.
            andthen (lib e (Target_halt_request (cur_target s)) s) (\<lambda>_ s.
              Ret () (s\<lparr>flash_mode := True\<rparr>)))
          else Ret () s)
         (\<lambda>_ s. andthen (lib e (Target_flash_erase (cur_target s) addr len) s) (\<lambda>r s.
            if r_int r \<noteq> 0 then putz e ''OK'' s
            else putz e ''EFF'' (s\<lparr>flash_mode := False\<rparr>))))"

definition packet_vFlashWrite :: "'w env \<Rightarrow> u32 \<Rightarrow> nat \<Rightarrow> nat \<Rightarrow> (unit, 'w) action" where
  "packet_vFlashWrite e addr bin plen = guarded e (\<lambda>s.
     if cur_target s = None then putz e ''EFF'' (s\<lparr>flash_mode := False\<rparr>)
     else
       andthen (if plen < bin then Stop OutOfBounds s else read_at (pbuf s) bin (plen - bin) s) (\<lambda>data s.
       andthen (lib e (Target_flash_write (cur_target s) addr data) s) (\<lambda>r s.
         if r_int r \<noteq> 0 then putz e ''OK'' s
         else putz e ''EFF'' (s\<lparr>flash_mode := False\<rparr>))))"

fun vcont_actions :: "'w env \<Rightarrow> byte list \<Rightarrow> (unit, 'w) action" where
  "vcont_actions e [] s = Ret () s"
| "vcont_actions e (c # cs) s =
     andthen
       (if is_ch c CHR ''c'' then
          (let s = s\<lparr>run_state := True\<rparr>
           in andthen (lib e (Target_halt_resume (cur_target s) (single_step s)) s) (\<lambda>_ s. Ret () s))
        else if is_ch c CHR ''t'' then
          andthen (lib e (Target_halt_request (cur_target s)) s) (\<lambda>_ s. Ret () (s\<lparr>run_state := True\<rparr>))
        else if is_ch c CHR ''s'' then Ret () (s\<lparr>run_state := True, single_step := True\<rparr>)
        else Ret () s)
       (\<lambda>_ s. vcont_actions e cs s)"

definition packet_vCont :: "'w env \<Rightarrow> (unit, 'w) action" where
  "packet_vCont e = guarded e (\<lambda>s.
     let c0 = drop 5 (cstr (pbuf s)); c = (if c0 \<noteq> [] \<and> is_ch (hd c0) CHR '';'' then tl c0 else c0)
     in if c \<noteq> [] \<and> is_ch (hd c) CHR ''?'' then putz e ''vCont;c;s;t'' s
        else if cur_target s = None then putz e ''EFF'' s
        else
          andthen (vcont_actions e c (s\<lparr>single_step := False\<rparr>)) (\<lambda>_ s. putz e ''OK'' s))"

definition packet_vAttach :: "'w env \<Rightarrow> u32 \<Rightarrow> (unit, 'w) action" where
  "packet_vAttach e n = guarded e (\<lambda>s.
     andthen (lib e (Target_attach_n n) s) (\<lambda>r s.
       let s = s\<lparr>cur_target := r_ptr r\<rparr>
       in if cur_target s \<noteq> None then putz e ''T05thread:1;'' s else putz e ''E01'' s))"

definition packet_vKill :: "'w env \<Rightarrow> (unit, 'w) action" where
  "packet_vKill e = guarded e (\<lambda>s. andthen (kill_target e s) (\<lambda>_ s. putz e ''OK'' s))"

definition packet_vFlashDone :: "'w env \<Rightarrow> (unit, 'w) action" where
  "packet_vFlashDone e = guarded e (\<lambda>s.
     andthen (lib e (Target_flash_complete (cur_target s)) s) (\<lambda>r s.
     andthen (if r_int r \<noteq> 0 then putz e ''OK'' s else putz e ''EFF'' s) (\<lambda>_ s.
       Ret () (s\<lparr>flash_mode := False\<rparr>))))"

definition packet_vStopped :: "'w env \<Rightarrow> (unit, 'w) action" where
  "packet_vStopped e s =
     (if gdb_needs_detach_notify s then
        andthen (putz e ''W00'' s) (\<lambda>_ s. Ret () (s\<lparr>gdb_needs_detach_notify := False\<rparr>))
      else putz e ''OK'' s)"

definition handle_v_packet :: "'w env \<Rightarrow> byte list \<Rightarrow> nat \<Rightarrow> (unit, 'w) action" where
  "handle_v_packet e junk plen s =
     (let packet = pbuf s;
          att = sscanf (cstr packet) (lits ''vAttach;'' @ [Hex 8]);
          era = sscanf (cstr packet) (lits ''vFlashErase:'' @ [Hex 8] @ lits '','' @ [Hex 8]);
          wri = sscanf (cstr packet) (lits ''vFlashWrite:'' @ [Hex 8] @ lits '':'' @ [Pos])
      in if scan_count att = 1 then packet_vAttach e (num_at att 0 0) s
         else if starts ''vRun'' packet then packet_vRun e junk s
         else if scan_count era = 2 then packet_vFlashErase e (num_at era 0 0) (num_at era 1 0) s
         else if scan_count wri = 1 then
           packet_vFlashWrite e (num_at wri 0 0) (unat (num_at wri 1 (uninit e 2))) plen s
         else if starts ''vCont'' packet then packet_vCont e s
         else if starts ''vKill;'' packet then packet_vKill e s
         else if equals ''vFlashDone'' packet then packet_vFlashDone e s
         else if equals ''vStopped'' packet then packet_vStopped e s
         else put e [] s)"

section \<open>The switch and the main loop\<close>

definition packet_default :: "'w env \<Rightarrow> (unit, 'w) action" where
  "packet_default e s =
     (let vs = sscanf (cstr (pbuf s)) (lits ''QNonStop:'' @ [Dec])
      in if equals ''QStartNoAckMode'' (pbuf s) then putz e ''OK'' (s\<lparr>no_ack_mode := True\<rparr>)
         else if scan_count vs = 1 then putz e ''OK'' (s\<lparr>non_stop := num_at vs 0 0 \<noteq> 0\<rparr>)
         else putz e [] s)"

text \<open>\<open>switch (pbuf[0])\<close>. \<open>Some r\<close>: \<open>gdb_main_loop\<close> returns \<open>r\<close> (the answer to a system call).\<close>

definition handle_packet :: "'w env \<Rightarrow> byte list \<Rightarrow> bool \<Rightarrow> nat \<Rightarrow> (int option, 'w) action" where
  "handle_packet e junk in_syscall sz s =
     (let c = pbuf s ! 0; go = (\<lambda>m. andthen m (\<lambda>_ s. Ret None s))
      in if is_ch c CHR ''g'' then go (packet_g e s)
         else if is_ch c CHR ''T'' then go (putz e ''OK'' s)
         else if is_ch c CHR ''m'' then go (packet_m e s)
         else if is_ch c CHR ''G'' then go (packet_G e s)
         else if is_ch c CHR ''H'' then go (putz e ''OK'' s)
         else if is_ch c CHR ''M'' then go (packet_M e sz s)
         else if is_ch c CHR ''S'' \<or> is_ch c CHR ''s'' then go (packet_s e s)
         else if is_ch c CHR ''C'' \<or> is_ch c CHR ''c'' then go (packet_c e s)
         else if c = 0x03 then go (packet_interrupt e s)
         else if is_ch c CHR ''?'' then go (packet_halt_reason e s)
         else if is_ch c CHR ''p'' then go (packet_p e s)
         else if is_ch c CHR ''P'' then go (packet_P e s)
         else if is_ch c CHR ''F'' then
           (if in_syscall then
              andthen (lib e (Hostio_reply (take sz (pbuf s))) s) (\<lambda>r s. Ret (Some (r_int r)) s)
            else go (putz e [] s))
         else if is_ch c CHR ''!'' then go (putz e ''OK'' s)
         else if c = 0x04 \<or> is_ch c CHR ''D'' then go (packet_D e s)
         else if is_ch c CHR ''k'' then go (packet_k e s)
         else if is_ch c CHR ''r'' \<or> is_ch c CHR ''R'' then go (packet_R e s)
         else if is_ch c CHR ''X'' then go (packet_X e sz s)
         else if is_ch c CHR ''q'' then go (handle_q_packet e sz s)
         else if is_ch c CHR ''v'' then go (handle_v_packet e junk sz s)
         else if is_ch c CHR ''Z'' \<or> is_ch c CHR ''z'' then go (packet_z e s)
         else go (packet_default e s))"

text \<open>What an empty poll of the connection does: the state of a running target is reported.\<close>

definition stop_report :: "'w env \<Rightarrow> halt_reason \<Rightarrow> u32 \<Rightarrow> (unit, 'w) action" where
  "stop_report e reason watch s =
     (if non_stop s then
        (case reason of
           HALT_ERROR \<Rightarrow> notifyf e ''Stop:X%02X'' [FNum GDB_SIGLOST] s
         | HALT_REQUEST \<Rightarrow> notifyf e ''Stop:T%02Xthread:1;core:0;'' [FNum GDB_SIGINT] s
         | HALT_WATCHPOINT \<Rightarrow>
             notifyf e ''Stop:T%02Xthread:1;core:0;watch:%08X;'' [FNum GDB_SIGTRAP, FNum watch] s
         | HALT_FAULT \<Rightarrow> notifyf e ''Stop:T%02Xthread:1;core:0;'' [FNum GDB_SIGSEGV] s
         | HALT_RUNNING \<Rightarrow> Ret () s
         | HALT_OTHER \<Rightarrow> notifyf e ''Stop:T%02Xthread:1;core:0;'' [FNum GDB_SIGTRAP] s)
      else
        (case reason of
           HALT_ERROR \<Rightarrow> putf e ''X%02X'' [FNum GDB_SIGLOST] s
         | HALT_REQUEST \<Rightarrow> putf e ''T%02X'' [FNum GDB_SIGINT] s
         | HALT_WATCHPOINT \<Rightarrow> putf e ''T%02Xwatch:%08X;'' [FNum GDB_SIGTRAP, FNum watch] s
         | HALT_FAULT \<Rightarrow> putf e ''T%02X'' [FNum GDB_SIGSEGV] s
         | HALT_RUNNING \<Rightarrow> Ret () s
         | HALT_OTHER \<Rightarrow> putf e ''T%02X'' [FNum GDB_SIGTRAP] s))"

definition poll_target :: "'w env \<Rightarrow> (unit, 'w) action" where
  "poll_target e = guarded e (\<lambda>s.
     if run_state s \<and> cur_target s \<noteq> None then
       andthen (lib e (Target_halt_poll (cur_target s)) s) (\<lambda>r s.
       andthen (stop_report e (r_reason r) (r_out r) s) (\<lambda>_ s.
         Ret () (if run_state s \<and> r_reason r \<noteq> HALT_RUNNING
                 then s\<lparr>run_state := False, single_step := False\<rparr> else s)))
     else Ret () s)"

definition remote_api :: "'w env \<Rightarrow> 'w gdb_server remote" where
  "remote_api e = \<lparr>REMOTE_SOM = remote_som e, REMOTE_EOM = remote_eom e,
     remote_packet_process = remote_process e, guard_lock = guard_enter e, guard_unlock = guard_leave\<rparr>"

text \<open>
  One round of the loop. The fuel of \<open>gdb_getpacket\<close> is larger than the number of arrivals, which is
  enough (\<open>getpacket_terminates\<close>).
\<close>

definition main_step :: "'w env \<Rightarrow> byte list \<Rightarrow> bool \<Rightarrow> (int option, 'w) action" where
  "main_step e junk in_syscall s =
     andthen (gdb_getpacket (server_if e) (remote_api e) (no_ack_mode s)
                (Suc (length (client_input s))) (pbuf s) BUF_SIZE s) (\<lambda>(sz, p) s.
       let s = s\<lparr>pbuf := p\<rparr>
       in if sz = 0 then andthen (poll_target e s) (\<lambda>_ s. Ret None s)
          else handle_packet e junk in_syscall sz s)"

fun main_rounds :: "nat \<Rightarrow> 'w env \<Rightarrow> byte list \<Rightarrow> bool \<Rightarrow> (int, 'w) action" where
  "main_rounds 0 e junk in_syscall s = Stop OutOfFuel s"
| "main_rounds (Suc n) e junk in_syscall s =
     andthen (main_step e junk in_syscall s) (\<lambda>r s.
       case r of Some v \<Rightarrow> Ret v s | None \<Rightarrow> main_rounds n e junk in_syscall s)"

definition scan_and_attach :: "'w env \<Rightarrow> (unit, 'w) action" where
  "scan_and_attach e s =
     andthen (lib e Adiv5_swdp_scan s) (\<lambda>r s.
       if 0 < r_int r then
         andthen (lib e (Target_attach_n 1) s) (\<lambda>r s.
           let s = s\<lparr>cur_target := r_ptr r\<rparr>
           in if cur_target s \<noteq> None then
                andthen (lib e (Target_add_commands (cur_target s)) s) (\<lambda>_ s. Ret () s)
              else Ret () s)
       else Ret () s)"

definition initial_scan :: "'w env \<Rightarrow> (unit, 'w) action" where
  "initial_scan e = guarded e (\<lambda>s.
     if (cur_target s = None \<and> last_target s = None) \<or> num_clients s = 1
     then andthen (try_all (scan_and_attach e) s) (\<lambda>_ s. Ret () s)
     else Ret () s)"

definition gdb_main_loop :: "nat \<Rightarrow> 'w env \<Rightarrow> byte list \<Rightarrow> bool \<Rightarrow> (int, 'w) action" where
  "gdb_main_loop n e junk in_syscall s =
     andthen (initial_scan e s) (\<lambda>_ s. main_rounds n e junk in_syscall s)"

text \<open>
  The loop of \<open>GDB_client::task\<close>: the session runs under a handler for every exception; after one the
  debugger gets \<open>EFF\<close> and the targets are freed.
\<close>

definition client_session :: "nat \<Rightarrow> 'w env \<Rightarrow> byte list \<Rightarrow> (unit, 'w) action" where
  "client_session n e junk s =
     andthen (try_all (\<lambda>s. andthen (gdb_main_loop n e junk False s) (\<lambda>_ s. Ret () s)) s) (\<lambda>t s.
       if t \<noteq> 0 then
         andthen (putz e ''EFF'' s) (\<lambda>_ s.
           guarded e (\<lambda>s. andthen (lib e Target_list_free s) (\<lambda>_ s. Ret () s)) s)
       else Ret () s)"

fun client_task :: "nat \<Rightarrow> nat \<Rightarrow> 'w env \<Rightarrow> byte list \<Rightarrow> (unit, 'w) action" where
  "client_task 0 n e junk s = Stop OutOfFuel s"
| "client_task (Suc k) n e junk s =
     andthen (client_session n e junk s) (\<lambda>_ s. client_task k n e junk s)"

section \<open>Monitor commands\<close>

text \<open>The commands the server registers with a target; \<open>argv\<close> has \<open>argc\<close> strings.\<close>

definition cmd_reset :: "'w env \<Rightarrow> ptr \<Rightarrow> byte list list \<Rightarrow> (bool, 'w) action" where
  "cmd_reset e t argv s =
     (if length argv = 2 then
        (if argv ! 1 = str ''init'' \<or> argv ! 1 = str ''halt'' then
           andthen (lib e (Target_halt_request t) s) (\<lambda>_ s.
           andthen (lib e (Target_reset t) s) (\<lambda>_ s. Ret True s))
         else Ret True s)
      else andthen (lib e (Target_reset t) s) (\<lambda>_ s. Ret True s))"

text \<open>The two helpers read their arguments whether they are there or not; the numbers are not used.\<close>

definition cmd_write_dp :: "'w env \<Rightarrow> byte list list \<Rightarrow> (bool, 'w) action" where
  "cmd_write_dp e argv s =
     (let text = str ''O.K.'' @ [10]; i = length text * 2 + 1
      in andthen (shim_putpacket e (hexify e text @ [0]) i s) (\<lambda>_ s.
         if length argv < 3 then Stop Undefined s
         else andthen (lib e (Cortexm_ap (cur_target s)) s) (\<lambda>_ s. Ret True s)))"

definition cmd_read_ap :: "'w env \<Rightarrow> byte list list \<Rightarrow> (bool, 'w) action" where
  "cmd_read_ap e argv s =
     (if cur_target s = None then Ret False s
      else
        andthen (lib e (Cortexm_ap (cur_target s)) s) (\<lambda>_ s.
        if length argv < 2 then Stop Undefined s
        else
          andthen (lib e Adiv5_dp_read s) (\<lambda>r s.
            let text = the (vasprintf (str ''O.K.:0x%08x'' @ [10]) [FNum (r_out r)]);
                i = length text * 2 + 1
            in andthen (shim_putpacket e (hexify e text @ [0]) i s) (\<lambda>_ s. Ret True s))))"

end
