(* ===== verification/GdbSafety.thy ===== *)
theory GdbSafety
  imports GdbMain
begin

text \<open>
  The use of target pointers: whatever packets arrive and whatever the target library does within
  its contract, the server never works on a target that has been freed.
\<close>

section \<open>What the connection keeps\<close>

text \<open>A property of the part of the state that the connection does not touch.\<close>

definition more_only :: "('x client_scheme \<Rightarrow> bool) \<Rightarrow> bool" where
  "more_only I \<longleftrightarrow> (\<forall>s s'. client.more s = client.more s' \<longrightarrow> I s \<longrightarrow> I s')"

lemma more_onlyD: "more_only I \<Longrightarrow> I s \<Longrightarrow> client.more s' = client.more s \<Longrightarrow> I s'"
  unfolding more_only_def by metis

definition if_keeps :: "('s \<Rightarrow> bool) \<Rightarrow> 's gdb_if \<Rightarrow> bool" where
  "if_keeps I ifc \<longleftrightarrow>
     (\<forall>s. I s \<longrightarrow> keeps I (if_getchar ifc s))
     \<and> (\<forall>s t. I s \<longrightarrow> keeps I (if_getchar_to ifc t s))
     \<and> (\<forall>s c f. I s \<longrightarrow> keeps I (if_putchar ifc c f s))"

lemma keeps_getchar:
  assumes "more_only I" "I s"
  shows "keeps I (gdb_if_getchar s)"
  using assms
  by (auto simp: gdb_if_getchar_def destroy_def split: option.splits elim!: more_onlyD)

lemma keeps_getchar_to:
  assumes I: "more_only I" and oth: "\<And>s. I s \<Longrightarrow> I (client.more_update oth s)" and "I s"
  shows "keeps I (gdb_if_getchar_to oth t s)"
proof -
  obtain st l where bl: "gdb_breaklock (this_task s) (gdb_mutex s) = (st, l)" by fastforce
  let ?s1 = "client.more_update oth (s\<lparr>gdb_mutex := l\<rparr>)"
  have "I (s\<lparr>gdb_mutex := l\<rparr>)" using I \<open>I s\<close> by (rule more_onlyD) simp
  then have s1: "I ?s1" by (rule oth)
  have rx: "I (?s1\<lparr>net_rx := r\<rparr>)" for r using I s1 by (rule more_onlyD) simp
  have ix: "I (?s1\<lparr>buffer_index := r\<rparr>)" for r using I s1 by (rule more_onlyD) simp
  let ?b = "if buffer_index ?s1 < buffer_size ?s1 then
       Ret (buffer ?s1 ! buffer_index ?s1) (?s1\<lparr>buffer_index := Suc (buffer_index ?s1)\<rparr>)
     else (case sock_select t (net_rx ?s1) of
            None \<Rightarrow> Stop Blocked ?s1
          | Some (True, r) \<Rightarrow> gdb_if_getchar (?s1\<lparr>net_rx := r\<rparr>)
          | Some (False, r) \<Rightarrow> Ret 0xFF (?s1\<lparr>net_rx := r\<rparr>))"
  have "keeps I ?b"
    using s1 rx ix keeps_getchar [OF I rx] by (auto split: option.split bool.split)
  then have "keeps I (andthen ?b (\<lambda>a s2. case gdb_restorelock (this_task s2) st (gdb_mutex s2) of
              None \<Rightarrow> Stop Blocked s2 | Some l \<Rightarrow> Ret a (s2\<lparr>gdb_mutex := l\<rparr>)))"
    by (rule keeps_andthen) (auto split: option.split elim!: more_onlyD [OF I])
  then show ?thesis by (simp add: gdb_if_getchar_to_def with_broken_lock_def bl Let_def del: andthen.simps)
qed

lemma keeps_putchar:
  assumes "more_only I" "I s"
  shows "keeps I (gdb_if_putchar c f s)"
  using assms
  by (auto simp: gdb_if_putchar_def put_at_def Let_def destroy_def split: option.splits nat.splits
      elim!: more_onlyD)

lemma client_if_keeps:
  assumes "more_only I" "\<And>s. I s \<Longrightarrow> I (client.more_update oth s)"
  shows "if_keeps I (client_if oth)"
  using assms by (simp add: if_keeps_def client_if_def keeps_getchar keeps_getchar_to keeps_putchar)

section \<open>What the packet layer keeps\<close>

lemma if_keepsD:
  assumes "if_keeps I ifc" "I s"
  shows "keeps I (if_getchar ifc s)" "keeps I (if_getchar_to ifc t s)" "keeps I (if_putchar ifc c f s)"
  using assms by (auto simp: if_keeps_def)

lemma keeps_put_frame:
  assumes ifc: "if_keeps I ifc" and "I s"
  shows "keeps I (put_frame ifc b d s)"
proof -
  have next_char: "keeps I (gdb_next_char ifc c m s1)" if "I s1" for c m s1
    unfolding gdb_next_char_def using that
    by (auto intro!: keeps_andthen if_keepsD [OF ifc])
  have data: "I s1 \<Longrightarrow> keeps I (put_data ifc d m s1)" for m s1
    by (induction d arbitrary: m s1) (auto intro!: keeps_andthen next_char)
  show ?thesis
    unfolding put_frame_def put_trailer_def using \<open>I s\<close>
    by (auto intro!: keeps_andthen if_keepsD [OF ifc] data)
qed

lemma keeps_putpacket_loop:
  assumes ifc: "if_keeps I ifc"
  shows "I s \<Longrightarrow> keeps I (putpacket_loop ifc wait b d left s)"
  by (induction left arbitrary: s)
    (auto intro!: keeps_andthen keeps_put_frame [OF ifc] if_keepsD [OF ifc])

lemma keeps_remote_loop:
  assumes ifc: "if_keeps I ifc" and rm: "\<And>i p s. I s \<Longrightarrow> keeps I (remote_packet rm i p s)"
  shows "I s \<Longrightarrow> keeps I (remote_loop ifc rm n sz i p s)"
  by (induction n arbitrary: i p s)
    (auto intro!: keeps_andthen keeps_intros if_keepsD [OF ifc] rm)

lemma keeps_wait_start:
  assumes ifc: "if_keeps I ifc" and rm: "\<And>i p s. I s \<Longrightarrow> keeps I (remote_packet rm i p s)"
  shows "I s \<Longrightarrow> keeps I (wait_start ifc rm n sz p s)"
  by (induction n arbitrary: p s)
    (auto intro!: keeps_andthen keeps_intros if_keepsD [OF ifc] keeps_remote_loop [OF ifc rm]
      simp del: remote_loop.simps)

lemma keeps_capture:
  assumes ifc: "if_keeps I ifc"
  shows "I s \<Longrightarrow> keeps I (capture ifc n sz i m p s)"
  by (induction n arbitrary: i m p s)
    (auto intro!: keeps_andthen keeps_intros if_keepsD [OF ifc])

lemma keeps_getpacket:
  assumes ifc: "if_keeps I ifc" and rm: "\<And>i p s. I s \<Longrightarrow> keeps I (remote_packet rm i p s)"
  shows "I s \<Longrightarrow> keeps I (gdb_getpacket ifc rm no_ack n p sz s)"
proof (induction n arbitrary: p s)
  case (Suc n)
  have "I s1 \<Longrightarrow> keeps I (ack ifc no_ack c s1)" "I s1 \<Longrightarrow> keeps I (recv_checksum ifc m s1)" for c m s1
    by (auto simp: ack_def recv_checksum_def intro!: keeps_andthen if_keepsD [OF ifc])
  then show ?case
    unfolding gdb_getpacket.simps
    using Suc
    by (auto simp del: wait_start.simps capture.simps split: prod.split
        intro!: keeps_andthen keeps_intros keeps_wait_start [OF ifc rm] keeps_capture [OF ifc])
qed simp

section \<open>Valid target pointers\<close>

text \<open>
  \<open>alive\<close> are the targets that exist in a state of the library, \<open>healthy\<close> says that the library has
  not been corrupted. \<open>A\<close> are targets whose destruction has been announced.
\<close>

definition targets_valid_but ::
  "nat set \<Rightarrow> ('w \<Rightarrow> nat set) \<Rightarrow> ('w \<Rightarrow> bool) \<Rightarrow> 'w gdb_server \<Rightarrow> bool" where
  "targets_valid_but A alive healthy s \<longleftrightarrow> healthy (library s)
     \<and> (\<forall>p. cur_target s = Some p \<or> last_target s = Some p \<longrightarrow> p \<in> alive (library s) \<and> p \<notin> A)"

abbreviation targets_valid :: "('w \<Rightarrow> nat set) \<Rightarrow> ('w \<Rightarrow> bool) \<Rightarrow> 'w gdb_server \<Rightarrow> bool" where
  "targets_valid \<equiv> targets_valid_but {}"

definition announced :: "callback list \<Rightarrow> nat set" where
  "announced cs = {t. Destroyed t \<in> set cs}"

definition proper_call :: "('w \<Rightarrow> nat set) \<Rightarrow> call \<Rightarrow> 'w \<Rightarrow> bool" where
  "proper_call alive c w \<longleftrightarrow> (\<forall>p. call_target c = Some (Some p) \<longrightarrow> p \<in> alive w)"

text \<open>
  The documented behaviour of the target library: as long as it is called with NULL or with targets
  that exist, it stays healthy, frees no target without calling the destroy callback for it, and
  returns pointers to existing targets only.
\<close>

definition library_contract :: "'w env \<Rightarrow> ('w \<Rightarrow> nat set) \<Rightarrow> ('w \<Rightarrow> bool) \<Rightarrow> bool" where
  "library_contract e alive healthy \<longleftrightarrow>
     (\<forall>c w w1. healthy w \<longrightarrow> proper_call alive c w \<longrightarrow> healthy w1 \<longrightarrow>
        healthy (snd (answer e c w) w1)
        \<and> alive w1 - announced (r_events (fst (answer e c w))) \<subseteq> alive (snd (answer e c w) w1)
        \<and> (\<forall>p. r_ptr (fst (answer e c w)) = Some p \<longrightarrow> p \<in> alive (snd (answer e c w) w1)))"

text \<open>
  What the proof relies on of its surroundings: while the server has given up the lock the other tasks free none of its
  targets without the destroy callback and call the library properly as well, and so does the remote-control protocol.
\<close>

definition surroundings_contract :: "'w env \<Rightarrow> ('w \<Rightarrow> nat set) \<Rightarrow> ('w \<Rightarrow> bool) \<Rightarrow> bool" where
  "surroundings_contract e alive healthy \<longleftrightarrow>
     (\<forall>A s. targets_valid_but A alive healthy s \<longrightarrow>
        targets_valid_but A alive healthy (client.more_update (others e) s))
     \<and> (\<forall>s i p. targets_valid alive healthy s \<longrightarrow>
        keeps (targets_valid alive healthy) (remote_process e i p s))"

lemma targets_valid_more_only: "more_only (targets_valid_but A alive healthy)"
  unfolding more_only_def
proof (intro allI impI)
  fix s s' :: "'a gdb_server"
  assume m: "client.more s = client.more s'" and v: "targets_valid_but A alive healthy s"
  have "library s = library s'" "cur_target s = cur_target s'" "last_target s = last_target s'"
    using m by (cases s; cases s'; simp)+
  with v show "targets_valid_but A alive healthy s'" by (simp add: targets_valid_but_def)
qed

locale target_library =
  fixes e :: "'w env" and alive :: "'w \<Rightarrow> nat set" and healthy :: "'w \<Rightarrow> bool"
  assumes contract: "library_contract e alive healthy"
    and surroundings: "surroundings_contract e alive healthy"
begin

abbreviation I :: "'w gdb_server \<Rightarrow> bool" where
  "I \<equiv> targets_valid alive healthy"

lemma server_if_keeps: "if_keeps (targets_valid_but A alive healthy) (server_if e)"
  unfolding server_if_def
  by (rule client_if_keeps [OF targets_valid_more_only])
    (use surroundings in \<open>auto simp: surroundings_contract_def\<close>)

lemma keeps_gdb_putpacket:
  "targets_valid_but A alive healthy s \<Longrightarrow>
     keeps (targets_valid_but A alive healthy) (gdb_putpacket (server_if e) n b c s)"
  unfolding gdb_putpacket_def by (rule keeps_putpacket_loop [OF server_if_keeps])

lemma keeps_gdb_out:
  "targets_valid_but A alive healthy s \<Longrightarrow>
     keeps (targets_valid_but A alive healthy) (gdb_out (server_if e) h n t s)"
  unfolding gdb_out_def Let_def by (rule keeps_gdb_putpacket)

lemma keeps_printf:
  "targets_valid_but A alive healthy s \<Longrightarrow>
     keeps (targets_valid_but A alive healthy) (gdb_target_printf e f args s)"
  unfolding gdb_target_printf_def defined_def gdb_voutf_def
  by (auto split: option.split intro: keeps_gdb_out)

lemma valid_butD: "targets_valid_but A alive healthy s \<Longrightarrow> I s"
  by (simp add: targets_valid_but_def)

lemma destroy_callback_valid:
  assumes v: "targets_valid_but A alive healthy s"
  shows "keeps (targets_valid_but A alive healthy) (gdb_target_destroy_callback e t s)"
    and "gdb_target_destroy_callback e t s = Ret () s' \<Longrightarrow> targets_valid_but (insert t A) alive healthy s'"
proof -
  let ?V = "targets_valid_but A alive healthy"
  let ?m = "if cur_target s = Some t then
          andthen (gdb_put_notification (server_if e) (str ''%Stop:W00'') s) (\<lambda>_ s.
          andthen (gdb_out (server_if e) (hexify e) (no_ack_mode s)
                     (str ''You are now detached from the previous target.'' @ [10]) s) (\<lambda>_ s.
            Ret () (s\<lparr>gdb_needs_detach_notify := True, cur_target := None\<rparr>)))
        else Ret () s"
  have detached: "?V (s1\<lparr>gdb_needs_detach_notify := True, cur_target := None\<rparr>)" if "?V s1" for s1
    using that by (simp add: targets_valid_but_def)
  have m: "keeps ?V ?m"
    unfolding gdb_put_notification_def
    by (intro keeps_if keeps_andthen keeps_gdb_out keeps_put_frame [OF server_if_keeps] keeps_Ret detached v)
  have cur: "?m = Ret () s1 \<Longrightarrow> cur_target s1 \<noteq> Some t" for s1
    by (auto simp: andthen_Ret_iff split: if_splits)
  show "keeps ?V (gdb_target_destroy_callback e t s)"
    unfolding gdb_target_destroy_callback_def
    by (rule keeps_andthen [OF m]) (auto simp: targets_valid_but_def)
  assume "gdb_target_destroy_callback e t s = Ret () s'"
  then obtain s1 where s1: "?m = Ret () s1"
    and s': "s' = (if last_target s1 = Some t then s1\<lparr>last_target := None\<rparr> else s1)"
    unfolding gdb_target_destroy_callback_def by (auto simp: andthen_Ret_iff)
  have "?V s1" using m s1 by simp
  with cur [OF s1] show "targets_valid_but (insert t A) alive healthy s'"
    by (auto simp: s' targets_valid_but_def)
qed

lemma run_callbacks_valid:
  assumes "targets_valid_but A alive healthy s"
  shows "keeps I (run_callbacks e cs s)"
    and "run_callbacks e cs s = Ret () s' \<Longrightarrow> targets_valid_but (A \<union> announced cs) alive healthy s'"
proof -
  have "keeps I (run_callbacks e cs s) \<and> (\<forall>s'. run_callbacks e cs s = Ret () s' \<longrightarrow>
      targets_valid_but (A \<union> announced cs) alive healthy s')"
    using assms
  proof (induction cs arbitrary: A s)
    case Nil
    then show ?case by (auto simp: announced_def dest: valid_butD)
  next
    case (Cons c cs)
    show ?case
    proof (cases c)
      case (Destroyed t)
      have a: "insert t (A \<union> announced cs) = A \<union> announced (Destroyed t # cs)"
        by (auto simp: announced_def)
      note cb = destroy_callback_valid [OF Cons.prems, of t]
      show ?thesis
      proof (cases "gdb_target_destroy_callback e t s")
        case (Ret u s1)
        with Cons.IH [OF cb(2)] show ?thesis by (simp add: Destroyed flip: a)
      next
        case (Stop w s1)
        with cb(1) show ?thesis by (auto simp: Destroyed split: stop.splits dest: valid_butD)
      qed
    next
      case (Printf f args)
      have a: "A \<union> announced cs = A \<union> announced (Printf f args # cs)" by (auto simp: announced_def)
      note pr = keeps_printf [OF Cons.prems, of f args]
      show ?thesis
      proof (cases "gdb_target_printf e f args s")
        case (Ret u s1)
        with Cons.IH [of A s1] pr show ?thesis by (simp add: Printf flip: a)
      next
        case (Stop w s1)
        with pr show ?thesis by (auto simp: Printf split: stop.splits dest: valid_butD)
      qed
    qed
  qed
  then show "keeps I (run_callbacks e cs s)"
    "run_callbacks e cs s = Ret () s' \<Longrightarrow> targets_valid_but (A \<union> announced cs) alive healthy s'" by auto
qed

lemma lib_valid:
  assumes v: "I s" and c: "proper_call alive c (library s)"
  shows "keeps I (lib e c s)"
    and "lib e c s = Ret r s' \<Longrightarrow> I s' \<and> (\<forall>p. r_ptr r = Some p \<longrightarrow> p \<in> alive (library s'))"
proof -
  obtain r0 f where a: "answer e c (library s) = (r0, f)" by (cases "answer e c (library s)") auto
  let ?s0 = "s\<lparr>calls := calls s @ [c]\<rparr>"
  have v0: "I ?s0" using v by (simp add: targets_valid_but_def)
  note cb = run_callbacks_valid [OF v0, of "r_events r0"]
  have h: "healthy (library s)" using v by (simp add: targets_valid_but_def)
  have fin: "I (s1\<lparr>library := f (library s1)\<rparr>) \<and> (\<forall>p. r_ptr r0 = Some p \<longrightarrow> p \<in> alive (f (library s1)))"
    if "run_callbacks e (r_events r0) ?s0 = Ret () s1" for s1
  proof -
    have v1: "targets_valid_but (announced (r_events r0)) alive healthy s1" using cb(2) [OF that] by simp
    then have "healthy (library s1)" by (simp add: targets_valid_but_def)
    with contract h c have "healthy (f (library s1))"
      "alive (library s1) - announced (r_events r0) \<subseteq> alive (f (library s1))"
      "\<forall>p. r_ptr r0 = Some p \<longrightarrow> p \<in> alive (f (library s1))"
      unfolding library_contract_def using a by (metis fst_conv snd_conv)+
    with v1 show ?thesis by (auto simp: targets_valid_but_def)
  qed
  show "keeps I (lib e c s)"
    using cb(1) fin
    by (cases "run_callbacks e (r_events r0) ?s0") (auto simp: lib_def a Let_def split: option.split)
  assume "lib e c s = Ret r s'"
  with fin show "I s' \<and> (\<forall>p. r_ptr r = Some p \<longrightarrow> p \<in> alive (library s'))"
    by (auto simp: lib_def a Let_def andthen_Ret_iff split: option.splits)
qed

lemma lib_then:
  assumes "I s" and "proper_call alive c (library s)"
    and "\<And>r s'. I s' \<Longrightarrow> (\<forall>p. r_ptr r = Some p \<longrightarrow> p \<in> alive (library s')) \<Longrightarrow> keeps I (k r s')"
  shows "keeps I (andthen (lib e c s) k)"
  using lib_valid [OF assms(1,2)] assms(3) by (cases "lib e c s") auto

lemma mutex_valid [simp]:
  "targets_valid_but A alive healthy (s\<lparr>gdb_mutex := l\<rparr>) = targets_valid_but A alive healthy s"
  by (simp add: targets_valid_but_def)

lemma guard_enter_valid: "I s \<Longrightarrow> keeps I (guard_enter e s)"
  using surroundings by (auto simp: guard_enter_def Let_def surroundings_contract_def split: option.split)

lemma guard_leave_valid: "I s \<Longrightarrow> keeps I (guard_leave s)"
  by (simp add: guard_leave_def)

lemma guarded_valid:
  assumes "I s" and "\<And>s. I s \<Longrightarrow> keeps I (body s)"
  shows "keeps I (guarded e body s)"
  unfolding guarded_def
  by (intro keeps_andthen guard_enter_valid assms guard_leave_valid) auto

lemma put_valid: "I s \<Longrightarrow> keeps I (put e b s)"
  unfolding put_def by (rule keeps_gdb_putpacket)

lemma putz_valid: "I s \<Longrightarrow> keeps I (putz e b s)"
  unfolding putz_def by (rule put_valid)

lemma putf_valid: "I s \<Longrightarrow> keeps I (putf e f args s)"
  unfolding putf_def defined_def gdb_putpacket_f_def
  by (auto split: option.split intro: keeps_gdb_putpacket)

lemma notifyf_valid: "I s \<Longrightarrow> keeps I (notifyf e f args s)"
  unfolding notifyf_def defined_def gdb_putnotifpacket_f_def
  by (auto split: option.split intro: keeps_gdb_putpacket)

lemmas sending_valid = put_valid putz_valid putf_valid notifyf_valid

end

section \<open>The handlers\<close>

lemma update_valid [simp]:
  "targets_valid_but A alive healthy (s\<lparr>run_state := b\<rparr>) = targets_valid_but A alive healthy s"
  "targets_valid_but A alive healthy (s\<lparr>single_step := b\<rparr>) = targets_valid_but A alive healthy s"
  "targets_valid_but A alive healthy (s\<lparr>run_state := b, single_step := b'\<rparr>) = targets_valid_but A alive healthy s"
  "targets_valid_but A alive healthy (s\<lparr>flash_mode := b\<rparr>) = targets_valid_but A alive healthy s"
  "targets_valid_but A alive healthy (s\<lparr>non_stop := b\<rparr>) = targets_valid_but A alive healthy s"
  "targets_valid_but A alive healthy (s\<lparr>no_ack_mode := b\<rparr>) = targets_valid_but A alive healthy s"
  "targets_valid_but A alive healthy (s\<lparr>gdb_needs_detach_notify := b\<rparr>) = targets_valid_but A alive healthy s"
  "targets_valid_but A alive healthy (s\<lparr>pbuf := p\<rparr>) = targets_valid_but A alive healthy s"
  by (simp_all add: targets_valid_but_def)

context target_library
begin

lemma detached_valid: "I s \<Longrightarrow> I (s\<lparr>last_target := cur_target s, cur_target := None\<rparr>)"
  by (simp add: targets_valid_but_def)

lemma cleared_valid: "I s \<Longrightarrow> I (s\<lparr>cur_target := None\<rparr>)"
  by (simp add: targets_valid_but_def)

lemma attached_valid:
  "I s \<Longrightarrow> \<forall>p. r_ptr r = Some p \<longrightarrow> p \<in> alive (library s) \<Longrightarrow> I (s\<lparr>cur_target := r_ptr r\<rparr>)"
  by (simp add: targets_valid_but_def)

lemma proper_I:
  "I s \<Longrightarrow> call_target c \<in> {None, Some None, Some (cur_target s), Some (last_target s)} \<Longrightarrow>
     proper_call alive c (library s)"
  by (auto simp: proper_call_def targets_valid_but_def)

lemma hexify_pbuf_valid: "I s \<Longrightarrow> keeps I (hexify_pbuf e b s)"
  by (simp add: hexify_pbuf_def Let_def)

lemma read_at_valid: "I s \<Longrightarrow> keeps I (read_at b k n s)"
  by (simp add: read_at_def)

lemma with_target_valid:
  "I s \<Longrightarrow> (\<And>s. I s \<Longrightarrow> keeps I (body s)) \<Longrightarrow> keeps I (with_target e body s)"
  unfolding with_target_def by (intro guarded_valid keeps_if putz_valid)

lemmas stepping = guarded_valid with_target_valid keeps_if lib_then keeps_andthen keeps_Ret
  hexify_pbuf_valid read_at_valid sending_valid

lemma registers_valid:
  "I s \<Longrightarrow> keeps I (packet_g e s)" "I s \<Longrightarrow> keeps I (packet_m e s)" "I s \<Longrightarrow> keeps I (packet_G e s)"
  "I s \<Longrightarrow> keeps I (packet_p e s)" "I s \<Longrightarrow> keeps I (packet_P e s)"
  unfolding packet_g_def packet_m_def packet_G_def packet_p_def packet_P_def Let_def
  by (intro stepping; (auto intro: proper_I)?)+

lemma memory_valid:
  "I s \<Longrightarrow> keeps I (packet_M e n s)" "I s \<Longrightarrow> keeps I (packet_X e n s)"
  unfolding packet_M_def packet_X_def Let_def
  by (intro stepping; (auto intro: proper_I)?)+

lemma reset_cur_valid: "I s \<Longrightarrow> keeps I (reset_cur e s)"
  unfolding reset_cur_def by (intro stepping; (auto intro: proper_I)?)

lemma attach_last_valid: "I s \<Longrightarrow> keeps I (attach_last e s)"
  unfolding attach_last_def by (intro stepping; (auto intro: proper_I attached_valid cleared_valid)?)

lemma kill_target_valid: "I s \<Longrightarrow> keeps I (kill_target e s)"
  unfolding kill_target_def by (intro stepping; (auto intro: proper_I detached_valid)?)

lemmas target_steps = stepping reset_cur_valid attach_last_valid kill_target_valid

lemma run_control_valid:
  "I s \<Longrightarrow> keeps I (packet_c e s)" "I s \<Longrightarrow> keeps I (packet_s e s)"
  "I s \<Longrightarrow> keeps I (packet_interrupt e s)" "I s \<Longrightarrow> keeps I (packet_D e s)"
  "I s \<Longrightarrow> keeps I (packet_k e s)" "I s \<Longrightarrow> keeps I (packet_R e s)"
  unfolding packet_s_def packet_c_def packet_interrupt_def packet_D_def packet_k_def packet_R_def Let_def
  by (intro target_steps; (auto intro: proper_I detached_valid)?)+

lemma lib_I:
  "I s \<Longrightarrow> call_target c \<in> {None, Some None, Some (cur_target s), Some (last_target s)} \<Longrightarrow> keeps I (lib e c s)"
  by (rule lib_valid(1) [OF _ proper_I])

lemma halt_reason_valid: "I s \<Longrightarrow> keeps I (packet_halt_reason e s)"
  unfolding packet_halt_reason_def
  by (intro target_steps;
      (auto intro!: target_steps lib_I intro: proper_I split: halt_reason.split)?)

lemma z_packet_valid: "I s \<Longrightarrow> keeps I (packet_z e s)"
  unfolding packet_z_def handle_z_packet_def Let_def
  by (intro target_steps; (auto intro!: lib_I)?)

lemma string_reply_valid: "I s \<Longrightarrow> keeps I (handle_q_string_reply e t p s)"
  unfolding handle_q_string_reply_def Let_def
  by (intro target_steps; (auto intro!: target_steps keeps_put_at)?)

lemma reattach_valid: "I s \<Longrightarrow> keeps I (reattach e s)"
  unfolding reattach_def by (intro target_steps)

lemmas query_steps = target_steps string_reply_valid reattach_valid keeps_case_option

lemma queries_valid:
  "I s \<Longrightarrow> keeps I (query_memory_map e s)" "I s \<Longrightarrow> keeps I (query_features e s)"
  "I s \<Longrightarrow> keeps I (query_rcmd e n s)" "I s \<Longrightarrow> keeps I (query_crc e a l s)"
  unfolding query_memory_map_def query_features_def query_rcmd_def query_crc_def Let_def
  by (intro query_steps; (auto intro: proper_I)?)+

lemma q_packet_valid: "I s \<Longrightarrow> keeps I (handle_q_packet e n s)"
  unfolding handle_q_packet_def Let_def
  by (intro keeps_if queries_valid sending_valid)

lemma flash_valid:
  "I s \<Longrightarrow> keeps I (packet_vFlashErase e a l s)" "I s \<Longrightarrow> keeps I (packet_vFlashWrite e a b n s)"
  "I s \<Longrightarrow> keeps I (packet_vFlashDone e s)"
  unfolding packet_vFlashErase_def packet_vFlashWrite_def packet_vFlashDone_def
  by (intro target_steps; (auto intro!: sending_valid intro: proper_I)?)+

lemma vrun_valid: "I s \<Longrightarrow> keeps I (packet_vRun e j s)"
  unfolding packet_vRun_def start_program_def
  by (intro query_steps; (auto intro: proper_I)?)

lemma vcont_actions_valid: "I s \<Longrightarrow> keeps I (vcont_actions e cs s)"
proof (induction cs arbitrary: s)
  case (Cons c cs)
  show ?case
    unfolding vcont_actions.simps Let_def
    by (rule keeps_andthen [OF _ Cons.IH]) (intro target_steps; (use Cons.prems in \<open>auto intro: proper_I\<close>)?)
qed simp

lemma v_packets_valid:
  "I s \<Longrightarrow> keeps I (packet_vAttach e a s)" "I s \<Longrightarrow> keeps I (packet_vCont e s)"
  "I s \<Longrightarrow> keeps I (packet_vKill e s)" "I s \<Longrightarrow> keeps I (packet_vStopped e s)"
  unfolding packet_vAttach_def packet_vCont_def packet_vKill_def packet_vStopped_def Let_def
  by (intro target_steps vcont_actions_valid; (auto intro: proper_I attached_valid cleared_valid)?)+

lemma v_packet_valid: "I s \<Longrightarrow> keeps I (handle_v_packet e j n s)"
  unfolding handle_v_packet_def Let_def
  by (intro keeps_if v_packets_valid flash_valid vrun_valid sending_valid)

lemma default_valid: "I s \<Longrightarrow> keeps I (packet_default e s)"
  unfolding packet_default_def Let_def by (intro target_steps; simp)

lemma keeps_go: "keeps I m \<Longrightarrow> keeps I (andthen m (\<lambda>_ s. Ret None s))"
  by (rule keeps_andthen) auto

lemma handle_packet_valid: "I s \<Longrightarrow> keeps I (handle_packet e j b n s)"
  unfolding handle_packet_def Let_def
  by (intro keeps_if keeps_go registers_valid memory_valid run_control_valid halt_reason_valid
      q_packet_valid v_packet_valid z_packet_valid default_valid sending_valid lib_then keeps_Ret)
    (auto intro: proper_I)

lemma stop_report_valid: "I s \<Longrightarrow> keeps I (stop_report e r w s)"
  unfolding stop_report_def
  by (cases r; simp add: sending_valid keeps_Ret)

lemma poll_target_valid: "I s \<Longrightarrow> keeps I (poll_target e s)"
  unfolding poll_target_def
  by (intro target_steps stop_report_valid; (auto intro: proper_I)?)

lemma remote_packet_valid: "I s \<Longrightarrow> keeps I (remote_packet (remote_api e) i p s)"
  unfolding remote_packet_def remote_api_def
  using surroundings
  by (auto intro!: keeps_andthen keeps_put_at guard_enter_valid guard_leave_valid
      simp: surroundings_contract_def)

lemma main_step_valid: "I s \<Longrightarrow> keeps I (main_step e j b s)"
  unfolding main_step_def Let_def
  by (rule keeps_andthen [OF keeps_getpacket [OF server_if_keeps remote_packet_valid]])
    (auto intro!: keeps_if keeps_go poll_target_valid handle_packet_valid)

lemma main_rounds_valid: "I s \<Longrightarrow> keeps I (main_rounds n e j b s)"
  by (induction n arbitrary: s) (auto intro!: keeps_andthen main_step_valid split: option.split)

lemma try_all_valid: "keeps I (m s) \<Longrightarrow> keeps I (try_all m s)"
  by (auto simp: try_all_def split: outcome.split stop.split)

lemma initial_scan_valid: "I s \<Longrightarrow> keeps I (initial_scan e s)"
  unfolding initial_scan_def scan_and_attach_def Let_def
  by (intro target_steps try_all_valid;
      (auto intro: proper_I attached_valid cleared_valid simp: proper_call_def)?)

lemma client_session_valid: "I s \<Longrightarrow> keeps I (client_session n e j s)"
  unfolding client_session_def gdb_main_loop_def
  by (intro target_steps try_all_valid initial_scan_valid main_rounds_valid; (auto intro: proper_I)?)

lemma client_task_valid: "I s \<Longrightarrow> keeps I (client_task k n e j s)"
  by (induction k arbitrary: s) (auto intro!: keeps_andthen client_session_valid)

end

section \<open>The property\<close>

definition server_with :: "'w \<Rightarrow> net_rx list \<Rightarrow> 'w gdb_server" where
  "server_with w rx = client.extend (client_with rx)
     \<lparr>pbuf = replicate 1025 0, non_stop = False, no_ack_mode = True, single_step = False,
      run_state = False, gdb_needs_detach_notify = False, cur_target = Some 7, last_target = None,
      flash_mode = False, library = w, calls = []\<rparr>"

lemma server_with_simps [simp]:
  "library (server_with w rx) = w" "cur_target (server_with w rx) = Some 7"
  "last_target (server_with w rx) = None" "no_ack_mode (server_with w rx)"
  "pbuf (server_with w rx) = replicate 1025 0" "calls (server_with w rx) = []"
  "run_state (server_with w rx) = False" "single_step (server_with w rx) = False"
  "flash_mode (server_with w rx) = False" "non_stop (server_with w rx) = False"
  by (simp_all add: server_with_def client.defs)

lemma server_with_client [simp]:
  "client_live (server_with w rx)" "client_written (server_with w rx) = []"
  "client_input (server_with w rx) = concat (map rx_arrivals rx)"
  "gdb_mutex (server_with w rx) = \<lparr>mutex_holder = Some 1, gdb_mutex_lockcount = 2\<rparr>"
  "this_task (server_with w rx) = 1"
  by (simp_all add: server_with_def client.defs client_with_def client_example_def client_live_def
      client_bounds_def client_written_def client_input_def lock_ok_def BUFFER_SIZE_def)

text \<open>
  A small target library: its state is the set of targets it has, as a list, and whether it has
  been called with a target that it does not have. \<open>target_attach_n\<close> creates the target 7,
  \<open>target_list_free\<close> announces and frees every target, \<open>target_halt_poll\<close> raises.
\<close>

definition plain_reply :: reply where
  "plain_reply = \<lparr>r_int = 1, r_ptr = None, r_bytes = [], r_reason = HALT_RUNNING, r_out = 0,
     r_events = [], r_raised = None\<rparr>"

definition small_answer ::
  "call \<Rightarrow> nat list \<times> bool \<Rightarrow> reply \<times> (nat list \<times> bool \<Rightarrow> nat list \<times> bool)" where
  "small_answer c w =
     (let bad = (case call_target c of Some (Some p) \<Rightarrow> p \<notin> set (fst w) | _ \<Rightarrow> False);
          fin = (\<lambda>f (ts, ok). (f ts, ok \<and> \<not> bad))
      in case c of
           Target_attach_n _ \<Rightarrow> (plain_reply\<lparr>r_ptr := Some 7\<rparr>, fin (\<lambda>ts. 7 # ts))
         | Target_attach p \<Rightarrow> (plain_reply, fin id)
         | Target_list_free \<Rightarrow> (plain_reply\<lparr>r_events := map Destroyed (fst w)\<rparr>, fin (filter (\<lambda>t. t \<notin> set (fst w))))
         | Target_halt_poll _ \<Rightarrow> (plain_reply\<lparr>r_raised := Some 2\<rparr>, fin id)
         | _ \<Rightarrow> (plain_reply, fin id))"

definition small_env :: "(nat list \<times> bool) env" where
  "small_env = \<lparr>answer = small_answer, hexify = concat \<circ> map hex2,
     unhexify = (\<lambda>src n. replicate n 0), remote_som = 33, remote_eom = 35,
     remote_process = (\<lambda>i p s. Ret p s), others = (\<lambda>x. x), uninit = (\<lambda>_. 0)\<rparr>"

lemma small_library_contract: "library_contract small_env (set \<circ> fst) snd"
  unfolding library_contract_def small_env_def
  by (auto simp: small_answer_def plain_reply_def proper_call_def announced_def Let_def
      split: call.split option.split)

lemma small_surroundings: "surroundings_contract small_env (set \<circ> fst) snd"
  by (simp add: surroundings_contract_def small_env_def more_update_id)

text \<open>Every environment that keeps the contracts is an instance of the locale.\<close>

typedef 'w sound_env = "{(e :: 'w env, alive, healthy).
    library_contract e alive healthy \<and> surroundings_contract e alive healthy}"
  by (rule exI [where x = "(undefined, \<lambda>_. {}, \<lambda>_. False)"])
    (simp add: library_contract_def surroundings_contract_def targets_valid_but_def)

definition sound_env :: "'w sound_env \<Rightarrow> 'w env" where
  "sound_env x = fst (Rep_sound_env x)"

definition sound_alive :: "'w sound_env \<Rightarrow> 'w \<Rightarrow> nat set" where
  "sound_alive x = fst (snd (Rep_sound_env x))"

definition sound_healthy :: "'w sound_env \<Rightarrow> 'w \<Rightarrow> bool" where
  "sound_healthy x = snd (snd (Rep_sound_env x))"

interpretation server: target_library "sound_env x" "sound_alive x" "sound_healthy x" for x
  using Rep_sound_env [of x]
  by unfold_locales (auto simp: sound_env_def sound_alive_def sound_healthy_def split: prod.splits)

lemma sound_env_cases:
  assumes "library_contract e alive healthy" and "surroundings_contract e alive healthy"
  obtains x where "sound_env x = e" "sound_alive x = alive" "sound_healthy x = healthy"
  using assms Abs_sound_env_inverse [of "(e, alive, healthy)"]
  by (metis (no_types, lifting) case_prodI fst_conv mem_Collect_eq snd_conv
      sound_alive_def sound_env_def sound_healthy_def)

text \<open>
  C9. No use after free: from a state in which the server's two target pointers are NULL or point to existing targets,
  and whatever the debugger sends, the task calls the target library only with NULL or with existing targets (a library
  called otherwise may be corrupted) and never keeps a pointer to a freed one, through every packet handler, every
  callback and every exception. This holds in the state after any number of sessions and rounds, and in the state in
  which the task ends or waits, provided the library keeps its contract and the surroundings theirs.
\<close>

theorem no_freed_target_used:
  assumes "library_contract e alive healthy" and "surroundings_contract e alive healthy"
    and "targets_valid alive healthy s"
  shows "keeps (targets_valid alive healthy) (client_task k n e junk s)"
proof -
  obtain x where "sound_env x = e" "sound_alive x = alive" "sound_healthy x = healthy"
    using sound_env_cases [OF assms(1,2)] .
  with assms(3) server.client_task_valid [of x s k n junk] show ?thesis by simp
qed

theorem no_freed_target_used_witness:
  "keeps (targets_valid (set \<circ> fst) snd) (client_task 3 5 small_env (replicate 83 0) (server_with ([7], True) [Arrives 36 []]))"
  by (rule no_freed_target_used [OF small_library_contract small_surroundings])
    (simp add: targets_valid_but_def)

end
