(* ===== verification/GdbReplies.thy ===== *)
theory GdbReplies
  imports GdbSafety
begin

text \<open>
  What the server answers. The theorems are about one client whose debugger does not disconnect in
  the middle of an answer, and whose shared state no other client changes while this one waits for
  an acknowledgement: the environment is quiet.
\<close>

section \<open>The channel of a quiet client\<close>

lemma more_eq_only: "more_only (\<lambda>s. client.more s = m)"
  by (simp add: more_only_def)

lemma quiet_more:
  "gdb_if_getchar s = Ret b s' \<Longrightarrow> client.more s' = client.more s"
  "gdb_if_getchar_to (\<lambda>x. x) t s = Ret b s' \<Longrightarrow> client.more s' = client.more s"
  "gdb_if_putchar c f s = Ret () s' \<Longrightarrow> client.more s' = client.more s"
  using keeps_getchar [OF more_eq_only, of s "client.more s"]
    keeps_getchar_to [OF more_eq_only, of "client.more s" "\<lambda>x. x" s t]
    keeps_putchar [OF more_eq_only, of s "client.more s" c f] by (auto simp: more_update_id)

definition quiet_rest :: "'x client_scheme \<Rightarrow> (int \<times> int \<times> nat \<times> nat lock) \<times> 'x" where
  "quiet_rest s = (client_rest s, client.more s)"

interpretation quiet: gdb_channel "client_if (\<lambda>x. x)" client_live client_input client_written net_sent quiet_rest
proof unfold_locales
  fix s :: "'a client_scheme" and c f b r t
  assume live: "client_live s"
  show "\<exists>s'. if_putchar (client_if (\<lambda>x. x)) c f s = Ret () s' \<and> client_live s'
        \<and> client_written s' = client_written s @ [c] \<and> client_input s' = client_input s
        \<and> quiet_rest s' = quiet_rest s \<and> (f \<longrightarrow> net_sent s' = client_written s')"
    using cl.put [OF live, of "\<lambda>x. x" c f] quiet_more(3) [of c f s]
    by (auto simp: quiet_rest_def client_if_def)
  show "next_byte (client_input s) = Some (b, r) \<Longrightarrow>
      \<exists>s'. if_getchar (client_if (\<lambda>x. x)) s = Ret b s' \<and> client_live s' \<and> client_input s' = r
        \<and> client_written s' = client_written s \<and> net_sent s' = net_sent s \<and> quiet_rest s' = quiet_rest s"
    using cl.get [OF live, of b r "\<lambda>x. x"] quiet_more(1) [of s]
    by (auto simp: quiet_rest_def client_if_def)
  show "client_input s = Byte b # r \<Longrightarrow>
      \<exists>s'. if_getchar_to (client_if (\<lambda>x. x)) t s = Ret b s' \<and> client_live s' \<and> client_input s' = r
        \<and> client_written s' = client_written s \<and> net_sent s' = net_sent s \<and> quiet_rest s' = quiet_rest s"
    using cl.get_to_byte [OF live, of b r "\<lambda>x. x" t] quiet_more(2) [of t s]
    by (auto simp: quiet_rest_def client_if_def)
  show "0 \<le> t \<Longrightarrow> client_input s = Silence # r \<Longrightarrow>
      \<exists>s'. if_getchar_to (client_if (\<lambda>x. x)) t s = Ret 255 s' \<and> client_live s' \<and> client_input s' = r
        \<and> client_written s' = client_written s \<and> net_sent s' = net_sent s \<and> quiet_rest s' = quiet_rest s"
    using cl.get_to_silence [OF live, of t r "\<lambda>x. x"] quiet_more(2) [of t s]
    by (auto simp: quiet_rest_def client_if_def)
  show "0 \<le> t \<Longrightarrow> client_input s = [] \<Longrightarrow>
      \<exists>s'. if_getchar_to (client_if (\<lambda>x. x)) t s = Ret 255 s' \<and> client_live s' \<and> client_input s' = []
        \<and> client_written s' = client_written s \<and> net_sent s' = net_sent s \<and> quiet_rest s' = quiet_rest s"
    using cl.get_to_end [OF live, of t "\<lambda>x. x"] quiet_more(2) [of t s]
    by (auto simp: quiet_rest_def client_if_def)
  show "next_byte (client_input s) = None \<Longrightarrow>
      \<exists>w s'. if_getchar (client_if (\<lambda>x. x)) s = Stop w s' \<and> (w = Blocked \<or> w = Deleted)"
    using cl.get_stops [OF live] .
  show "client_input s = Hangup # r \<Longrightarrow> \<exists>s'. if_getchar_to (client_if (\<lambda>x. x)) t s = Stop Deleted s'"
    using cl.get_to_hangup [OF live] .
qed

section \<open>Answers\<close>

text \<open>
  \<open>b\<close> has been sent between the two states: its frame, as often as the debugger made it necessary,
  and nothing else; the server's own state is untouched.
\<close>

definition answered :: "byte list \<Rightarrow> 'w gdb_server \<Rightarrow> 'w gdb_server \<Rightarrow> bool" where
  "answered b s s' \<longleftrightarrow> client_live s' \<and> quiet_rest s' = quiet_rest s
     \<and> net_sent s' = client_written s @ concat (replicate
          (if no_ack_mode s then 1 else fst (transmissions 3 (client_input s))) (frame 36 b))
     \<and> client_input s' = (if no_ack_mode s then client_input s else snd (transmissions 3 (client_input s)))"

definition ready :: "'w env \<Rightarrow> 'w gdb_server \<Rightarrow> bool" where
  "ready e s \<longleftrightarrow> others e = (\<lambda>x. x) \<and> client_live s \<and> Hangup \<notin> set (take 4 (client_input s))"

lemma put_answers:
  assumes "ready e s"
  shows "\<exists>s'. put e b s = Ret () s' \<and> answered b s s'"
  using quiet.putpacket_loop_ok [of s 3 "\<not> no_ack_mode s" 36 b] assms
  by (auto simp: put_def server_if_def gdb_putpacket_def answered_def ready_def)

lemma answered_more:
  "answered b s s' \<Longrightarrow> client.more s' = client.more s \<and> gdb_mutex s' = gdb_mutex s \<and> this_task s' = this_task s"
  by (simp add: answered_def quiet_rest_def client_rest_def)

lemma server_more:
  fixes s s' :: "'w gdb_server"
  assumes "client.more s' = client.more s"
  shows "cur_target s' = cur_target s" "last_target s' = last_target s" "library s' = library s"
    "calls s' = calls s" "no_ack_mode s' = no_ack_mode s" "non_stop s' = non_stop s"
    "single_step s' = single_step s" "run_state s' = run_state s" "flash_mode s' = flash_mode s"
    "pbuf s' = pbuf s" "gdb_needs_detach_notify s' = gdb_needs_detach_notify s"
  using assms by (cases s; cases s'; simp)+

text \<open>The guard in a quiet environment: the body runs with the lock one deeper and everything else as it was.\<close>

lemma live_lock:
  assumes "client_live s"
  obtains l where "gdb_lock (this_task s) (gdb_mutex s) = Some l"
    "client_live (s\<lparr>gdb_mutex := l\<rparr>)" "gdb_unlock (this_task s) l = gdb_mutex s"
proof -
  have own: "lock_ok (gdb_mutex s)" "mutex_holder (gdb_mutex s) = None \<or> mutex_holder (gdb_mutex s) = Some (this_task s)"
    using assms by (auto simp: client_live_def)
  obtain l where l: "gdb_lock (this_task s) (gdb_mutex s) = Some l"
    using gl.acquire_free [OF own(1), of "this_task s"] own(2)
    by (cases "gdb_lock (this_task s) (gdb_mutex s)") auto
  moreover have "client_live (s\<lparr>gdb_mutex := l\<rparr>)"
    using assms gl.acquire_good [OF own(1) l] by (auto simp: client_live_def client_bounds_def)
  ultimately show thesis using that gl.release_acquire [OF own(1) l] by blast
qed

text \<open>What a guarded body may do for the guard to be invisible from outside.\<close>

definition locked :: "'w gdb_server \<Rightarrow> 'w gdb_server" where
  "locked s = s\<lparr>gdb_mutex := the (gdb_lock (this_task s) (gdb_mutex s))\<rparr>"

definition unlocked :: "'w gdb_server \<Rightarrow> 'w gdb_server" where
  "unlocked s = s\<lparr>gdb_mutex := gdb_unlock (this_task s) (gdb_mutex s)\<rparr>"

lemma guarded_quiet:
  assumes "others e = (\<lambda>x. x)" "client_live s"
  shows "guarded e body s = andthen (body (locked s)) (\<lambda>a s. Ret a (unlocked s))"
    and "client_live (locked s)" and "unlocked (locked s) = s"
proof -
  obtain l where l: "gdb_lock (this_task s) (gdb_mutex s) = Some l"
    "client_live (s\<lparr>gdb_mutex := l\<rparr>)" "gdb_unlock (this_task s) l = gdb_mutex s"
    using live_lock [OF assms(2)] .
  then show "guarded e body s = andthen (body (locked s)) (\<lambda>a s. Ret a (unlocked s))"
    using assms(1)
    by (simp add: guarded_def guard_enter_def guard_leave_def locked_def unlocked_def Let_def)
  show "client_live (locked s)" "unlocked (locked s) = s"
    using l by (simp_all add: locked_def unlocked_def)
qed

lemma locked_simps [simp]:
  "client_input (locked s) = client_input s" "client_written (locked s) = client_written s"
  "net_sent (locked s) = net_sent s"
  "cur_target (locked s) = cur_target s" "last_target (locked s) = last_target s"
  "library (locked s) = library s" "calls (locked s) = calls s" "no_ack_mode (locked s) = no_ack_mode s"
  "single_step (locked s) = single_step s" "run_state (locked s) = run_state s"
  "flash_mode (locked s) = flash_mode s" "pbuf (locked s) = pbuf s" "this_task (locked s) = this_task s"
  "client.more (locked s) = client.more s"
  by (simp_all add: locked_def client_input_def client_written_def)

lemma unlocked_simps [simp]:
  "client_input (unlocked s) = client_input s" "client_written (unlocked s) = client_written s"
  "net_sent (unlocked s) = net_sent s"
  "cur_target (unlocked s) = cur_target s" "last_target (unlocked s) = last_target s"
  "library (unlocked s) = library s" "calls (unlocked s) = calls s" "no_ack_mode (unlocked s) = no_ack_mode s"
  "single_step (unlocked s) = single_step s" "run_state (unlocked s) = run_state s"
  "flash_mode (unlocked s) = flash_mode s" "pbuf (unlocked s) = pbuf s"
  by (simp_all add: unlocked_def client_input_def client_written_def)

lemma ready_locked: "ready e s \<Longrightarrow> ready e (locked s)"
  using guarded_quiet(2) by (auto simp: ready_def)

section \<open>Answers under the guard\<close>

definition times :: "'w gdb_server \<Rightarrow> nat" where
  "times s = (if no_ack_mode s then 1 else fst (transmissions 3 (client_input s)))"

text \<open>
  Between the two states the server has sent \<open>b\<close> in a frame, as often as the debugger made it
  necessary, and nothing else; the lock is as it was.
\<close>

definition replied :: "byte list \<Rightarrow> 'w gdb_server \<Rightarrow> 'w gdb_server \<Rightarrow> bool" where
  "replied b s s' \<longleftrightarrow> client_live s' \<and> gdb_mutex s' = gdb_mutex s
     \<and> net_sent s' = client_written s @ concat (replicate (times s) (frame 36 b))"

definition same_client :: "'w gdb_server \<Rightarrow> 'w gdb_server \<Rightarrow> bool" where
  "same_client s s' \<longleftrightarrow> client.truncate s = client.truncate s' \<and> no_ack_mode s = no_ack_mode s'"

lemma same_clientD:
  assumes "same_client s s'"
  shows "client_input s = client_input s'" "client_written s = client_written s'"
    "client_live s = client_live s'" "gdb_mutex s = gdb_mutex s'" "this_task s = this_task s'"
    "no_ack_mode s = no_ack_mode s'"
  using assms unfolding same_client_def client_input_def client_written_def client_live_def client_bounds_def
  by (cases s; cases s'; simp add: client.truncate_def)+

lemma guarded_put:
  assumes r: "ready e s" and body: "body (locked s) = put e b s1" and same: "same_client s1 (locked s)"
  shows "\<exists>s'. guarded e body s = Ret () s' \<and> replied b s s' \<and> client.more s' = client.more s1"
proof -
  have o: "others e = (\<lambda>x. x)" "client_live s" using r by (auto simp: ready_def)
  note g = guarded_quiet [OF o]
  have s1: "client_input s1 = client_input s" "client_written s1 = client_written s" "client_live s1"
    "gdb_mutex s1 = gdb_mutex (locked s)" "this_task s1 = this_task s" "no_ack_mode s1 = no_ack_mode s"
    using same_clientD [OF same] g(2) by simp_all
  have "ready e s1" using r s1 by (simp add: ready_def)
  then obtain s2 where s2: "put e b s1 = Ret () s2" "answered b s1 s2" using put_answers by blast
  have m: "gdb_mutex (unlocked s2) = gdb_mutex s"
    using answered_more [OF s2(2)] s1 g(3)
    by (auto simp: unlocked_def locked_def dest: arg_cong [where f = gdb_mutex])
  have "client_live (unlocked s2)"
    using s2(2) o(2) m by (auto simp: answered_def client_live_def client_bounds_def unlocked_def quiet_rest_def
        client_rest_def locked_def s1)
  moreover have "client.more (unlocked s2) = client.more s1"
    using answered_more [OF s2(2)] by (simp add: unlocked_def)
  moreover have "net_sent (unlocked s2) = client_written s @ concat (replicate (times s) (frame 36 b))"
    using s2(2) s1 by (simp add: answered_def times_def)
  moreover have "guarded e body s = Ret () (unlocked s2)"
    using g(1) [of body] body s2(1) by simp
  ultimately show ?thesis using m unfolding replied_def by blast
qed

lemma same_locked: "same_client (locked s) (locked s)"
  by (simp add: same_client_def)

text \<open>A call of the target library that calls nothing back and raises nothing.\<close>

definition called :: "call \<Rightarrow> ('w \<Rightarrow> 'w) \<Rightarrow> 'w gdb_server \<Rightarrow> 'w gdb_server" where
  "called c f s = s\<lparr>calls := calls s @ [c], library := f (library s)\<rparr>"

definition plain :: "reply \<Rightarrow> bool" where
  "plain r \<longleftrightarrow> r_events r = [] \<and> r_raised r = None"

lemma lib_plain:
  assumes "answer e c (library s) = (r, f)" "plain r"
  shows "lib e c s = Ret r (called c f s)"
  using assms by (simp add: lib_def called_def plain_def)

lemma called_simps [simp]:
  "same_client (called c f s) s' = same_client s s'" "cur_target (called c f s) = cur_target s"
  "last_target (called c f s) = last_target s" "pbuf (called c f s) = pbuf s"
  "calls (called c f s) = calls s @ [c]" "library (called c f s) = f (library s)"
  "run_state (called c f s) = run_state s" "single_step (called c f s) = single_step s"
  "flash_mode (called c f s) = flash_mode s" "non_stop (called c f s) = non_stop s"
  "no_ack_mode (called c f s) = no_ack_mode s"
  by (simp_all add: called_def same_client_def client.truncate_def)

lemma same_client_pbuf [simp]: "same_client (s\<lparr>pbuf := p\<rparr>) s' = same_client s s'"
  "same_client (s\<lparr>run_state := b\<rparr>) s' = same_client s s'"
  "same_client (s\<lparr>flash_mode := b\<rparr>) s' = same_client s s'"
  "same_client (s\<lparr>cur_target := p'\<rparr>) s' = same_client s s'"
  "same_client (s\<lparr>last_target := p'\<rparr>) s' = same_client s s'"
  by (simp_all add: same_client_def client.truncate_def)

section \<open>Requests without a target\<close>

definition needs_target :: "byte \<Rightarrow> bool" where
  "needs_target c \<longleftrightarrow> c \<in> set (str ''gmGMXpPZz'')"

lemma with_target_none:
  assumes "ready e s" "cur_target s = None"
  shows "\<exists>s'. with_target e body s = Ret () s' \<and> replied (str ''EFF'') s s' \<and> client.more s' = client.more s"
  using guarded_put [OF assms(1) _ same_locked, of "\<lambda>s. if cur_target s = None then putz e ''EFF'' s else body s"
      "str ''EFF''"] assms(2)
  by (simp add: with_target_def putz_def del: str.simps)

lemma needs_target_handled:
  assumes "needs_target (pbuf s ! 0)"
  obtains body where "handle_packet e junk in_syscall sz s = andthen (with_target e body s) (\<lambda>_ s. Ret None s)"
proof -
  have "pbuf s ! 0 \<in> set (str ''gmGMXpPZz'')" using assms by (simp add: needs_target_def)
  then consider "pbuf s ! 0 = 103" | "pbuf s ! 0 = 109" | "pbuf s ! 0 = 71" | "pbuf s ! 0 = 77"
    | "pbuf s ! 0 = 88" | "pbuf s ! 0 = 112" | "pbuf s ! 0 = 80" | "pbuf s ! 0 = 90" | "pbuf s ! 0 = 122"
    by auto
  then show thesis
    by cases (rule that, simp add: handle_packet_def is_ch_def packet_g_def packet_m_def packet_G_def
        packet_M_def packet_X_def packet_p_def packet_P_def packet_z_def)+
qed

text \<open>
  C36. A request that needs a target (registers, memory, breakpoints) gets \<open>EFF\<close> when none is
  attached, whatever else the packet holds, and the target library is not called.
\<close>

theorem no_target_rejected:
  assumes "ready e s" and "cur_target s = None" and "needs_target (pbuf s ! 0)"
  shows "\<exists>s'. handle_packet e junk in_syscall sz s = Ret None s' \<and> replied (str ''EFF'') s s' \<and> calls s' = calls s"
proof -
  obtain body where h: "handle_packet e junk in_syscall sz s = andthen (with_target e body s) (\<lambda>_ s. Ret None s)"
    using needs_target_handled [OF assms(3)] .
  obtain s' where s': "with_target e body s = Ret () s'" "replied (str ''EFF'') s s'"
    "client.more s' = client.more s"
    using with_target_none [OF assms(1,2), of body] by blast
  have "handle_packet e junk in_syscall sz s = Ret None s'" by (simp add: h s'(1))
  with s'(2) server_more(4) [OF s'(3)] show ?thesis by blast
qed

section \<open>Memory\<close>

text \<open>The head of a memory request, as the debugger writes it: letter, address, length.\<close>

definition request :: "string \<Rightarrow> u32 \<Rightarrow> u32 \<Rightarrow> byte list" where
  "request t a l = str t @ fmt_hex (unat a) @ str '','' @ fmt_hex (unat l)"

lemma request_no_nul: "0 \<notin> set (str t) \<Longrightarrow> 0 \<notin> set (request t a l)"
  by (simp add: request_def)

lemma request_length: "length (request t a l) \<le> length t + 17"
  using fmt_hex_bound [of a] fmt_hex_bound [of l] by (simp add: request_def)

lemma scan_request:
  assumes "r = [] \<or> hexval (hd r) = None \<and> hd r \<noteq> 120 \<and> hd r \<noteq> 88" and "w = 0 \<or> w = 8"
  shows "sscanf (request t a l @ r) (lits t @ [Hex w] @ lits '','' @ [Hex w] @ f)
    = SNum a # SNum l # sscanf_at (length (request t a l)) r f"
  using sscanf_two_hex [OF assms, of t a l f] by (simp add: request_def)

lemma with_target_some:
  assumes r: "ready e s" and t: "cur_target s \<noteq> None" and body: "body (locked s) = put e b s1"
    and same: "same_client s1 (locked s)"
  shows "\<exists>s'. with_target e body s = Ret () s' \<and> replied b s s' \<and> calls s' = calls s1"
  using guarded_put [OF r _ same, of "\<lambda>s. if cur_target s = None then putz e ''EFF'' s else body s" b]
    t body server_more(4)
  by (auto simp: with_target_def simp del: str.simps)

text \<open>
  C35. Reading memory: a request \<open>m<addr>,<len>\<close> for at most 512 bytes makes one call of
  \<open>target_mem_read\<close> for exactly that address and length, and the answer is the hexadecimal image of
  what it read, which fits the packet buffer; a longer request is refused with \<open>E02\<close> before any
  access to the target, and a failed access is answered with \<open>E01\<close>.
\<close>

theorem memory_read:
  assumes "ready e s" and "cur_target s = Some p" and "length (pbuf s) = BUF_SIZE + 1"
    and "pbuf s = request ''m'' a l @ 0 # rest"
    and "answer e (Target_mem_read (Some p) a l) (library s) = (r, f)" and "plain r"
    and "r_int r = 0 \<Longrightarrow> unat l \<le> 512 \<Longrightarrow> length (hexify e (r_bytes r)) = 2 * unat l"
  shows "\<exists>s'. packet_m e s = Ret () s'
     \<and> (if 512 < unat l then replied (str ''E02'') s s' \<and> calls s' = calls s
        else calls s' = calls s @ [Target_mem_read (Some p) a l]
          \<and> replied (if r_int r \<noteq> 0 then str ''E01'' else hexify e (r_bytes r)) s s')"
proof -
  have some: "cur_target s \<noteq> None" using assms(2) by simp
  have "cstr (pbuf s) = request ''m'' a l"
    using assms(4) request_no_nul [of "''m''" a l] by simp
  then have vs: "sscanf (cstr (pbuf s)) (lits ''m'' @ [Hex 0] @ lits '','' @ [Hex 0]) = [SNum a, SNum l]"
    using scan_request [of "[]" 0 "''m''" a l "[]"] by simp
  have half: "length (pbuf s) div 2 = 512" using assms(3) by (simp add: BUF_SIZE_def)
  let ?c = "called (Target_mem_read (Some p) a l) f (locked s)" and ?h = "hexify e (r_bytes r)"
  have call: "lib e (Target_mem_read (Some p) a l) (locked s) = Ret r ?c"
    using lib_plain [of e _ "locked s"] assms(5,6) by simp
  note eval = Let_def vs [simplified] num_at_def half putz_def assms(2) call
  consider "512 < unat l" | "\<not> 512 < unat l" "r_int r \<noteq> 0" | "\<not> 512 < unat l" "r_int r = 0" by blast
  then show ?thesis
  proof cases
    case 1
    have "\<exists>s'. packet_m e s = Ret () s' \<and> replied (str ''E02'') s s' \<and> calls s' = calls (locked s)"
      unfolding packet_m_def
      by (rule with_target_some [OF assms(1) some _ same_locked]) (simp add: eval 1 del: str.simps)
    with 1 show ?thesis by simp
  next
    case 2
    have "\<exists>s'. packet_m e s = Ret () s' \<and> replied (str ''E01'') s s' \<and> calls s' = calls ?c"
      unfolding packet_m_def
      by (rule with_target_some [OF assms(1) some]) (simp_all add: eval 2 same_locked del: str.simps)
    with 2 show ?thesis by auto
  next
    case 3
    let ?s1 = "?c\<lparr>pbuf := ?h @ 0 # drop (Suc (length ?h)) (pbuf s)\<rparr>"
    have hl: "length ?h = 2 * unat l" using 3 assms(7) by simp
    then have "length ?h < length (pbuf s)" using 3 assms(3) by (simp add: BUF_SIZE_def)
    then have hex: "hexify_pbuf e (r_bytes r) ?c = Ret ?h ?s1" by (simp add: hexify_pbuf_def Let_def)
    have "\<exists>s'. packet_m e s = Ret () s' \<and> replied ?h s s' \<and> calls s' = calls ?s1"
      unfolding packet_m_def
      by (rule with_target_some [OF assms(1) some]) (simp_all add: eval 3 hex hl same_locked)
    with 3 show ?thesis by auto
  qed
qed

text \<open>Both forms of writing memory, from the point where the data have been found in the packet.\<close>

lemma write_request_scan:
  assumes "pbuf s = request t a l @ 58 # data @ 0 # rest" and "0 \<notin> set (str t)"
  shows "sscanf (cstr (pbuf s)) (lits t @ [Hex 0] @ lits '','' @ [Hex 0] @ lits '':'' @ [Pos])
    = [SNum a, SNum l, SPos (Suc (length (request t a l)))]"
proof -
  have "cstr (pbuf s) = request t a l @ 58 # cstr (data @ 0 # rest)"
    using request_no_nul [OF assms(2), of a l] cstr_append [of "request t a l @ [58]" "data @ 0 # rest"]
    by (simp add: assms(1))
  then show ?thesis
    using scan_request [of "58 # cstr (data @ 0 # rest)" 0 t a l "lits '':'' @ [Pos]"]
    by (simp add: lits_def hexval_def)
qed

lemma write_request_size:
  assumes "length t = 1" and "length (request t a l @ 58 # data) = sz" and "sz \<le> BUF_SIZE"
  shows "(of_nat sz - of_nat (Suc (length (request t a l))) :: u32) = of_nat (length data)"
    and "unat (of_nat (Suc (length (request t a l))) :: u32) = Suc (length (request t a l))"
    and "unat (of_nat (length data) :: u32) = length data"
proof -
  have "sz = Suc (length (request t a l)) + length data" using assms(2) by simp
  then show "(of_nat sz - of_nat (Suc (length (request t a l))) :: u32) = of_nat (length data)"
    by (simp add: of_nat_add)
  show "unat (of_nat (Suc (length (request t a l))) :: u32) = Suc (length (request t a l))"
    using assms(2,3) by (subst unat_of_nat) (simp add: BUF_SIZE_def)
  show "unat (of_nat (length data) :: u32) = length data"
    using assms(2,3) by (subst unat_of_nat) (simp add: BUF_SIZE_def)
qed

text \<open>
  Writing memory in binary: for a packet \<open>X<addr>,<len>:<data>\<close> the target gets exactly the
  first \<open>len\<close> bytes of the data at that address, NULs included; a length larger than the data
  received is refused with \<open>E02\<close> and the target is not touched.
\<close>

theorem memory_write_binary:
  assumes "ready e s" and "cur_target s = Some p" and "sz \<le> BUF_SIZE"
    and "pbuf s = request ''X'' a l @ 58 # data @ 0 # rest" and "length (request ''X'' a l @ 58 # data) = sz"
    and "answer e (Target_mem_write (Some p) a (take (unat l) data)) (library s) = (r, f)" and "plain r"
  shows "\<exists>s'. packet_X e sz s = Ret () s'
     \<and> (if length data < unat l then replied (str ''E02'') s s' \<and> calls s' = calls s
        else calls s' = calls s @ [Target_mem_write (Some p) a (take (unat l) data)]
          \<and> replied (if r_int r \<noteq> 0 then str ''E01'' else str ''OK'') s s')"
proof -
  have some: "cur_target s \<noteq> None" using assms(2) by simp
  have vs: "sscanf (cstr (pbuf s)) (lits ''X'' @ [Hex 0] @ lits '','' @ [Hex 0] @ lits '':'' @ [Pos])
      = [SNum a, SNum l, SPos (Suc (length (request ''X'' a l)))]"
    by (rule write_request_scan [OF assms(4)]) simp
  note size = write_request_size [of "''X''" a l data, OF _ assms(5,3)]
  have le: "(of_nat (length data) :: u32) < l \<longleftrightarrow> length data < unat l"
    using size(3) by (simp add: word_less_nat_alt)
  let ?c = "called (Target_mem_write (Some p) a (take (unat l) data)) f (locked s)"
  have call: "lib e (Target_mem_write (Some p) a (take (unat l) data)) (locked s) = Ret r ?c"
    using lib_plain [of e _ "locked s"] assms(6,7) by simp
  have src: "read_at (pbuf s) (Suc (length (request ''X'' a l))) (unat l) s1 = Ret (take (unat l) data) s1"
    if "\<not> length data < unat l" for s1 :: "'a gdb_server"
    using that by (simp add: read_at_def assms(4))
  note eval = Let_def vs [simplified] num_at_def size le putz_def assms(2) src call
  show ?thesis
  proof (cases "length data < unat l")
    case True
    have "\<exists>s'. packet_X e sz s = Ret () s' \<and> replied (str ''E02'') s s' \<and> calls s' = calls (locked s)"
      unfolding packet_X_def
      by (rule with_target_some [OF assms(1) some _ same_locked])
        (simp add: eval True del: str.simps of_nat_Suc)
    with True show ?thesis by simp
  next
    case False
    have "\<exists>s'. packet_X e sz s = Ret () s'
        \<and> replied (if r_int r \<noteq> 0 then str ''E01'' else str ''OK'') s s' \<and> calls s' = calls ?c"
      unfolding packet_X_def
      by (rule with_target_some [OF assms(1) some])
        (simp_all add: eval False same_locked del: str.simps of_nat_Suc)
    with False show ?thesis by (auto simp del: str.simps)
  qed
qed

subsection \<open>The properties at a concrete session\<close>

lemma server_ready: "ready small_env (server_with w [])"
  by (simp add: ready_def small_env_def)

lemma small_env_ready: "ready small_env (s\<lparr>pbuf := p\<rparr>) = ready small_env s"
  "ready small_env (s\<lparr>cur_target := t\<rparr>) = ready small_env s"
  by (simp_all add: ready_def client_live_def client_bounds_def client_input_def)

theorem no_target_rejected_witness:
  "\<exists>s'. handle_packet small_env [] False 1 ((server_with ([], True) [])\<lparr>cur_target := None, pbuf := 103 # replicate 1024 0\<rparr>)
       = Ret None s' \<and> calls s' = []"
  using no_target_rejected [of small_env "(server_with ([], True) [])\<lparr>cur_target := None, pbuf := 103 # replicate 1024 0\<rparr>" "[]" False 1]
  by (auto simp: server_ready small_env_ready needs_target_def)

definition holding :: "byte list \<Rightarrow> (nat list \<times> bool) gdb_server" where
  "holding p = (server_with ([7], True) [])\<lparr>pbuf := p\<rparr>"

lemma holding_simps [simp]:
  "pbuf (holding p) = p" "cur_target (holding p) = Some 7" "calls (holding p) = []"
  "library (holding p) = ([7], True)" "ready small_env (holding p)"
  by (simp_all add: holding_def small_env_ready server_ready)

lemma plain_plain_reply: "plain plain_reply"
  by (simp add: plain_def plain_reply_def)

theorem memory_write_binary_witness:
  "\<exists>s'. packet_X small_env 8 (holding (request ''X'' 16 2 @ 58 # [0, 255] @ 0 # [])) = Ret () s'
     \<and> calls s' = [Target_mem_write (Some 7) 16 [0, 255]]"
proof -
  have len: "length (request ''X'' 16 2 @ 58 # [0, 255]) = 8"
    by (simp add: request_def fmt_hex_def digits.simps)
  obtain f where a: "answer small_env (Target_mem_write (Some 7) 16 (take (unat (2 :: u32)) [0, 255]))
      (library (holding (request ''X'' 16 2 @ 58 # [0, 255] @ 0 # []))) = (plain_reply, f)"
    by (simp add: small_env_def small_answer_def Let_def)
  from memory_write_binary [OF _ _ _ _ len a plain_plain_reply, of "[]"] show ?thesis
    by (simp add: BUF_SIZE_def) blast
qed

text \<open>A library that reads the bytes 1 and 171 from every address.\<close>

definition read_env :: "(nat list \<times> bool) env" where
  "read_env = small_env\<lparr>answer := (\<lambda>c w. (plain_reply\<lparr>r_int := 0, r_bytes := [1, 171]\<rparr>, \<lambda>w. w))\<rparr>"

theorem memory_read_witness:
  "\<exists>s'. packet_m read_env (holding (request ''m'' 16 2 @ 0 # replicate 1019 0)) = Ret () s'
     \<and> calls s' = [Target_mem_read (Some 7) 16 2]
     \<and> replied (str ''01AB'') (holding (request ''m'' 16 2 @ 0 # replicate 1019 0)) s'"
proof -
  let ?s = "holding (request ''m'' 16 2 @ 0 # replicate 1019 0)"
  have len: "length (pbuf ?s) = BUF_SIZE + 1"
    by (simp add: request_def fmt_hex_def digits.simps BUF_SIZE_def)
  have ready: "ready read_env ?s"
    using holding_simps(5) by (simp add: ready_def read_env_def)
  have a: "answer read_env (Target_mem_read (Some 7) 16 2) (library ?s)
      = (plain_reply\<lparr>r_int := 0, r_bytes := [1, 171]\<rparr>, \<lambda>w. w)"
    by (simp add: read_env_def)
  have p: "plain (plain_reply\<lparr>r_int := 0, r_bytes := [1, 171]\<rparr>)"
    by (simp add: plain_def plain_reply_def)
  have h: "hexify read_env [1, 171] = str ''01AB''"
    by (simp add: read_env_def small_env_def hex2_def hexdigit_def)
  from memory_read [OF ready _ len _ a p, of "replicate 1019 0"] h show ?thesis
    by simp
qed

end
