(* ===== verification/GdbSessions.thy ===== *)
theory GdbSessions
  imports GdbReplies
begin

text \<open>
  Behaviour of the server that spans several steps: documents read in chunks, the command line of
  \<open>vRun\<close>, flash programming, reports of a stopped target, exceptions in a session.
\<close>

section \<open>Documents read in chunks\<close>

text \<open>What the protocol promises for a read of \<open>len\<close> bytes at \<open>offset\<close>.\<close>

definition qxfer_reply :: "byte list \<Rightarrow> nat \<Rightarrow> nat \<Rightarrow> byte list" where
  "qxfer_reply text offset len =
     (if offset < length text then 109 # take len (drop offset text)
      else if offset = length text then str ''l'' else str ''E01'')"

text \<open>The debugger's loop: it asks for the next chunk until it gets \<open>l\<close>.\<close>

fun qxfer_fetch :: "nat \<Rightarrow> (nat \<Rightarrow> byte list) \<Rightarrow> nat \<Rightarrow> byte list option" where
  "qxfer_fetch 0 reply offset = None"
| "qxfer_fetch (Suc n) reply offset =
     (case reply offset of
        [] \<Rightarrow> None
      | b # bs \<Rightarrow>
          if b = 109 then map_option (\<lambda>r. bs @ r) (qxfer_fetch n reply (offset + length bs))
          else if b = 108 then Some [] else None)"

lemma qxfer_fetch_all:
  "0 < len \<Longrightarrow> offset \<le> length text \<Longrightarrow> length text - offset < n \<Longrightarrow>
     qxfer_fetch n (\<lambda>k. qxfer_reply text k len) offset = Some (drop offset text)"
proof (induction n arbitrary: offset)
  case (Suc n)
  show ?case
  proof (cases "offset < length text")
    case True
    let ?c = "take len (drop offset text)"
    have "0 < length ?c" using True Suc.prems(1) by simp
    then have "length text - (offset + length ?c) < n" "offset + length ?c \<le> length text"
      using True Suc.prems(3) by auto
    note IH = Suc.IH [OF Suc.prems(1) this(2,1)]
    have "drop (offset + length ?c) text = drop len (drop offset text)"
      by (cases "len \<le> length text - offset") (auto simp: add.commute)
    then have "?c @ drop (offset + length ?c) text = drop offset text"
      by (simp only: append_take_drop_id)
    with IH True show ?thesis by (simp add: qxfer_reply_def)
  next
    case False
    then show ?thesis using Suc.prems by (simp add: qxfer_reply_def)
  qed
qed simp

text \<open>The handler on a request for \<open>len\<close> bytes at \<open>offset\<close>, as the debugger prints it.\<close>

lemma string_reply:
  fixes offset len :: u32
  assumes len: "unat len < 2 ^ 32 - 2"
  shows "handle_q_string_reply e text (fmt_hex (unat offset) @ str '','' @ fmt_hex (unat len) @ 0 # rest) s
    = put e (qxfer_reply (cstr text) (unat offset) (unat len)) s"
proof -
  let ?p = "fmt_hex (unat offset) @ str '','' @ fmt_hex (unat len)"
  have "cstr (?p @ 0 # rest) = ?p" by (rule cstr_append_nul) simp
  then have vs: "sscanf (cstr (fmt_hex (unat offset) @ str '','' @ fmt_hex (unat len) @ 0 # rest))
      ([Hex 8] @ lits '','' @ [Hex 8]) = [SNum offset, SNum len]"
    using sscanf_two_hex [of "[]" 8 "[]" offset len "[]"] by (simp add: lits_def)
  have count: "scan_count [SNum offset, SNum len] = 2" by (simp add: scan_count_def)
  have n0: "num_at [SNum offset, SNum len] 0 0 = offset" and n1: "num_at [SNum offset, SNum len] 1 0 = len"
    by (simp_all add: num_at_def)
  show ?thesis
  proof (cases "unat offset < length (cstr text)")
    case True
    let ?at = "drop (unat offset) (cstr text)"
    have size: "unat (len + 2) = unat len + 2"
      using len by (subst unat_add_lem [THEN iffD1]) simp_all
    let ?r = "(replicate (unat len + 2) (0 :: byte))[0 := 109]"
    have at: "cstr ?at = ?at" by (rule cstr_id) (auto dest: in_set_dropD)
    have r: "?r = 109 # replicate (unat len + 1) 0" by simp
    have sent: "take (min (length ?at) (unat len) + 1) (take 1 ?r @ strncpy ?at (unat len) @ drop (1 + unat len) ?r)
        = 109 # take (unat len) ?at"
      unfolding r by (simp add: strncpy_def at min_def)
    have room: "(length ?r < 1 + unat len) = False" by simp
    have n_min: "(if length ?at < unat len then length ?at else unat len) = min (length ?at) (unat len)" by simp
    have put: "put_at 0 109 (replicate (unat len + 2) (0 :: byte)) s = Ret ?r s" by simp
    have "handle_q_string_reply e text (fmt_hex (unat offset) @ str '','' @ fmt_hex (unat len) @ 0 # rest) s
        = put e (take (min (length ?at) (unat len) + 1)
            (take 1 ?r @ strncpy ?at (unat len) @ drop (1 + unat len) ?r)) s"
      unfolding handle_q_string_reply_def Let_def vs count n0 n1 size
      by (simp only: True put room andthen.simps if_True if_False simp_thms n_min)
    with True show ?thesis by (simp only: sent qxfer_reply_def if_True)
  next
    case False
    then show ?thesis
      unfolding handle_q_string_reply_def Let_def vs count n0 n1
      by (simp add: qxfer_reply_def putz_def del: str.simps)
  qed
qed

text \<open>The comparison with a literal, character by character.\<close>

lemma cstr_Cons: "cstr (b # bs) = (if b = 0 then [] else b # cstr bs)"
  by (simp add: cstr_def)

lemma starts_simps:
  "starts [] p" "\<not> starts (c # cs) []"
  "starts (c # cs) (b # bs) \<longleftrightarrow> b \<noteq> 0 \<and> b = of_char c \<and> starts cs bs"
  by (auto simp: starts_def cstr_def)

text \<open>
  A document of the target is read completely and unchanged in chunks: to the request for
  \<open>len\<close> bytes of the target description at \<open>offset\<close> the server answers the chunk the protocol
  defines, with one call of the target library, and the debugger's loop over these answers ends with
  the whole document, whatever chunk size it asks for.
\<close>

theorem description_in_chunks:
  assumes "ready e s" and "cur_target s = Some p"
    and "pbuf s = str ''qXfer:features:read:target.xml:'' @ fmt_hex (unat offset) @ str '','' @ fmt_hex (unat len) @ 0 # rest"
    and "answer e (Target_regs_description (Some p)) (library s) = (r, f)" and "plain r"
    and "unat (len :: u32) < 2 ^ 32 - 2"
  shows "(\<exists>s'. handle_q_packet e sz s = Ret () s'
      \<and> replied (qxfer_reply (cstr (r_bytes r)) (unat (offset :: u32)) (unat len)) s s'
      \<and> calls s' = calls s @ [Target_regs_description (Some p)])
    \<and> (0 < unat len \<longrightarrow> qxfer_fetch (Suc (length (cstr (r_bytes r))))
       (\<lambda>k. qxfer_reply (cstr (r_bytes r)) k (unat len)) 0 = Some (cstr (r_bytes r)))"
proof -
  let ?c = "called (Target_regs_description (Some p)) f (locked s)"
  let ?a = "fmt_hex (unat offset) @ str '','' @ fmt_hex (unat len) @ 0 # rest"
  let ?b = "qxfer_reply (cstr (r_bytes r)) (unat offset) (unat len)"
  have call: "lib e (Target_regs_description (Some p)) (locked s) = Ret r ?c"
    using lib_plain [of e _ "locked s"] assms(4,5) by simp
  have arg: "drop 31 (pbuf s) = ?a" using assms(3) by simp
  have "handle_q_packet e sz s = query_features e s"
    unfolding handle_q_packet_def Let_def assms(3)
    by (simp add: starts_simps)
  moreover have "\<exists>s'. query_features e s = Ret () s' \<and> replied ?b s s' \<and> client.more s' = client.more ?c"
    unfolding query_features_def
    by (rule guarded_put [OF assms(1)])
      (simp_all add: reattach_def assms(2) call arg string_reply [OF assms(6)] same_locked del: str.simps)
  ultimately have "\<exists>s'. handle_q_packet e sz s = Ret () s' \<and> replied ?b s s'
      \<and> calls s' = calls s @ [Target_regs_description (Some p)]"
    using server_more(4) by fastforce
  moreover have "0 < unat len \<longrightarrow> qxfer_fetch (Suc (length (cstr (r_bytes r))))
       (\<lambda>k. qxfer_reply (cstr (r_bytes r)) k (unat len)) 0 = Some (cstr (r_bytes r))"
    using qxfer_fetch_all [of "unat len" 0 "cstr (r_bytes r)"] by (simp del: qxfer_fetch.simps)
  ultimately show ?thesis by blast
qed

theorem description_in_chunks_witness:
  "\<exists>s'. handle_q_packet read_env 34 (holding (str ''qXfer:features:read:target.xml:1,5'' @ [0])) = Ret () s'
     \<and> replied [109, 171] (holding (str ''qXfer:features:read:target.xml:1,5'' @ [0])) s'
     \<and> calls s' = [Target_regs_description (Some 7)]"
proof -
  let ?s = "holding (str ''qXfer:features:read:target.xml:1,5'' @ [0])"
  have ready: "ready read_env ?s"
    using holding_simps(5) by (simp add: ready_def read_env_def del: str.simps)
  have p: "pbuf ?s = str ''qXfer:features:read:target.xml:'' @ fmt_hex (unat (1 :: u32)) @ str '','' @ fmt_hex (unat (5 :: u32)) @ 0 # []"
    by (simp add: fmt_hex_def digits.simps hexdigit_lower_def)
  have a: "answer read_env (Target_regs_description (Some 7)) (library ?s)
      = (plain_reply\<lparr>r_int := 0, r_bytes := [1, 171]\<rparr>, \<lambda>w. w)"
    by (simp add: read_env_def)
  have pl: "plain (plain_reply\<lparr>r_int := 0, r_bytes := [1, 171]\<rparr>)"
    by (simp add: plain_def plain_reply_def)
  from description_in_chunks [OF ready _ p a pl, of 34] show ?thesis
    by (simp add: qxfer_reply_def cstr_def del: str.simps)
qed

section \<open>The command line of vRun\<close>

text \<open>What \<open>unhexify\<close> does with a pair of digits: the byte is the first of the two it writes.\<close>

definition unhex_pair :: "(byte list \<Rightarrow> nat \<Rightarrow> byte list) \<Rightarrow> bool" where
  "unhex_pair unhex \<longleftrightarrow>
     (\<forall>a b r x y. hexval a = Some x \<longrightarrow> hexval b = Some y \<longrightarrow>
        (\<exists>z. unhex (a # b # r) 2 = [of_nat (16 * x + y), z]))"

fun zero_pair :: "byte list \<Rightarrow> bool" where
  "zero_pair (a # b # r) \<longleftrightarrow> a = 48 \<and> b = 48 \<or> zero_pair (b # r)"
| "zero_pair _ \<longleftrightarrow> False"

lemma zero_pair_tl: "\<not> zero_pair (a # r) \<Longrightarrow> \<not> zero_pair r"
  by (cases r) auto

lemma hexval_bound: "hexval a = Some x \<Longrightarrow> x < 16"
proof -
  have l: "unat a \<le> unat c" if "a \<le> c" for c using that by (simp add: word_le_nat_alt)
  show "hexval a = Some x \<Longrightarrow> x < 16"
    using l [of 57] l [of 70] l [of 102] by (auto simp: hexval_def split: if_splits)
qed

lemma hexval_zero: "hexval a = Some 0 \<Longrightarrow> a = 48"
proof -
  have l: "unat c \<le> unat a" if "c \<le> a" for c using that by (simp add: word_le_nat_alt)
  have "unat a \<le> 48 \<Longrightarrow> 48 \<le> a \<Longrightarrow> a = 48" by (simp add: word_le_nat_alt word_unat_eq_iff)
  then show "hexval a = Some 0 \<Longrightarrow> a = 48"
    using l [of 65] l [of 97] by (auto simp: hexval_def split: if_splits)
qed

lemma unhex_pair_value:
  assumes "unhex_pair unhex" and "isxdigit a" and "isxdigit b"
  obtains v z where "unhex (a # b # r) 2 = [v, z]" "v = 0 \<longrightarrow> a = 48 \<and> b = 48"
proof -
  obtain x y where xy: "hexval a = Some x" "hexval b = Some y"
    using assms(2,3) by (auto simp: isxdigit_def)
  then obtain z where z: "unhex (a # b # r) 2 = [of_nat (16 * x + y), z]"
    using assms(1) unfolding unhex_pair_def by blast
  have "16 * x + y < 2 ^ 8" using hexval_bound [OF xy(1)] hexval_bound [OF xy(2)] by simp
  then have "unat (of_nat (16 * x + y) :: byte) = 16 * x + y"
    by (simp add: unat_of_nat del: of_nat_add of_nat_mult)
  then have "(of_nat (16 * x + y) :: byte) = 0 \<longrightarrow> x = 0 \<and> y = 0" by (metis add_is_0 mult_is_0 unat_0 zero_neq_numeral)
  then show thesis using that z xy hexval_zero by blast
qed

text \<open>The array while the loop runs: the text so far and its NUL, in 83 bytes.\<close>

definition cmdline_ok :: "nat \<Rightarrow> byte list \<Rightarrow> bool" where
  "cmdline_ok i c \<longleftrightarrow> (\<exists>w r. c = w @ 0 # r \<and> 0 \<notin> set w \<and> length w = i \<and> length r = 82 - i \<and> i \<le> 82)"

lemma cmdline_okE:
  assumes "cmdline_ok i c" and "\<not> 83 \<le> length (cstr c) + 3"
  obtains w a b d r where "c = w @ 0 # a # b # d # r" "0 \<notin> set w" "length w = i" "length r = 79 - i" "i \<le> 79"
proof -
  obtain w r where c: "c = w @ 0 # r" "0 \<notin> set w" "length w = i" "length r = 82 - i"
    using assms(1) unfolding cmdline_ok_def by blast
  with assms(2) have i: "i \<le> 79" by simp
  with c(4) have "3 \<le> length r" by simp
  then obtain a b d r' where "r = a # b # d # r'"
    by (auto simp: Suc_le_length_iff numeral_eq_Suc)
  with that c i show thesis by simp
qed

lemma store_in [simp]:
  "length w = i \<Longrightarrow> store i [x, y] (w @ a # b # r) = Some (w @ x # y # r)"
  "length w = i \<Longrightarrow> store (Suc i) [0] (w @ a # b # r) = Some (w @ a # 0 # r)"
  "length w = i \<Longrightarrow> store i [x, y, z] (w @ a # b # d # r) = Some (w @ x # y # z # r)"
  by (simp_all add: store_def)

lemma cmdline_ok_in:
  "0 \<notin> set w \<Longrightarrow> length w = j \<Longrightarrow> length r = 82 - j \<Longrightarrow> j \<le> 82 \<Longrightarrow> cmdline_ok j (w @ 0 # r)"
  unfolding cmdline_ok_def by blast

lemma cmdline_ok_more:
  assumes "0 \<notin> set w" and "length w = i" and "length r = 79 - i" and "i \<le> 79"
  shows "x \<noteq> 0 \<Longrightarrow> cmdline_ok (i + 1) (w @ x # 0 # y # z # r)"
    and "x \<noteq> 0 \<Longrightarrow> x' \<noteq> 0 \<Longrightarrow> cmdline_ok (i + 2) (w @ x # x' # 0 # z # r)"
  using assms cmdline_ok_in [of "w @ [x]" "i + 1" "y # z # r"] cmdline_ok_in [of "w @ [x, x']" "i + 2" "z # r"]
  by auto

lemma vrun_cmdline_ok:
  assumes u: "unhex_pair unhex"
  shows "cmdline_ok i c \<Longrightarrow> \<not> zero_pair tok \<Longrightarrow>
     \<exists>j c'. vrun_cmdline unhex tok i c = Some c' \<and> cmdline_ok j c'"
  using u
proof (induction unhex tok i c rule: vrun_cmdline.induct)
  case (2 unhex t tok i c)
  note nz = zero_pair_tl [OF 2(5)]
  show ?case
  proof (cases "t = 0 \<or> 83 \<le> length (cstr c) + 3")
    case True
    with 2(4) show ?thesis by auto
  next
    case go: False
    then obtain w a b d r where c: "c = w @ 0 # a # b # d # r" "0 \<notin> set w" "length w = i" "length r = 79 - i" "i \<le> 79"
      using cmdline_okE [OF 2(4)] by metis
    note more = cmdline_ok_more [OF c(2-5)]
    consider "is_ch t CHR '';''" | "\<not> is_ch t CHR '';''" "isxdigit t" "tok \<noteq> []" "isxdigit (hd tok)"
      | "\<not> is_ch t CHR '';''" "\<not> (isxdigit t \<and> tok \<noteq> [] \<and> isxdigit (hd tok))" by blast
    then show ?thesis
    proof cases
      case 1
      then show ?thesis
        using go c 2(1) more(1) nz 2(6) by simp
    next
      case pair: 2
      then obtain t' tok' where tok: "tok = t' # tok'" by (cases tok) auto
      obtain v z where v: "unhex (t # t' # tok') 2 = [v, z]" "v = 0 \<longrightarrow> t = 48 \<and> t' = 48"
        using unhex_pair_value [OF 2(6), of t t' tok'] pair(2,4) tok by auto
      have "v \<noteq> 0" using v(2) 2(5) tok by auto
      moreover have "\<not> zero_pair tok'" using nz zero_pair_tl tok by blast
      moreover have "store i (unhex (t # tok) 2) c = Some (w @ v # z # b # d # r)"
        using c(1,3) v(1) tok by simp
      ultimately show ?thesis
        using go c pair tok 2(2,3) more 2(6) v(1) by (cases "v = 32 \<or> v = 92") (auto simp: nth_append)
    next
      case 3
      then show ?thesis using go 2(4) by auto
    qed
  qed
qed auto

text \<open>
  The command line of \<open>vRun\<close> stays inside its array of 83 bytes and ends with a NUL there,
  whatever its length, as long as no pair of digits in the packet stands for a NUL.
\<close>

theorem vrun_cmdline_fits:
  assumes "unhex_pair unhex" and "length junk = 83" and "\<not> zero_pair tok"
  shows "\<exists>c. vrun_cmdline unhex tok 0 (junk[0 := 0]) = Some c \<and> length c = 83 \<and> 0 \<in> set c"
proof -
  obtain a r where "junk = a # r" using assms(2) by (cases junk) auto
  then have "cmdline_ok 0 (junk[0 := 0])"
    using assms(2) cmdline_ok_in [of "[]" 0 r] by simp
  from vrun_cmdline_ok [OF assms(1) this assms(3)] show ?thesis
    by (auto simp: cmdline_ok_def)
qed

definition hex_pairs :: "byte list \<Rightarrow> nat \<Rightarrow> byte list" where
  "hex_pairs src n = map (\<lambda>i. of_nat (16 * the (hexval (src ! (2 * i))) + the (hexval (src ! (2 * i + 1))))) [0..<n]"

lemma unhex_pair_hex_pairs: "unhex_pair hex_pairs"
  by (simp add: unhex_pair_def hex_pairs_def numeral_2_eq_2)

theorem vrun_cmdline_fits_witness:
  "\<exists>c. vrun_cmdline hex_pairs (str ''61;2062'') 0 ((replicate 83 7)[0 := 0]) = Some c \<and> length c = 83 \<and> 0 \<in> set c"
  by (rule vrun_cmdline_fits [OF unhex_pair_hex_pairs]) simp_all

text \<open>
  With pairs that stand for a NUL the length of the string no longer bounds the write position.
\<close>

lemma store_zero:
  assumes "cstr c = []" and "store i [0, z] c = Some c'"
  shows "cstr c' = [] \<and> length c' = length c \<and> c' ! i = 0"
proof -
  have "take i c @ [0, z] @ drop (i + 2) c = c'" "i + 2 \<le> length c"
    using assms(2) by (auto simp: store_def split: if_splits)
  moreover have "c = [] \<or> hd c = 0" using assms(1) by (cases c) (auto simp: cstr_def split: if_splits)
  ultimately show ?thesis
    by (cases i; cases c) (auto simp: cstr_def nth_append)
qed

lemma vrun_zero_pairs:
  assumes u: "unhex_pair unhex"
  shows "length c = 83 \<Longrightarrow> cstr c = [] \<Longrightarrow> i \<le> 82 \<Longrightarrow> 82 < i + n \<Longrightarrow>
     vrun_cmdline unhex (concat (replicate n [48, 48]) @ rest) i c = None"
proof (induction n arbitrary: i c)
  case (Suc n)
  let ?t = "concat (replicate n [48, 48]) @ rest"
  have h: "hexval 48 = Some 0" by (simp add: hexval_def)
  obtain z where z: "unhex (48 # 48 # ?t) 2 = [0, z]"
    using u [unfolded unhex_pair_def, rule_format, OF h h, of ?t] by auto
  show ?case
  proof (cases "store i [0, z] c")
    case None
    then show ?thesis by (simp add: Suc.prems is_ch_def isxdigit_def h z)
  next
    case (Some c1)
    note c1 = store_zero [OF Suc.prems(2) Some]
    have i: "i \<le> 81" using Some Suc.prems(1) by (auto simp: store_def split: if_splits)
    then obtain c2 where c2: "store (Suc i) [0] c1 = Some c2" using c1 Suc.prems(1) by (simp add: store_def)
    have "cstr c2 = []" "length c2 = 83"
      using c1 c2 i Suc.prems(1)
      by (cases c1; auto simp: store_def cstr_def split: if_splits)+
    then have "vrun_cmdline unhex ?t (Suc i) c2 = None"
      using Suc.IH Suc.prems(4) i by simp
    then show ?thesis
      using Some c1 c2 by (simp add: Suc.prems is_ch_def isxdigit_def h z)
  qed
qed simp

text \<open>
  With pairs of digits that stand for a NUL the test for the end of the array never becomes
  true, since it measures the string and not the position: a \<open>vRun\<close> packet with 83 such pairs makes
  the server write behind the array on its stack.
\<close>

theorem vrun_overflow:
  assumes "unhex_pair (unhexify e)" and "length junk = 83"
    and "pbuf s = str ''vRun;'' @ concat (replicate 83 [48, 48]) @ rest"
  shows "handle_v_packet e junk plen s = Stop OutOfBounds s"
proof -
  obtain a r where "junk = a # r" using assms(2) by (cases junk) auto
  then have "vrun_cmdline (unhexify e) (concat (replicate 83 [48, 48]) @ rest) 0 (junk[0 := 0]) = None"
    using vrun_zero_pairs [OF assms(1), of "junk[0 := 0]" 0 83 rest] assms(2) by simp
  moreover have "vrun_args (pbuf s) = concat (replicate 83 [48, 48]) @ rest"
    by (simp add: vrun_args_def assms(3) is_ch_def)
  ultimately have "packet_vRun e junk s = Stop OutOfBounds s"
    unfolding packet_vRun_def by simp
  then show ?thesis
    unfolding handle_v_packet_def Let_def assms(3)
    by (simp add: starts_simps sscanf_def lits_def cstr_Cons scan_count_def)
qed

theorem vrun_overflow_witness:
  "handle_v_packet (small_env\<lparr>unhexify := hex_pairs\<rparr>) (replicate 83 0) 171
       (holding (str ''vRun;'' @ concat (replicate 83 [48, 48]) @ [0]))
     = Stop OutOfBounds (holding (str ''vRun;'' @ concat (replicate 83 [48, 48]) @ [0]))"
  by (rule vrun_overflow) (simp_all add: unhex_pair_hex_pairs)

section \<open>Sequences of packets\<close>

text \<open>A session in which the debugger never disconnects.\<close>

definition steady :: "'w env \<Rightarrow> 'w gdb_server \<Rightarrow> bool" where
  "steady e s \<longleftrightarrow> others e = (\<lambda>x. x) \<and> client_live s \<and> Hangup \<notin> set (client_input s)"

lemma steady_ready: "steady e s \<Longrightarrow> ready e s"
  by (auto simp: steady_def ready_def dest: in_set_takeD)

lemma set_transmissions: "set (snd (transmissions n ev)) \<subseteq> set ev"
proof (induction n arbitrary: ev)
  case (Suc n)
  have "set (snd (transmissions n (tl ev))) \<subseteq> set ev"
    using Suc [of "tl ev"] list.set_sel(2) [of ev] by (cases ev) auto
  then show ?case using list.set_sel(2) [of ev] by (cases ev) (auto simp: Let_def split: prod.splits)
qed (metis list.set_sel(2) snd_conv subsetI tl_Nil transmissions.simps(1))

text \<open>A guarded handler that sends one packet and then changes the server's own variables.\<close>

lemma guarded_put_then:
  assumes r: "steady e s" and body: "body (locked s) = andthen (put e b s1) (\<lambda>_ s. Ret () (g s))"
    and same: "same_client s1 (locked s)" and g: "\<And>x. same_client (g x) x"
  shows "\<exists>s' s2. guarded e body s = Ret () s' \<and> replied b s s' \<and> steady e s'
    \<and> client.more s2 = client.more s1 \<and> client.more s' = client.more (g s2)"
proof -
  have o: "others e = (\<lambda>x. x)" "client_live s" using r by (auto simp: steady_def)
  note gq = guarded_quiet [OF o]
  have s1: "client_input s1 = client_input s" "client_written s1 = client_written s" "client_live s1"
    "gdb_mutex s1 = gdb_mutex (locked s)" "this_task s1 = this_task s" "no_ack_mode s1 = no_ack_mode s"
    using same_clientD [OF same] gq(2) by simp_all
  have "ready e s1" using steady_ready [OF r] s1 by (simp add: ready_def)
  then obtain s2 where s2: "put e b s1 = Ret () s2" "answered b s1 s2" using put_answers by blast
  note g2 = same_clientD [OF g [of s2]]
  have net: "net_sent (g s2) = net_sent s2"
    using g [of s2] by (cases s2; cases "g s2") (simp add: same_client_def client.truncate_def)
  have m: "gdb_mutex (unlocked (g s2)) = gdb_mutex s"
    using answered_more [OF s2(2)] s1 gq(3) g2
    by (auto simp: unlocked_def locked_def dest: arg_cong [where f = gdb_mutex])
  have "client_live (g s2)" using g2(3) s2(2) by (simp add: answered_def)
  then have live: "client_live (unlocked (g s2))"
    using m o(2) answered_more [OF s2(2)] s1(5) g2(5)
    by (simp add: client_live_def client_bounds_def unlocked_def)
  have inp: "set (client_input (unlocked (g s2))) \<subseteq> set (client_input s)"
    using s2(2) s1(1) g2(1) set_transmissions [of 3 "client_input s"] by (auto simp: answered_def split: if_splits)
  have "steady e (unlocked (g s2))" using r live inp by (auto simp: steady_def)
  moreover have "net_sent (unlocked (g s2)) = client_written s @ concat (replicate (times s) (frame 36 b))"
    using s2(2) s1 net by (simp add: answered_def times_def)
  moreover have "guarded e body s = Ret () (unlocked (g s2))"
    using gq(1) [of body] body s2(1) by simp
  moreover have "client.more s2 = client.more s1" using answered_more [OF s2(2)] by simp
  moreover have "client.more (unlocked (g s2)) = client.more (g s2)" by (simp add: unlocked_def)
  ultimately show ?thesis using m live unfolding replied_def by blast
qed

text \<open>A guarded handler that sends nothing.\<close>

lemma guarded_silent:
  assumes r: "steady e s" and body: "body (locked s) = Ret () s1" and same: "same_client s1 (locked s)"
    and net: "net_sent s1 = net_sent s"
  shows "\<exists>s'. guarded e body s = Ret () s' \<and> steady e s' \<and> net_sent s' = net_sent s
    \<and> client_written s' = client_written s \<and> client_input s' = client_input s
    \<and> client.more s' = client.more s1"
proof -
  have o: "others e = (\<lambda>x. x)" "client_live s" using r by (auto simp: steady_def)
  note gq = guarded_quiet [OF o]
  note s1 = same_clientD [OF same]
  have "gdb_mutex (unlocked s1) = gdb_mutex s"
    using s1 gq(3) by (auto simp: unlocked_def locked_def dest: arg_cong [where f = gdb_mutex])
  then have live: "client_live (unlocked s1)"
    using o(2) s1 gq(2) by (simp add: client_live_def client_bounds_def unlocked_def locked_def)
  have "guarded e body s = Ret () (unlocked s1)" using gq(1) [of body] body by simp
  moreover have "steady e (unlocked s1)" using r live s1 by (simp add: steady_def)
  moreover have "client.more (unlocked s1) = client.more s1" by (simp add: unlocked_def)
  ultimately show ?thesis using net s1 by simp
qed

section \<open>Reports of a stopped target\<close>

definition stop_text :: "halt_reason \<Rightarrow> u32 \<Rightarrow> byte list" where
  "stop_text reason watch =
     (case reason of
        HALT_ERROR \<Rightarrow> str ''X1D''
      | HALT_REQUEST \<Rightarrow> str ''T02''
      | HALT_WATCHPOINT \<Rightarrow> str ''T05watch:'' @ pad_to True 8 (fmt_HEX (unat watch)) @ str '';''
      | HALT_FAULT \<Rightarrow> str ''T0B''
      | HALT_RUNNING \<Rightarrow> []
      | HALT_OTHER \<Rightarrow> str ''T05'')"

lemma putf_put: "vasprintf (str fmt) args = Some b \<Longrightarrow> putf e fmt args s = put e b s"
  by (simp add: putf_def put_def gdb_putpacket_f_def defined_def)

lemma stop_report_put:
  assumes "reason \<noteq> HALT_RUNNING" and "\<not> non_stop s"
  shows "stop_report e reason watch s = put e (stop_text reason watch) s"
proof -
  note eval = parse_conv_def fmt_width_def pad_to_def fmt_HEX_def digits.simps hexdigit_def
    GDB_SIGINT_def GDB_SIGTRAP_def GDB_SIGSEGV_def GDB_SIGLOST_def
  have t: "vasprintf (str ''X%02X'') [FNum GDB_SIGLOST] = Some (str ''X1D'')"
    "vasprintf (str ''T%02X'') [FNum GDB_SIGINT] = Some (str ''T02'')"
    "vasprintf (str ''T%02X'') [FNum GDB_SIGSEGV] = Some (str ''T0B'')"
    "vasprintf (str ''T%02X'') [FNum GDB_SIGTRAP] = Some (str ''T05'')"
    by (simp_all add: eval)
  have w: "vasprintf (str ''T%02Xwatch:%08X;'') [FNum GDB_SIGTRAP, FNum watch]
      = Some (str ''T05watch:'' @ pad_to True 8 (fmt_HEX (unat watch)) @ str '';'')"
    by (simp add: parse_conv_def fmt_width_def GDB_SIGTRAP_def)
      (simp add: pad_to_def fmt_HEX_def digits.simps hexdigit_def)
  show ?thesis
    using assms t [THEN putf_put] w [THEN putf_put]
    by (cases reason) (simp_all add: stop_report_def stop_text_def del: str.simps)
qed

lemma net_sent_called [simp]: "net_sent (called c f s) = net_sent s"
  by (simp add: called_def)

lemma same_client_step [simp]: "same_client (s\<lparr>single_step := b\<rparr>) s' = same_client s s'" "same_client s s"
  by (simp_all add: same_client_def client.truncate_def)

lemma poll_idle:
  assumes "steady e s" and "\<not> run_state s"
  shows "\<exists>s'. poll_target e s = Ret () s' \<and> net_sent s' = net_sent s \<and> calls s' = calls s"
  unfolding poll_target_def
  using guarded_silent [OF assms(1) _ same_locked, of "\<lambda>s. if run_state s \<and> cur_target s \<noteq> None then
       andthen (lib e (Target_halt_poll (cur_target s)) s) (\<lambda>r s.
       andthen (stop_report e (r_reason r) (r_out r) s) (\<lambda>_ s.
         Ret () (if run_state s \<and> r_reason r \<noteq> HALT_RUNNING
                 then s\<lparr>run_state := False, single_step := False\<rparr> else s)))
     else Ret () s"] assms(2) server_more(4) by fastforce

text \<open>
  In all-stop mode a stop of the running target is reported exactly once: the poll that finds it
  asks the library once, sends the stop reply for its reason and leaves the running state, with single
  stepping off; the next poll neither asks nor sends. A target that still runs is left alone.
\<close>

theorem stop_reported_once:
  assumes "steady e s" and "\<not> non_stop s" and "run_state s" and "cur_target s = Some p"
    and "answer e (Target_halt_poll (Some p)) (library s) = (r, f)" and "plain r"
  shows "\<exists>s'. poll_target e s = Ret () s' \<and> calls s' = calls s @ [Target_halt_poll (Some p)]
    \<and> (if r_reason r = HALT_RUNNING then net_sent s' = net_sent s \<and> run_state s'
       else replied (stop_text (r_reason r) (r_out r)) s s' \<and> \<not> run_state s' \<and> \<not> single_step s'
         \<and> (\<exists>s''. poll_target e s' = Ret () s'' \<and> net_sent s'' = net_sent s' \<and> calls s'' = calls s'))"
proof -
  let ?c = "called (Target_halt_poll (Some p)) f (locked s)"
  let ?body = "\<lambda>s. if run_state s \<and> cur_target s \<noteq> None then
       andthen (lib e (Target_halt_poll (cur_target s)) s) (\<lambda>r s.
       andthen (stop_report e (r_reason r) (r_out r) s) (\<lambda>_ s.
         Ret () (if run_state s \<and> r_reason r \<noteq> HALT_RUNNING
                 then s\<lparr>run_state := False, single_step := False\<rparr> else s)))
     else Ret () s"
  have call: "lib e (Target_halt_poll (Some p)) (locked s) = Ret r ?c"
    using lib_plain [of e _ "locked s"] assms(5,6) by simp
  have ns: "\<not> non_stop ?c" using assms(2) by (simp add: locked_def)
  show ?thesis
  proof (cases "r_reason r = HALT_RUNNING")
    case True
    have "\<exists>s'. guarded e ?body s = Ret () s' \<and> steady e s' \<and> net_sent s' = net_sent s
        \<and> client_written s' = client_written s \<and> client_input s' = client_input s
        \<and> client.more s' = client.more ?c"
      by (rule guarded_silent [OF assms(1)])
        (use assms(3,4) True call ns in \<open>simp_all add: stop_report_def same_locked\<close>)
    with True assms(3) show ?thesis
      unfolding poll_target_def using server_more(4,8) [of _ ?c] by fastforce
  next
    case False
    let ?g = "\<lambda>s. if run_state s then s\<lparr>run_state := False, single_step := False\<rparr> else s"
    have "\<exists>s' s2. guarded e ?body s = Ret () s' \<and> replied (stop_text (r_reason r) (r_out r)) s s' \<and> steady e s'
        \<and> client.more s2 = client.more ?c \<and> client.more s' = client.more (?g s2)"
      by (rule guarded_put_then [OF assms(1)])
        (use assms(3,4) False call ns in \<open>simp_all add: stop_report_put same_locked\<close>)
    then obtain s' s2 where s': "poll_target e s = Ret () s'" "replied (stop_text (r_reason r) (r_out r)) s s'"
      "steady e s'" and more: "client.more s2 = client.more ?c" "client.more s' = client.more (?g s2)"
      unfolding poll_target_def by blast
    have "run_state s2" "calls s2 = calls s @ [Target_halt_poll (Some p)]"
      using server_more(4,8) [OF more(1)] assms(3) by simp_all
    then have "calls s' = calls s @ [Target_halt_poll (Some p)]" "\<not> run_state s'" "\<not> single_step s'"
      using server_more(4,7,8) [OF more(2)] by simp_all
    with False s' poll_idle [OF s'(3)] show ?thesis by auto
  qed
qed

lemma holding_steady: "steady small_env (holding p)"
proof -
  have "client_live (holding p)" using holding_simps(5) by (simp add: ready_def)
  moreover have "client_input (holding p) = []"
    using server_with_client(3) [of "([7], True)" "[]"] by (simp add: holding_def client_input_def)
  ultimately show ?thesis by (simp add: steady_def small_env_def)
qed

theorem stop_reported_once_witness:
  "\<exists>s'. poll_target (read_env\<lparr>answer := (\<lambda>c w. (plain_reply\<lparr>r_reason := HALT_WATCHPOINT, r_out := 4096\<rparr>, \<lambda>w. w))\<rparr>)
       ((holding [])\<lparr>run_state := True, non_stop := False\<rparr>) = Ret () s'
     \<and> replied (str ''T05watch:00001000;'') ((holding [])\<lparr>run_state := True, non_stop := False\<rparr>) s'"
proof -
  let ?e = "read_env\<lparr>answer := (\<lambda>c w. (plain_reply\<lparr>r_reason := HALT_WATCHPOINT, r_out := 4096\<rparr>, \<lambda>w. w))\<rparr>"
  let ?s = "(holding [])\<lparr>run_state := True, non_stop := False\<rparr>"
  have s: "steady ?e ?s"
    using holding_steady [of "[]"]
    by (simp add: steady_def read_env_def small_env_def client_live_def client_bounds_def client_input_def)
  have t: "stop_text HALT_WATCHPOINT 4096 = str ''T05watch:00001000;''"
    by (simp add: stop_text_def pad_to_def fmt_HEX_def digits.simps hexdigit_def) (simp add: eval_nat_numeral)
  from stop_reported_once [OF s, of 7 "plain_reply\<lparr>r_reason := HALT_WATCHPOINT, r_out := 4096\<rparr>" "\<lambda>w. w"] t
  show ?thesis by (auto simp: plain_def plain_reply_def simp del: str.simps)
qed

section \<open>Continuing and stepping\<close>

lemma scan_other_prefix:
  "b \<noteq> of_char c \<Longrightarrow> sscanf_at p (b # r) (lits (c # cs) @ f) = []"
  "b = of_char c \<Longrightarrow> sscanf_at p (b # r) (lits (c # cs) @ f) = sscanf_at (Suc p) r (lits cs @ f)"
  by (simp_all add: lits_def)

lemma vcont_dispatch:
  assumes "pbuf s = str ''vCont;'' @ r"
  shows "handle_v_packet e junk sz s = packet_vCont e s"
  unfolding handle_v_packet_def Let_def assms
  by (simp add: starts_simps sscanf_def lits_def cstr_Cons scan_count_def)

text \<open>
  Of the two actions of \<open>vCont\<close> only \<open>c\<close> sets the target going: on \<open>s\<close> the server answers \<open>OK\<close>
  and considers the target running, but makes no call to the target library, so that the
  single step the debugger waits for never happens.
\<close>

theorem vcont_step_not_resumed:
  assumes "steady e s" and "cur_target s = Some p" and "pbuf s = str ''vCont;'' @ a # 0 # rest"
    and "a = of_char CHR ''c'' \<or> a = of_char CHR ''s''"
    and "answer e (Target_halt_resume (Some p) False) (library s) = (r, f)" and "plain r"
  shows "\<exists>s'. handle_v_packet e junk sz s = Ret () s' \<and> replied (str ''OK'') s s' \<and> run_state s'
    \<and> calls s' = (if a = of_char CHR ''c'' then calls s @ [Target_halt_resume (Some p) False] else calls s)"
proof -
  let ?l = "(locked s)\<lparr>single_step := False\<rparr>"
  have call: "lib e (Target_halt_resume (Some p) False) (?l\<lparr>run_state := True\<rparr>)
      = Ret r (called (Target_halt_resume (Some p) False) f (?l\<lparr>run_state := True\<rparr>))"
    using lib_plain [of e _ "?l\<lparr>run_state := True\<rparr>"] assms(5,6) by simp
  let ?s1 = "if a = of_char CHR ''c'' then called (Target_halt_resume (Some p) False) f (?l\<lparr>run_state := True\<rparr>)
    else ?l\<lparr>run_state := True, single_step := True\<rparr>"
  have "\<exists>s'. packet_vCont e s = Ret () s' \<and> replied (str ''OK'') s s' \<and> client.more s' = client.more ?s1"
    unfolding packet_vCont_def
    by (rule guarded_put [OF steady_ready [OF assms(1)]])
      (use assms(2,4) call in \<open>auto simp: Let_def assms(3) is_ch_def cstr_Cons putz_def\<close>)
  then obtain s' where s': "packet_vCont e s = Ret () s'" "replied (str ''OK'') s s'"
    "client.more s' = client.more ?s1" by blast
  have "run_state s'" "calls s' = (if a = of_char CHR ''c'' then calls s @ [Target_halt_resume (Some p) False] else calls s)"
    using server_more(8) [OF s'(3)] server_more(4) [OF s'(3)] by simp_all
  with s' vcont_dispatch [of s "a # 0 # rest"] assms(3) show ?thesis by metis
qed

theorem vcont_step_not_resumed_witness:
  "\<exists>s'. handle_v_packet read_env [] 7 (holding (str ''vCont;'' @ of_char CHR ''s'' # 0 # [])) = Ret () s'
     \<and> run_state s' \<and> calls s' = []"
proof -
  let ?s = "holding (str ''vCont;'' @ of_char CHR ''s'' # 0 # [])"
  have "steady read_env ?s"
    using holding_steady by (simp add: steady_def read_env_def del: str.simps)
  from vcont_step_not_resumed [OF this, of 7 "of_char CHR ''s''" "[]"
      "plain_reply\<lparr>r_int := 0, r_bytes := [1, 171]\<rparr>" "\<lambda>w. w" "[]" 7]
  show ?thesis by (auto simp: read_env_def plain_def plain_reply_def simp del: str.simps)
qed

section \<open>Exceptions under the guard\<close>

text \<open>
  An exception that the target library raises inside a guarded section is caught, but the
  jump runs no destructor: the task still owns the server lock afterwards, one level deeper than
  before. Shown for the poll of a running target.
\<close>

theorem exception_keeps_lock:
  assumes "steady e s" and "run_state s" and "cur_target s = Some p"
    and "answer e (Target_halt_poll (Some p)) (library s) = (r, f)" and "r_events r = []" and "r_raised r = Some t"
  shows "\<exists>s'. try_all (poll_target e) s = Ret t s' \<and> mutex_holder (gdb_mutex s') = Some (this_task s)
    \<and> gdb_mutex_lockcount (gdb_mutex s') = gdb_mutex_lockcount (gdb_mutex s) + 1"
proof -
  have o: "others e = (\<lambda>x. x)" "client_live s" using assms(1) by (auto simp: steady_def)
  obtain l where l: "gdb_lock (this_task s) (gdb_mutex s) = Some l"
    using live_lock [OF o(2)] by metis
  have depth: "mutex_holder l = Some (this_task s) \<and> gdb_mutex_lockcount l = gdb_mutex_lockcount (gdb_mutex s) + 1"
    using l o(2) by (auto simp: gdb_lock_def xSemaphoreTake_def client_live_def lock_ok_def split: if_splits)
  have "poll_target e s = Stop (Raised t) (called (Target_halt_poll (Some p)) f (locked s))"
    unfolding poll_target_def guarded_quiet(1) [OF o] using assms(2-6)
    by (simp add: lib_def called_def)
  then have "try_all (poll_target e) s = Ret t (called (Target_halt_poll (Some p)) f (locked s))"
    by (simp add: try_all_def)
  moreover have "gdb_mutex (called (Target_halt_poll (Some p)) f (locked s)) = l"
    by (simp add: called_def locked_def l)
  ultimately show ?thesis using depth by simp
qed

section \<open>Requests that do not check for a target\<close>

text \<open>
  The interrupt, the restart after a failed attach and the end of flash programming do not
  check for a target, unlike the other requests: without one they call the target library with NULL.
\<close>

theorem null_target_passed:
  assumes "steady e s" and "cur_target s = None"
    and "answer e (Target_halt_request None) (library s) = (r, f)" and "plain r"
    and "answer e (Target_flash_complete None) (library s) = (r', f')" and "plain r'"
  shows "(\<exists>s'. packet_interrupt e s = Ret () s' \<and> calls s' = calls s @ [Target_halt_request None])
    \<and> (\<exists>s'. packet_vFlashDone e s = Ret () s' \<and> calls s' = calls s @ [Target_flash_complete None])"
proof
  let ?l = "(locked s)\<lparr>run_state := True\<rparr>"
  have "lib e (Target_halt_request None) ?l = Ret r (called (Target_halt_request None) f ?l)"
    using lib_plain [of e _ ?l] assms(3,4) by simp
  then have "\<exists>s'. packet_interrupt e s = Ret () s' \<and> steady e s' \<and> net_sent s' = net_sent s
      \<and> client_written s' = client_written s \<and> client_input s' = client_input s
      \<and> client.more s' = client.more (called (Target_halt_request None) f ?l)"
    unfolding packet_interrupt_def
    by (intro guarded_silent [OF assms(1)]) (simp_all add: Let_def assms(2) locked_def)
  then show "\<exists>s'. packet_interrupt e s = Ret () s' \<and> calls s' = calls s @ [Target_halt_request None]"
    using server_more(4) by fastforce
next
  let ?c = "called (Target_flash_complete None) f' (locked s)"
  have "lib e (Target_flash_complete None) (locked s) = Ret r' ?c"
    using lib_plain [of e _ "locked s"] assms(5,6) by simp
  then have "\<exists>s' s2. packet_vFlashDone e s = Ret () s' \<and> replied (if r_int r' \<noteq> 0 then str ''OK'' else str ''EFF'') s s'
      \<and> steady e s' \<and> client.more s2 = client.more ?c \<and> client.more s' = client.more (s2\<lparr>flash_mode := False\<rparr>)"
    unfolding packet_vFlashDone_def
    by (intro guarded_put_then [OF assms(1)]) (simp_all add: assms(2) putz_def del: str.simps)
  then obtain s' s2 where "packet_vFlashDone e s = Ret () s'" "client.more s2 = client.more ?c"
    "client.more s' = client.more (s2\<lparr>flash_mode := False\<rparr>)" by blast
  then show "\<exists>s'. packet_vFlashDone e s = Ret () s' \<and> calls s' = calls s @ [Target_flash_complete None]"
    using server_more(4) [of s2 ?c] server_more(4) [of s' "s2\<lparr>flash_mode := False\<rparr>"] by auto
qed

lemma holding_changed:
  "steady small_env ((holding p)\<lparr>run_state := b\<rparr>)" "steady small_env ((holding p)\<lparr>cur_target := t\<rparr>)"
  "this_task (holding p) = 1" "gdb_mutex_lockcount (gdb_mutex (holding p)) = 2"
  using holding_steady [of p]
  by (simp_all add: steady_def client_live_def client_bounds_def client_input_def)
    (simp_all add: holding_def)

theorem exception_keeps_lock_witness:
  "\<exists>s'. try_all (poll_target small_env) ((holding [])\<lparr>run_state := True\<rparr>) = Ret 2 s'
     \<and> gdb_mutex_lockcount (gdb_mutex s') = 3"
proof -
  have a: "answer small_env (Target_halt_poll (Some 7)) (library ((holding [])\<lparr>run_state := True\<rparr>))
      = (plain_reply\<lparr>r_raised := Some 2\<rparr>, snd (small_answer (Target_halt_poll (Some 7)) ([7], True)))"
    by (simp add: small_env_def small_answer_def Let_def)
  from exception_keeps_lock [OF holding_changed(1) _ _ a] show ?thesis
    by (auto simp: plain_reply_def holding_changed)
qed

theorem null_target_passed_witness:
  "(\<exists>s'. packet_interrupt small_env ((holding [])\<lparr>cur_target := None\<rparr>) = Ret () s' \<and> calls s' = [Target_halt_request None])
    \<and> (\<exists>s'. packet_vFlashDone small_env ((holding [])\<lparr>cur_target := None\<rparr>) = Ret () s' \<and> calls s' = [Target_flash_complete None])"
proof -
  have a: "answer small_env c (library ((holding [])\<lparr>cur_target := None\<rparr>)) = (plain_reply, snd (small_answer c ([7], True)))"
    if "c = Target_halt_request None \<or> c = Target_flash_complete None" for c
    using that by (auto simp: small_env_def small_answer_def Let_def)
  from null_target_passed [OF holding_changed(2) _ a plain_plain_reply a plain_plain_reply] show ?thesis
    by simp
qed

section \<open>Flash programming\<close>

text \<open>What the debugger sends to program the flash memory: the packets of a session.\<close>

datatype flash_op = Erase u32 u32 | Write u32 "byte list" | Commit

fun flash_packet :: "flash_op \<Rightarrow> byte list" where
  "flash_packet (Erase a l) = request ''vFlashErase:'' a l"
| "flash_packet (Write a d) = str ''vFlashWrite:'' @ fmt_hex (unat a) @ str '':'' @ d"
| "flash_packet Commit = str ''vFlashDone''"

text \<open>The packets handled one after the other; \<open>stale\<close> is what the buffer holds behind the packet.\<close>

fun flash_session :: "'w env \<Rightarrow> byte list \<Rightarrow> byte list \<Rightarrow> flash_op list \<Rightarrow> (unit, 'w) action" where
  "flash_session e junk stale [] s = Ret () s"
| "flash_session e junk stale (x # xs) s =
     andthen (handle_v_packet e junk (length (flash_packet x)) (s\<lparr>pbuf := flash_packet x @ 0 # stale\<rparr>))
       (\<lambda>_ s. flash_session e junk stale xs s)"

text \<open>What it should do to the target: reset and halt before the first erase, then each request once.\<close>

fun flash_calls :: "nat \<Rightarrow> bool \<Rightarrow> flash_op list \<Rightarrow> call list" where
  "flash_calls p mode [] = []"
| "flash_calls p mode (Erase a l # xs) =
     (if mode then [] else [Target_reset (Some p), Target_halt_request (Some p)])
     @ Target_flash_erase (Some p) a l # flash_calls p True xs"
| "flash_calls p mode (Write a d # xs) = Target_flash_write (Some p) a d # flash_calls p mode xs"
| "flash_calls p mode (Commit # xs) = Target_flash_complete (Some p) # flash_calls p False xs"

definition good_library :: "'w env \<Rightarrow> bool" where
  "good_library e \<longleftrightarrow> (\<forall>c w. plain (fst (answer e c w)) \<and> r_int (fst (answer e c w)) \<noteq> 0)"

definition after_call :: "'w env \<Rightarrow> call \<Rightarrow> 'w gdb_server \<Rightarrow> 'w gdb_server" where
  "after_call e c s = called c (snd (answer e c (library s))) s"

lemma after_call_simps [simp]:
  "same_client (after_call e c s) s' = same_client s s'" "cur_target (after_call e c s) = cur_target s"
  "calls (after_call e c s) = calls s @ [c]" "flash_mode (after_call e c s) = flash_mode s"
  "pbuf (after_call e c s) = pbuf s"
  by (simp_all add: after_call_def)

lemma lib_good:
  assumes "good_library e"
  shows "lib e c s = Ret (fst (answer e c (library s))) (after_call e c s)"
    and "r_int (fst (answer e c w)) \<noteq> 0"
  using assms lib_plain [of e c s] by (simp_all add: good_library_def after_call_def)

lemma andthen_Ret [simp]: "andthen m Ret = m"
  by (cases m) auto

definition flash_step :: "'w env \<Rightarrow> nat \<Rightarrow> 'w gdb_server \<Rightarrow> call list \<Rightarrow> bool \<Rightarrow> 'w gdb_server \<Rightarrow> bool" where
  "flash_step e p s cs mode s' \<longleftrightarrow> replied (str ''OK'') s s' \<and> steady e s' \<and> cur_target s' = Some p
     \<and> calls s' = calls s @ cs \<and> flash_mode s' = mode"

lemma flash_stepI:
  assumes "steady e s" and "body (locked s) = andthen (putz e ''OK'' s1) (\<lambda>_ s. Ret () (g s))"
    and "same_client s1 (locked s)" and "\<And>x. same_client (g x) x"
    and "\<And>x. client.more x = client.more s1 \<Longrightarrow> client.more (g x) = client.more (g s1)"
    and "cur_target (g s1) = Some p" and "calls (g s1) = calls s @ cs" and "flash_mode (g s1) = mode"
  shows "\<exists>s'. guarded e body s = Ret () s' \<and> flash_step e p s cs mode s'"
proof -
  obtain s' s2 where s': "guarded e body s = Ret () s'" "replied (str ''OK'') s s'" "steady e s'"
    "client.more s2 = client.more s1" "client.more s' = client.more (g s2)"
    using guarded_put_then [OF assms(1) _ assms(3,4)] assms(2) by (simp add: putz_def) blast
  have "cur_target s' = Some p" "calls s' = calls s @ cs" "flash_mode s' = mode"
    using server_more(1,4,9) [OF s'(5) [unfolded assms(5) [OF s'(4)]]] assms(6-8) by simp_all
  with s' show ?thesis by (auto simp: flash_step_def)
qed

text \<open>The state in which the first erase of a session finds the target.\<close>

definition erase_begun :: "'w env \<Rightarrow> nat \<Rightarrow> 'w gdb_server \<Rightarrow> 'w gdb_server" where
  "erase_begun e p s =
     (if flash_mode s then s
      else (after_call e (Target_halt_request (Some p)) (after_call e (Target_reset (Some p)) s))\<lparr>flash_mode := True\<rparr>)"

lemma more_flash_mode:
  "client.more x = client.more y \<Longrightarrow> client.more (x\<lparr>flash_mode := b\<rparr>) = client.more (y\<lparr>flash_mode := b\<rparr>)"
  by (cases x; cases y; simp)

lemma erase_step:
  assumes "steady e s" and "good_library e" and "cur_target s = Some p"
  shows "\<exists>s'. packet_vFlashErase e a l s = Ret () s' \<and> flash_step e p s
    ((if flash_mode s then [] else [Target_reset (Some p), Target_halt_request (Some p)])
      @ [Target_flash_erase (Some p) a l]) True s'"
  unfolding packet_vFlashErase_def
  by (rule flash_stepI [OF assms(1), where g = "\<lambda>s. s"
        and ?s1.0 = "after_call e (Target_flash_erase (Some p) a l) (erase_begun e p (locked s))"])
    (use assms(3) lib_good [OF assms(2)]
     in \<open>auto simp: reset_cur_def same_locked erase_begun_def\<close>)

lemma write_step:
  assumes "steady e s" and "good_library e" and "cur_target s = Some p"
    and "pbuf s = h @ d @ t" and "length h = n" and "length (h @ d) = k"
  shows "\<exists>s'. packet_vFlashWrite e a n k s = Ret () s' \<and> flash_step e p s
    [Target_flash_write (Some p) a d] (flash_mode s) s'"
  unfolding packet_vFlashWrite_def
  by (rule flash_stepI [OF assms(1), where g = "\<lambda>s. s" and ?s1.0 = "after_call e (Target_flash_write (Some p) a d) (locked s)"])
    (use assms(3-6) lib_good [OF assms(2)] in \<open>auto simp: read_at_def same_locked\<close>)

lemma commit_step:
  assumes "steady e s" and "good_library e" and "cur_target s = Some p"
  shows "\<exists>s'. packet_vFlashDone e s = Ret () s' \<and> flash_step e p s [Target_flash_complete (Some p)] False s'"
  unfolding packet_vFlashDone_def
  by (rule flash_stepI [OF assms(1), where g = "\<lambda>s. s\<lparr>flash_mode := False\<rparr>"
        and ?s1.0 = "after_call e (Target_flash_complete (Some p)) (locked s)"])
    (use assms(3) lib_good [OF assms(2)] in \<open>auto simp: same_locked intro: more_flash_mode\<close>)

lemma steady_pbuf [simp]: "steady e (s\<lparr>pbuf := x\<rparr>) = steady e s"
  by (simp add: steady_def client_live_def client_bounds_def client_input_def)

lemma erase_dispatch:
  assumes "pbuf s = flash_packet (Erase a l) @ 0 # stale"
  shows "handle_v_packet e junk sz s = packet_vFlashErase e a l s"
proof -
  have c: "cstr (pbuf s) = request ''vFlashErase:'' a l"
    using assms request_no_nul [of "''vFlashErase:''" a l] by simp
  have vs: "sscanf (request ''vFlashErase:'' a l) (lits ''vFlashErase:'' @ [Hex 8] @ lits '','' @ [Hex 8]) = [SNum a, SNum l]"
    using scan_request [of "[]" 8 "''vFlashErase:''" a l "[]"] by simp
  have att: "sscanf (request ''vFlashErase:'' a l) (lits ''vAttach;'' @ [Hex 8]) = []"
    by (simp add: request_def sscanf_def lits_def)
  have "\<not> starts ''vRun'' (pbuf s)"
    by (simp add: assms request_def starts_simps)
  then show ?thesis
    unfolding handle_v_packet_def Let_def c vs att
    by (simp add: scan_count_def num_at_def)
qed

lemma write_dispatch:
  assumes "pbuf s = flash_packet (Write a d) @ 0 # stale"
  shows "handle_v_packet e junk sz s = packet_vFlashWrite e a (13 + length (fmt_hex (unat a))) sz s"
proof -
  have c: "cstr (pbuf s) = str ''vFlashWrite:'' @ fmt_hex (unat a) @ 58 # cstr (d @ 0 # stale)"
    using cstr_append [of "str ''vFlashWrite:'' @ fmt_hex (unat a) @ [58]" "d @ 0 # stale"] by (simp add: assms)
  have vs: "sscanf (cstr (pbuf s)) (lits ''vFlashWrite:'' @ [Hex 8] @ lits '':'' @ [Pos])
      = [SNum a, SPos (13 + length (fmt_hex (unat a)))]"
    unfolding sscanf_def c sscanf_at_lits append_Cons append_Nil
    by (subst sscanf_at_hex) (simp_all add: hexval_def lits_def)
  have other: "sscanf (cstr (pbuf s)) (lits ''vAttach;'' @ [Hex 8]) = []"
    "sscanf (cstr (pbuf s)) (lits ''vFlashErase:'' @ [Hex 8] @ lits '','' @ [Hex 8]) = []"
    unfolding c by (simp_all add: sscanf_def lits_def)
  have "\<not> starts ''vRun'' (pbuf s)"
    by (simp add: assms starts_simps)
  moreover have "unat (of_nat (13 + length (fmt_hex (unat a))) :: u32) = 13 + length (fmt_hex (unat a))"
    using fmt_hex_bound [of a] by (subst unat_of_nat) simp
  ultimately show ?thesis
    unfolding handle_v_packet_def Let_def vs other
    by (simp add: scan_count_def num_at_def del: of_nat_add)
qed

lemma commit_dispatch:
  assumes "pbuf s = flash_packet Commit @ 0 # stale"
  shows "handle_v_packet e junk sz s = packet_vFlashDone e s"
  unfolding handle_v_packet_def Let_def assms
  by (simp add: starts_simps equals_def cstr_Cons sscanf_def lits_def scan_count_def)

text \<open>
  C37. Programming the flash memory: for every session of erase, write and commit packets the target
  library gets exactly the requests of the debugger, in order, each once, with addresses, lengths and
  data unchanged; the target is reset and halted before the first erase and not again until a commit
  has ended the session, and each packet is answered.
\<close>

theorem flash_session_programs:
  assumes "steady e s" and "good_library e" and "cur_target s = Some p"
  shows "\<exists>s'. flash_session e junk stale ops s = Ret () s' \<and> calls s' = calls s @ flash_calls p (flash_mode s) ops
    \<and> steady e s' \<and> cur_target s' = Some p"
  using assms
proof (induction ops arbitrary: s)
  case (Cons x xs)
  let ?s = "s\<lparr>pbuf := flash_packet x @ 0 # stale\<rparr>"
  let ?m = "case x of Erase _ _ \<Rightarrow> True | Write _ _ \<Rightarrow> flash_mode s | Commit \<Rightarrow> False"
  have s: "steady e ?s" "cur_target ?s = Some p" using Cons.prems by simp_all
  obtain s1 cs where s1: "handle_v_packet e junk (length (flash_packet x)) ?s = Ret () s1"
    "flash_step e p ?s cs ?m s1" "flash_calls p (flash_mode s) (x # xs) = cs @ flash_calls p ?m xs"
  proof (cases x)
    case (Erase a l)
    obtain s1 where s1: "packet_vFlashErase e a l ?s = Ret () s1" "flash_step e p ?s
        ((if flash_mode s then [] else [Target_reset (Some p), Target_halt_request (Some p)])
          @ [Target_flash_erase (Some p) a l]) True s1"
      using erase_step [OF s(1) Cons.prems(2) s(2), of a l] by auto
    moreover have "pbuf ?s = flash_packet (Erase a l) @ 0 # stale" by (simp add: Erase)
    ultimately show thesis
      using erase_dispatch [of ?s a l stale e junk] Erase by (intro that) simp_all
  next
    case (Write a d)
    let ?h = "str ''vFlashWrite:'' @ fmt_hex (unat a) @ [58]"
    have h: "pbuf ?s = ?h @ d @ 0 # stale" "length ?h = 13 + length (fmt_hex (unat a))"
      "length (?h @ d) = length (flash_packet x)" by (simp_all add: Write)
    obtain s1 where s1: "packet_vFlashWrite e a (13 + length (fmt_hex (unat a))) (length (flash_packet x)) ?s = Ret () s1"
      "flash_step e p ?s [Target_flash_write (Some p) a d] (flash_mode s) s1"
      using write_step [OF s(1) Cons.prems(2) s(2) h] by auto
    moreover have "pbuf ?s = flash_packet (Write a d) @ 0 # stale" by (simp add: Write)
    ultimately show thesis
      using write_dispatch [of ?s a d stale e junk] Write by (intro that) simp_all
  next
    case Commit
    obtain s1 where s1: "packet_vFlashDone e ?s = Ret () s1"
      "flash_step e p ?s [Target_flash_complete (Some p)] False s1"
      using commit_step [OF s(1) Cons.prems(2) s(2)] by auto
    moreover have "pbuf ?s = flash_packet Commit @ 0 # stale" by (simp add: Commit)
    ultimately show thesis
      using commit_dispatch [of ?s stale e junk] Commit by (intro that) simp_all
  qed
  then have s1': "steady e s1" "cur_target s1 = Some p" "calls s1 = calls s @ cs" "flash_mode s1 = ?m"
    by (simp_all add: flash_step_def)
  from Cons.IH [OF s1'(1) Cons.prems(2) s1'(2)] s1 s1' show ?case by auto
qed simp

theorem flash_session_programs_witness:
  "\<exists>s'. flash_session (read_env\<lparr>answer := (\<lambda>c w. (plain_reply, \<lambda>w. w))\<rparr>) [] [7, 7]
       [Erase 0 1024, Write 0 [1, 0], Erase 1024 1024, Commit] (holding []) = Ret () s'
     \<and> calls s' = (if flash_mode (holding []) then [] else [Target_reset (Some 7), Target_halt_request (Some 7)])
       @ [Target_flash_erase (Some 7) 0 1024, Target_flash_write (Some 7) 0 [1, 0],
          Target_flash_erase (Some 7) 1024 1024, Target_flash_complete (Some 7)]"
proof -
  let ?e = "read_env\<lparr>answer := (\<lambda>c w. (plain_reply, \<lambda>w. w))\<rparr>"
  have "steady ?e (holding [])"
    using holding_steady by (simp add: steady_def read_env_def)
  moreover have "good_library ?e" by (simp add: good_library_def plain_def plain_reply_def)
  ultimately show ?thesis
    using flash_session_programs [of ?e "holding []" 7 "[]" "[7, 7]"
        "[Erase 0 1024, Write 0 [1, 0], Erase 1024 1024, Commit]"] by auto
qed

section \<open>The C interface\<close>

text \<open>
  \<open>gdb_putpacket\<close> of the C interface sends a packet unchanged only when it holds neither a
  percent sign nor a NUL: the size is ignored, so that binary data are cut at the first NUL, and a
  conversion in the data, like \<open>%s\<close>, has no defined meaning.
\<close>

theorem shim_putpacket_text:
  assumes "37 \<notin> set p" and "0 \<notin> set p"
  shows "shim_putpacket e (p @ 0 # q) n s = put e p s
    \<and> shim_putpacket e (p @ str ''%s'' @ 0 # q) n s = Stop Undefined s"
proof -
  have "cstr (p @ str ''%s'' @ 0 # q) = p @ str ''%s''"
    using assms(2) cstr_append_nul [of "p @ str ''%s''" q] by simp
  moreover have "vasprintf (p @ str ''%s'') args = None" if "args = [FNum m]" for args m
    using vasprintf_plain_append [OF assms(1), of "str ''%s''" args] that
    by (simp add: parse_conv_def fmt_width_def)
  ultimately show ?thesis
    using assms
    by (simp add: shim_putpacket_def put_def gdb_putpacket_f_def defined_def vasprintf_plain del: str.simps)
qed

theorem shim_putpacket_text_witness:
  "shim_putpacket small_env (str ''OK'' @ 0 # []) 2 (holding []) = put small_env (str ''OK'') (holding [])
    \<and> shim_putpacket small_env (str ''OK'' @ str ''%s'' @ 0 # []) 4 (holding []) = Stop Undefined (holding [])"
  using shim_putpacket_text [of "str ''OK''" small_env "[]"] by simp

end
