(* ===== verification/JsModules.thy ===== *)
theory JsModules
  imports Main
begin

text \<open>
  How the scripts of the web interface find each other: the UMD wrappers and the module runtime of
  \<open>src/html/xterm.js\<close> and \<open>src/html/xterm-addon-fit.js\<close>, and the imports of \<open>src/html/index.js\<close>.
\<close>

section \<open>Values and hosts\<close>

text \<open>What is exported: a class, or an object with named properties (the enumerable ones, in order).\<close>

datatype jsval = JClass string | JObj "(string \<times> jsval) list"

fun get_prop :: "string \<Rightarrow> jsval \<Rightarrow> jsval option" where
  "get_prop k (JObj ps) = map_of ps k"
| "get_prop k (JClass c) = None"

text \<open>
  The free variables a UMD wrapper looks at: whether \<open>exports\<close> and \<open>module\<close> are objects, whether
  \<open>define\<close> is a function with the property \<open>amd\<close>; and what it can change: \<open>module.exports\<close>, the
  properties of \<open>exports\<close>, the factories handed to \<open>define\<close> and the properties of \<open>window\<close>.
\<close>

record host =
  has_exports :: bool
  has_module :: bool
  has_define :: bool
  module_exports :: "jsval option"
  exports_props :: "string \<Rightarrow> jsval option"
  amd_modules :: "jsval list"
  window_props :: "string \<Rightarrow> jsval option"

section \<open>The module runtime\<close>

text \<open>
  Inside the wrapper the modules of a bundle are numbered functions. Running one is a sequence of
  requires of other modules and of assignments to its exports. The runtime keeps a table of the
  modules it has started, each with its flag \<open>l\<close> and its exports, so a module that is required again
  (also while it is still running, in a cycle) is not run a second time. \<open>ran\<close> records the modules
  in the order they were started.
\<close>

datatype module_step = Require nat | Export string jsval

type_synonym modules = "module_step list list"

record runtime =
  installed :: "nat \<Rightarrow> (bool \<times> (string \<times> jsval) list) option"
  ran :: "nat list"

definition export_to :: "nat \<Rightarrow> string \<Rightarrow> jsval \<Rightarrow> runtime \<Rightarrow> runtime" where
  "export_to n k v rt =
     (case installed rt n of None \<Rightarrow> rt
      | Some (l, ps) \<Rightarrow> rt\<lparr>installed := (installed rt)(n \<mapsto> (l, ps @ [(k, v)]))\<rparr>)"

definition install :: "nat \<Rightarrow> runtime \<Rightarrow> runtime" where
  "install n rt = rt\<lparr>installed := (installed rt)(n \<mapsto> (False, [])), ran := ran rt @ [n]\<rparr>"

definition set_loaded :: "nat \<Rightarrow> runtime \<Rightarrow> runtime" where
  "set_loaded n rt =
     (case installed rt n of None \<Rightarrow> rt
      | Some (l, ps) \<Rightarrow> rt\<lparr>installed := (installed rt)(n \<mapsto> (True, ps))\<rparr>)"

text \<open>
  The function \<open>r\<close> of the runtime and the execution of a module body. \<open>None\<close>: a module that the
  bundle does not have is required, a \<open>TypeError\<close>; or the fuel has run out. A require inside a body
  runs with less fuel; a fuel above the number of modules not yet started is enough.
\<close>

fun run_body :: "(nat \<Rightarrow> runtime \<Rightarrow> runtime option) \<Rightarrow> nat \<Rightarrow> module_step list \<Rightarrow> runtime \<Rightarrow> runtime option" where
  "run_body req n [] rt = Some rt"
| "run_body req n (Export k v # b) rt = run_body req n b (export_to n k v rt)"
| "run_body req n (Require m # b) rt =
     (case req m rt of None \<Rightarrow> None | Some rt \<Rightarrow> run_body req n b rt)"

fun require_module :: "modules \<Rightarrow> nat \<Rightarrow> nat \<Rightarrow> runtime \<Rightarrow> runtime option" where
  "require_module ms fuel n rt =
     (if installed rt n \<noteq> None then Some rt
      else if length ms \<le> n then None
      else (case fuel of 0 \<Rightarrow> None
            | Suc k \<Rightarrow> map_option (set_loaded n) (run_body (require_module ms k) n (ms ! n) (install n rt))))"

declare require_module.simps [simp del]

text \<open>The factory of a bundle: require the entry module and return its exports.\<close>

definition empty_runtime :: runtime where
  "empty_runtime = \<lparr>installed = (\<lambda>_. None), ran = []\<rparr>"

definition factory :: "modules \<Rightarrow> nat \<Rightarrow> jsval option" where
  "factory ms entry =
     (case require_module ms (length ms) entry empty_runtime of
        None \<Rightarrow> None
      | Some rt \<Rightarrow> map_option (\<lambda>(l, ps). JObj ps) (installed rt entry))"

section \<open>The wrappers\<close>

text \<open>
  The wrapper of \<open>xterm-addon-fit.js\<close>: the exports of the bundle become \<open>module.exports\<close>, or the
  value of an AMD module, or the property \<open>FitAddon\<close> of \<open>exports\<close> or of \<open>window\<close>.
\<close>

definition umd_fit :: "jsval \<Rightarrow> host \<Rightarrow> host" where
  "umd_fit t h =
     (if has_exports h \<and> has_module h then h\<lparr>module_exports := Some t\<rparr>
      else if has_define h then h\<lparr>amd_modules := amd_modules h @ [t]\<rparr>
      else if has_exports h then h\<lparr>exports_props := (exports_props h)(''FitAddon'' \<mapsto> t)\<rparr>
      else h\<lparr>window_props := (window_props h)(''FitAddon'' \<mapsto> t)\<rparr>)"

text \<open>
  The wrapper of \<open>xterm.js\<close>: in the last two cases every property of the exports is copied to
  \<open>exports\<close> or to \<open>window\<close>.
\<close>

fun props_of :: "jsval \<Rightarrow> (string \<times> jsval) list" where
  "props_of (JObj ps) = ps"
| "props_of (JClass c) = []"

definition copy_props :: "(string \<times> jsval) list \<Rightarrow> (string \<Rightarrow> jsval option) \<Rightarrow> string \<Rightarrow> jsval option" where
  "copy_props ps m = fold (\<lambda>(k, v) m. m(k \<mapsto> v)) ps m"

definition umd_xterm :: "jsval \<Rightarrow> host \<Rightarrow> host" where
  "umd_xterm t h =
     (if has_exports h \<and> has_module h then h\<lparr>module_exports := Some t\<rparr>
      else if has_define h then h\<lparr>amd_modules := amd_modules h @ [t]\<rparr>
      else if has_exports h then h\<lparr>exports_props := copy_props (props_of t) (exports_props h)\<rparr>
      else h\<lparr>window_props := copy_props (props_of t) (window_props h)\<rparr>)"

text \<open>The bundle of \<open>xterm-addon-fit.js\<close>: one module, which exports the class.\<close>

definition fit_bundle :: modules where
  "fit_bundle = [[Export ''FitAddon'' (JClass ''FitAddon'')]]"

section \<open>The module index.js\<close>

text \<open>Its two import declarations: the name and the file.\<close>

definition index_js :: "(string \<times> string) list" where
  "index_js = [(''Terminal'', ''./xterm.js''), (''FitAddon'', ''./xterm-addon-fit.js'')]"

text \<open>
  Linking the imports of a module against what the files export by name: the bindings, or the first
  name that is not there (a \<open>SyntaxError\<close> before any code runs).
\<close>

fun link_imports ::
  "(string \<Rightarrow> string \<Rightarrow> jsval option) \<Rightarrow> (string \<times> string) list \<Rightarrow> (string \<times> string) + (string \<times> jsval) list" where
  "link_imports exported [] = Inr []"
| "link_imports exported ((k, file) # imps) =
     (case exported file k of
        None \<Rightarrow> Inl (k, file)
      | Some v \<Rightarrow> map_sum id (\<lambda>bs. (k, v) # bs) (link_imports exported imps))"

text \<open>
  The named exports of the two files. To an ES module loader neither has an \<open>export\<close> declaration;
  to a bundler that gives each file its own \<open>module\<close> and \<open>exports\<close>, the named exports are the
  properties of \<open>module.exports\<close> after the wrapper has run.
\<close>

definition es_exports :: "string \<Rightarrow> string \<Rightarrow> jsval option" where
  "es_exports file k = None"

definition commonjs_host :: host where
  "commonjs_host = \<lparr>has_exports = True, has_module = True, has_define = False, module_exports = None,
     exports_props = (\<lambda>_. None), amd_modules = [], window_props = (\<lambda>_. None)\<rparr>"

definition browser_host :: host where
  "browser_host = \<lparr>has_exports = False, has_module = False, has_define = False, module_exports = None,
     exports_props = (\<lambda>_. None), amd_modules = [], window_props = (\<lambda>_. None)\<rparr>"

definition bundler_exports :: "jsval \<Rightarrow> jsval \<Rightarrow> string \<Rightarrow> string \<Rightarrow> jsval option" where
  "bundler_exports xterm fit file k =
     (if file = ''./xterm.js'' then Option.bind (module_exports (umd_xterm xterm commonjs_host)) (get_prop k)
      else if file = ''./xterm-addon-fit.js'' then Option.bind (module_exports (umd_fit fit commonjs_host)) (get_prop k)
      else None)"

text \<open>What the entry module of \<open>xterm.js\<close> exports.\<close>

definition xterm_exports :: jsval where
  "xterm_exports = JObj [(''Terminal'', JClass ''Terminal'')]"

section \<open>Running modules\<close>

definition wf_bundle :: "modules \<Rightarrow> bool" where
  "wf_bundle ms \<longleftrightarrow> (\<forall>b \<in> set ms. \<forall>m. Require m \<in> set b \<longrightarrow> m < length ms)"

definition waiting :: "modules \<Rightarrow> runtime \<Rightarrow> nat set" where
  "waiting ms rt = {i. i < length ms \<and> installed rt i = None}"

definition runtime_ok :: "modules \<Rightarrow> runtime \<Rightarrow> bool" where
  "runtime_ok ms rt \<longleftrightarrow> distinct (ran rt) \<and> set (ran rt) = dom (installed rt)
     \<and> dom (installed rt) \<subseteq> {..<length ms}"

definition grows :: "runtime \<Rightarrow> runtime \<Rightarrow> bool" where
  "grows rt rt' \<longleftrightarrow> dom (installed rt) \<subseteq> dom (installed rt') \<and> (\<exists>r. ran rt' = ran rt @ r)"

lemma grows_refl [simp]: "grows rt rt"
  by (simp add: grows_def)

lemma grows_trans: "grows a b \<Longrightarrow> grows b c \<Longrightarrow> grows a c"
  by (auto simp: grows_def)

lemma finite_waiting [simp]: "finite (waiting ms rt)"
  by (rule finite_subset [of _ "{..<length ms}"]) (auto simp: waiting_def)

lemma grows_waiting: "grows rt rt' \<Longrightarrow> card (waiting ms rt') \<le> card (waiting ms rt)"
  by (rule card_mono) (auto simp: grows_def waiting_def)

lemma export_to_ok:
  "runtime_ok ms rt \<Longrightarrow> runtime_ok ms (export_to n k v rt)" "grows rt (export_to n k v rt)"
  by (auto simp: export_to_def runtime_ok_def grows_def split: option.split)

lemma set_loaded_ok:
  "runtime_ok ms rt \<Longrightarrow> runtime_ok ms (set_loaded n rt)" "grows rt (set_loaded n rt)"
  by (auto simp: set_loaded_def runtime_ok_def grows_def split: option.split)

lemma install_ok:
  assumes "runtime_ok ms rt" "installed rt n = None" "n < length ms"
  shows "runtime_ok ms (install n rt)" "grows rt (install n rt)"
    "Suc (card (waiting ms (install n rt))) = card (waiting ms rt)"
proof -
  show "runtime_ok ms (install n rt)" "grows rt (install n rt)"
    using assms by (auto simp: install_def runtime_ok_def grows_def)
  have "n \<in> waiting ms rt" "waiting ms (install n rt) = waiting ms rt - {n}"
    using assms by (auto simp: waiting_def install_def)
  then show "Suc (card (waiting ms (install n rt))) = card (waiting ms rt)"
    by (metis card.remove finite_waiting)
qed

lemma run_body_ok:
  assumes req: "\<And>m rt. m < length ms \<Longrightarrow> runtime_ok ms rt \<Longrightarrow> card (waiting ms rt) \<le> k \<Longrightarrow>
      \<exists>rt'. req m rt = Some rt' \<and> runtime_ok ms rt' \<and> grows rt rt'"
  shows "\<forall>m. Require m \<in> set b \<longrightarrow> m < length ms \<Longrightarrow> runtime_ok ms rt \<Longrightarrow> card (waiting ms rt) \<le> k \<Longrightarrow>
      \<exists>rt'. run_body req n b rt = Some rt' \<and> runtime_ok ms rt' \<and> grows rt rt'"
proof (induction b arbitrary: rt)
  case (Cons c b)
  show ?case
  proof (cases c)
    case (Require m)
    with req [of m rt] Cons.prems obtain rt1 where
      rt1: "req m rt = Some rt1" "runtime_ok ms rt1" "grows rt rt1" by auto
    with Cons.IH [of rt1] Cons.prems grows_waiting [of rt rt1 ms] Require show ?thesis
      by (auto intro: grows_trans)
  next
    case (Export x v)
    note e = export_to_ok(1) [of ms rt n x v] export_to_ok(2) [of rt n x v]
    then show ?thesis using e Export Cons.IH [of "export_to n x v rt"] Cons.prems grows_waiting [of rt "export_to n x v rt" ms]
      by (auto intro: grows_trans)
  qed
qed auto

lemma require_ok:
  "wf_bundle ms \<Longrightarrow> n < length ms \<Longrightarrow> runtime_ok ms rt \<Longrightarrow> card (waiting ms rt) \<le> fuel \<Longrightarrow>
     \<exists>rt'. require_module ms fuel n rt = Some rt' \<and> runtime_ok ms rt' \<and> grows rt rt' \<and> n \<in> dom (installed rt')"
proof (induction fuel arbitrary: n rt)
  case 0
  then have "installed rt n \<noteq> None" by (auto simp: waiting_def)
  with 0 show ?case by (auto simp: require_module.simps)
next
  case (Suc k)
  show ?case
  proof (cases "installed rt n = None")
    case False
    with Suc.prems show ?thesis by (auto simp: require_module.simps)
  next
    case True
    note i = install_ok [OF Suc.prems(3) True Suc.prems(2)]
    have body: "\<forall>m. Require m \<in> set (ms ! n) \<longrightarrow> m < length ms"
      using Suc.prems(1,2) by (auto simp: wf_bundle_def)
    have "card (waiting ms (install n rt)) \<le> k" using i(3) Suc.prems(4) by simp
    then obtain rt1 where rt1: "run_body (require_module ms k) n (ms ! n) (install n rt) = Some rt1"
      "runtime_ok ms rt1" "grows (install n rt) rt1"
      using run_body_ok [of ms k "require_module ms k" "ms ! n" "install n rt" n] Suc.IH [OF Suc.prems(1)]
        body i(1) by blast
    have "n \<in> dom (installed rt1)" using rt1(3) by (auto simp: grows_def install_def)
    then have "n \<in> dom (installed (set_loaded n rt1))" using set_loaded_ok(2) [of rt1 n] by (auto simp: grows_def)
    moreover have "require_module ms (Suc k) n rt = Some (set_loaded n rt1)"
      using True Suc.prems(2) rt1(1) by (simp add: require_module.simps [of _ "Suc k"])
    ultimately show ?thesis
      using set_loaded_ok(1) [OF rt1(2), of n] set_loaded_ok(2) [of rt1 n] i(2) rt1(3)
      by (auto intro: grows_trans)
  qed
qed

lemma empty_runtime_ok: "runtime_ok ms empty_runtime" "card (waiting ms empty_runtime) = length ms"
  by (simp_all add: runtime_ok_def empty_runtime_def waiting_def)

section \<open>Properties\<close>

text \<open>
  C1. The module runtime terminates and runs every module at most once, whatever the requires of a
  bundle are, cycles included; the exports of the entry module exist afterwards.
\<close>

theorem modules_run_once:
  assumes "wf_bundle ms" and "entry < length ms"
  shows "\<exists>rt. require_module ms (length ms) entry empty_runtime = Some rt
     \<and> distinct (ran rt) \<and> set (ran rt) = dom (installed rt) \<and> factory ms entry \<noteq> None"
proof -
  obtain rt where rt: "require_module ms (length ms) entry empty_runtime = Some rt" "runtime_ok ms rt"
    "entry \<in> dom (installed rt)"
    using require_ok [OF assms empty_runtime_ok(1) [of ms], where fuel = "length ms"] empty_runtime_ok(2) [of ms]
    by auto
  then show ?thesis by (auto simp: runtime_ok_def factory_def)
qed

definition page_ready :: "host \<Rightarrow> bool" where
  "page_ready h \<longleftrightarrow> window_props h ''Terminal'' = Some (JClass ''Terminal'')
     \<and> Option.bind (window_props h ''FitAddon'') (get_prop ''FitAddon'') = Some (JClass ''FitAddon'')
     \<and> window_props h ''FitAddon'' \<noteq> Some (JClass ''FitAddon'')"

text \<open>
  On a page that loads both files with \<open>script\<close> elements, \<open>Terminal\<close> is the terminal class, but
  \<open>FitAddon\<close> is an object whose property of the same name is the class of the addon, as the pages
  expect it (\<open>new Terminal\<close>, \<open>new FitAddon.FitAddon\<close>); the second file leaves what the first has
  defined, and in either order.
\<close>

theorem page_globals:
  "\<exists>fit. factory fit_bundle 0 = Some fit
     \<and> page_ready (umd_fit fit (umd_xterm xterm_exports browser_host))
     \<and> page_ready (umd_xterm xterm_exports (umd_fit fit browser_host))"
  by (simp add: factory_def fit_bundle_def require_module.simps empty_runtime_def install_def export_to_def
      set_loaded_def umd_fit_def umd_xterm_def browser_host_def copy_props_def xterm_exports_def
      page_ready_def)

text \<open>
  \<open>index.js\<close> links only through a bundler: given the exports of the CommonJS branch of the two
  wrappers its imports are the two classes, but loaded as an ES module it fails, because neither
  file exports a name to it.
\<close>

theorem index_js_links:
  assumes "factory fit_bundle 0 = Some fit"
  shows "link_imports (bundler_exports xterm_exports fit) index_js
      = Inr [(''Terminal'', JClass ''Terminal''), (''FitAddon'', JClass ''FitAddon'')]
    \<and> link_imports es_exports index_js = Inl (''Terminal'', ''./xterm.js'')"
proof -
  have "fit = JObj [(''FitAddon'', JClass ''FitAddon'')]"
    using assms by (simp add: factory_def fit_bundle_def require_module.simps empty_runtime_def install_def
        export_to_def set_loaded_def)
  then show ?thesis
    by (simp add: index_js_def bundler_exports_def es_exports_def umd_fit_def umd_xterm_def
        commonjs_host_def xterm_exports_def)
qed

text \<open>Two modules that require each other.\<close>

definition cyclic_bundle :: modules where
  "cyclic_bundle = [[Require 1, Export ''a'' (JClass ''A'')], [Require 0, Export ''b'' (JClass ''B'')]]"

theorem modules_run_once_witness:
  "\<exists>rt. require_module cyclic_bundle 2 0 empty_runtime = Some rt \<and> distinct (ran rt)
     \<and> factory cyclic_bundle 0 \<noteq> None"
proof -
  have "wf_bundle cyclic_bundle" "0 < length cyclic_bundle" by (auto simp: wf_bundle_def cyclic_bundle_def)
  moreover have "length cyclic_bundle = 2" by (simp add: cyclic_bundle_def)
  ultimately show ?thesis using modules_run_once [of cyclic_bundle 0] by auto
qed

theorem index_js_links_witness:
  "link_imports (bundler_exports xterm_exports (JObj [(''FitAddon'', JClass ''FitAddon'')])) index_js
     = Inr [(''Terminal'', JClass ''Terminal''), (''FitAddon'', JClass ''FitAddon'')]"
proof -
  have "factory fit_bundle 0 = Some (JObj [(''FitAddon'', JClass ''FitAddon'')])"
    by (simp add: factory_def fit_bundle_def require_module.simps empty_runtime_def install_def
        export_to_def set_loaded_def)
  from index_js_links [OF this] show ?thesis by simp
qed

end
