(* ===== verification/JsDoubles.thy ===== *)
theory JsDoubles
  imports Complex_Main "HOL-Library.Log_Nat"
begin

text \<open>
  The arithmetic of JavaScript, as the scripts of the web interface use it: a number is a double, and the result of an
  operation is the exact result rounded to the nearest double, of two equally near ones to the even one. Here a double is the
  rational number it stands for; the two zeros are one.
\<close>

section \<open>Rounding to whole numbers\<close>

definition round_even :: "rat \<Rightarrow> int" where
  "round_even x =
     (let n = \<lfloor>x\<rfloor>; d = x - of_int n
      in if d < 1 / 2 \<or> d = 1 / 2 \<and> even n then n else n + 1)"

lemma round_even_near: "\<lfloor>x\<rfloor> \<le> round_even x" "round_even x \<le> \<lfloor>x\<rfloor> + 1"
  by (simp_all add: round_even_def Let_def)

lemma round_even_error: "\<bar>of_int (round_even x) - x\<bar> \<le> 1 / 2"
  using floor_correct [of x] by (auto simp: round_even_def Let_def)

lemma round_even_int [simp]: "round_even (of_int n) = n"
  by (simp add: round_even_def)

lemma round_even_mono:
  assumes "x \<le> y"
  shows "round_even x \<le> round_even y"
proof (cases "\<lfloor>x\<rfloor> = \<lfloor>y\<rfloor>")
  case True
  then show ?thesis using assms by (auto simp: round_even_def Let_def)
next
  case False
  then have "\<lfloor>x\<rfloor> + 1 \<le> \<lfloor>y\<rfloor>" using floor_mono [OF assms] by simp
  then show ?thesis using round_even_near(2) [of x] round_even_near(1) [of y] by linarith
qed

section \<open>Doubles\<close>

text \<open>\<open>binade a\<close>: the power of two of the first binary digit of a positive number, from the lengths of its parts.\<close>

definition binade :: "rat \<Rightarrow> int" where
  "binade a =
     (let (p, q) = quotient_of a; k = int (floorlog 2 (nat p)) - int (floorlog 2 (nat q))
      in if 2 powi k \<le> a then k else k - 1)"

text \<open>The power of two of the last of the 53 digits of a double; the smallest doubles have fewer digits.\<close>

definition last_place :: "rat \<Rightarrow> int" where
  "last_place a = max (binade a - 52) (- 1074)"

definition rnd_pos :: "rat \<Rightarrow> rat" where
  "rnd_pos a = of_int (round_even (a / 2 powi last_place a)) * 2 powi last_place a"

definition rnd :: "rat \<Rightarrow> rat" where
  "rnd a = (if a = 0 then 0 else if 0 < a then rnd_pos a else - rnd_pos (- a))"

lemma powi_pos [simp]: "(0 :: rat) < 2 powi k"
  by (simp add: zero_less_power_int)

lemma powi_le: "(2 :: rat) powi j \<le> 2 powi k \<longleftrightarrow> j \<le> k"
  by (metis (no_types) linorder_not_le one_less_numeral_iff power_int_increasing power_int_strict_increasing
      semiring_norm(76) order.strict_implies_order)

lemma powi_less: "(2 :: rat) powi j < 2 powi k \<longleftrightarrow> j < k"
  using powi_le [of k j] by (simp only: not_le [symmetric])

lemma floorlog_powi:
  assumes "0 < p"
  shows "(2 :: rat) powi (int (floorlog 2 (nat p)) - 1) \<le> of_int p \<and> of_int p < (2 :: rat) powi int (floorlog 2 (nat p))"
proof -
  let ?l = "floorlog 2 (nat p)"
  have l: "2 ^ (?l - 1) \<le> nat p" "nat p < 2 ^ ?l" "0 < ?l"
    using floorlog_bounds [of "nat p" 2] assms by (simp_all add: floorlog_eq_zero_iff zero_less_iff_neq_zero)
  have p: "of_int p = (of_nat (nat p) :: rat)" using assms by simp
  have "of_nat (2 ^ (?l - 1)) \<le> (of_nat (nat p) :: rat)" using l(1) by (rule of_nat_mono)
  moreover have "(of_nat (nat p) :: rat) < of_nat (2 ^ ?l)" using l(2) by (simp only: of_nat_less_iff)
  moreover have "int ?l - 1 = int (?l - 1)" using l(3) by simp
  ultimately show ?thesis unfolding p by (simp only: power_int_of_nat of_nat_power of_nat_numeral)
qed

lemma binade_bounds:
  assumes "0 < a"
  shows "2 powi binade a \<le> a \<and> a < 2 powi (binade a + 1)"
proof -
  obtain p q where pq: "quotient_of a = (p, q)" by fastforce
  then have a: "a = of_int p / of_int q" and q: "0 < q" by (simp_all add: quotient_of_div quotient_of_denom_pos)
  then have p: "0 < p" using assms by (simp add: zero_less_divide_iff)
  let ?i = "int (floorlog 2 (nat p))" and ?j = "int (floorlog 2 (nat q))"
  have b: "(2 :: rat) powi (?i - 1) \<le> of_int p" "of_int p < (2 :: rat) powi ?i"
    "(2 :: rat) powi (?j - 1) \<le> of_int q" "of_int q < (2 :: rat) powi ?j"
    using floorlog_powi [OF p] floorlog_powi [OF q] by simp_all
  have "2 powi (?i - 1) / 2 powi ?j \<le> a" unfolding a using b q p by (intro frac_le) auto
  then have lo: "2 powi (?i - ?j - 1) \<le> a" using power_int_diff [of "2 :: rat" "?i - 1" ?j] by (simp add: algebra_simps)
  have "a < 2 powi ?i / 2 powi (?j - 1)" unfolding a using b p by (intro frac_less) auto
  then have hi: "a < 2 powi (?i - ?j + 1)" using power_int_diff [of "2 :: rat" ?i "?j - 1"] by (simp add: algebra_simps)
  show ?thesis using lo hi by (simp add: binade_def pq Let_def)
qed

lemma binade_eqI: "2 powi k \<le> a \<Longrightarrow> a < 2 powi (k + 1) \<Longrightarrow> binade a = k"
proof -
  assume k: "2 powi k \<le> a" "a < 2 powi (k + 1)"
  then have a: "0 < a" using powi_pos less_le_trans by blast
  have "2 powi k < (2 :: rat) powi (binade a + 1)" "(2 :: rat) powi binade a < 2 powi (k + 1)"
    using k binade_bounds [OF a] by linarith+
  then have "k < binade a + 1" "binade a < k + 1" by (simp_all only: powi_less)
  then show ?thesis by simp
qed

lemma rnd_pos_whole: "a = of_int n * 2 powi last_place a \<Longrightarrow> rnd_pos a = a"
proof -
  assume "a = of_int n * 2 powi last_place a"
  then have "a / 2 powi last_place a = of_int n" by (metis less_irrefl nonzero_mult_div_cancel_right powi_pos)
  then show ?thesis using \<open>a = _\<close> by (simp add: rnd_pos_def)
qed

lemma rnd_pos_le: "a \<le> of_int n * 2 powi last_place a \<Longrightarrow> rnd_pos a \<le> of_int n * 2 powi last_place a"
proof -
  assume "a \<le> of_int n * 2 powi last_place a"
  then have "a / 2 powi last_place a \<le> of_int n" by (simp add: pos_divide_le_eq)
  then have "round_even (a / 2 powi last_place a) \<le> n" using round_even_mono [of _ "of_int n"] by fastforce
  then show ?thesis by (simp add: rnd_pos_def)
qed

lemma rnd_pos_ge: "of_int n * 2 powi last_place a \<le> a \<Longrightarrow> of_int n * 2 powi last_place a \<le> rnd_pos a"
proof -
  assume "of_int n * 2 powi last_place a \<le> a"
  then have "of_int n \<le> a / 2 powi last_place a" by (simp add: pos_le_divide_eq)
  then have "n \<le> round_even (a / 2 powi last_place a)" using round_even_mono [of "of_int n"] by fastforce
  then show ?thesis by (simp add: rnd_pos_def)
qed

lemma powi_multiple: "e \<le> k \<Longrightarrow> (2 :: rat) powi k = of_int (2 ^ nat (k - e)) * 2 powi e"
proof -
  assume "e \<le> k"
  then have "(2 :: rat) powi k = 2 powi (int (nat (k - e)) + e)" by simp
  also have "\<dots> = 2 powi int (nat (k - e)) * 2 powi e" by (rule power_int_add) simp
  also have "\<dots> = of_int (2 ^ nat (k - e)) * 2 powi e" by (simp only: power_int_of_nat) simp
  finally show ?thesis .
qed

lemma rnd_pos_mono:
  assumes "0 < a" and "a \<le> b"
  shows "rnd_pos a \<le> rnd_pos b"
proof -
  have a: "2 powi binade a \<le> a" "a < 2 powi (binade a + 1)" and b: "2 powi binade b \<le> b" "b < 2 powi (binade b + 1)"
    using binade_bounds assms by fastforce+
  have "(2 :: rat) powi binade a < 2 powi (binade b + 1)" using a b assms(2) by linarith
  then have k: "binade a \<le> binade b" by (simp only: powi_less)
  show ?thesis
  proof (cases "last_place a = last_place b")
    case True
    have "a / 2 powi last_place a \<le> b / 2 powi last_place a" by (rule divide_right_mono [OF assms(2)]) (rule less_imp_le [OF powi_pos])
    then show ?thesis using round_even_mono by (simp add: rnd_pos_def True [symmetric])
  next
    case False
    then have l: "last_place a < last_place b" "binade a < binade b" "last_place b = binade b - 52"
      using k by (auto simp: last_place_def max_def split: if_splits)
    have "(2 :: rat) powi (binade a + 1) \<le> 2 powi binade b" using l(2) by (simp add: powi_le)
    then have "a \<le> 2 powi binade b" using a(2) by linarith
    then have "rnd_pos a \<le> 2 powi binade b"
      using rnd_pos_le [of a "2 ^ nat (binade b - last_place a)"] powi_multiple [of "last_place a" "binade b"] l by simp
    moreover have "2 powi binade b \<le> rnd_pos b"
      using rnd_pos_ge [of "2 ^ nat (binade b - last_place b)" b] powi_multiple [of "last_place b" "binade b"] l(3) b(1) by simp
    ultimately show ?thesis by linarith
  qed
qed

lemma rnd_pos_nonneg: "0 < a \<Longrightarrow> 0 \<le> rnd_pos a"
  using rnd_pos_ge [of 0 a] by simp

text \<open>Rounding keeps the order.\<close>

lemma rnd_mono: "a \<le> b \<Longrightarrow> rnd a \<le> rnd b"
  using rnd_pos_nonneg [of b] rnd_pos_nonneg [of "- a"] rnd_pos_mono [of a b] rnd_pos_mono [of "- b" "- a"]
  by (auto simp: rnd_def)

text \<open>Whole numbers below \<open>2 ^ 53\<close> are doubles.\<close>

lemma rnd_pos_int:
  assumes "0 < n" and "n < 2 ^ 53"
  shows "rnd_pos (of_int n) = of_int n"
proof -
  have "(of_int n :: rat) < of_int (2 ^ 53)" using assms(2) by (simp only: of_int_less_iff)
  then have "(of_int n :: rat) < 2 powi 53" by simp
  moreover have "2 powi binade (of_int n) \<le> (of_int n :: rat)" using binade_bounds assms(1) by simp
  ultimately have "(2 :: rat) powi binade (of_int n) < 2 powi 53" by linarith
  then have "binade (of_int n) < 53" by (simp only: powi_less)
  then have l: "last_place (of_int n) \<le> 0" by (simp add: last_place_def)
  then have "of_int n = of_int (n * 2 ^ nat (- last_place (of_int n))) * (2 :: rat) powi last_place (of_int n)"
    using powi_multiple [OF l] by (simp add: mult.assoc)
  then show ?thesis by (rule rnd_pos_whole)
qed

lemma rnd_int: "\<bar>n\<bar> < 2 ^ 53 \<Longrightarrow> rnd (of_int n) = of_int n"
  using rnd_pos_int [of n] rnd_pos_int [of "- n"] by (auto simp: rnd_def)

lemma rnd_of_nat: "n < 2 ^ 53 \<Longrightarrow> rnd (of_nat n) = of_nat n"
  using rnd_int [of "int n"] by simp

lemma rnd_numeral [simp]: "numeral k < (2 ^ 53 :: int) \<Longrightarrow> rnd (numeral k) = numeral k"
  using rnd_int [of "numeral k"] by simp

lemma rnd_0 [simp]: "rnd 0 = 0"
  by (simp add: rnd_def)

text \<open>The error is at most half of the last of 53 digits.\<close>

lemma rnd_error:
  assumes "1 \<le> a"
  shows "\<bar>rnd a - a\<bar> \<le> a / 2 ^ 53"
proof -
  have a: "0 < a" "2 powi binade a \<le> a" "a < 2 powi (binade a + 1)" using assms binade_bounds [of a] by auto
  have "(2 :: rat) powi 0 < 2 powi (binade a + 1)" using a(3) assms by simp
  then have "0 < binade a + 1" by (simp only: powi_less)
  then have l: "last_place a = binade a - 52" by (simp add: last_place_def)
  have "rnd a - a = (of_int (round_even (a / 2 powi last_place a)) - a / 2 powi last_place a) * 2 powi last_place a"
    using a(1) by (simp add: rnd_def rnd_pos_def left_diff_distrib)
  then have "\<bar>rnd a - a\<bar> \<le> 1 / 2 * 2 powi last_place a"
    using round_even_error [of "a / 2 powi last_place a"] by (simp add: abs_mult)
  also have "\<dots> = 2 powi binade a / 2 ^ 53" by (simp add: l power_int_diff)
  also have "\<dots> \<le> a / 2 ^ 53" using a(2) by (simp add: divide_right_mono)
  finally show ?thesis .
qed

text \<open>Between whole numbers: the floor after rounding is the floor, or the next whole number when that is so near.\<close>

lemma floor_rnd:
  assumes "\<bar>n\<bar> < 2 ^ 53"
  shows "of_int n \<le> a \<Longrightarrow> n \<le> \<lfloor>rnd a\<rfloor>" "a \<le> of_int n \<Longrightarrow> \<lfloor>rnd a\<rfloor> \<le> n"
  using rnd_mono [of "of_int n" a] rnd_mono [of a "of_int n"] rnd_int [OF assms] by (simp_all add: le_floor_iff floor_le_iff)

end
