(* ===== verification/JsNumbers.thy ===== *)
theory JsNumbers
  imports Clib JsDoubles
begin

text \<open>
  Numbers and numerals of JavaScript, as the scripts of the web interface use them: arithmetic,
  \<open>parseInt\<close> and printing. A number is a double, by the rational number it stands for, one of the two infinities, or NaN.
\<close>

section \<open>Numbers\<close>

datatype num = NaN | Inf bool | Fin rat

text \<open>
  \<open>Inf True\<close> is the positive infinity. The exact result of an operation is rounded, to an infinity when it is too large.
  Addition, subtraction, multiplication, division, \<open>Math.floor\<close>, \<open>Math.ceil\<close>, \<open>Math.round\<close>, \<open>Math.max\<close>, \<open>===\<close>.
\<close>

definition to_num :: "rat \<Rightarrow> num" where
  "to_num a = (let r = rnd a in if 2 ^ 1024 \<le> \<bar>r\<bar> then Inf (0 < a) else Fin r)"

fun jadd :: "num \<Rightarrow> num \<Rightarrow> num" where
  "jadd (Fin a) (Fin b) = to_num (a + b)"
| "jadd (Inf s) (Fin b) = Inf s"
| "jadd (Fin a) (Inf s) = Inf s"
| "jadd (Inf s) (Inf t) = (if s = t then Inf s else NaN)"
| "jadd NaN y = NaN"
| "jadd x NaN = NaN"

fun jneg :: "num \<Rightarrow> num" where
  "jneg NaN = NaN"
| "jneg (Inf s) = Inf (\<not> s)"
| "jneg (Fin a) = Fin (- a)"

definition jsub :: "num \<Rightarrow> num \<Rightarrow> num" where
  "jsub x y = jadd x (jneg y)"

fun jmul :: "num \<Rightarrow> num \<Rightarrow> num" where
  "jmul (Fin a) (Fin b) = to_num (a * b)"
| "jmul (Inf s) (Fin b) = (if b = 0 then NaN else Inf (s = (0 < b)))"
| "jmul (Fin a) (Inf t) = (if a = 0 then NaN else Inf (t = (0 < a)))"
| "jmul (Inf s) (Inf t) = Inf (s = t)"
| "jmul NaN y = NaN"
| "jmul x NaN = NaN"

fun jdiv :: "num \<Rightarrow> num \<Rightarrow> num" where
  "jdiv (Fin a) (Fin b) =
     (if b = 0 then (if a = 0 then NaN else Inf (0 < a)) else to_num (a / b))"
| "jdiv (Fin a) (Inf t) = Fin 0"
| "jdiv (Inf s) (Fin b) = Inf (s = (0 \<le> b))"
| "jdiv x y = NaN"

fun jfloor :: "num \<Rightarrow> num" where
  "jfloor (Fin a) = Fin (of_int \<lfloor>a\<rfloor>)"
| "jfloor x = x"

fun jceil :: "num \<Rightarrow> num" where
  "jceil (Fin a) = Fin (of_int \<lceil>a\<rceil>)"
| "jceil x = x"

fun jround :: "num \<Rightarrow> num" where
  "jround (Fin a) = Fin (of_int \<lfloor>a + 1 / 2\<rfloor>)"
| "jround x = x"

fun jmax :: "num \<Rightarrow> num \<Rightarrow> num" where
  "jmax (Fin a) (Fin b) = Fin (max a b)"
| "jmax (Fin a) (Inf s) = (if s then Inf True else Fin a)"
| "jmax (Inf s) (Fin b) = (if s then Inf True else Fin b)"
| "jmax (Inf s) (Inf t) = Inf (s \<or> t)"
| "jmax NaN y = NaN"
| "jmax x NaN = NaN"

fun strict_eq :: "num \<Rightarrow> num \<Rightarrow> bool" where
  "strict_eq NaN y = False"
| "strict_eq x y = (x = y)"

text \<open>\<open>parseInt(s)\<close>: white space, a sign, \<open>0x\<close> for base 16, and the digits that follow; else NaN.\<close>

definition digit_value :: "char \<Rightarrow> nat option" where
  "digit_value c =
     (let n = of_char c :: nat
      in if 48 \<le> n \<and> n \<le> 57 then Some (n - 48)
         else if 65 \<le> n \<and> n \<le> 90 then Some (n - 55)
         else if 97 \<le> n \<and> n \<le> 122 then Some (n - 87)
         else None)"

fun digits_value :: "nat \<Rightarrow> nat \<Rightarrow> string \<Rightarrow> nat option \<Rightarrow> nat option" where
  "digits_value base acc [] r = r"
| "digits_value base acc (c # cs) r =
     (case digit_value c of
        Some d \<Rightarrow> if d < base then digits_value base (base * acc + d) cs (Some (base * acc + d)) else r
      | None \<Rightarrow> r)"

definition js_space :: "char \<Rightarrow> bool" where
  "js_space c \<longleftrightarrow> of_char c \<in> ({9, 10, 11, 12, 13, 32, 160} :: nat set)"

definition hex_prefix :: "string \<Rightarrow> bool" where
  "hex_prefix t \<longleftrightarrow> take 2 t = ''0x'' \<or> take 2 t = ''0X''"

text \<open>The second argument is the radix; 0 when it is missing.\<close>

definition parseInt :: "string \<Rightarrow> nat \<Rightarrow> num" where
  "parseInt s radix =
     (let t = dropWhile js_space s;
          neg = (t \<noteq> [] \<and> hd t = CHR ''-'');
          u = (if t \<noteq> [] \<and> (hd t = CHR ''-'' \<or> hd t = CHR ''+'') then tl t else t);
          hex = (hex_prefix u \<and> (radix = 0 \<or> radix = 16));
          base = (if hex then 16 else if radix = 0 then 10 else radix)
      in case digits_value base 0 (if hex then drop 2 u else u) None of
           None \<Rightarrow> NaN
         | Some n \<Rightarrow> to_num (if neg then - of_nat n else of_nat n))"

text \<open>Whole numbers below \<open>2 ^ 53\<close> are not rounded.\<close>

lemma to_num_moderate: "\<bar>a\<bar> \<le> 2 ^ 52 \<Longrightarrow> to_num a = Fin (rnd a)"
proof -
  assume "\<bar>a\<bar> \<le> 2 ^ 52"
  then have "of_int (- (2 ^ 52)) \<le> a" "a \<le> of_int (2 ^ 52)" by (simp_all add: abs_le_iff)
  then have "rnd (of_int (- (2 ^ 52))) \<le> rnd a" "rnd a \<le> rnd (of_int (2 ^ 52))" by (simp_all only: rnd_mono)
  then have "- (2 ^ 52) \<le> rnd a" "rnd a \<le> 2 ^ 52" using rnd_int [of "- (2 ^ 52)"] rnd_int [of "2 ^ 52"] by simp_all
  then have "\<bar>rnd a\<bar> \<le> 2 ^ 52" by (simp add: abs_le_iff)
  also have "(2 ^ 52 :: rat) < 2 ^ 1024" by (rule power_strict_increasing) simp_all
  finally show ?thesis by (simp add: to_num_def Let_def)
qed

lemma to_num_int: "\<bar>n\<bar> < 2 ^ 53 \<Longrightarrow> to_num (of_int n) = Fin (of_int n)"
proof -
  assume n: "\<bar>n\<bar> < 2 ^ 53"
  have "\<bar>of_int n :: rat\<bar> = of_int \<bar>n\<bar>" by simp
  also have "\<dots> < of_int (2 ^ 53)" using n by (simp only: of_int_less_iff)
  also have "\<dots> = (2 ^ 53 :: rat)" by simp
  also have "\<dots> \<le> 2 ^ 1024" by (rule power_increasing) simp_all
  finally show ?thesis by (simp add: to_num_def rnd_int [OF n] Let_def)
qed

lemma to_num_nat: "n < 2 ^ 53 \<Longrightarrow> to_num (of_nat n) = Fin (of_nat n)"
  using to_num_int [of "int n"] by simp

lemma to_num_consts [simp]: "to_num 0 = Fin 0" "to_num 1 = Fin 1"
  using to_num_int [of 0] to_num_int [of 1] by simp_all

lemma to_num_numeral [simp]:
  "numeral k < (2 ^ 53 :: int) \<Longrightarrow> to_num (numeral k) = Fin (numeral k)"
  "numeral k < (2 ^ 53 :: int) \<Longrightarrow> to_num (- numeral k) = Fin (- numeral k)"
  using to_num_int [of "numeral k"] to_num_int [of "- numeral k"] by simp_all

section \<open>Printing\<close>

text \<open>A whole number as JavaScript prints it (below \<open>10 ^ 21\<close>).\<close>

definition dec_string :: "nat \<Rightarrow> string" where
  "dec_string n = map (\<lambda>d. char_of (48 + d)) (digits 10 n)"

lemma digit_value_digit: "d < 10 \<Longrightarrow> digit_value (char_of (48 + d)) = Some d"
  by (simp add: digit_value_def Let_def)

text \<open>What may follow a number: no digit, and no letter that would make it hexadecimal.\<close>

definition ends_number :: "string \<Rightarrow> bool" where
  "ends_number t \<longleftrightarrow> (case t of [] \<Rightarrow> True
     | c # _ \<Rightarrow> (case digit_value c of None \<Rightarrow> True | Some d \<Rightarrow> 10 \<le> d) \<and> c \<noteq> CHR ''x'' \<and> c \<noteq> CHR ''X'')"

lemma digits_value_stop: "ends_number t \<Longrightarrow> digits_value 10 acc t r = r"
  by (auto simp: ends_number_def split: list.splits option.splits)

lemma digits_value_print:
  "\<forall>d \<in> set ds. d < 10 \<Longrightarrow> ds \<noteq> [] \<Longrightarrow> ends_number t \<Longrightarrow>
     digits_value 10 acc (map (\<lambda>d. char_of (48 + d)) ds @ t) r = Some (foldl (\<lambda>a d. 10 * a + d) acc ds)"
proof (induction ds arbitrary: acc r)
  case (Cons d ds)
  show ?case
  proof (cases "ds = []")
    case True
    then show ?thesis using Cons.prems by (simp add: digit_value_digit digits_value_stop)
  next
    case False
    with Cons show ?thesis by (simp add: digit_value_digit)
  qed
qed simp

lemma digit_plain:
  assumes "(d :: nat) < 10"
  shows "\<not> js_space (char_of (48 + d))" "char_of (48 + d) \<noteq> CHR ''-''" "char_of (48 + d) \<noteq> CHR ''+''"
    "char_of (48 + d) \<noteq> CHR ''x''" "char_of (48 + d) \<noteq> CHR ''X''"
proof -
  have v: "of_char (char_of (48 + d) :: char) = 48 + d"
    using assms by (simp add: of_char_of take_bit_nat_eq_self)
  then show "\<not> js_space (char_of (48 + d))" using assms by (simp add: js_space_def)
  have ne: "char_of (48 + d) \<noteq> c" if "of_char c < (48 :: nat) \<or> 57 < (of_char c :: nat)" for c :: char
    using that v assms by auto
  show "char_of (48 + d) \<noteq> CHR ''-''" "char_of (48 + d) \<noteq> CHR ''+''"
    "char_of (48 + d) \<noteq> CHR ''x''" "char_of (48 + d) \<noteq> CHR ''X''"
    by (rule ne, simp)+
qed

lemma parseInt_dec:
  assumes "ends_number t" and n: "n < 2 ^ 53"
  shows "parseInt (dec_string n @ t) 0 = Fin (of_nat n)"
proof -
  obtain d ds where ds: "digits 10 n = d # ds" by (metis digits_nonempty list.exhaust)
  have small: "\<forall>d \<in> set (d # ds). d < 10" using digits_less [of 10 _ n] ds by simp
  let ?c = "\<lambda>d :: nat. char_of (48 + d) :: char" and ?s = "dec_string n @ t"
  have s: "?s = ?c d # map ?c ds @ t" by (simp add: dec_string_def ds)
  have nohex: "\<not> hex_prefix ?s"
  proof (cases ds)
    case Nil
    then show ?thesis using assms(1) unfolding hex_prefix_def s by (cases t) (auto simp: ends_number_def)
  next
    case (Cons e es)
    then have "e < 10" using small by simp
    with Cons show ?thesis using digit_plain(4,5) [of e] unfolding hex_prefix_def s by simp
  qed
  have "digits_value 10 0 ?s None = Some (foldl (\<lambda>a d. 10 * a + d) 0 (digits 10 n))"
    unfolding dec_string_def by (rule digits_value_print) (use small ds assms(1) in auto)
  then have v: "digits_value 10 0 ?s None = Some n"
    using digits_value [of 10 n] by simp
  show ?thesis
    unfolding parseInt_def Let_def
    using digit_plain [of d] small nohex v to_num_nat [OF n] unfolding s by simp
qed

end
