(* ===== verification/FitAddon.thy ===== *)
theory FitAddon
  imports JsNumbers
begin

text \<open>
  The class \<open>FitAddon\<close> of \<open>src/html/xterm-addon-fit.js\<close> and what it calls of the terminal in
  \<open>src/html/xterm.js\<close>: \<open>resize\<close> with its check of the arguments, and the sizes the renderer computes after it.
\<close>

section \<open>The terminal\<close>

text \<open>
  What the addon uses of a terminal: the styles the browser has computed for the element and its
  parent, when they are there, the size of a character as it was measured, two options, the ratio of the pixels of the
  device to those of the page, the size of a cell the renderer has computed, and the calls made.
\<close>

record style =
  css_height :: string
  css_width :: string
  padding_top :: string
  padding_bottom :: string
  padding_left :: string
  padding_right :: string

datatype term_call = Clear_renderer | Resized num num

record js_term =
  element :: "(style \<times> style option) option"
  term_rows :: num
  term_cols :: num
  scrollBarWidth :: num
  char_width :: num
  char_height :: num
  line_height :: num
  letter_spacing :: num
  pixel_ratio :: num
  actualCellWidth :: num
  actualCellHeight :: num
  term_calls :: "term_call list"

text \<open>
  \<open>Terminal.resize\<close>: the public method refuses infinities (the positive one, as written), NaN and
  fractions with an exception, here \<open>None\<close>; the core applies the minimal sizes 2 and 1.
\<close>

definition not_integer :: "num \<Rightarrow> bool" where
  "not_integer x \<longleftrightarrow>
     (case x of NaN \<Rightarrow> True | Inf s \<Rightarrow> True | Fin a \<Rightarrow> a \<noteq> of_int \<lfloor>a\<rfloor>)"

definition less_num :: "num \<Rightarrow> num \<Rightarrow> bool" where
  "less_num x y \<longleftrightarrow>
     (case (x, y) of (Fin a, Fin b) \<Rightarrow> a < b | (Inf s, Fin b) \<Rightarrow> \<not> s | (Fin a, Inf s) \<Rightarrow> s
      | (Inf s, Inf t) \<Rightarrow> \<not> s \<and> t | _ \<Rightarrow> False)"

text \<open>
  \<open>_updateDimensions\<close> of the canvas renderer, which draws whole pixels of the device: from the measured size of a
  character (\<open>hasValidSize\<close>) the size of a cell in pixels of the device, of the canvas in pixels of the page, and from it the
  size of a cell again.
\<close>

definition has_valid_size :: "js_term \<Rightarrow> bool" where
  "has_valid_size t \<longleftrightarrow> less_num (Fin 0) (char_width t) \<and> less_num (Fin 0) (char_height t)"

definition scaled_cell_width :: "js_term \<Rightarrow> num" where
  "scaled_cell_width t = jadd (jfloor (jmul (char_width t) (pixel_ratio t))) (jround (letter_spacing t))"

definition scaled_cell_height :: "js_term \<Rightarrow> num" where
  "scaled_cell_height t = jfloor (jmul (jceil (jmul (char_height t) (pixel_ratio t))) (line_height t))"

definition update_dimensions :: "js_term \<Rightarrow> js_term" where
  "update_dimensions t =
     (if has_valid_size t then
        (let canvas_height = jround (jdiv (jmul (term_rows t) (scaled_cell_height t)) (pixel_ratio t));
             canvas_width = jround (jdiv (jmul (term_cols t) (scaled_cell_width t)) (pixel_ratio t))
         in t\<lparr>actualCellHeight := jdiv canvas_height (term_rows t), actualCellWidth := jdiv canvas_width (term_cols t)\<rparr>)
      else t)"

text \<open>The renderer is there once the terminal has an element. The measured size of a character is taken to stay.\<close>

definition core_resize :: "num \<Rightarrow> num \<Rightarrow> js_term \<Rightarrow> js_term" where
  "core_resize c r t =
     (if c = NaN \<or> r = NaN then t
      else if \<not> strict_eq c (term_cols t) \<or> \<not> strict_eq r (term_rows t) then
        (let c = (if less_num c (Fin 2) then Fin 2 else c); r = (if less_num r (Fin 1) then Fin 1 else r);
             t = t\<lparr>term_cols := c, term_rows := r, term_calls := term_calls t @ [Resized c r]\<rparr>
         in if element t = None then t else update_dimensions t)
      else t)"

definition resize :: "num \<Rightarrow> num \<Rightarrow> js_term \<Rightarrow> js_term option" where
  "resize c r t = (if not_integer c \<or> not_integer r then None else Some (core_resize c r t))"

section \<open>The addon\<close>

text \<open>The object: its field \<open>_terminal\<close>, and the terminal it points to.\<close>

record fit_addon =
  terminal :: "js_term option"

definition activate :: "js_term \<Rightarrow> fit_addon \<Rightarrow> fit_addon" where
  "activate t a = a\<lparr>terminal := Some t\<rparr>"

definition dispose_fit :: "fit_addon \<Rightarrow> fit_addon" where
  "dispose_fit a = a"

definition available_height :: "style \<Rightarrow> style \<Rightarrow> num" where
  "available_height el parent =
     jsub (parseInt (css_height parent) 0)
          (jadd (parseInt (padding_top el) 0) (parseInt (padding_bottom el) 0))"

definition available_width :: "js_term \<Rightarrow> style \<Rightarrow> style \<Rightarrow> num" where
  "available_width t el parent =
     jsub (jsub (jmax (Fin 0) (parseInt (css_width parent) 0))
                (jadd (parseInt (padding_right el) 0) (parseInt (padding_left el) 0)))
          (scrollBarWidth t)"

text \<open>\<open>proposeDimensions\<close>: columns and rows; \<open>None\<close> is \<open>undefined\<close>.\<close>

definition proposeDimensions :: "fit_addon \<Rightarrow> (num \<times> num) option" where
  "proposeDimensions a =
     (case terminal a of
        None \<Rightarrow> None
      | Some t \<Rightarrow>
          (case element t of
             Some (el, Some parent) \<Rightarrow>
               Some (jmax (Fin 2) (jfloor (jdiv (available_width t el parent) (actualCellWidth t))),
                     jmax (Fin 1) (jfloor (jdiv (available_height el parent) (actualCellHeight t))))
           | _ \<Rightarrow> None))"

text \<open>\<open>fit\<close>. \<open>Inl a\<close>: \<open>resize\<close> has thrown, and \<open>a\<close> is the state it leaves behind.\<close>

definition fit :: "fit_addon \<Rightarrow> fit_addon + fit_addon" where
  "fit a =
     (case (proposeDimensions a, terminal a) of
        (Some (c, r), Some t) \<Rightarrow>
          if strict_eq (term_rows t) r \<and> strict_eq (term_cols t) c then Inr a
          else
            (let t = t\<lparr>term_calls := term_calls t @ [Clear_renderer]\<rparr>
             in case resize c r t of
                  None \<Rightarrow> Inl (a\<lparr>terminal := Some t\<rparr>)
                | Some t \<Rightarrow> Inr (a\<lparr>terminal := Some t\<rparr>))
      | _ \<Rightarrow> Inr a)"

section \<open>Lengths as the browser prints them\<close>

definition css_px :: "nat \<Rightarrow> string" where
  "css_px n = dec_string n @ ''px''"

lemma read_px: "n < 2 ^ 53 \<Longrightarrow> parseInt (css_px n) 0 = Fin (of_nat n)"
  unfolding css_px_def by (rule parseInt_dec) (simp_all add: ends_number_def digit_value_def)

section \<open>What the addon proposes\<close>

text \<open>
  \<open>n\<close> cells fill the space: they are not larger than it, up to the factor \<open>slack\<close>, and one more would be; when even
  the least number is larger than the space, it is that number.
\<close>

definition fitting :: "rat \<Rightarrow> rat \<Rightarrow> rat \<Rightarrow> int \<Rightarrow> int \<Rightarrow> bool" where
  "fitting slack space cell least n \<longleftrightarrow>
     (if of_int least * cell \<le> space then of_int n * cell \<le> space * slack \<and> space < of_int (n + 1) * cell
      else n = least)"

text \<open>The quotient is rounded once; whole numbers are told apart all the same.\<close>

definition rounding :: "rat \<Rightarrow> rat \<Rightarrow> rat" where
  "rounding space cell = (if space \<in> \<int> \<and> cell \<in> \<int> then 1 else 1 + 1 / 2 ^ 53)"

lemma whole_quotient:
  assumes "0 < cell" and "space < 2 ^ 53" and "of_int n * cell \<le> space + space / 2 ^ 53" and "space \<in> \<int>" and "cell \<in> \<int>"
  shows "of_int n * cell \<le> (space :: rat)"
proof -
  obtain s c where sc: "space = of_int s" "cell = of_int c" using assms(4,5) by (auto elim!: Ints_cases)
  have "space / 2 ^ 53 < 1" using assms(2) by simp
  then have "(of_int (n * c) :: rat) < of_int (s + 1)" using assms(3) sc by simp
  then have "n * c < s + 1" by (simp only: of_int_less_iff)
  then have "n * c \<le> s" by simp
  then have "(of_int (n * c) :: rat) \<le> of_int s" by (simp only: of_int_le_iff)
  then show ?thesis by (simp add: sc)
qed

lemma fitting_floor:
  assumes "0 < cell" and "space < 2 ^ 52 * cell" and "space < 2 ^ 52" and "0 < least" and "least < 2 ^ 52"
  shows "fitting (rounding space cell) space cell least (max least \<lfloor>rnd (space / cell)\<rfloor>)"
proof (cases "of_int least * cell \<le> space")
  case False
  then have "space / cell \<le> of_int least" using assms(1) by (simp add: pos_divide_le_eq)
  then have "\<lfloor>rnd (space / cell)\<rfloor> \<le> least" using floor_rnd(2) [of least "space / cell"] assms(4,5) by simp
  then show ?thesis using False by (simp add: fitting_def)
next
  case True
  let ?q = "space / cell" and ?n = "\<lfloor>rnd (space / cell)\<rfloor>"
  have l: "of_int least \<le> ?q" using True assms(1) by (simp add: pos_le_divide_eq)
  have one: "1 \<le> ?q" using l assms(4) by (meson le_trans of_int_1_le_iff order.trans zless_imp_add1_zle less_imp_le int_one_le_iff_zero_less)
  have "?q < 2 ^ 52" using assms(1,2) by (simp add: pos_divide_less_eq)
  then have fl: "\<lfloor>?q\<rfloor> < 2 ^ 52" "0 \<le> \<lfloor>?q\<rfloor>" using one by (simp_all add: floor_less_iff)
  have least: "least \<le> ?n" using floor_rnd(1) [of least ?q] l assms(4,5) by simp
  have "\<lfloor>?q\<rfloor> \<le> ?n" using fl by (intro floor_rnd(1)) simp_all
  then have "(of_int \<lfloor>?q\<rfloor> :: rat) \<le> of_int ?n" by (simp only: of_int_le_iff)
  then have "?q < of_int (?n + 1)" using floor_correct [of ?q] by simp
  then have n: "space < of_int (?n + 1) * cell" using assms(1) by (simp only: pos_divide_less_eq)
  have "of_int ?n \<le> ?q + ?q / 2 ^ 53" using rnd_error [OF one] floor_correct [of "rnd ?q"] by linarith
  then have "of_int ?n * cell \<le> (?q + ?q / 2 ^ 53) * cell" by (rule mult_right_mono) (rule less_imp_le [OF assms(1)])
  also have "\<dots> = ?q * cell + ?q * cell / 2 ^ 53" by (simp only: distrib_right times_divide_eq_left)
  also have "\<dots> = space + space / 2 ^ 53" using assms(1) by simp
  finally have m: "of_int ?n * cell \<le> space + space / 2 ^ 53" .
  have "of_int ?n * cell \<le> space * rounding space cell"
    using whole_quotient [OF assms(1) _ m] m assms(3) by (simp add: rounding_def algebra_simps)
  then show ?thesis using n least True by (simp add: fitting_def max_def)
qed

lemma jmax_floor:
  "jmax (Fin (of_int k)) (jfloor (Fin a)) = Fin (of_int (max k \<lfloor>a\<rfloor>))"
  by (simp add: of_int_max)

text \<open>Sizes in the range of whole doubles.\<close>

definition measurable :: "rat \<Rightarrow> rat \<Rightarrow> bool" where
  "measurable space cell \<longleftrightarrow> 0 < cell \<and> \<bar>space\<bar> < 2 ^ 52 * cell \<and> \<bar>space\<bar> < 2 ^ 52"

lemma quotient_num:
  assumes "measurable space cell"
  shows "jdiv (Fin space) (Fin cell) = Fin (rnd (space / cell))"
proof -
  have c: "0 < cell" "\<bar>space\<bar> < 2 ^ 52 * cell" using assms by (simp_all add: measurable_def)
  have "space \<le> 2 ^ 52 * cell" "- (2 ^ 52) * cell \<le> space" using c by (simp_all add: abs_less_iff)
  then have "space / cell \<le> 2 ^ 52" "- (2 ^ 52) \<le> space / cell"
    by (simp_all only: pos_divide_le_eq [OF c(1)] pos_le_divide_eq [OF c(1)])
  then have "\<bar>space / cell\<bar> \<le> 2 ^ 52" by (simp add: abs_le_iff)
  then show ?thesis using c(1) by (simp add: to_num_moderate)
qed

lemma proposal:
  assumes "terminal a = Some t" and "element t = Some (el, Some parent)"
    and "available_width t el parent = Fin w" and "available_height el parent = Fin h"
    and "actualCellWidth t = Fin cw" and "actualCellHeight t = Fin ch" and "measurable w cw" and "measurable h ch"
  shows "proposeDimensions a
    = Some (Fin (of_int (max 2 \<lfloor>rnd (w / cw)\<rfloor>)), Fin (of_int (max 1 \<lfloor>rnd (h / ch)\<rfloor>)))"
proof -
  have "proposeDimensions a = Some (jmax (Fin 2) (jfloor (jdiv (Fin w) (Fin cw))), jmax (Fin 1) (jfloor (jdiv (Fin h) (Fin ch))))"
    using assms(1-6) by (simp add: proposeDimensions_def del: jmax.simps jfloor.simps jdiv.simps)
  then show ?thesis
    using jmax_floor [of 2 "rnd (w / cw)"] jmax_floor [of 1 "rnd (h / ch)"]
    by (simp only: quotient_num [OF assms(7)] quotient_num [OF assms(8)] of_int_numeral of_int_1)
qed

text \<open>
  C30. The proposal is the largest grid that fits, with the size the cells have at present: whole numbers of columns and rows,
  at least 2 and 1, such that one more column or row would be larger than the available space, while the grid is not, when the sizes
  are whole numbers of pixels, and else by at most the rounding of one division, a factor of
  \<open>1 + 2 ^ -53\<close>; if the space is too small for the minimum, the minimum. (The sizes are those of whole numbers a double can
  hold, \<open>measurable\<close>.)
\<close>

theorem proposal_fits:
  assumes "terminal a = Some t" and "element t = Some (el, Some parent)"
    and "available_width t el parent = Fin w" and "available_height el parent = Fin h"
    and "actualCellWidth t = Fin cw" and "actualCellHeight t = Fin ch" and "measurable w cw" and "measurable h ch"
  shows "\<exists>c r. proposeDimensions a = Some (Fin (of_int c), Fin (of_int r))
     \<and> fitting (rounding w cw) w cw 2 c \<and> fitting (rounding h ch) h ch 1 r \<and> 2 \<le> c \<and> 1 \<le> r"
  using proposal [OF assms] fitting_floor [of cw w 2] fitting_floor [of ch h 1] assms(7,8)
  by (auto simp: measurable_def abs_less_iff)

section \<open>When a second fit changes nothing\<close>

text \<open>With one pixel of the device for one of the page, a cell is as large in the page as on the device, whatever the grid.\<close>

lemma floor_of_half [simp]: "\<lfloor>1 / 2 :: rat\<rfloor> = 0"
  by (simp add: floor_eq_iff)

lemma floor_half: "\<lfloor>of_int k + 1 / 2 :: rat\<rfloor> = k"
  by (simp add: floor_eq_iff)

lemma canvas_whole:
  assumes "0 < (c :: int)" and "0 < n" and "c * n < 2 ^ 53"
  shows "jdiv (jround (jdiv (jmul (Fin (of_int c)) (Fin (of_int n))) (Fin 1))) (Fin (of_int c)) = Fin (of_int n)"
proof -
  have p: "0 < c * n" using assms(1,2) by simp
  have "n \<le> c * n" using mult_right_mono [of 1 c n] assms(1,2) by simp
  then have n: "\<bar>n\<bar> < 2 ^ 53" using assms(2,3) by linarith
  have m: "to_num (of_int c * of_int n) = Fin (of_int (c * n))" using to_num_int [of "c * n"] p assms(3) by simp
  have "to_num (of_int (c * n) / 1) = Fin (of_int (c * n))" using to_num_int [of "c * n"] p assms(3) by simp
  moreover have "\<lfloor>of_int (c * n) + 1 / 2 :: rat\<rfloor> = c * n" by (rule floor_half)
  moreover have "to_num (of_int (c * n) / of_int c) = Fin (of_int n)" using to_num_int [OF n] assms(1) by simp
  ultimately show ?thesis using m assms(1) by simp
qed

definition plain_ratio :: "js_term \<Rightarrow> int \<Rightarrow> int \<Rightarrow> bool" where
  "plain_ratio t cw ch \<longleftrightarrow> pixel_ratio t = Fin 1 \<and> has_valid_size t \<and> scaled_cell_width t = Fin (of_int cw)
     \<and> scaled_cell_height t = Fin (of_int ch) \<and> 0 < cw \<and> cw < 2 ^ 26 \<and> 0 < ch \<and> ch < 2 ^ 26"

definition grid_of :: "js_term \<Rightarrow> int \<Rightarrow> int \<Rightarrow> bool" where
  "grid_of t c r \<longleftrightarrow> term_cols t = Fin (of_int c) \<and> term_rows t = Fin (of_int r) \<and> 0 < c \<and> c \<le> 2 ^ 26 \<and> 0 < r \<and> r \<le> 2 ^ 26"

lemma small_product: "0 < c \<Longrightarrow> c \<le> 2 ^ 26 \<Longrightarrow> 0 < n \<Longrightarrow> n < 2 ^ 26 \<Longrightarrow> c * n < (2 ^ 53 :: int)"
  using mult_mono [of c "2 ^ 26" n "2 ^ 26"] by simp

lemma dimensions_plain:
  assumes "plain_ratio t cw ch" and "grid_of t c r"
  shows "update_dimensions t = t\<lparr>actualCellHeight := Fin (of_int ch), actualCellWidth := Fin (of_int cw)\<rparr>"
  using assms small_product [of c cw] small_product [of r ch] canvas_whole [of c cw] canvas_whole [of r ch]
  unfolding plain_ratio_def grid_of_def update_dimensions_def Let_def by simp

lemma proposed_bound: "\<bar>s\<bar> < 2 ^ 26 \<Longrightarrow> 0 < n \<Longrightarrow> \<lfloor>rnd (s / of_int n)\<rfloor> \<le> 2 ^ 26"
proof (rule floor_rnd(2))
  assume s: "\<bar>s\<bar> < 2 ^ 26" and n: "0 < n"
  have "1 \<le> (of_int n :: rat)" using n by simp
  then have "(2 ^ 26 :: rat) \<le> 2 ^ 26 * of_int n" by simp
  then have "s \<le> 2 ^ 26 * of_int n" using s by linarith
  then show "s / of_int n \<le> of_int (2 ^ 26)" using n by (simp add: pos_divide_le_eq)
qed simp

lemma measurable_small: "\<bar>s\<bar> < 2 ^ 26 \<Longrightarrow> 0 < n \<Longrightarrow> measurable s (of_int n)"
proof -
  assume s: "\<bar>s\<bar> < 2 ^ 26" and n: "0 < n"
  have "1 \<le> (of_int n :: rat)" using n by simp
  then have "(2 ^ 26 :: rat) \<le> 2 ^ 52 * of_int n" by simp
  then show ?thesis using s n by (simp add: measurable_def)
qed

text \<open>The terminal after a resize by the addon.\<close>

definition resized :: "int \<Rightarrow> int \<Rightarrow> js_term \<Rightarrow> js_term" where
  "resized c r t = t\<lparr>term_cols := Fin (of_int c), term_rows := Fin (of_int r),
     term_calls := term_calls t @ [Clear_renderer, Resized (Fin (of_int c)) (Fin (of_int r))]\<rparr>"

lemma plain_ratio_resized: "plain_ratio (resized c r t) = plain_ratio t"
  by (intro ext)
    (simp add: plain_ratio_def resized_def has_valid_size_def scaled_cell_width_def scaled_cell_height_def)

lemma resized_plain:
  assumes "plain_ratio t cw ch" and "element t \<noteq> None" and "2 \<le> c" and "c \<le> 2 ^ 26" and "1 \<le> r" and "r \<le> 2 ^ 26"
    and "actualCellWidth t = Fin (of_int cw)" and "actualCellHeight t = Fin (of_int ch)"
    and "\<not> (term_cols t = Fin (of_int c) \<and> term_rows t = Fin (of_int r))"
  shows "resize (Fin (of_int c)) (Fin (of_int r)) (t\<lparr>term_calls := term_calls t @ [Clear_renderer]\<rparr>) = Some (resized c r t)"
proof -
  have ne: "\<not> strict_eq (Fin (of_int c)) (term_cols t) \<or> \<not> strict_eq (Fin (of_int r)) (term_rows t)"
    using assms(9) by (cases "term_cols t"; cases "term_rows t"; auto)
  have p: "plain_ratio (resized c r t) cw ch" "grid_of (resized c r t) c r"
    using assms(1,3-6) by (simp_all add: plain_ratio_resized) (simp add: grid_of_def resized_def)
  have "update_dimensions (resized c r t) = resized c r t"
    unfolding dimensions_plain [OF p] using assms(7,8) by (simp add: resized_def)
  then show ?thesis
    using ne assms(2,3,5) by (simp add: resize_def not_integer_def core_resize_def less_num_def Let_def resized_def)
qed

text \<open>
  C29. When a pixel of the page is one of the device, one \<open>fit\<close> gives the terminal the proposed size, at the cost of at
  most one resize, and a second one changes nothing. The terminal has computed its sizes
  for the grid it has, and all sizes are below \<open>2 ^ 26\<close> pixels. (With another ratio the size of a cell depends on the number of
  columns, and a second \<open>fit\<close> can give another size: \<open>second_fit_differs\<close>.)
\<close>

theorem fit_reaches_fixpoint:
  assumes "terminal a = Some t" and "element t = Some (el, Some parent)"
    and "available_width t el parent = Fin w" and "available_height el parent = Fin h" and "\<bar>w\<bar> < 2 ^ 26" and "\<bar>h\<bar> < 2 ^ 26"
    and "plain_ratio t cw ch" and "grid_of t c0 r0" and "update_dimensions t = t"
  shows "\<exists>a' t' c r. fit a = Inr a' \<and> terminal a' = Some t' \<and> proposeDimensions a = Some (c, r)
     \<and> term_cols t' = c \<and> term_rows t' = r
     \<and> term_calls t' = term_calls t @ (if term_cols t = c \<and> term_rows t = r then [] else [Clear_renderer, Resized c r])
     \<and> fit a' = Inr a'"
proof -
  have n: "0 < cw" "0 < ch" using assms(7) by (simp_all add: plain_ratio_def)
  have "t = t\<lparr>actualCellHeight := Fin (of_int ch), actualCellWidth := Fin (of_int cw)\<rparr>"
    using dimensions_plain [OF assms(7,8)] assms(9) by simp
  then have d: "actualCellWidth t = Fin (of_int cw)" "actualCellHeight t = Fin (of_int ch)" by (metis js_term.select_convs js_term.surjective js_term.update_convs)+
  define c where "c = max 2 \<lfloor>rnd (w / of_int cw)\<rfloor>"
  define r where "r = max 1 \<lfloor>rnd (h / of_int ch)\<rfloor>"
  have p: "proposeDimensions a = Some (Fin (of_int c), Fin (of_int r))"
    using proposal [OF assms(1-4) d measurable_small [OF assms(5) n(1)] measurable_small [OF assms(6) n(2)]]
    by (simp add: c_def r_def)
  have b: "2 \<le> c" "c \<le> 2 ^ 26" "1 \<le> r" "r \<le> 2 ^ 26"
    using proposed_bound [OF assms(5) n(1)] proposed_bound [OF assms(6) n(2)] by (simp_all add: c_def r_def)
  show ?thesis
  proof (cases "term_cols t = Fin (of_int c) \<and> term_rows t = Fin (of_int r)")
    case True
    then have "fit a = Inr a" by (simp add: fit_def p assms(1))
    with True p assms(1) show ?thesis by auto
  next
    case False
    then have "\<not> (strict_eq (term_rows t) (Fin (of_int r)) \<and> strict_eq (term_cols t) (Fin (of_int c)))"
      by (cases "term_cols t"; cases "term_rows t"; auto)
    moreover have "element t \<noteq> None" using assms(2) by simp
    ultimately have f: "fit a = Inr (a\<lparr>terminal := Some (resized c r t)\<rparr>)"
      using resized_plain [OF assms(7) _ b d False] by (auto simp: fit_def p assms(1) Let_def)
    have "proposeDimensions (a\<lparr>terminal := Some (resized c r t)\<rparr>) = proposeDimensions a"
      using assms(1,2) by (simp add: proposeDimensions_def available_width_def resized_def)
    then have "fit (a\<lparr>terminal := Some (resized c r t)\<rparr>) = Inr (a\<lparr>terminal := Some (resized c r t)\<rparr>)"
      by (simp add: fit_def p resized_def)
    with f p False show ?thesis by (auto simp: resized_def)
  qed
qed

text \<open>
  Before the terminal is attached to the page, and before the addon is activated, \<open>fit\<close> does
  nothing.
\<close>

theorem fit_without_terminal:
  "(terminal a = None \<longrightarrow> fit a = Inr a)
   \<and> (\<forall>t. terminal a = Some t \<and> (element t = None \<or> (\<exists>el. element t = Some (el, None))) \<longrightarrow> fit a = Inr a)"
  by (auto simp: fit_def proposeDimensions_def)

text \<open>
  While the renderer has not measured a cell, its width is 0 and the quotient infinite or not a
  number: \<open>fit\<close> clears the renderer and then throws, and the terminal keeps its size.
\<close>

theorem fit_throws_without_cell_size:
  assumes "terminal a = Some t" and "element t = Some (el, Some parent)"
    and "available_width t el parent = Fin w" and "0 \<le> w" and "actualCellWidth t = Fin 0"
    and "not_integer (term_cols t) = False"
  shows "fit a = Inl (a\<lparr>terminal := Some (t\<lparr>term_calls := term_calls t @ [Clear_renderer]\<rparr>)\<rparr>)"
proof -
  obtain c r where p: "proposeDimensions a = Some (c, r)" and c: "c = NaN \<or> c = Inf True"
    using assms(1-5) by (auto simp: proposeDimensions_def)
  then have "not_integer c" "\<not> strict_eq (term_cols t) c"
    using assms(6) by (auto simp: not_integer_def split: num.splits)
  then show ?thesis by (simp add: fit_def p assms(1) resize_def Let_def)
qed

subsection \<open>The properties at a concrete page\<close>

text \<open>A page of a size, and a terminal on it with a grid, the width of a character, the ratio of pixels and the calls so far.\<close>

definition page_style :: "nat \<Rightarrow> nat \<Rightarrow> style" where
  "page_style w h = \<lparr>css_height = css_px h, css_width = css_px w, padding_top = css_px 0,
     padding_bottom = css_px 0, padding_left = css_px 0, padding_right = css_px 0\<rparr>"

definition page_terminal :: "nat \<Rightarrow> rat \<Rightarrow> rat \<Rightarrow> int \<Rightarrow> int \<Rightarrow> term_call list \<Rightarrow> js_term" where
  "page_terminal w cw ratio c r calls =
     \<lparr>element = Some (page_style 0 0, Some (page_style w 400)), term_rows = Fin (of_int r), term_cols = Fin (of_int c),
      scrollBarWidth = Fin 15, char_width = Fin cw, char_height = Fin 16, line_height = Fin 1, letter_spacing = Fin 0,
      pixel_ratio = Fin ratio, actualCellWidth = Fin 0, actualCellHeight = Fin 0, term_calls = calls\<rparr>"

definition page_addon :: "js_term \<Rightarrow> fit_addon" where
  "page_addon t = \<lparr>terminal = Some (update_dimensions t)\<rparr>"

lemma update_frame [simp]:
  "element (update_dimensions t) = element t" "term_rows (update_dimensions t) = term_rows t"
  "term_cols (update_dimensions t) = term_cols t" "scrollBarWidth (update_dimensions t) = scrollBarWidth t"
  "term_calls (update_dimensions t) = term_calls t" "plain_ratio (update_dimensions t) = plain_ratio t"
  "grid_of (update_dimensions t) = grid_of t"
  by (auto simp: update_dimensions_def Let_def plain_ratio_def grid_of_def has_valid_size_def scaled_cell_width_def
      scaled_cell_height_def fun_eq_iff)

lemma update_twice: "update_dimensions (update_dimensions t) = update_dimensions t"
  by (simp add: update_dimensions_def Let_def has_valid_size_def scaled_cell_width_def scaled_cell_height_def)

lemma page_available:
  assumes "15 \<le> w" and "w < 2 ^ 53" and "scrollBarWidth t = Fin 15"
  shows "available_width t (page_style 0 0) (page_style w 400) = Fin (of_nat (w - 15))"
    "available_height (page_style 0 0) (page_style w 400) = Fin 400"
proof -
  have "to_num (of_nat w) = Fin (of_nat w)" "to_num (of_nat w - 15) = Fin (of_nat (w - 15))"
    using to_num_nat [of w] to_num_nat [of "w - 15"] assms(1,2) by (simp_all add: of_nat_diff)
  then show "available_width t (page_style 0 0) (page_style w 400) = Fin (of_nat (w - 15))"
    using read_px [OF assms(2)] read_px [of 0] by (simp add: available_width_def assms(3) page_style_def jsub_def)
  show "available_height (page_style 0 0) (page_style w 400) = Fin 400"
    using read_px [of 400] read_px [of 0] by (simp add: available_height_def page_style_def jsub_def)
qed

lemma page_plain: "plain_ratio (page_terminal 640 9 1 80 24 []) 9 16" "grid_of (page_terminal 640 9 1 80 24 []) 80 24"
  by (simp_all add: plain_ratio_def grid_of_def page_terminal_def has_valid_size_def less_num_def scaled_cell_width_def
      scaled_cell_height_def)

lemma page_parts: "element (page_terminal w x y c r cs) = Some (page_style 0 0, Some (page_style w 400))"
  "scrollBarWidth (page_terminal w x y c r cs) = Fin 15" "term_cols (page_terminal w x y c r cs) = Fin (of_int c)"
  "term_rows (page_terminal w x y c r cs) = Fin (of_int r)" "term_calls (page_terminal w x y c r cs) = cs"
  "pixel_ratio (page_terminal w x y c r cs) = Fin y"
  by (simp_all add: page_terminal_def)

theorem proposal_fits_witness:
  "\<exists>c r. proposeDimensions (page_addon (page_terminal 640 9 1 80 24 [])) = Some (Fin (of_int c), Fin (of_int r))
     \<and> fitting 1 625 9 2 c \<and> fitting 1 400 16 1 r"
proof -
  let ?t = "update_dimensions (page_terminal 640 9 1 80 24 [])"
  have d: "actualCellWidth ?t = Fin 9" "actualCellHeight ?t = Fin 16" unfolding dimensions_plain [OF page_plain] by simp_all
  have m: "measurable 625 9" "measurable 400 16" "rounding 625 9 = 1" "rounding 400 16 = 1"
    by (simp_all add: measurable_def rounding_def)
  show ?thesis
    using proposal_fits [of "page_addon (page_terminal 640 9 1 80 24 [])" ?t "page_style 0 0" "page_style 640 400" 625 400 9 16]
      page_available [of 640 ?t] d m by (auto simp: page_addon_def page_parts)
qed

theorem fit_reaches_fixpoint_witness:
  "\<exists>a' c r. fit (page_addon (page_terminal 640 9 1 80 24 [])) = Inr a'
     \<and> proposeDimensions (page_addon (page_terminal 640 9 1 80 24 [])) = Some (c, r) \<and> fit a' = Inr a'"
proof -
  let ?t = "update_dimensions (page_terminal 640 9 1 80 24 [])"
  show ?thesis
    using fit_reaches_fixpoint [of "page_addon (page_terminal 640 9 1 80 24 [])" ?t "page_style 0 0" "page_style 640 400" 625 400 9 16 80 24]
      page_available [of 640 ?t] page_plain update_twice by (auto simp: page_addon_def page_parts)
qed

theorem fit_without_terminal_witness:
  "fit \<lparr>terminal = None\<rparr> = Inr \<lparr>terminal = None\<rparr>"
  using fit_without_terminal [of "\<lparr>terminal = None\<rparr>"] by simp

theorem fit_throws_without_cell_size_witness:
  "\<exists>a'. fit \<lparr>terminal = Some (page_terminal 640 0 1 80 24 [])\<rparr> = Inl a'"
proof -
  let ?t = "page_terminal 640 0 1 80 24 []"
  show ?thesis
    using fit_throws_without_cell_size [of "\<lparr>terminal = Some ?t\<rparr>" ?t "page_style 0 0" "page_style 640 400" 625]
      page_available [of 640 ?t] by (auto simp: page_terminal_def not_integer_def)
qed

subsection \<open>Two fits with three pixels of the device for two of the page\<close>

lemma floor_rnd_near:
  assumes "1 \<le> a" and "of_int n \<le> a" and "a + a / 2 ^ 53 < of_int n + 1" and "0 < n" and "n < 2 ^ 53"
  shows "\<lfloor>rnd a\<rfloor> = n"
proof -
  have "n \<le> \<lfloor>rnd a\<rfloor>" using floor_rnd(1) [of n a] assms(2,4,5) by simp
  moreover have "rnd a < of_int n + 1" using rnd_error [OF assms(1)] assms(3) by linarith
  ultimately show ?thesis by linarith
qed

lemma round_rnd_near:
  assumes "1 \<le> a" and "\<bar>a - of_int n\<bar> + a / 2 ^ 53 < 1 / 2"
  shows "\<lfloor>rnd a + 1 / 2\<rfloor> = n"
  using rnd_error [OF assms(1)] assms(2) unfolding floor_eq_iff by (intro conjI) linarith+

lemma quotient_near:
  assumes "1 \<le> (x :: rat)" and "0 < n" and "n < 2 ^ 20" and "x \<le> 2 ^ 20" and "of_int n * x \<le> s" and "s + s / 2 ^ 53 < (of_int n + 1) * x"
  shows "jfloor (jdiv (Fin s) (Fin x)) = Fin (of_int n)"
proof -
  have n: "1 \<le> (of_int n :: rat)" "(of_int n :: rat) < 2 ^ 20"
    using assms(2,3) by (simp_all add: of_int_less_numeral_power_cancel_iff)
  have s: "0 < s" using mult_mono [of 1 "of_int n" 1 x] n(1) assms(1,5) by simp
  have "s / x + s / x / 2 ^ 53 = (s + s / 2 ^ 53) / x" by (simp add: add_divide_distrib)
  also have "\<dots> < of_int n + 1" using assms(1,6) by (simp only: pos_divide_less_eq less_le_trans [OF zero_less_one])
  finally have u: "s / x + s / x / 2 ^ 53 < of_int n + 1" .
  have l: "of_int n \<le> s / x" using assms(1,5) by (simp only: pos_le_divide_eq less_le_trans [OF zero_less_one])
  have f: "\<lfloor>rnd (s / x)\<rfloor> = n" by (rule floor_rnd_near) (use n l u assms(2,3) in \<open>linarith | simp\<close>)+
  have "0 \<le> s / x / 2 ^ 53" using s assms(1) by simp
  then have "s / x \<le> 2 ^ 20 + 1" "0 \<le> s / x" using u l n by linarith+
  then have "s / x \<le> 2 ^ 52" "- (2 ^ 52) \<le> s / x" by simp_all
  then have "\<bar>s / x\<bar> \<le> 2 ^ 52" by (simp add: abs_le_iff)
  then show ?thesis using assms(1) f by (simp add: to_num_moderate)
qed

text \<open>The terminal of 624 pixels with 80 columns, and with 82.\<close>

lemma narrow_cells:
  fixes cs
  assumes "\<bar>of_int (c * 22) / 3 - of_int m :: rat\<bar> + of_int (c * 22) / 3 / 2 ^ 53 < 1 / 2" and "2 \<le> c" and "c < 100"
    and "1 \<le> r" and "r < 100"
  defines "t \<equiv> update_dimensions (page_terminal 624 (15 / 2) (3 / 2) c r cs)"
  shows "actualCellWidth t = jdiv (Fin (of_int m)) (Fin (of_int c))" "actualCellHeight t = Fin 16"
proof -
  let ?t = "page_terminal 624 (15 / 2) (3 / 2) c r cs"
  have "\<lfloor>rnd (45 / 4)\<rfloor> = 11" by (rule floor_rnd_near) simp_all
  then have w: "scaled_cell_width ?t = Fin 11"
    by (simp add: scaled_cell_width_def page_terminal_def to_num_moderate)
  have h: "scaled_cell_height ?t = Fin 24" by (simp add: scaled_cell_height_def page_terminal_def)
  have v: "has_valid_size ?t" by (simp add: has_valid_size_def page_terminal_def less_num_def)
  have a: "1 \<le> (of_int (c * 22) / 3 :: rat)" "(of_int (c * 22) / 3 :: rat) < 1000" using assms(2,3) by simp_all
  then have "\<bar>of_int (c * 22) / 3 :: rat\<bar> \<le> 2 ^ 52" by simp
  then have "jround (to_num (of_int (c * 22) / 3)) = Fin (of_int m)"
    using round_rnd_near [OF a(1) assms(1)] by (simp add: to_num_moderate)
  moreover have "jmul (Fin (of_int c)) (Fin 11) = Fin (of_int (c * 11))"
    using to_num_int [of "c * 11"] assms(2,3) by simp
  moreover have "(of_int (c * 11) / (3 / 2) :: rat) = of_int (c * 22) / 3" by simp
  ultimately have W: "jround (jdiv (jmul (Fin (of_int c)) (Fin 11)) (Fin (3 / 2))) = Fin (of_int m)"
    by (simp only: jdiv.simps) (simp del: jround.simps)
  show "actualCellWidth t = jdiv (Fin (of_int m)) (Fin (of_int c))"
    unfolding t_def update_dimensions_def Let_def
    using v by (simp add: w h page_parts W del: jround.simps jdiv.simps jmul.simps)
  have "jmul (Fin (of_int r)) (Fin 24) = Fin (of_int (r * 24))" using to_num_int [of "r * 24"] assms(4,5) by simp
  moreover have "(of_int (r * 24) / (3 / 2) :: rat) = of_int (r * 16)" by simp
  moreover have "to_num (of_int (r * 16)) = Fin (of_int (r * 16))" by (rule to_num_int) (use assms(4,5) in simp)
  ultimately have "jround (jdiv (jmul (Fin (of_int r)) (Fin 24)) (Fin (3 / 2))) = jround (Fin (of_int (r * 16)))"
    by (simp only: jdiv.simps) simp
  also have "\<dots> = Fin (of_int (r * 16))" by (simp only: jround.simps floor_half)
  finally have H: "jdiv (jround (jdiv (jmul (Fin (of_int r)) (Fin 24)) (Fin (3 / 2)))) (Fin (of_int r)) = Fin 16"
    using assms(4) by (simp only: jdiv.simps) simp
  show "actualCellHeight t = Fin 16"
    unfolding t_def update_dimensions_def Let_def
    using v by (simp add: w h page_parts H del: jround.simps jdiv.simps jmul.simps)
qed

lemma narrow_proposal:
  fixes cs
  assumes "\<bar>of_int (c * 22) / 3 - of_int m :: rat\<bar> + of_int (c * 22) / 3 / 2 ^ 53 < 1 / 2" and "2 \<le> c" and "c < 100"
    and "1 \<le> r" and "r < 100" and "7 * c \<le> m" and "m \<le> 8 * c"
    and "of_int n * rnd (of_int m / of_int c) \<le> 609" and "609 + 609 / 2 ^ 53 < (of_int n + 1) * rnd (of_int m / of_int c)"
    and "2 \<le> n" and "n < 100"
  shows "proposeDimensions (page_addon (page_terminal 624 (15 / 2) (3 / 2) c r cs)) = Some (Fin (of_int n), Fin 25)"
proof -
  let ?t = "update_dimensions (page_terminal 624 (15 / 2) (3 / 2) c r cs)"
  have c: "7 \<le> of_int m / (of_int c :: rat)" "of_int m / (of_int c :: rat) \<le> 8"
    using assms(2,6,7) of_int_le_iff [of "7 * c" m, where 'a = rat] of_int_le_iff [of m "8 * c", where 'a = rat]
    by (simp_all add: pos_le_divide_eq pos_divide_le_eq)
  then have x: "rnd 7 \<le> rnd (of_int m / of_int c)" "rnd (of_int m / of_int c) \<le> rnd 8" by (simp_all only: rnd_mono)
  then have x: "1 \<le> rnd (of_int m / of_int c)" "rnd (of_int m / of_int c) \<le> 2 ^ 20" by simp_all
  have q: "jdiv (Fin (of_int m)) (Fin (of_int c)) = Fin (rnd (of_int m / of_int c))"
    using assms(2) c by (simp add: to_num_moderate abs_le_iff)
  have "jfloor (jdiv (Fin 609) (Fin (rnd (of_int m / of_int c)))) = Fin (of_int n)"
    by (rule quotient_near [OF x(1) _ _ x(2) assms(8,9)]) (use assms(10,11) in simp_all)
  moreover have "jfloor (jdiv (Fin 400) (Fin 16)) = Fin 25" by simp
  ultimately show ?thesis
    using narrow_cells [OF assms(1-5), of cs] page_available [of 624 ?t] q assms(10)
    by (simp add: proposeDimensions_def page_addon_def page_parts del: jfloor.simps jdiv.simps)
qed

lemma narrow_fit:
  fixes cs
  assumes "proposeDimensions (page_addon (page_terminal 624 (15 / 2) (3 / 2) c r cs)) = Some (Fin (of_int n), Fin 25)"
    and "n \<noteq> c" and "2 \<le> n"
  shows "fit (page_addon (page_terminal 624 (15 / 2) (3 / 2) c r cs))
    = Inr (page_addon (page_terminal 624 (15 / 2) (3 / 2) n 25 (cs @ [Clear_renderer, Resized (Fin (of_int n)) (Fin 25)])))"
proof -
  let ?t = "page_terminal 624 (15 / 2) (3 / 2) c r cs" and ?cs = "cs @ [Clear_renderer, Resized (Fin (of_int n)) (Fin 25)]"
  let ?u = "page_terminal 624 (15 / 2) (3 / 2) n 25 ?cs"
  have "has_valid_size ?t" by (simp add: has_valid_size_def page_terminal_def less_num_def)
  then obtain x y where t: "update_dimensions ?t = ?t\<lparr>actualCellHeight := x, actualCellWidth := y\<rparr>"
    by (simp add: update_dimensions_def Let_def)
  have "?t\<lparr>actualCellHeight := x, actualCellWidth := y, term_cols := Fin (of_int n), term_rows := Fin 25, term_calls := ?cs\<rparr>
      = ?u\<lparr>actualCellHeight := x, actualCellWidth := y\<rparr>" by (simp add: page_terminal_def)
  moreover have "has_valid_size ?u" by (simp add: has_valid_size_def page_terminal_def less_num_def)
  then have "update_dimensions (?u\<lparr>actualCellHeight := x, actualCellWidth := y\<rparr>) = update_dimensions ?u"
    by (simp add: update_dimensions_def Let_def has_valid_size_def scaled_cell_width_def scaled_cell_height_def)
  ultimately show ?thesis
    using assms by (simp add: fit_def page_addon_def page_parts resize_def not_integer_def core_resize_def less_num_def Let_def t)
qed

text \<open>
  With three pixels of the device for two of the page, the size of a cell depends on the number of columns, as the canvas is
  rounded to whole pixels of the page. In 609 pixels, characters of 7.5 pixels make 82 columns in one \<open>fit\<close>,
  and 83 in the next.
\<close>

theorem second_fit_differs:
  "\<exists>a' a'' t' t''. fit (page_addon (page_terminal 624 (15 / 2) (3 / 2) 80 24 [])) = Inr a' \<and> terminal a' = Some t'
     \<and> term_cols t' = Fin 82 \<and> fit a' = Inr a'' \<and> terminal a'' = Some t'' \<and> term_cols t'' = Fin 83"
proof -
  have "\<bar>rnd (587 / 80) - 587 / 80\<bar> \<le> 1 / 100000" "\<bar>rnd (601 / 82) - 601 / 82\<bar> \<le> 1 / 100000"
    by (rule order.trans [OF rnd_error]; simp)+
  then have b: "587 / 80 - 1 / 100000 \<le> rnd (587 / 80)" "rnd (587 / 80) \<le> 587 / 80 + 1 / 100000"
    "601 / 82 - 1 / 100000 \<le> rnd (601 / 82)" "rnd (601 / 82) \<le> 601 / 82 + 1 / 100000"
    unfolding abs_le_iff by linarith+
  have "proposeDimensions (page_addon (page_terminal 624 (15 / 2) (3 / 2) 80 24 [])) = Some (Fin (of_int 82), Fin 25)"
    by (rule narrow_proposal [where m = 587]) (use b(1,2) in \<open>simp_all | linarith\<close>)
  note one = narrow_fit [OF this]
  let ?cs = "[] @ [Clear_renderer, Resized (Fin (of_int 82)) (Fin 25)]"
  have "proposeDimensions (page_addon (page_terminal 624 (15 / 2) (3 / 2) 82 25 ?cs)) = Some (Fin (of_int 83), Fin 25)"
    by (rule narrow_proposal [where m = 601]) (use b(3,4) in \<open>simp_all | linarith\<close>)
  note two = narrow_fit [OF this]
  show ?thesis using one two by (auto simp: page_addon_def page_parts)
qed

end
