(* ===== verification/Json.thy ===== *)
theory Json
  imports JsNumbers
begin

text \<open>
  \<open>JSON.parse\<close> for the answers of the firmware: flat objects whose values are whole numbers without
  sign, booleans, or strings without escapes. Other texts are outside this model (\<open>None\<close>), whether
  or not they are JSON.
\<close>

datatype json = JNum nat | JBool bool | JStr string

definition json_ws :: "string \<Rightarrow> string" where
  "json_ws s = dropWhile (\<lambda>c. of_char c \<in> ({32, 9, 10, 13} :: nat set)) s"

definition is_digit :: "char \<Rightarrow> bool" where
  "is_digit c = (case digit_value c of None \<Rightarrow> False | Some d \<Rightarrow> d < 10)"

definition json_string :: "string \<Rightarrow> (string \<times> string) option" where
  "json_string s =
     (if s = [] \<or> of_char (hd s) \<noteq> (34 :: nat) then None
      else
        (let t = takeWhile (\<lambda>c. of_char c \<noteq> (34 :: nat)) (tl s); r = drop (length t) (tl s)
         in if r = [] \<or> (\<exists>c\<in>set t. of_char c = (92 :: nat) \<or> of_char c < (32 :: nat)) then None
            else Some (t, tl r)))"

definition json_value :: "string \<Rightarrow> (json \<times> string) option" where
  "json_value s =
     (if take 4 s = ''true'' then Some (JBool True, drop 4 s)
      else if take 5 s = ''false'' then Some (JBool False, drop 5 s)
      else if s \<noteq> [] \<and> is_digit (hd s) then
        (let ds = takeWhile is_digit s
         in if 1 < length ds \<and> hd ds = CHR ''0'' then None
            else Some (JNum (foldl (\<lambda>a d. 10 * a + d) 0 (map (\<lambda>c. the (digit_value c)) ds)), drop (length ds) s))
      else map_option (\<lambda>(t, r). (JStr t, r)) (json_string s))"

text \<open>The members up to the closing brace; the fuel is the length of the text.\<close>

fun json_members :: "nat \<Rightarrow> string \<Rightarrow> (string \<times> json) list option" where
  "json_members 0 s = None"
| "json_members (Suc n) s =
     Option.bind (json_string (json_ws s)) (\<lambda>(k, r).
       case json_ws r of
         c # r1 \<Rightarrow>
           if c = CHR '':'' then
             Option.bind (json_value (json_ws r1)) (\<lambda>(v, r2).
               case json_ws r2 of
                 c # r3 \<Rightarrow>
                   if c = CHR '','' then map_option (\<lambda>m. (k, v) # m) (json_members n r3)
                   else if c = CHR ''}'' \<and> json_ws r3 = [] then Some [(k, v)]
                   else None
               | [] \<Rightarrow> None)
           else None
       | [] \<Rightarrow> None)"

definition json_parse :: "string \<Rightarrow> (string \<times> json) list option" where
  "json_parse s =
     (case json_ws s of
        c # r \<Rightarrow> if c = CHR ''{'' then json_members (length r) r else None
      | [] \<Rightarrow> None)"

text \<open>\<open>d[key]\<close>: the last member of that name.\<close>

definition json_get :: "string \<Rightarrow> (string \<times> json) list \<Rightarrow> json option" where
  "json_get key ms = map_of (rev ms) key"

lemma is_digit_print: "d < 10 \<Longrightarrow> is_digit (char_of (48 + d)) \<and> the (digit_value (char_of (48 + d))) = d"
  by (simp add: is_digit_def digit_value_digit)

text \<open>A number as the firmware prints it is read back.\<close>

lemma digits_no_leading_zero: "2 \<le> b \<Longrightarrow> 1 < length (digits b n) \<Longrightarrow> hd (digits b n) \<noteq> 0"
proof (induction b n rule: digits.induct)
  case (1 b n)
  show ?case
  proof (cases "n < b")
    case True
    with 1(3) show ?thesis by (simp add: digits.simps)
  next
    case False
    with 1(2) have d: "digits b n = digits b (n div b) @ [n mod b]" by (subst digits.simps) simp
    show ?thesis
    proof (cases "n div b < b")
      case True
      with False 1(2) have "digits b (n div b) = [n div b]" "n div b \<noteq> 0"
        by (simp_all add: digits.simps div_eq_0_iff)
      with d show ?thesis by simp
    next
      case small: False
      have "1 < length (digits b (n div b))"
        using small 1(2) by (subst digits.simps) (auto simp: neq_Nil_conv)
      with 1 False d show ?thesis by simp
    qed
  qed
qed

lemma json_value_print:
  assumes "t \<noteq> []" and "\<not> is_digit (hd t)"
  shows "json_value (dec_string n @ t) = Some (JNum n, t)"
proof -
  let ?c = "\<lambda>d :: nat. char_of (48 + d) :: char"
  obtain d ds where ds: "digits 10 n = d # ds" by (metis digits_nonempty list.exhaust)
  have small: "\<forall>d \<in> set (digits 10 n). d < 10" using digits_less [of 10 _ n] by simp
  have head: "dec_string n @ t = ?c d # map ?c ds @ t" by (simp add: dec_string_def ds)
  have c: "?c d \<noteq> CHR ''t'' \<and> ?c d \<noteq> CHR ''f''"
    using small ds by (auto simp: digit_value_digit dest!: arg_cong [where f = digit_value] simp: digit_value_def)
  have tw: "takeWhile is_digit (dec_string n @ t) = dec_string n"
    unfolding dec_string_def
    using small assms by (subst takeWhile_append2) (auto simp: is_digit_print takeWhile_eq_Nil_iff)
  have "map (\<lambda>c. the (digit_value c)) (dec_string n) = digits 10 n"
    unfolding dec_string_def map_map comp_def
    by (rule map_idI) (use small is_digit_print in auto)
  then have v: "foldl (\<lambda>a d. 10 * a + d) 0 (map (\<lambda>c. the (digit_value c)) (dec_string n)) = n"
    using digits_value [of 10 n] by simp
  have z: "\<not> (1 < length (dec_string n) \<and> hd (dec_string n) = CHR ''0'')"
  proof
    assume a: "1 < length (dec_string n) \<and> hd (dec_string n) = CHR ''0''"
    then have "?c d = CHR ''0''" by (simp add: dec_string_def ds)
    then have "digit_value (?c d) = Some 0" by (simp add: digit_value_def)
    then have "d = 0" using small ds by (simp add: digit_value_digit)
    with a digits_no_leading_zero [of 10 n] show False by (simp add: dec_string_def ds)
  qed
  have "take 4 (dec_string n @ t) \<noteq> ''true'' \<and> take 5 (dec_string n @ t) \<noteq> ''false''"
    unfolding head using c by simp
  moreover have "dec_string n @ t \<noteq> [] \<and> is_digit (hd (dec_string n @ t))"
    unfolding head using small ds by (simp add: is_digit_print)
  ultimately show ?thesis
    unfolding json_value_def Let_def tw v using z by simp
qed

text \<open>One member with a number, as the firmware prints it.\<close>

lemma json_one_number:
  assumes "\<forall>c\<in>set k. of_char c \<noteq> (34 :: nat) \<and> of_char c \<noteq> (92 :: nat) \<and> 32 \<le> (of_char c :: nat)"
  shows "json_parse (''{'' @ [CHR 0x22] @ k @ [CHR 0x22] @ '': '' @ dec_string n @ '' }'') = Some [(k, JNum n)]"
proof -
  let ?v = "dec_string n @ '' }''"
  have "json_string (CHR 0x22 # k @ CHR 0x22 # '': '' @ ?v) = Some (k, '': '' @ ?v)"
  proof -
    have "takeWhile (\<lambda>c. of_char c \<noteq> (34 :: nat)) (k @ CHR 0x22 # '': '' @ ?v) = k"
      using assms by (subst takeWhile_append2) auto
    then show ?thesis using assms by (auto simp: json_string_def Let_def)
  qed
  moreover obtain d ds where ds: "digits 10 n = d # ds" by (metis digits_nonempty list.exhaust)
  then have "d < 10" using digits_less [of 10 d n] by simp
  then have "of_char (char_of (48 + d) :: char) = 48 + d"
    by (simp add: of_char_of take_bit_nat_eq_self)
  then have "json_ws (CHR '' '' # ?v) = ?v"
    using \<open>d < 10\<close> by (auto simp: json_ws_def dec_string_def ds)
  moreover have "json_value ?v = Some (JNum n, '' }'')"
    by (rule json_value_print) (simp_all add: is_digit_def digit_value_def)
  moreover have "json_ws (CHR 0x22 # k @ CHR 0x22 # '': '' @ ?v) = CHR 0x22 # k @ CHR 0x22 # '': '' @ ?v"
    by (simp add: json_ws_def)
  ultimately show ?thesis
    by (simp add: json_parse_def json_ws_def)
qed

end
