(* ===== verification/WebPages.thy ===== *)
theory WebPages
  imports Json
begin

text \<open>
  The scripts of the terminal page, \<open>src/html/index.html\<close>: the line editor with its history and
  its hexadecimal mode, the buttons, the web socket that is opened again whenever it closes. Strings
  are lists of characters (code units up to 255).
\<close>

section \<open>Data\<close>

text \<open>What \<open>sendLine\<close> sends: a string, or an array of numbers in hexadecimal mode.\<close>

datatype line_data = Text string | Array "num list"

text \<open>\<open>String(x)\<close> for the numbers \<open>parseInt\<close> returns, and of an array of them.\<close>

definition num_text :: "num \<Rightarrow> string" where
  "num_text x =
     (case x of
        NaN \<Rightarrow> ''NaN''
      | Inf s \<Rightarrow> (if s then ''Infinity'' else ''-Infinity'')
      | Fin a \<Rightarrow> (if a < 0 then ''-'' else []) @ dec_string (nat \<lfloor>\<bar>a\<bar>\<rfloor>))"

fun join :: "string list \<Rightarrow> string" where
  "join [] = []"
| "join [x] = x"
| "join (x # y # r) = x @ '','' @ join (y # r)"

text \<open>What a web socket makes of an argument that is neither a string nor a buffer.\<close>

fun usv_string :: "line_data \<Rightarrow> string" where
  "usv_string (Text s) = s"
| "usv_string (Array ns) = join (map num_text ns)"

text \<open>\<open>s.replace(pat, "")\<close> with a string for a pattern: the first occurrence.\<close>

fun replace_first :: "string \<Rightarrow> string \<Rightarrow> string" where
  "replace_first pat [] = []"
| "replace_first pat (c # cs) =
     (if take (length pat) (c # cs) = pat then drop (length pat) (c # cs) else c # replace_first pat cs)"

text \<open>The loop of \<open>parseHexString\<close>: two characters at a time, a last single one is ignored.\<close>

fun hex_loop :: "string \<Rightarrow> num list" where
  "hex_loop (a # b # r) = parseInt [a, b] 16 # hex_loop r"
| "hex_loop _ = []"

definition parseHexString :: "string \<Rightarrow> num list" where
  "parseHexString s = hex_loop (replace_first '' '' (replace_first ''0x'' s))"

section \<open>The page\<close>

text \<open>
  The global variables of the script and the elements it reads and writes; every web socket made so
  far with its state, the last one being the value of \<open>socket\<close>; the calls that leave the script.
\<close>

datatype sock = Connecting | Open | Closed

datatype page_out =
    Term_write line_data
  | Term_bytes "byte list"
  | Term_clear
  | Sent nat string
  | Http_get string
  | Open_socket string
  | Alert nat

record page =
  line_items :: "string list"
  hist_idx :: int
  line_box :: string
  eol :: string
  echo :: bool
  curbaud :: string
  sockets :: "sock list"
  outs :: "page_out list"

definition emit :: "page_out \<Rightarrow> page \<Rightarrow> page" where
  "emit x p = p\<lparr>outs := outs p @ [x]\<rparr>"

text \<open>A handler returns (\<open>Inr\<close>) or throws (\<open>Inl\<close>), in both cases with the page it leaves behind.\<close>

type_synonym handler = "page \<Rightarrow> page + page"

text \<open>\<open>socket.send\<close>: throws while connecting; what is sent on a closed socket is discarded.\<close>

definition socket_send :: "line_data \<Rightarrow> handler" where
  "socket_send d p =
     (case last (sockets p) of
        Connecting \<Rightarrow> Inl p
      | Open \<Rightarrow> Inr (emit (Sent (length (sockets p) - 1) (usv_string d)) p)
      | Closed \<Rightarrow> Inr p)"

definition line_with_eol :: "string \<Rightarrow> string \<Rightarrow> line_data" where
  "line_with_eol type line =
     (if type = ''cr'' then Text (line @ [CHR 0x0D])
      else if type = ''lf'' then Text (line @ [CHR 0x0A])
      else if type = ''crlf'' then Text (line @ [CHR 0x0D, CHR 0x0A])
      else if type = ''hex'' then Array (parseHexString line)
      else Text line)"

definition remember :: "string \<Rightarrow> page \<Rightarrow> page" where
  "remember line p =
     (if line \<in> set (line_items p) then p
      else p\<lparr>line_items := line_items p @ [line], hist_idx := int (length (line_items p))\<rparr>)"

definition sendLine :: handler where
  "sendLine p =
     (let p1 = remember (line_box p) p; d = line_with_eol (eol p) (line_box p)
      in socket_send d (if echo p then emit (Term_write d) p1 else p1))"

text \<open>The history. An index out of range gives \<open>undefined\<close>, which the text box shows as that word.\<close>

definition item_at :: "string list \<Rightarrow> int \<Rightarrow> string" where
  "item_at xs i = (if 0 \<le> i \<and> nat i < length xs then xs ! nat i else ''undefined'')"

definition arrow_up :: "page \<Rightarrow> page" where
  "arrow_up p =
     (let i = (if int (length (line_items p)) - 1 = hist_idx p then hist_idx p - 1 else hist_idx p)
      in p\<lparr>line_box := item_at (line_items p) i, hist_idx := (if 0 < i then i - 1 else i)\<rparr>)"

definition arrow_down :: "page \<Rightarrow> page" where
  "arrow_down p =
     (let i = (if hist_idx p < int (length (line_items p)) - 1 then hist_idx p + 1 else hist_idx p)
      in p\<lparr>line_box := item_at (line_items p) i, hist_idx := i\<rparr>)"

definition keydown :: "string \<Rightarrow> handler" where
  "keydown key p =
     (if key = ''ArrowUp'' then Inr (arrow_up p)
      else if key = ''ArrowDown'' then Inr (arrow_down p)
      else if key = ''Enter'' then sendLine p
      else Inr p)"

text \<open>The buttons. \<open>set_baud_clicked\<close> gets the answer of the prompt, \<open>None\<close> when it was cancelled.\<close>

definition setBaud :: "num \<Rightarrow> page \<Rightarrow> page" where
  "setBaud baud p = emit (Http_get (''/uart/baud?set='' @ num_text baud)) p"

definition set_baud_clicked :: "string option \<Rightarrow> page \<Rightarrow> page" where
  "set_baud_clicked baud p =
     (case baud of None \<Rightarrow> p | Some t \<Rightarrow> if t = [] then p else setBaud (parseInt t 0) p)"

definition sendBreak :: "page \<Rightarrow> page" where
  "sendBreak p = emit (Http_get ''/uart/break'') p"

section \<open>The web socket\<close>

definition createSocket :: "string \<Rightarrow> page \<Rightarrow> page" where
  "createSocket host p =
     emit (Open_socket (''ws://'' @ host @ ''/terminal'')) (p\<lparr>sockets := sockets p @ [Connecting]\<rparr>)"

definition banner :: string where
  "banner = CHR 0x1B # ''[1;3;31m[Websocket] Connection established'' @ CHR 0x1B # ''[0m'' @ [CHR 0x0D, CHR 0x0A]"

definition socket_opened :: "nat \<Rightarrow> page \<Rightarrow> page" where
  "socket_opened k p = emit (Term_write (Text banner)) (p\<lparr>sockets := (sockets p)[k := Open]\<rparr>)"

definition socket_message :: "byte list \<Rightarrow> page \<Rightarrow> page" where
  "socket_message b p = emit (Term_bytes b) p"

definition socket_closed :: "string \<Rightarrow> nat \<Rightarrow> bool \<Rightarrow> page \<Rightarrow> page" where
  "socket_closed host k wasClean p =
     createSocket host
       (emit (Term_write (Text (if wasClean then ''[Websocket] Connection closed'' else ''[Websocket] Connection died'')))
          (p\<lparr>sockets := (sockets p)[k := Closed]\<rparr>))"

text \<open>The page when its script has run.\<close>

definition page_loaded :: "string \<Rightarrow> page" where
  "page_loaded host =
     createSocket host \<lparr>line_items = [], hist_idx = -1, line_box = [], eol = ''cr'', echo = True,
       curbaud = ''-'', sockets = [], outs = [Http_get ''/uart/baud'']\<rparr>"

section \<open>Answers about the baud rate\<close>

text \<open>
  \<open>d["baudrate"]\<close> as the text of an element; a text that is not JSON makes the handler throw.
\<close>

fun json_text :: "json option \<Rightarrow> string" where
  "json_text (Some (JNum n)) = dec_string n"
| "json_text (Some (JBool b)) = (if b then ''true'' else ''false'')"
| "json_text (Some (JStr s)) = s"
| "json_text None = []"

definition baud_answer :: "string \<Rightarrow> handler" where
  "baud_answer body p =
     (case json_parse body of
        None \<Rightarrow> Inl p
      | Some d \<Rightarrow> Inr (p\<lparr>curbaud := json_text (json_get ''baudrate'' d)\<rparr>))"

text \<open>The answer to the request made when the page was loaded is checked for its status, that to \<open>setBaud\<close> is not.\<close>

definition first_baud_answer :: "nat \<Rightarrow> string \<Rightarrow> handler" where
  "first_baud_answer status body p =
     (if status \<noteq> 200 then Inr (emit (Alert status) p) else baud_answer body p)"

section \<open>Events\<close>

datatype page_event =
    Edit string
  | Select string
  | Tick bool
  | Key string
  | Click_send
  | Click_break
  | Click_clear
  | Click_baud "string option"
  | Typed string
  | Opened nat
  | Message nat "byte list"
  | Close nat bool
  | First_baud nat string
  | Baud_set string

fun handle :: "string \<Rightarrow> page_event \<Rightarrow> handler" where
  "handle host (Edit s) p = Inr (p\<lparr>line_box := s\<rparr>)"
| "handle host (Select s) p = Inr (p\<lparr>eol := s\<rparr>)"
| "handle host (Tick b) p = Inr (p\<lparr>echo := b\<rparr>)"
| "handle host (Key k) p = keydown k p"
| "handle host Click_send p = sendLine p"
| "handle host Click_break p = Inr (sendBreak p)"
| "handle host Click_clear p = Inr (emit Term_clear p)"
| "handle host (Click_baud a) p = Inr (set_baud_clicked a p)"
| "handle host (Typed s) p = socket_send (Text s) p"
| "handle host (Opened k) p = Inr (socket_opened k p)"
| "handle host (Message k b) p = Inr (socket_message b p)"
| "handle host (Close k c) p = Inr (socket_closed host k c p)"
| "handle host (First_baud s b) p = first_baud_answer s b p"
| "handle host (Baud_set b) p = baud_answer b p"

text \<open>When the browser delivers an event: a socket opens once, gets messages while open, closes once.\<close>

fun possible :: "page_event \<Rightarrow> page \<Rightarrow> bool" where
  "possible (Opened k) p = (k < length (sockets p) \<and> sockets p ! k = Connecting)"
| "possible (Message k b) p = (k < length (sockets p) \<and> sockets p ! k = Open)"
| "possible (Close k c) p = (k < length (sockets p) \<and> sockets p ! k \<noteq> Closed)"
| "possible _ p = True"

text \<open>A handler that throws leaves the page as it is; the next event comes all the same.\<close>

definition page_after :: "'p + 'p \<Rightarrow> 'p" where
  "page_after r = (case r of Inl p \<Rightarrow> p | Inr p \<Rightarrow> p)"

inductive page_reachable :: "string \<Rightarrow> page \<Rightarrow> bool" for host where
  loaded: "page_reachable host (page_loaded host)"
| event: "page_reachable host p \<Longrightarrow> possible ev p \<Longrightarrow> page_reachable host (page_after (handle host ev p))"

section \<open>The invariant of the page\<close>

definition one_socket :: "page \<Rightarrow> bool" where
  "one_socket p \<longleftrightarrow> (\<exists>n t. sockets p = replicate n Closed @ [t] \<and> t \<noteq> Closed)"

definition history_ok :: "page \<Rightarrow> bool" where
  "history_ok p \<longleftrightarrow> distinct (line_items p) \<and>
     (if line_items p = [] then hist_idx p \<in> {-1, -2}
      else -1 \<le> hist_idx p \<and> hist_idx p < int (length (line_items p)))"

lemma emit_simps [simp]:
  "sockets (emit x p) = sockets p" "line_items (emit x p) = line_items p" "hist_idx (emit x p) = hist_idx p"
  "line_box (emit x p) = line_box p" "curbaud (emit x p) = curbaud p" "outs (emit x p) = outs p @ [x]"
  "one_socket (emit x p) = one_socket p" "history_ok (emit x p) = history_ok p"
  by (simp_all add: emit_def one_socket_def history_ok_def)

lemma live_socket_last:
  assumes "sockets p = replicate n Closed @ [t]" and "k < length (sockets p)" and "sockets p ! k \<noteq> Closed"
  shows "k = n"
  using assms by (auto simp: nth_append less_Suc_eq split: if_splits)

lemma history_remember: "history_ok p \<Longrightarrow> history_ok (remember l p)"
  by (auto simp: history_ok_def remember_def split: if_splits)

lemma history_arrows: "history_ok p \<Longrightarrow> history_ok (arrow_up p) \<and> history_ok (arrow_down p)"
  by (cases "line_items p") (auto simp: history_ok_def arrow_up_def arrow_down_def Let_def)

lemma send_after:
  "sockets (page_after (socket_send d p)) = sockets p" "history_ok (page_after (socket_send d p)) = history_ok p"
  by (cases "last (sockets p)"; simp add: socket_send_def page_after_def)+

lemma sendLine_after:
  "sockets (page_after (sendLine p)) = sockets p" "history_ok p \<Longrightarrow> history_ok (page_after (sendLine p))"
  by (auto simp: sendLine_def Let_def send_after history_remember) (auto simp: remember_def)

lemma one_socket_only: "sockets q = sockets p \<Longrightarrow> one_socket q = one_socket p"
  by (simp add: one_socket_def)

lemma one_socket_opened: "one_socket p \<Longrightarrow> possible (Opened k) p \<Longrightarrow> one_socket (socket_opened k p)"
  using live_socket_last [of p _ _ k]
  by (fastforce simp: socket_opened_def one_socket_def list_update_append)

lemma one_socket_closed:
  assumes "one_socket p" and "possible (Close k c) p"
  shows "one_socket (socket_closed host k c p)"
proof -
  obtain n t where p: "sockets p = replicate n Closed @ [t]" using assms(1) by (auto simp: one_socket_def)
  have "k = n" using live_socket_last [OF p] assms(2) by simp
  then have "sockets (socket_closed host k c p) = replicate (Suc n) Closed @ [Connecting]"
    by (simp add: socket_closed_def createSocket_def p list_update_append replicate_append_same)
  then show ?thesis unfolding one_socket_def by blast
qed

lemma handle_one_socket:
  assumes "one_socket p" and "possible ev p"
  shows "one_socket (page_after (handle host ev p))"
proof (cases ev)
  case (Opened k)
  then show ?thesis using one_socket_opened assms by (simp add: page_after_def)
next
  case (Close k c)
  then show ?thesis using one_socket_closed assms by (simp add: page_after_def)
next
  case (Key k)
  then show ?thesis
    using assms one_socket_only [OF sendLine_after(1)]
    by (auto simp: keydown_def page_after_def arrow_up_def arrow_down_def Let_def one_socket_def)
qed (use assms one_socket_only [OF sendLine_after(1)] one_socket_only [OF send_after(1)] in
     \<open>auto simp: page_after_def sendBreak_def set_baud_clicked_def setBaud_def socket_message_def one_socket_def
        first_baud_answer_def baud_answer_def split: option.splits\<close>)

lemma history_ok_others [simp]:
  "history_ok (p\<lparr>line_box := b\<rparr>) = history_ok p" "history_ok (p\<lparr>eol := e\<rparr>) = history_ok p"
  "history_ok (p\<lparr>echo := t\<rparr>) = history_ok p" "history_ok (p\<lparr>curbaud := c\<rparr>) = history_ok p"
  "history_ok (p\<lparr>sockets := s\<rparr>) = history_ok p"
  by (simp_all add: history_ok_def)

lemma handle_history:
  assumes "history_ok p"
  shows "history_ok (page_after (handle host ev p))"
proof (cases ev)
  case (Key k)
  then show ?thesis
    using assms history_arrows [of p] sendLine_after(2) by (auto simp: keydown_def page_after_def)
next
  case (Click_baud a)
  then show ?thesis
    using assms by (cases a) (auto simp: page_after_def set_baud_clicked_def setBaud_def)
next
  case (Baud_set b)
  then show ?thesis using assms by (simp add: page_after_def baud_answer_def split: option.split)
next
  case (First_baud st b)
  then show ?thesis using assms by (simp add: page_after_def first_baud_answer_def baud_answer_def split: option.split)
next
  case (Typed t)
  then show ?thesis using assms by (simp add: send_after)
next
  case Click_send
  then show ?thesis using assms sendLine_after(2) by simp
qed (use assms in \<open>simp_all add: page_after_def sendBreak_def socket_message_def socket_opened_def
        socket_closed_def createSocket_def\<close>)



section \<open>The history\<close>

lemma arrow_up_step:
  assumes "line_items p = xs @ [l]" and "hist_idx p = int j" and "j < length xs"
  shows "arrow_up p = p\<lparr>line_box := xs ! j, hist_idx := int (j - 1)\<rparr>"
  using assms by (simp add: arrow_up_def Let_def item_at_def nth_append of_nat_diff)

lemma arrow_up_newest:
  assumes "line_items p = xs @ [l]" and "hist_idx p = int (length xs)" and "xs \<noteq> []"
  shows "arrow_up p = p\<lparr>line_box := xs ! (length xs - 1), hist_idx := int (length xs - 2)\<rparr>"
proof -
  obtain n where n: "length xs = Suc n" using assms(3) by (cases xs) auto
  then show ?thesis
    using assms by (simp add: arrow_up_def Let_def item_at_def nth_append of_nat_diff)
qed

lemma arrow_up_walk:
  assumes "line_items p = xs @ [l]" and "hist_idx p = int (length xs)" and "xs \<noteq> []"
  shows "0 < k \<Longrightarrow> line_items ((arrow_up ^^ k) p) = xs @ [l]
    \<and> hist_idx ((arrow_up ^^ k) p) = int (length xs - 1 - k)
    \<and> line_box ((arrow_up ^^ k) p) = xs ! (length xs - min k (length xs))"
proof (induction k)
  case (Suc k)
  have len: "0 < length xs" using assms(3) by simp
  show ?case
  proof (cases "k = 0")
    case True
    then show ?thesis using arrow_up_newest [OF assms] assms(1) len
      by (simp add: min_def Suc_le_eq numeral_2_eq_2)
  next
    case False
    then have ih: "line_items ((arrow_up ^^ k) p) = xs @ [l]" "hist_idx ((arrow_up ^^ k) p) = int (length xs - 1 - k)"
      using Suc.IH by simp_all
    have at: "length xs - 1 - k = length xs - min (Suc k) (length xs)" "length xs - 1 - k < length xs"
      using len by (simp_all add: min_def)
    from arrow_up_step [OF ih at(2)] ih(1) at(1) show ?thesis by simp
  qed
qed simp

lemma arrow_up_single:
  assumes "line_items p = [l]" and "hist_idx p = 0"
  shows "0 < k \<Longrightarrow> line_items ((arrow_up ^^ k) p) = [l] \<and> hist_idx ((arrow_up ^^ k) p) = -1
    \<and> line_box ((arrow_up ^^ k) p) = ''undefined''"
proof (induction k)
  case (Suc k)
  then show ?case using assms by (cases "k = 0") (simp_all add: arrow_up_def item_at_def)
qed simp

text \<open>
  Walking up the history after a new line \<open>l\<close> has been sent: the first step shows the line before
  it, each further step the one before that, and the walk stops at the oldest. The line just sent is
  never shown; when it is the only one, the box shows the word \<open>undefined\<close>.
\<close>

theorem history_skips_newest:
  assumes "line_items p = xs" and "l \<notin> set xs" and "0 < k"
  shows "line_box ((arrow_up ^^ k) (remember l p))
    = (if xs = [] then ''undefined'' else xs ! (length xs - min k (length xs)))"
  using arrow_up_walk [of "remember l p" xs l k] arrow_up_single [of "remember l p" l k] assms
  by (auto simp: remember_def)

theorem history_skips_newest_witness:
  "line_box ((arrow_up ^^ 1) (remember ''c'' ((page_loaded ''bm'')\<lparr>line_items := [''a'', ''b'']\<rparr>))) = ''b''"
  using history_skips_newest [of "(page_loaded ''bm'')\<lparr>line_items := [''a'', ''b'']\<rparr>" "[''a'', ''b'']" "''c''" 1]
  by simp

section \<open>Hexadecimal input\<close>

definition hex_char :: "nat \<Rightarrow> char" where
  "hex_char d = (if d < 10 then char_of (48 + d) else char_of (87 + d))"

definition hex_pair :: "byte \<Rightarrow> string" where
  "hex_pair b = [hex_char (unat b div 16), hex_char (unat b mod 16)]"

definition byte_num :: "byte \<Rightarrow> num" where
  "byte_num b = Fin (of_nat (unat b))"

lemma hex_char_facts:
  assumes "d < 16"
  shows "digit_value (hex_char d) = Some d" "hex_char d \<noteq> CHR ''x''" "hex_char d \<noteq> CHR ''X''"
    "hex_char d \<noteq> CHR '' ''" "hex_char d \<noteq> CHR ''-''" "hex_char d \<noteq> CHR ''+''" "\<not> js_space (hex_char d)"
proof -
  have v: "of_char (hex_char d) = (if d < 10 then 48 + d else 87 + d)"
    using assms by (simp add: hex_char_def of_char_of take_bit_nat_eq_self)
  then show "digit_value (hex_char d) = Some d" "\<not> js_space (hex_char d)"
    using assms by (simp_all add: digit_value_def js_space_def)
  have ne: "hex_char d \<noteq> c" if "of_char c < (48 :: nat) \<or> 102 < (of_char c :: nat) \<or> of_char c \<in> {58..<97 :: nat}" for c
    using that v assms by (auto split: if_splits)
  show "hex_char d \<noteq> CHR ''x''" "hex_char d \<noteq> CHR ''X''"
    "hex_char d \<noteq> CHR '' ''" "hex_char d \<noteq> CHR ''-''" "hex_char d \<noteq> CHR ''+''"
    by (rule ne, simp)+
qed

lemma to_num_byte: "to_num (of_nat (unat b)) = Fin (of_nat (unat (b :: byte)))" "to_num (of_nat (unat b div 16)) = Fin (of_nat (unat b div 16))"
  using unsigned_less [of b, where 'a = nat] by (intro to_num_nat; simp)+

lemma parseInt_hex_pair: "parseInt (hex_pair b) 16 = byte_num b"
proof -
  have d: "unat b div 16 < 16" "unat b mod 16 < 16" using unat_byte_div16 [of b] by simp_all
  have "16 * (unat b div 16) + unat b mod 16 = unat b" by simp
  then show ?thesis
    using hex_char_facts [OF d(1)] hex_char_facts [OF d(2)] d
    using to_num_byte(1) [of b] by (simp add: parseInt_def hex_pair_def hex_prefix_def byte_num_def Let_def)
qed

lemma hex_loop_pairs: "hex_loop (concat (map hex_pair bs) @ r) = map byte_num bs @ hex_loop r"
  by (induction bs) (simp_all add: hex_pair_def parseInt_hex_pair [unfolded hex_pair_def])

text \<open>Replacing does nothing where the characters of the pattern do not occur.\<close>

lemma replace_first_id: "c \<in> set pat \<Longrightarrow> c \<notin> set s \<Longrightarrow> replace_first pat s = s"
proof (induction s)
  case (Cons d s)
  have "take (length pat) (d # s) \<noteq> pat"
    using Cons.prems in_set_takeD [of c "length pat" "d # s"] by metis
  with Cons show ?case by simp
qed simp

lemma hex_pairs_plain: "CHR ''x'' \<notin> set (concat (map hex_pair bs)) \<and> CHR '' '' \<notin> set (concat (map hex_pair bs))"
proof -
  have "hex_char (unat b div 16) \<noteq> c \<and> hex_char (unat b mod 16) \<noteq> c" if "c = CHR ''x'' \<or> c = CHR '' ''" for b :: byte and c
    using that hex_char_facts(2,4) [OF unat_byte_div16 [of b]] hex_char_facts(2,4) [of "unat b mod 16"] by auto
  then show ?thesis by (force simp: hex_pair_def)
qed

lemma parse_pairs: "parseHexString (concat (map hex_pair bs)) = map byte_num bs"
  using hex_loop_pairs [of bs "[]"] hex_pairs_plain [of bs]
  by (simp add: parseHexString_def replace_first_id [of "CHR ''x''"] replace_first_id [of "CHR '' ''"])

lemma num_text_nat: "num_text (Fin (of_nat n)) = dec_string n"
  by (simp add: num_text_def)

text \<open>
  Hexadecimal mode, for a line of pairs of digits and an open socket: the terminal shows the
  bytes themselves, but what goes out on the socket is the list of their values in decimal, with
  commas, as a text: an array is no buffer, and the socket takes its string.
\<close>

theorem hex_mode_sends_decimal:
  assumes "sockets p = replicate n Closed @ [Open]" and "eol p = ''hex''" and "echo p"
    and "line_box p = concat (map hex_pair bs)"
  shows "\<exists>q. sendLine p = Inr q \<and> outs q = outs p @
    [Term_write (Array (map byte_num bs)), Sent n (join (map (\<lambda>b. dec_string (unat b)) bs))]"
proof -
  have "usv_string (Array (map byte_num bs)) = join (map (\<lambda>b. dec_string (unat b)) bs)"
    by (simp only: usv_string.simps map_map comp_def byte_num_def num_text_nat)
  moreover have "sockets (remember l p) = sockets p" "outs (remember l p) = outs p" for l
    by (simp_all add: remember_def)
  ultimately show ?thesis
    using assms by (simp add: sendLine_def Let_def line_with_eol_def parse_pairs socket_send_def)
qed

theorem hex_mode_sends_decimal_witness:
  "\<exists>q. sendLine ((page_loaded ''bm'')\<lparr>sockets := [Open], eol := ''hex'', line_box := concat (map hex_pair [10, 255])\<rparr>) = Inr q
     \<and> outs q = outs (page_loaded ''bm'') @ [Term_write (Array [Fin 10, Fin 255]), Sent 0 ''10,255'']"
proof -
  let ?p = "(page_loaded ''bm'')\<lparr>sockets := [Open], eol := ''hex'', line_box := concat (map hex_pair [10, 255])\<rparr>"
  have d: "dec_string 10 = ''10''" "dec_string 255 = ''255''"
    by (simp_all add: dec_string_def digits.simps char_of_def bit_0)
  have p: "sockets ?p = replicate 0 Closed @ [Open]" "eol ?p = ''hex''" "echo ?p" "outs ?p = outs (page_loaded ''bm'')"
    "line_box ?p = concat (map hex_pair [10, 255])"
    by (simp_all add: page_loaded_def createSocket_def emit_def)
  have n: "map byte_num [10, 255] = [Fin 10, Fin 255]"
    "join (map (\<lambda>b. dec_string (unat b)) [10 :: byte, 255]) = ''10,255''"
    by (simp_all add: byte_num_def d)
  from hex_mode_sends_decimal [OF p(1,2,3,5)] show ?thesis unfolding n p(4) .
qed

text \<open>
  \<open>parseHexString\<close> reads any bytes written as pairs of digits, also after a \<open>0x\<close>. Only the first
  space is taken out, so that of three bytes with spaces between them the last is misread: it comes
  out as its upper digit.
\<close>

theorem parseHexString_reads:
  "parseHexString (concat (map hex_pair bs)) = map byte_num bs
   \<and> parseHexString (''0x'' @ concat (map hex_pair bs)) = map byte_num bs
   \<and> parseHexString (hex_pair a @ '' '' @ hex_pair b @ '' '' @ hex_pair c)
     = [byte_num a, byte_num b, Fin (of_nat (unat c div 16))]"
proof (intro conjI)
  show "parseHexString (concat (map hex_pair bs)) = map byte_num bs" by (rule parse_pairs)
  show "parseHexString (''0x'' @ concat (map hex_pair bs)) = map byte_num bs"
    using hex_loop_pairs [of bs "[]"] hex_pairs_plain [of bs]
    by (simp add: parseHexString_def replace_first_id [of "CHR '' ''"])
  have plain: "hex_char (unat x div 16) \<noteq> CHR '' ''" "hex_char (unat x mod 16) \<noteq> CHR '' ''"
    "hex_char (unat x div 16) \<noteq> CHR ''x''" "hex_char (unat x mod 16) \<noteq> CHR ''x''" for x :: byte
    using hex_char_facts [OF unat_byte_div16 [of x]] hex_char_facts [of "unat x mod 16"] by simp_all
  have last: "parseInt [CHR '' '', hex_char (unat c div 16)] 16 = Fin (of_nat (unat c div 16))"
    using hex_char_facts [OF unat_byte_div16 [of c]] unat_byte_div16 [of c]
    using to_num_byte(2) [of c] by (simp add: parseInt_def hex_prefix_def js_space_def Let_def)
  have "CHR ''x'' \<notin> set (hex_pair a @ '' '' @ hex_pair b @ '' '' @ hex_pair c)"
    using plain(3,4) by (force simp: hex_pair_def)
  then have "replace_first ''0x'' (hex_pair a @ '' '' @ hex_pair b @ '' '' @ hex_pair c)
      = hex_pair a @ '' '' @ hex_pair b @ '' '' @ hex_pair c"
    by (rule replace_first_id [rotated]) simp
  then show "parseHexString (hex_pair a @ '' '' @ hex_pair b @ '' '' @ hex_pair c)
     = [byte_num a, byte_num b, Fin (of_nat (unat c div 16))]"
    using plain last parseInt_hex_pair [of a] parseInt_hex_pair [of b]
    by (simp add: parseHexString_def hex_pair_def)
qed

end
