(* ===== verification/UpgradePage.thy ===== *)
theory UpgradePage
  imports WebPages
begin

text \<open>
  The script of the upgrade page, \<open>src/html/flash/index.html\<close>, and the two helpers it uses from
  \<open>src/html/flash/140medley.min.js\<close>. The page has one \<open>XMLHttpRequest\<close> for all its requests; opening
  it again while a request is under way abandons that request.
\<close>

section \<open>The helpers\<close>

text \<open>
  \<open>$(selector)\<close>: the first character chooses the lookup when it is neither a letter, a digit nor an
  underscore; a line end ends the name.
\<close>

datatype lookup = By_id string | By_class string | By_tag string

definition word_char :: "char \<Rightarrow> bool" where
  "word_char c \<longleftrightarrow> digit_value c \<noteq> None \<or> c = CHR ''_''"

definition dollar :: "string \<Rightarrow> lookup" where
  "dollar a =
     (let odd = (a \<noteq> [] \<and> \<not> word_char (hd a)); name = takeWhile (\<lambda>c. c \<noteq> CHR 0x0A \<and> c \<noteq> CHR 0x0D) (if odd then tl a else a)
      in if \<not> odd then By_tag name else if hd a = CHR ''#'' then By_id name else By_class name)"

text \<open>\<open>j()\<close>: the first of four constructors that does not throw; \<open>None\<close> (undefined) when all do.\<close>

definition first_xhr :: "(nat \<Rightarrow> 'x option) \<Rightarrow> 'x option" where
  "first_xhr ctor = (case filter (\<lambda>a. ctor a \<noteq> None) [0..<4] of [] \<Rightarrow> None | a # _ \<Rightarrow> ctor a)"

section \<open>The page\<close>

text \<open>
  The handler of a request in flight, set when it was opened; what the page does outside the script.
  \<open>bar\<close> is the width of the progress bar in pixels, \<open>timers\<close> the number of timeouts that will reload
  the page. The paths are those the relative URLs of the script stand for.
\<close>

datatype callback = On_next | On_upload | On_reboot

datatype upage_out =
    Send string string "nat option"
  | Reload

record upage =
  remark :: string
  bar :: rat
  in_flight :: "callback option"
  timers :: nat
  uouts :: "upage_out list"

text \<open>\<open>xhr.open\<close> and \<open>xhr.send\<close>; a file to be sent is known by a number.\<close>

definition xhr_request :: "string \<Rightarrow> string \<Rightarrow> nat option \<Rightarrow> callback \<Rightarrow> upage \<Rightarrow> upage" where
  "xhr_request meth url body cb p = p\<lparr>in_flight := Some cb, uouts := uouts p @ [Send meth (''/flash/'' @ url) body]\<rparr>"

text \<open>A width that is no number, infinite or negative is not a length: the style keeps its value.\<close>

definition setProgress :: "num \<Rightarrow> upage \<Rightarrow> upage" where
  "setProgress amt p = (case jmul amt (Fin 200) of Fin a \<Rightarrow> if 0 \<le> a then p\<lparr>bar := a\<rparr> else p | _ \<Rightarrow> p)"

definition doReboot :: "upage \<Rightarrow> upage" where
  "doReboot p = xhr_request ''GET'' ''reboot'' None On_reboot p"

definition doUpgrade :: "nat option \<Rightarrow> upage \<Rightarrow> upage" where
  "doUpgrade f p =
     (case f of
        None \<Rightarrow> p\<lparr>remark := ''Can'' @ [CHR 0x27] @ ''t read file!''\<rparr>
      | Some f \<Rightarrow> xhr_request ''POST'' ''upload'' (Some f) On_upload p)"

definition upage_onload :: "upage \<Rightarrow> upage" where
  "upage_onload p = xhr_request ''GET'' ''next'' None On_next p"

text \<open>The handlers, for a request that has been answered with a status from 200 to 299.\<close>

fun truthy :: "json option \<Rightarrow> bool" where
  "truthy (Some (JNum n)) = (n \<noteq> 0)"
| "truthy (Some (JBool b)) = b"
| "truthy (Some (JStr s)) = (s \<noteq> [])"
| "truthy None = False"

definition upload_answer :: "string \<Rightarrow> upage \<Rightarrow> upage + upage" where
  "upload_answer txt p =
     (let p = setProgress (Fin 1) p
      in case json_parse txt of
           None \<Rightarrow> Inl p
         | Some response \<Rightarrow>
             if \<not> truthy (json_get ''success'' response) then Inr (p\<lparr>remark := ''Error: '' @ txt\<rparr>)
             else Inr (doReboot (p\<lparr>remark := ''Uploading done. Rebooting.''\<rparr>)))"

definition next_answer :: "string \<Rightarrow> upage \<Rightarrow> upage" where
  "next_answer txt p = setProgress (Fin 0) (p\<lparr>remark := ''Please upload '' @ txt @ '' or ota file.''\<rparr>)"

definition reboot_answer :: "upage \<Rightarrow> upage" where
  "reboot_answer p = p\<lparr>timers := timers p + 1\<rparr>"

definition ok_status :: "nat \<Rightarrow> bool" where
  "ok_status s \<longleftrightarrow> 200 \<le> s \<and> s < 300"

text \<open>The end of the request in flight; its status is 0 when the network failed.\<close>

definition xhr_done :: "nat \<Rightarrow> string \<Rightarrow> upage \<Rightarrow> upage + upage" where
  "xhr_done status txt p =
     (let q = p\<lparr>in_flight := None\<rparr>
      in if \<not> ok_status status then Inr q
         else
           (case in_flight p of
              Some On_next \<Rightarrow> Inr (next_answer txt q)
            | Some On_upload \<Rightarrow> upload_answer txt q
            | Some On_reboot \<Rightarrow> Inr (reboot_answer q)
            | None \<Rightarrow> Inr q))"

definition upload_progress :: "rat \<Rightarrow> rat \<Rightarrow> upage \<Rightarrow> upage" where
  "upload_progress loaded all p = setProgress (jdiv (Fin loaded) (Fin all)) p"

text \<open>The page as it is shown, with what has been sent before, and after its \<open>onload\<close>.\<close>

definition upage_shown :: "upage_out list \<Rightarrow> upage" where
  "upage_shown os = upage_onload \<lparr>remark = ''Loading...'', bar = 10, in_flight = None, timers = 0, uouts = os\<rparr>"

datatype upage_event =
    Upgrade_clicked "nat option"
  | Answered nat string
  | Progress nat nat
  | Timer

fun uhandle :: "upage_event \<Rightarrow> upage \<Rightarrow> upage + upage" where
  "uhandle (Upgrade_clicked f) p = Inr (doUpgrade f p)"
| "uhandle (Answered s t) p = xhr_done s t p"
| "uhandle (Progress l n) p = Inr (upload_progress (of_nat l) (of_nat n) p)"
| "uhandle Timer p = Inr (upage_shown (uouts p @ [Reload]))"

text \<open>What the browser delivers: the answer and the progress of the request in flight, timeouts that were set.\<close>

fun upossible :: "upage_event \<Rightarrow> upage \<Rightarrow> bool" where
  "upossible (Upgrade_clicked f) p = True"
| "upossible (Answered s t) p = (in_flight p \<noteq> None)"
| "upossible (Progress l n) p = (in_flight p = Some On_upload \<and> l \<le> n)"
| "upossible Timer p = (0 < timers p)"

text \<open>The events so far, the newest last, and the page they lead to.\<close>

inductive upage_run :: "upage_event list \<Rightarrow> upage \<Rightarrow> bool" where
  shown: "upage_run [] (upage_shown [])"
| event: "upage_run evs p \<Longrightarrow> upossible ev p \<Longrightarrow> upage_run (evs @ [ev]) (page_after (uhandle ev p))"

inductive_cases upage_runE: "upage_run (evs @ [ev]) p"

section \<open>Which requests are made, and when\<close>

lemma xhr_request_simps [simp]:
  "in_flight (xhr_request m u b cb p) = Some cb" "uouts (xhr_request m u b cb p) = uouts p @ [Send m (''/flash/'' @ u) b]"
  "timers (xhr_request m u b cb p) = timers p" "bar (xhr_request m u b cb p) = bar p" "remark (xhr_request m u b cb p) = remark p"
  by (simp_all add: xhr_request_def)

lemma setProgress_simps [simp]:
  "in_flight (setProgress a p) = in_flight p" "uouts (setProgress a p) = uouts p" "timers (setProgress a p) = timers p"
  "remark (setProgress a p) = remark p"
  by (simp_all add: setProgress_def split: num.split)

definition reboot_request :: upage_out where
  "reboot_request = Send ''GET'' ''/flash/reboot'' None"

text \<open>An answer that says the upload was a success.\<close>

fun success_answer :: "upage_event \<Rightarrow> bool" where
  "success_answer (Answered s t) =
     (ok_status s \<and> (case json_parse t of None \<Rightarrow> False | Some d \<Rightarrow> truthy (json_get ''success'' d)))"
| "success_answer _ = False"

text \<open>What one event adds to the output.\<close>

lemma uhandle_outs:
  "uouts (page_after (uhandle ev p)) = uouts p @
     (case ev of
        Upgrade_clicked f \<Rightarrow> (case f of None \<Rightarrow> [] | Some f \<Rightarrow> [Send ''POST'' ''/flash/upload'' (Some f)])
      | Answered s t \<Rightarrow> (if in_flight p = Some On_upload \<and> success_answer ev then [reboot_request] else [])
      | Progress l n \<Rightarrow> []
      | Timer \<Rightarrow> [Reload, Send ''GET'' ''/flash/next'' None])"
  by (auto simp: page_after_def doUpgrade_def xhr_done_def Let_def upload_answer_def doReboot_def next_answer_def
      reboot_answer_def upload_progress_def upage_shown_def upage_onload_def reboot_request_def
      split: upage_event.split option.split callback.split)

text \<open>
  The request in flight is the last one made; a timeout has been set only after an answer to a request
  for a restart.
\<close>

definition flight_ok :: "upage \<Rightarrow> bool" where
  "flight_ok p \<longleftrightarrow>
     (case in_flight p of
        None \<Rightarrow> True
      | Some cb \<Rightarrow> uouts p \<noteq> [] \<and>
          last (uouts p) \<in> (case cb of
             On_next \<Rightarrow> {Send ''GET'' ''/flash/next'' None}
           | On_upload \<Rightarrow> range (\<lambda>f. Send ''POST'' ''/flash/upload'' (Some f))
           | On_reboot \<Rightarrow> {reboot_request}))
     \<and> (0 < timers p \<longrightarrow> reboot_request \<in> set (uouts p))"

lemma flight_ok_step:
  assumes "flight_ok p"
  shows "flight_ok (page_after (uhandle ev p))"
proof (cases ev)
  case (Answered s t)
  have last_in: "reboot_request \<in> set (uouts p)" if "in_flight p = Some On_reboot"
    using assms that last_in_set [of "uouts p"] by (auto simp: flight_ok_def)
  from Answered assms last_in show ?thesis
    by (auto simp: flight_ok_def page_after_def xhr_done_def Let_def upload_answer_def doReboot_def next_answer_def
        reboot_answer_def reboot_request_def split: option.split callback.split)
qed (use assms in \<open>auto simp: flight_ok_def page_after_def doUpgrade_def upload_progress_def upage_shown_def
       upage_onload_def split: option.split\<close>)

lemma upage_run_ok: "upage_run evs p \<Longrightarrow> flight_ok p"
proof (induction rule: upage_run.induct)
  case shown
  show ?case by (simp add: flight_ok_def upage_shown_def upage_onload_def)
next
  case (event evs p ev)
  then show ?case using flight_ok_step by blast
qed

declare uhandle.simps [simp del]

text \<open>An order of requests in which a restart follows directly upon an upload, and a reload comes after a restart.\<close>

definition good_order :: "upage_out list \<Rightarrow> bool" where
  "good_order os \<longleftrightarrow> (\<forall>i < length os.
     (os ! i = reboot_request \<longrightarrow> 0 < i \<and> (\<exists>f. os ! (i - 1) = Send ''POST'' ''/flash/upload'' (Some f)))
     \<and> (os ! i = Reload \<longrightarrow> reboot_request \<in> set (take i os)))"

lemma good_order_Nil: "good_order []"
  by (simp add: good_order_def)

lemma good_order_snoc:
  "good_order (os @ [x]) \<longleftrightarrow> good_order os
     \<and> (x = reboot_request \<longrightarrow> os \<noteq> [] \<and> (\<exists>f. last os = Send ''POST'' ''/flash/upload'' (Some f)))
     \<and> (x = Reload \<longrightarrow> reboot_request \<in> set os)"
  (is "?L \<longleftrightarrow> ?R")
proof -
  let ?P = "\<lambda>ys i. (ys ! i = reboot_request \<longrightarrow> 0 < i \<and> (\<exists>f. ys ! (i - 1) = Send ''POST'' ''/flash/upload'' (Some f)))
     \<and> (ys ! i = Reload \<longrightarrow> reboot_request \<in> set (take i ys))"
  have "?P (os @ [x]) i = ?P os i" if "i < length os" for i
    using that less_imp_diff_less [OF that, of 1] by (simp add: nth_append)
  moreover have "?P (os @ [x]) (length os) \<longleftrightarrow>
      (x = reboot_request \<longrightarrow> os \<noteq> [] \<and> (\<exists>f. last os = Send ''POST'' ''/flash/upload'' (Some f))) \<and> (x = Reload \<longrightarrow> reboot_request \<in> set os)"
    by (cases os rule: rev_cases) (auto simp: nth_append reboot_request_def)
  ultimately show ?thesis
    unfolding good_order_def length_append_singleton less_Suc_eq by blast
qed

lemma upage_order: "upage_run evs p \<Longrightarrow> good_order (uouts p)"
proof (induction rule: upage_run.induct)
  case shown
  show ?case
    using good_order_snoc [of "[]"] by (simp add: upage_shown_def upage_onload_def reboot_request_def good_order_Nil)
next
  case (event evs p ev)
  have ok: "flight_ok p" using event(1) by (rule upage_run_ok)
  show ?case
  proof (cases ev)
    case (Upgrade_clicked f)
    then show ?thesis using event.IH by (cases f) (simp_all add: uhandle_outs good_order_snoc reboot_request_def)
  next
    case (Answered s t)
    then show ?thesis
      using event.IH ok by (auto simp: uhandle_outs good_order_snoc reboot_request_def flight_ok_def)
  next
    case (Progress l n)
    then show ?thesis using event.IH by (simp add: uhandle_outs)
  next
    case Timer
    have "reboot_request \<in> set (uouts p)" using event(2) ok Timer by (simp add: flight_ok_def)
    with event.IH good_order_snoc [of "uouts p" Reload] good_order_snoc [of "uouts p @ [Reload]"]
    show ?thesis by (simp add: Timer uhandle_outs reboot_request_def)
  qed
qed

lemma upage_reboots: "upage_run evs p \<Longrightarrow> count_list (uouts p) reboot_request \<le> length (filter success_answer evs)"
proof (induction rule: upage_run.induct)
  case shown
  show ?case by (simp add: upage_shown_def upage_onload_def reboot_request_def)
next
  case (event evs p ev)
  then show ?case
    by (cases ev) (auto simp: uhandle_outs reboot_request_def split: option.split)
qed

text \<open>
  C33. Whatever the user and the network do, the upgrade page asks for a restart only right after an upload,
  and at most once for each answer that reports success; it reloads itself only after a restart has been
  asked for.
\<close>

theorem restart_after_upload:
  assumes "upage_run evs p"
  shows "count_list (uouts p) reboot_request \<le> length (filter success_answer evs)
    \<and> (\<forall>i < length (uouts p). uouts p ! i = reboot_request \<longrightarrow>
         0 < i \<and> (\<exists>f. uouts p ! (i - 1) = Send ''POST'' ''/flash/upload'' (Some f)))
    \<and> (\<forall>i < length (uouts p). uouts p ! i = Reload \<longrightarrow> reboot_request \<in> set (take i (uouts p)))"
  using upage_reboots [OF assms] upage_order [OF assms] unfolding good_order_def by blast

section \<open>What the user sees\<close>

text \<open>
  What the page tells about an upload. Only an answer of the form \<open>success\<close> is a success; an answer
  with another status, or none, leaves the remark and the bar as they are, so that the user is told
  nothing; with a body that is not JSON the bar is full, but the remark has not changed.
\<close>

theorem upload_outcome:
  assumes "in_flight p = Some On_upload"
  shows "(\<not> ok_status s \<longrightarrow> xhr_done s t p = Inr (p\<lparr>in_flight := None\<rparr>))
    \<and> (ok_status s \<longrightarrow> json_parse t = None \<longrightarrow> xhr_done s t p = Inl (p\<lparr>in_flight := None, bar := 200\<rparr>))
    \<and> (\<forall>d. ok_status s \<longrightarrow> json_parse t = Some d \<longrightarrow>
         xhr_done s t p = Inr
           (if truthy (json_get ''success'' d)
            then p\<lparr>in_flight := Some On_reboot, bar := 200, remark := ''Uploading done. Rebooting.'', uouts := uouts p @ [reboot_request]\<rparr>
            else p\<lparr>in_flight := None, bar := 200, remark := ''Error: '' @ t\<rparr>))"
  using assms
  by (simp add: xhr_done_def upload_answer_def setProgress_def doReboot_def xhr_request_def reboot_request_def Let_def)

text \<open>
  The progress bar stays between 0 and its full 200 pixels, also when a file is empty and the quotient is
  no number.
\<close>

lemma progress_width:
  assumes "l \<le> n" and "n \<noteq> 0"
  shows "\<exists>x. jmul (jdiv (Fin (of_nat l)) (Fin (of_nat n))) (Fin 200) = Fin x \<and> 0 \<le> x \<and> x \<le> 200"
proof -
  let ?q = "of_nat l / of_nat n :: rat"
  have q: "0 \<le> ?q" "?q \<le> 1" using assms by simp_all
  then have "rnd 0 \<le> rnd ?q" "rnd ?q \<le> rnd (of_int 1)" by (intro rnd_mono; simp)+
  then have r: "0 \<le> rnd ?q" "rnd ?q \<le> 1" using rnd_int [of 1] by simp_all
  then have "rnd 0 \<le> rnd (rnd ?q * 200)" "rnd (rnd ?q * 200) \<le> rnd 200" by (intro rnd_mono; simp)+
  then have "0 \<le> rnd (rnd ?q * 200)" "rnd (rnd ?q * 200) \<le> 200" by simp_all
  moreover have "to_num ?q = Fin (rnd ?q)" "to_num (rnd ?q * 200) = Fin (rnd (rnd ?q * 200))"
    by (rule to_num_moderate; use q r in \<open>simp add: abs_le_iff\<close>)+
  ultimately show ?thesis using assms(2) by simp
qed

theorem bar_in_range:
  assumes "upage_run evs p"
  shows "0 \<le> bar p \<and> bar p \<le> 200"
  using assms
proof (induction rule: upage_run.induct)
  case shown
  show ?case by (simp add: upage_shown_def upage_onload_def)
next
  case (event evs p ev)
  show ?case
  proof (cases ev)
    case (Progress l n)
    then have "l \<le> n" using event(2) by simp
    have b: "0 \<le> bar (upload_progress (of_nat l) (of_nat n) p) \<and> bar (upload_progress (of_nat l) (of_nat n) p) \<le> 200"
    proof (cases "n = 0")
      case True
      then show ?thesis using \<open>l \<le> n\<close> event.IH by (simp add: upload_progress_def setProgress_def)
    next
      case False
      then show ?thesis using progress_width [OF \<open>l \<le> n\<close> False] event.IH
        by (auto simp: upload_progress_def setProgress_def simp del: jdiv.simps)
    qed
    then show ?thesis using Progress by (simp add: page_after_def uhandle.simps)
  qed (use event.IH in \<open>auto simp: uhandle.simps page_after_def doUpgrade_def xhr_done_def Let_def upload_answer_def doReboot_def
         next_answer_def reboot_answer_def setProgress_def upage_shown_def upage_onload_def
         split: option.split callback.split\<close>)
qed

subsection \<open>The properties at a concrete upload\<close>

definition success_body :: string where
  "success_body = ''{'' @ [CHR 0x22] @ ''success'' @ [CHR 0x22] @ '': '' @ dec_string 1 @ '' }''"

lemma success_parsed: "json_parse success_body = Some [(''success'', JNum 1)]"
  unfolding success_body_def by (rule json_one_number) simp

definition demo_events :: "upage_event list" where
  "demo_events = [Upgrade_clicked (Some 7), Progress 1 2, Answered 200 success_body]"

definition demo_page :: upage where
  "demo_page = page_after (uhandle (Answered 200 success_body) (upload_progress 1 2 (doUpgrade (Some 7) (upage_shown []))))"

lemma demo_run: "upage_run demo_events demo_page" "uouts demo_page =
    [Send ''GET'' ''/flash/next'' None, Send ''POST'' ''/flash/upload'' (Some 7), reboot_request]"
proof -
  let ?p0 = "upage_shown []" and ?p1 = "doUpgrade (Some 7) (upage_shown [])"
  have 1: "upage_run [Upgrade_clicked (Some 7)] ?p1"
    using upage_run.event [OF upage_run.shown, of "Upgrade_clicked (Some 7)"] by (simp add: uhandle.simps page_after_def)
  have f: "in_flight ?p1 = Some On_upload" by (simp add: doUpgrade_def)
  have 2: "upage_run [Upgrade_clicked (Some 7), Progress 1 2] (upload_progress 1 2 ?p1)"
    using upage_run.event [OF 1, of "Progress 1 2"] f by (simp add: uhandle.simps page_after_def)
  show "upage_run demo_events demo_page"
    using upage_run.event [OF 2, of "Answered 200 success_body"] f
    by (simp add: demo_events_def demo_page_def upload_progress_def)
  show "uouts demo_page = [Send ''GET'' ''/flash/next'' None, Send ''POST'' ''/flash/upload'' (Some 7), reboot_request]"
    unfolding demo_page_def uhandle_outs
    by (simp add: upload_progress_def doUpgrade_def upage_shown_def upage_onload_def ok_status_def success_parsed json_get_def)
qed

theorem restart_after_upload_witness:
  "count_list (uouts demo_page) reboot_request \<le> length (filter success_answer demo_events)
    \<and> uouts demo_page ! 2 = reboot_request"
  using restart_after_upload [OF demo_run(1)] demo_run(2) by simp

theorem upload_outcome_witness:
  "xhr_done 500 ''out of space'' (doUpgrade (Some 7) (upage_shown [])) =
     Inr ((doUpgrade (Some 7) (upage_shown []))\<lparr>in_flight := None\<rparr>)"
  using upload_outcome [of "doUpgrade (Some 7) (upage_shown [])" 500 "''out of space''"]
  by (simp add: doUpgrade_def ok_status_def)

theorem bar_in_range_witness: "0 \<le> bar demo_page \<and> bar demo_page \<le> 200"
  by (rule bar_in_range [OF demo_run(1)])

end
