(* ===== verification/DebugPage.thy ===== *)
theory DebugPage
  imports WebPages
begin

text \<open>
  The script of the page with the debug log, \<open>src/html/debug.html\<close>: a terminal that shows the messages
  of one web socket. Unlike the terminal page it does not open the socket again.
\<close>

record dbg_page =
  log_socket :: sock
  log_outs :: "page_out list"

definition log_emit :: "page_out \<Rightarrow> dbg_page \<Rightarrow> dbg_page" where
  "log_emit x p = p\<lparr>log_outs := log_outs p @ [x]\<rparr>"

definition log_loaded :: "string \<Rightarrow> dbg_page" where
  "log_loaded host = \<lparr>log_socket = Connecting, log_outs = [Open_socket (''ws://'' @ host @ ''/debugws'')]\<rparr>"

definition log_onopen :: "dbg_page \<Rightarrow> dbg_page" where
  "log_onopen p = log_emit (Term_write (Text banner)) (p\<lparr>log_socket := Open\<rparr>)"

definition log_onmessage :: "byte list \<Rightarrow> dbg_page \<Rightarrow> dbg_page" where
  "log_onmessage b p = log_emit (Term_bytes b) p"

definition log_onclose :: "bool \<Rightarrow> dbg_page \<Rightarrow> dbg_page" where
  "log_onclose wasClean p =
     log_emit (Term_write (Text (if wasClean then ''[Websocket] Connection closed'' else ''[Websocket] Connection died'')))
       (p\<lparr>log_socket := Closed\<rparr>)"

datatype log_event = Log_open | Log_message "byte list" | Log_close bool

inductive log_step :: "log_event \<Rightarrow> dbg_page \<Rightarrow> dbg_page \<Rightarrow> bool" where
  opened: "log_socket p = Connecting \<Longrightarrow> log_step Log_open p (log_onopen p)"
| message: "log_socket p = Open \<Longrightarrow> log_step (Log_message b) p (log_onmessage b p)"
| closed: "log_socket p \<noteq> Closed \<Longrightarrow> log_step (Log_close c) p (log_onclose c p)"

inductive_cases log_stepE [elim!]:
  "log_step Log_open p q" "log_step (Log_message b) p q" "log_step (Log_close c) p q"

inductive log_run :: "log_event list \<Rightarrow> dbg_page \<Rightarrow> dbg_page \<Rightarrow> bool" where
  stop: "log_run [] p p"
| step: "log_step ev p q \<Longrightarrow> log_run evs q r \<Longrightarrow> log_run (ev # evs) p r"

inductive_simps log_run_simps [simp]:
  "log_run [] p q" "log_run (ev # evs) p q"

text \<open>The bytes written to the terminal, and those of the messages that came.\<close>

definition shown :: "dbg_page \<Rightarrow> byte list" where
  "shown p = concat (map (\<lambda>x. case x of Term_bytes b \<Rightarrow> b | _ \<Rightarrow> []) (log_outs p))"

definition received_log :: "log_event list \<Rightarrow> byte list" where
  "received_log evs = concat (map (\<lambda>e. case e of Log_message b \<Rightarrow> b | _ \<Rightarrow> []) evs)"

lemma shown_simps [simp]:
  "shown (log_onopen p) = shown p" "shown (log_onmessage b p) = shown p @ b" "shown (log_onclose c p) = shown p"
  by (simp_all add: shown_def log_onopen_def log_onmessage_def log_onclose_def log_emit_def)

lemma socket_simps [simp]:
  "log_socket (log_onopen p) = Open" "log_socket (log_onmessage b p) = log_socket p" "log_socket (log_onclose c p) = Closed"
  by (simp_all add: log_onopen_def log_onmessage_def log_onclose_def log_emit_def)

lemma received_log_Cons [simp]:
  "received_log (e # evs) = (case e of Log_message b \<Rightarrow> b | _ \<Rightarrow> []) @ received_log evs"
  by (simp add: received_log_def)

lemma log_run_shown: "log_run evs p q \<Longrightarrow> shown q = shown p @ received_log evs"
proof (induction rule: log_run.induct)
  case (stop p)
  then show ?case by (simp add: received_log_def)
next
  case (step ev p q evs r)
  then show ?case by (cases ev) auto
qed

lemma log_closed_stops: "log_socket p = Closed \<Longrightarrow> log_run evs p q \<Longrightarrow> evs = [] \<and> q = p"
  by (cases evs; cases "hd evs") auto

lemma log_run_append: "log_run (a @ b) p q \<longleftrightarrow> (\<exists>r. log_run a p r \<and> log_run b r q)"
  by (induction a arbitrary: p) auto

text \<open>
  The debug page shows exactly what its web socket delivers, in order. It opens one socket when it is
  loaded and no other: once that is closed nothing can happen any more, and the page stays dead until
  it is loaded again.
\<close>

theorem debug_page_shows:
  assumes "log_run evs (log_loaded host) p"
  shows "shown p = received_log evs
    \<and> (log_socket p = Closed \<longrightarrow> (\<forall>evs' q. log_run evs' p q \<longrightarrow> evs' = [] \<and> q = p))
    \<and> (\<forall>c xs ys. evs = xs @ Log_close c # ys \<longrightarrow> ys = [])"
proof (intro conjI impI allI)
  show "shown p = received_log evs"
    using log_run_shown [OF assms] by (simp add: shown_def log_loaded_def)
next
  fix evs' q
  assume "log_socket p = Closed" "log_run evs' p q"
  then show "evs' = []" "q = p" using log_closed_stops by blast+
next
  fix c xs ys
  assume "evs = xs @ Log_close c # ys"
  with assms obtain r where "log_run ys (log_onclose c r) p"
    by (auto simp: log_run_append)
  then show "ys = []" using log_closed_stops [of "log_onclose c r"] by simp
qed

theorem debug_page_shows_witness:
  "\<exists>p. log_run [Log_open, Log_message [104, 105], Log_message [13, 10], Log_close True] (log_loaded ''bm'') p
    \<and> shown p = [104, 105, 13, 10]"
proof -
  let ?evs = "[Log_open, Log_message [104, 105], Log_message [13, 10], Log_close True]"
    and ?p = "log_onclose True (log_onmessage [13, 10] (log_onmessage [104, 105] (log_onopen (log_loaded ''bm''))))"
  have run: "log_run ?evs (log_loaded ''bm'') ?p"
    by (auto simp: log_loaded_def intro!: log_step.intros exI)
  have "shown ?p = [104, 105, 13, 10]" using debug_page_shows [OF run] by (simp add: received_log_def)
  with run show ?thesis by blast
qed

end
