(* ===== verification/OtaTftp.thy ===== *)
theory OtaTftp
  imports Clib "HOL-Library.Sublist"
begin

text \<open>
  The firmware update over TFTP of \<open>src/main/ota-tftp.c\<close>: the reading of packets, the reception of
  data blocks with its retransmissions, the server task and the client. A packet is the list of the
  segments of its \<open>netbuf\<close>.
\<close>

section \<open>Surroundings and state\<close>

text \<open>The error codes the sources name; \<open>ERR_other\<close> are those that the network stack may add.\<close>

datatype err = ERR_OK | ERR_TIMEOUT | ERR_VAL | ERR_IF | ERR_USE | ERR_other nat

text \<open>
  What happens on the socket: a packet from a peer, a receive timeout, a failure of \<open>netconn_recv\<close>.
\<close>

datatype net_event = Packet nat "byte list list" | Silent | Failing nat

text \<open>
  Code outside the repository: whether \<open>esp_ota_begin\<close> and what it depends on succeed, whether
  \<open>esp_ota_write\<close> takes a chunk after those written before, whether the partition can be booted,
  the result of \<open>netconn_send\<close>, whether \<open>netconn_new\<close> gives the client a connection, the result of \<open>netconn_bind\<close>; and the bytes on the stack where an
  uninitialised local variable lies.
\<close>

record tftp_env =
  begin_ok :: bool
  write_ok :: "byte list \<Rightarrow> byte list \<Rightarrow> bool"
  boot_ok :: "byte list \<Rightarrow> bool"
  send_err :: "nat option \<Rightarrow> byte list \<Rightarrow> err"
  new_ok :: bool
  bind_err :: "nat \<Rightarrow> err"
  stale :: "nat \<Rightarrow> byte"

text \<open>
  The connected peer of the \<open>netconn\<close> and its receive timeout (0: none), what will arrive, what was
  sent and to whom, the bytes written to the update partition, the number of received buffers that
  have not been freed, the calls of the progress callback, and whether the device was restarted.
\<close>

record tftp =
  conn :: "nat option"
  recv_timeout :: nat
  arriving :: "net_event list"
  sent_out :: "(nat option \<times> byte list) list"
  flash :: "byte list"
  netbufs :: nat
  reports :: "nat list"
  restarted :: bool

section \<open>Reading packets\<close>

text \<open>
  \<open>netbuf_copy_partial\<close> into an uninitialised variable: bytes behind the end of the packet leave the
  variable as it is.
\<close>

definition byte_or_stale :: "tftp_env \<Rightarrow> byte list \<Rightarrow> nat \<Rightarrow> nat \<Rightarrow> byte" where
  "byte_or_stale e nb i k = (if i < length nb then nb ! i else stale e k)"

definition netbuf_read_u16_n :: "tftp_env \<Rightarrow> byte list \<Rightarrow> nat \<Rightarrow> nat" where
  "netbuf_read_u16_n e nb offs =
     256 * unat (byte_or_stale e nb offs 0) + unat (byte_or_stale e nb (offs + 1) 1)"

definition TFTP_FIRMWARE_FILE :: string where "TFTP_FIRMWARE_FILE = ''firmware.bin''"
definition TFTP_OCTET_MODE :: string where "TFTP_OCTET_MODE = ''octet''"
definition TFTP_TIMEOUT_RETRANSMITS :: nat where "TFTP_TIMEOUT_RETRANSMITS = 10"

text \<open>
  The loop of \<open>tftp_get_field\<close> over the bytes behind the opcode, with its variables \<open>field\<close>, \<open>offs\<close>,
  \<open>field_offs\<close> and \<open>field_len\<close>.
\<close>

fun field_loop :: "int \<Rightarrow> nat \<Rightarrow> nat \<Rightarrow> nat \<Rightarrow> byte list \<Rightarrow> int \<times> nat \<times> nat" where
  "field_loop field offs field_offs field_len [] = (field, field_offs, field_len)"
| "field_loop field offs field_offs field_len (c # cs) =
     (if field < 0 then (field, field_offs, field_len)
      else
        (let offs = offs + 1;
             field_len = (if field = 0 then field_len + 1 else field_len);
             field' = (if c = 0 then field - 1 else field);
             field_offs = (if c = 0 \<and> field' = 0 then offs else field_offs)
         in field_loop field' offs field_offs field_len cs))"

definition tftp_get_field :: "int \<Rightarrow> byte list \<Rightarrow> byte list option" where
  "tftp_get_field field nb =
     (let (f, field_offs, field_len) = field_loop field 2 2 0 (drop 2 nb)
      in if f \<noteq> -1 then None else Some (take field_len (drop field_offs nb)))"

section \<open>Sending\<close>

definition u16_n :: "nat \<Rightarrow> byte list" where
  "u16_n n = [of_nat (n div 256), of_nat n]"

text \<open>\<open>netconn_send\<close> goes to the connected peer; without one the packet has no destination.\<close>

definition netconn_send :: "tftp_env \<Rightarrow> byte list \<Rightarrow> tftp \<Rightarrow> (err, tftp) outcome" where
  "netconn_send e b s = Ret (send_err e (conn s) b) (s\<lparr>sent_out := sent_out s @ [(conn s, b)]\<rparr>)"

definition tftp_send_ack :: "tftp_env \<Rightarrow> nat \<Rightarrow> tftp \<Rightarrow> (err, tftp) outcome" where
  "tftp_send_ack e block s = netconn_send e (u16_n 4 @ u16_n block) s"

definition tftp_send_error :: "tftp_env \<Rightarrow> nat \<Rightarrow> string \<Rightarrow> tftp \<Rightarrow> (unit, tftp) outcome" where
  "tftp_send_error e code msg s =
     andthen (netconn_send e (u16_n 5 @ u16_n code @ str msg @ [0]) s) (\<lambda>_ s. Ret () s)"

text \<open>The request of the client: exactly the bytes that were allocated for it.\<close>

definition rrq_packet :: "byte list \<Rightarrow> byte list" where
  "rrq_packet filename = u16_n 1 @ filename @ [0] @ str TFTP_OCTET_MODE @ [0]"

definition tftp_send_rrq :: "tftp_env \<Rightarrow> byte list \<Rightarrow> tftp \<Rightarrow> (err, tftp) outcome" where
  "tftp_send_rrq e filename s =
     (if length (rrq_packet filename) \<noteq> 4 + length filename + length TFTP_OCTET_MODE then Stop OutOfBounds s
      else netconn_send e (rrq_packet filename) s)"

section \<open>Receiving\<close>

text \<open>
  \<open>netconn_recv\<close>: a connected socket gets packets of its peer only; silence matters only with a
  timeout. When nothing more will arrive, a receive with a timeout goes on timing out, and one
  without never returns.
\<close>

fun next_event :: "nat option \<Rightarrow> bool \<Rightarrow> net_event list \<Rightarrow> net_event option \<times> net_event list" where
  "next_event c timed [] = (None, [])"
| "next_event c timed (Packet src cs # r) =
     (if c = None \<or> c = Some src then (Some (Packet src cs), r) else next_event c timed r)"
| "next_event c timed (Silent # r) = (if timed then (Some Silent, r) else next_event c timed r)"
| "next_event c timed (Failing x # r) = (Some (Failing x), r)"

definition netconn_recv :: "tftp \<Rightarrow> (net_event, tftp) outcome" where
  "netconn_recv s =
     (case next_event (conn s) (0 < recv_timeout s) (arriving s) of
        (None, r) \<Rightarrow> if 0 < recv_timeout s then Ret Silent (s\<lparr>arriving := r\<rparr>) else Stop Blocked (s\<lparr>arriving := r\<rparr>)
      | (Some (Packet src cs), r) \<Rightarrow> Ret (Packet src cs) (s\<lparr>arriving := r, netbufs := netbufs s + 1\<rparr>)
      | (Some ev, r) \<Rightarrow> Ret ev (s\<lparr>arriving := r\<rparr>))"

definition netbuf_delete :: "tftp \<Rightarrow> tftp" where
  "netbuf_delete s = s\<lparr>netbufs := netbufs s - 1\<rparr>"

text \<open>
  The loop over the segments of a data packet: \<open>hdr\<close> bytes of the first one are skipped; the 16-bit
  length of a shorter one would wrap around and the write run over its end. \<open>False\<close>: a write failed.
\<close>

fun write_chunks :: "tftp_env \<Rightarrow> nat \<Rightarrow> byte list list \<Rightarrow> tftp \<Rightarrow> (bool, tftp) outcome" where
  "write_chunks e hdr [] s = (if hdr = 0 then Ret True s else Stop OutOfBounds s)"
| "write_chunks e hdr (c # cs) s =
     (if length c < hdr then Stop OutOfBounds s
      else if write_ok e (flash s) (drop hdr c)
           then write_chunks e 0 cs (s\<lparr>flash := flash s @ drop hdr c\<rparr>)
           else Ret False s)"

text \<open>
  One packet of the transfer. \<open>Some r\<close>: the function returns the error \<open>r\<close>; \<open>None\<close>: it goes on with
  the next block (\<open>True\<close>) or waits for the same one again (\<open>False\<close>).
\<close>

datatype verdict = Finish err | Next_block | Same_block

definition receive_packet :: "tftp_env \<Rightarrow> bool \<Rightarrow> nat \<Rightarrow> nat \<Rightarrow> byte list list \<Rightarrow> tftp \<Rightarrow> (verdict \<times> nat, tftp) outcome" where
  "receive_packet e cb block received cs s =
     (let nb = concat cs
      in if netbuf_read_u16_n e nb 0 \<noteq> 3 then
           andthen (tftp_send_error e 4 ''Unknown opcode'' s) (\<lambda>_ s. Ret (Finish ERR_VAL, received) (netbuf_delete s))
         else if netbuf_read_u16_n e nb 2 \<noteq> block then
           (let s = netbuf_delete s
            in if netbuf_read_u16_n e nb 2 + 1 = block then
                 andthen (tftp_send_ack e (block - 1) s) (\<lambda>_ s. Ret (Same_block, received) s)
               else
                 andthen (tftp_send_error e 4 ''Block# out of order'' s) (\<lambda>_ s. Ret (Finish ERR_VAL, received) s))
         else
           andthen (write_chunks e 4 cs s) (\<lambda>ok s.
             if \<not> ok then Ret (Finish ERR_VAL, received) s
             else
               (let s = netbuf_delete s; received = received + (length nb - 4)
                in andthen (tftp_send_ack e block s) (\<lambda>ack_err s.
                     if ack_err \<noteq> ERR_OK then Ret (Finish ack_err, received) s
                     else
                       (let s = (if cb then s\<lparr>reports := reports s @ [received]\<rparr> else s)
                        in Ret (if length nb < 516 then Finish ERR_OK else Next_block, received) s)))))"

text \<open>
  The head of the loop: a client that does not know its peer's port yet (\<open>peer_addr\<close> is its address)
  listens unconnected, and connects to the sender of the first packet or back to the address.
\<close>

definition sender :: "nat \<Rightarrow> net_event \<Rightarrow> nat" where
  "sender a ev = (case ev of Packet src _ \<Rightarrow> src | _ \<Rightarrow> a)"

definition receive_event :: "nat option \<Rightarrow> tftp \<Rightarrow> (net_event \<times> nat option, tftp) outcome" where
  "receive_event peer_addr s =
     andthen (netconn_recv (if peer_addr \<noteq> None then s\<lparr>conn := None\<rparr> else s)) (\<lambda>ev s.
       Ret (ev, case ev of Packet _ _ \<Rightarrow> None | _ \<Rightarrow> peer_addr)
         (case peer_addr of None \<Rightarrow> s | Some a \<Rightarrow> s\<lparr>conn := Some (sender a ev)\<rparr>))"

text \<open>Each event is used once, which bounds the loop; at the end of the events the retries do.\<close>

lemma next_event_shorter:
  "next_event c t evs = (Some ev, r) \<Longrightarrow> length r < length evs"
  "next_event c t evs = (None, r) \<Longrightarrow> r = []"
  by (induction c t evs rule: next_event.induct) (auto split: if_splits)

definition awaited :: "tftp \<Rightarrow> nat" where
  "awaited s = length (arriving s)"

lemma netconn_recv_shorter:
  assumes "netconn_recv s = Ret ev s'"
  shows "awaited s' \<le> awaited s" and "ev = Packet src cs \<Longrightarrow> awaited s' < awaited s"
proof -
  obtain o' r where n: "next_event (conn s) (0 < recv_timeout s) (arriving s) = (o', r)" by fastforce
  note short = next_event_shorter(1) [of "conn s" "0 < recv_timeout s" "arriving s" _ r]
    next_event_shorter(2) [of "conn s" "0 < recv_timeout s" "arriving s" r]
  show "awaited s' \<le> awaited s"
    using assms n short by (auto simp: netconn_recv_def awaited_def split: option.splits net_event.splits if_splits)
  show "ev = Packet src cs \<Longrightarrow> awaited s' < awaited s"
    using assms n short by (auto simp: netconn_recv_def awaited_def split: option.splits net_event.splits if_splits)
qed

lemma awaited_simps [simp]:
  "awaited (s\<lparr>conn := c\<rparr>) = awaited s" "awaited (s\<lparr>sent_out := x\<rparr>) = awaited s"
  "awaited (s\<lparr>flash := f\<rparr>) = awaited s" "awaited (s\<lparr>reports := f'\<rparr>) = awaited s"
  "awaited (netbuf_delete s) = awaited s"
  by (simp_all add: awaited_def netbuf_delete_def)

lemma receive_event_shorter:
  assumes "receive_event p s = Ret (ev, q) s'"
  shows "awaited s' \<le> awaited s" and "ev = Packet src cs \<Longrightarrow> awaited s' < awaited s"
proof -
  let ?s = "if p \<noteq> None then s\<lparr>conn := None\<rparr> else s"
  obtain s1 where s1: "netconn_recv ?s = Ret ev s1" "awaited s' = awaited s1"
    using assms by (auto simp: receive_event_def andthen_Ret_iff split: option.splits)
  have "awaited ?s = awaited s" by simp
  with s1 netconn_recv_shorter [OF s1(1)] show "awaited s' \<le> awaited s" "ev = Packet src cs \<Longrightarrow> awaited s' < awaited s"
    by simp_all
qed

lemma send_pending:
  "tftp_send_ack e b s = Ret r s' \<Longrightarrow> awaited s' = awaited s"
  "tftp_send_error e c m s = Ret () s' \<Longrightarrow> awaited s' = awaited s"
  by (auto simp: tftp_send_ack_def tftp_send_error_def netconn_send_def)

lemma write_chunks_pending: "write_chunks e h cs s = Ret b s' \<Longrightarrow> awaited s' = awaited s"
  by (induction e h cs s rule: write_chunks.induct) (auto split: if_splits)

lemma receive_packet_pending:
  "receive_packet e cb block received cs s = Ret v s' \<Longrightarrow> awaited s' = awaited s"
  by (auto simp: receive_packet_def Let_def andthen_Ret_iff send_pending write_chunks_pending
      dest!: send_pending write_chunks_pending split: if_splits)

text \<open>\<open>tftp_receive_data\<close>: the error it returns and the value of \<open>*received_len\<close>.\<close>

function receive_loop :: "tftp_env \<Rightarrow> bool \<Rightarrow> nat \<Rightarrow> nat \<Rightarrow> nat option \<Rightarrow> nat \<Rightarrow> tftp \<Rightarrow> (err \<times> nat, tftp) outcome" where
  "receive_loop e cb block retries peer_addr received s =
     andthen (receive_event peer_addr s) (\<lambda>x s.
       case x of
         (Silent, peer_addr) \<Rightarrow>
           if 0 < retries \<and> 1 < block then
             andthen (tftp_send_ack e (block - 1) s) (\<lambda>_ s.
               receive_loop e cb block (retries - 1) peer_addr received s)
           else
             andthen (tftp_send_error e 4 ''Timeout'' s) (\<lambda>_ s. Ret (ERR_TIMEOUT, received) s)
       | (Failing err, peer_addr) \<Rightarrow>
           andthen (tftp_send_error e 4 ''Failed to receive packet'' s) (\<lambda>_ s. Ret (ERR_other err, received) s)
       | (Packet src cs, peer_addr) \<Rightarrow>
           andthen (receive_packet e cb block received cs s) (\<lambda>x s.
             case x of
               (Finish r, received) \<Rightarrow> Ret (r, received) s
             | (Next_block, received) \<Rightarrow>
                 receive_loop e cb (block + 1) TFTP_TIMEOUT_RETRANSMITS peer_addr received s
             | (Same_block, received) \<Rightarrow> receive_loop e cb block retries peer_addr received s))"
  by pat_completeness auto
termination
proof (relation "measures [\<lambda>(e, cb, block, retries, p, n, s). awaited s, \<lambda>(e, cb, block, retries, p, n, s). retries]", goal_cases)
  case 1
  then show ?case by simp
next
  case 2
  then show ?case by (auto dest!: receive_event_shorter(2) receive_packet_pending)
next
  case 3
  then show ?case by (auto dest!: receive_event_shorter(2) receive_packet_pending)
next
  case 4
  then show ?case by (auto dest!: receive_event_shorter(1) send_pending(1))
qed

definition tftp_receive_data :: "tftp_env \<Rightarrow> bool \<Rightarrow> nat option \<Rightarrow> tftp \<Rightarrow> (err \<times> nat, tftp) outcome" where
  "tftp_receive_data e cb peer_addr s = receive_loop e cb 1 TFTP_TIMEOUT_RETRANSMITS peer_addr 0 s"

declare receive_loop.simps [simp del]

section \<open>The server and the client\<close>

text \<open>\<open>ota_tftp_init\<close>: a successful \<open>esp_ota_begin\<close> starts a new image.\<close>

definition ota_tftp_init :: "tftp_env \<Rightarrow> tftp \<Rightarrow> (err, tftp) outcome" where
  "ota_tftp_init e s = (if begin_ok e then Ret ERR_OK (s\<lparr>flash := []\<rparr>) else Ret ERR_VAL s)"

definition field_is :: "string \<Rightarrow> byte list option \<Rightarrow> bool" where
  "field_is t f = (case f of None \<Rightarrow> False | Some b \<Rightarrow> cstr b = str t)"

text \<open>After the write request has been accepted. \<open>esp_restart\<close> does not return.\<close>

definition tftp_accept :: "tftp_env \<Rightarrow> tftp \<Rightarrow> (unit, tftp) outcome" where
  "tftp_accept e s =
     andthen (tftp_send_ack e 0 s) (\<lambda>ack_err s.
       if ack_err \<noteq> ERR_OK then Ret () (s\<lparr>conn := None\<rparr>)
       else
         andthen (ota_tftp_init e s) (\<lambda>_ s.
         andthen (tftp_receive_data e False None (s\<lparr>recv_timeout := 10000\<rparr>)) (\<lambda>r s.
           let s = s\<lparr>conn := None\<rparr>
           in if fst r = ERR_OK \<and> boot_ok e (flash s) then Stop Deleted (s\<lparr>restarted := True\<rparr>) else Ret () s)))"

text \<open>One round of the loop of \<open>tftp_task\<close>.\<close>

definition tftp_round :: "tftp_env \<Rightarrow> tftp \<Rightarrow> (unit, tftp) outcome" where
  "tftp_round e s =
     andthen (netconn_recv (s\<lparr>recv_timeout := 0\<rparr>)) (\<lambda>ev s.
       case ev of
         Packet src cs \<Rightarrow>
           (let nb = concat cs
            in if length nb < 6 then Ret () (netbuf_delete s)
               else if netbuf_read_u16_n e nb 0 \<noteq> 2 then Ret () (netbuf_delete s)
               else if \<not> field_is TFTP_FIRMWARE_FILE (tftp_get_field 0 nb) then
                 andthen (tftp_send_error e 1 ''File must be firmware.bin'' s) (\<lambda>_ s. Ret () (netbuf_delete s))
               else if \<not> field_is TFTP_OCTET_MODE (tftp_get_field 1 nb) then
                 andthen (tftp_send_error e 4 ''Mode must be octet/binary'' s) (\<lambda>_ s. Ret () (netbuf_delete s))
               else tftp_accept e (netbuf_delete (s\<lparr>conn := Some src\<rparr>)))
       | _ \<Rightarrow> Ret () s)"

fun tftp_task :: "nat \<Rightarrow> tftp_env \<Rightarrow> tftp \<Rightarrow> (unit, tftp) outcome" where
  "tftp_task 0 e s = Stop OutOfFuel s"
| "tftp_task (Suc n) e s = andthen (tftp_round e s) (\<lambda>_ s. tftp_task n e s)"

text \<open>The client binds the first local port from \<open>port\<close> on that is free, at most ten further.\<close>

function bind_loop :: "tftp_env \<Rightarrow> nat \<Rightarrow> nat \<Rightarrow> err" where
  "bind_loop e port local_port =
     (if bind_err e local_port = ERR_USE \<and> local_port < port + 10
      then bind_loop e port (local_port + 1) else bind_err e local_port)"
  by pat_completeness auto
termination
  by (relation "measure (\<lambda>(e, port, local_port). port + 10 - local_port)") auto

declare bind_loop.simps [simp del]

text \<open>\<open>addr\<close>: the host the name resolves to, with the port; \<open>Inl\<close>: it does not resolve.\<close>

definition ota_tftp_download :: "tftp_env \<Rightarrow> nat \<Rightarrow> byte list \<Rightarrow> nat \<Rightarrow> err + nat \<Rightarrow> bool \<Rightarrow> tftp \<Rightarrow> (err \<times> nat, tftp) outcome" where
  "ota_tftp_download e port filename timeout addr cb s =
     andthen (ota_tftp_init e s) (\<lambda>r s.
       if r \<noteq> ERR_OK then Ret (ERR_VAL, 0) s
       else if \<not> new_ok e then Ret (ERR_IF, 0) s
       else if bind_loop e port port \<noteq> ERR_OK then Ret (bind_loop e port port, 0) s
       else
         (case addr of
            Inl x \<Rightarrow> Ret (x, 0) s
          | Inr a \<Rightarrow>
              andthen (tftp_send_rrq e filename (s\<lparr>recv_timeout := timeout, conn := Some a\<rparr>)) (\<lambda>r s.
                if r \<noteq> ERR_OK then Ret (r, 0) s
                else tftp_receive_data e cb (Some a) s)))"

section \<open>A transfer\<close>

text \<open>Data block number \<open>k\<close>, and how the network may cut it into segments.\<close>

definition data_packet :: "nat \<Rightarrow> byte list \<Rightarrow> byte list" where
  "data_packet k d = u16_n 3 @ u16_n k @ d"

definition segments :: "byte list \<Rightarrow> byte list list \<Rightarrow> bool" where
  "segments b cs \<longleftrightarrow> concat cs = b \<and> cs \<noteq> [] \<and> 4 \<le> length (hd cs)"

text \<open>
  What a sender that follows the protocol and the network between do to a transfer of \<open>img\<close> from
  block \<open>b\<close> on: \<open>k\<close> is the number of silences that may still come before the block. Blocks that were
  already acknowledged may come again, and other hosts may send anything.
\<close>

inductive delivers :: "nat \<Rightarrow> nat \<Rightarrow> nat \<Rightarrow> byte list \<Rightarrow> net_event list \<Rightarrow> bool" for src where
  last_block: "segments (data_packet b d) cs \<Longrightarrow> length d < 512 \<Longrightarrow> b < 65536 \<Longrightarrow>
    delivers src k b d (Packet src cs # evs)"
| full_block: "segments (data_packet b d) cs \<Longrightarrow> length d = 512 \<Longrightarrow> b < 65536 \<Longrightarrow>
    delivers src TFTP_TIMEOUT_RETRANSMITS (Suc b) img evs \<Longrightarrow> delivers src k b (d @ img) (Packet src cs # evs)"
| silence: "delivers src k b img evs \<Longrightarrow> 1 < b \<Longrightarrow> delivers src (Suc k) b img (Silent # evs)"
| again: "concat cs = data_packet (b - 1) d \<Longrightarrow> 0 < b \<Longrightarrow> b < 65536 \<Longrightarrow>
    delivers src k b img evs \<Longrightarrow> delivers src k b img (Packet src cs # evs)"
| stranger: "other \<noteq> src \<Longrightarrow> delivers src k b img evs \<Longrightarrow> delivers src k b img (Packet other cs # evs)"

lemma u16_value: "b < 65536 \<Longrightarrow> 256 * unat (of_nat (b div 256) :: byte) + unat (of_nat b :: byte) = b"
proof -
  assume "b < 65536"
  then have "unat (of_nat (b div 256) :: byte) = b div 256" by (simp add: unat_of_nat)
  moreover have "unat (of_nat b :: byte) = b mod 256" by (simp add: unat_of_nat)
  ultimately show ?thesis by simp
qed

lemma read_data_packet:
  assumes "b < 65536"
  shows "netbuf_read_u16_n e (data_packet b d) 0 = 3" "netbuf_read_u16_n e (data_packet b d) 2 = b"
  using u16_value [OF assms]
  by (simp_all add: netbuf_read_u16_n_def byte_or_stale_def data_packet_def u16_n_def)

lemma length_data_packet [simp]: "length (data_packet b d) = 4 + length d"
  by (simp add: data_packet_def u16_n_def)

definition network_ok :: "tftp_env \<Rightarrow> bool" where
  "network_ok e \<longleftrightarrow> new_ok e \<and> (\<forall>c b. send_err e c b = ERR_OK) \<and> (\<forall>f c. write_ok e f c)"

lemma write_all:
  assumes "network_ok e"
  shows "write_chunks e 0 cs s = Ret True (s\<lparr>flash := flash s @ concat cs\<rparr>)"
  using assms by (induction cs arbitrary: s) (auto simp: network_ok_def)

lemma write_segments:
  assumes "network_ok e" and "segments (data_packet b d) cs"
  shows "write_chunks e 4 cs s = Ret True (s\<lparr>flash := flash s @ d\<rparr>)"
proof -
  obtain c r where cs: "cs = c # r" "4 \<le> length c" "c @ concat r = data_packet b d"
    using assms(2) by (cases cs) (auto simp: segments_def)
  then have "drop 4 c @ concat r = drop 4 (data_packet b d)" by (metis drop_append diff_is_0_eq drop_0)
  then have "drop 4 c @ concat r = d" by (simp add: data_packet_def u16_n_def)
  then show ?thesis using assms(1) cs(1,2) write_all [OF assms(1), of r] by (auto simp: network_ok_def)
qed

definition ack_packet :: "nat \<Rightarrow> byte list" where
  "ack_packet b = u16_n 4 @ u16_n b"

text \<open>What the transfer does to the state: only acknowledgements go out, to the sender.\<close>

definition only_acks :: "nat \<Rightarrow> tftp \<Rightarrow> tftp \<Rightarrow> bool" where
  "only_acks src s s' \<longleftrightarrow> (\<exists>bs. sent_out s' = sent_out s @ map (\<lambda>b. (Some src, ack_packet b)) bs)"

lemma only_acks_trans: "only_acks src s s1 \<Longrightarrow> only_acks src s1 s2 \<Longrightarrow> only_acks src s s2"
  unfolding only_acks_def by (metis append_assoc map_append)

lemma send_ack_ok:
  assumes "network_ok e" and "conn s = Some src"
  shows "\<exists>s'. tftp_send_ack e b s = Ret ERR_OK s' \<and> only_acks src s s'
    \<and> s' = s\<lparr>sent_out := sent_out s @ [(Some src, ack_packet b)]\<rparr>"
  using assms
  by (auto simp: tftp_send_ack_def netconn_send_def network_ok_def only_acks_def ack_packet_def intro: exI [where x = "[b]"])

lemma receive_event_server:
  assumes "conn s = Some src" and "0 < recv_timeout s"
  shows "arriving s = Packet src cs # evs \<Longrightarrow>
      receive_event None s = Ret (Packet src cs, None) (s\<lparr>arriving := evs, netbufs := netbufs s + 1\<rparr>)"
    and "arriving s = Silent # evs \<Longrightarrow> receive_event None s = Ret (Silent, None) (s\<lparr>arriving := evs\<rparr>)"
    and "arriving s = Packet other cs # evs \<Longrightarrow> other \<noteq> src \<Longrightarrow>
      receive_event None s = receive_event None (s\<lparr>arriving := evs\<rparr>)"
  using assms
  by (simp_all add: receive_event_def netconn_recv_def)
    (cases "next_event (Some src) True evs"; simp split: option.split net_event.split)

text \<open>A genuine block: it is written, acknowledged and freed.\<close>

lemma packet_accepted:
  assumes "network_ok e" and "segments (data_packet b d) cs" and "b < 65536" and "conn s = Some src"
  shows "\<exists>s'. receive_packet e cb b n cs s = Ret (if length d < 512 then Finish ERR_OK else Next_block, n + length d) s'
    \<and> flash s' = flash s @ d \<and> only_acks src s s' \<and> netbufs s' = netbufs s - 1
    \<and> conn s' = conn s \<and> recv_timeout s' = recv_timeout s \<and> arriving s' = arriving s"
proof -
  have nb: "concat cs = data_packet b d" using assms(2) by (simp add: segments_def)
  show ?thesis
    using assms(1,4) write_segments [OF assms(1,2), of s] read_data_packet [OF assms(3), of e d]
    by (auto simp: receive_packet_def nb Let_def netbuf_delete_def tftp_send_ack_def netconn_send_def
        network_ok_def only_acks_def ack_packet_def intro!: exI [where x = "[b]"])
qed

lemma packet_again:
  assumes "network_ok e" and "concat cs = data_packet (b - 1) d" and "0 < b" and "b < 65536" and "conn s = Some src"
  shows "\<exists>s'. receive_packet e cb b n cs s = Ret (Same_block, n) s'
    \<and> flash s' = flash s \<and> only_acks src s s' \<and> netbufs s' = netbufs s - 1
    \<and> conn s' = conn s \<and> recv_timeout s' = recv_timeout s \<and> arriving s' = arriving s"
  using assms(1,3,5) read_data_packet [of "b - 1" e d] assms(4)
  by (auto simp: receive_packet_def assms(2) Let_def netbuf_delete_def tftp_send_ack_def netconn_send_def
      network_ok_def only_acks_def ack_packet_def intro!: exI [where x = "[b - 1]"])

lemma receive_delivers:
  assumes "network_ok e"
  shows "delivers src k b img evs \<Longrightarrow> conn s = Some src \<Longrightarrow> 0 < recv_timeout s \<Longrightarrow> arriving s = evs \<Longrightarrow>
    \<exists>s'. receive_loop e cb b k None n s = Ret (ERR_OK, n + length img) s'
      \<and> flash s' = flash s @ img \<and> only_acks src s s' \<and> netbufs s' = netbufs s"
proof (induction arbitrary: n s rule: delivers.induct)
  case (last_block b d cs k evs)
  note ev = receive_event_server(1) [OF last_block.prems]
  let ?s = "s\<lparr>arriving := evs, netbufs := netbufs s + 1\<rparr>"
  obtain s' where s': "receive_packet e cb b n cs ?s = Ret (Finish ERR_OK, n + length d) s'"
    "flash s' = flash s @ d" "only_acks src ?s s'" "netbufs s' = netbufs s"
    using packet_accepted [OF assms last_block.hyps(1,3), of ?s src cb n] last_block.hyps(2) last_block.prems(1) by auto
  then show ?case
    by (subst receive_loop.simps) (auto simp: ev only_acks_def)
next
  case (full_block b d cs img evs k)
  note ev = receive_event_server(1) [OF full_block.prems]
  let ?s = "s\<lparr>arriving := evs, netbufs := netbufs s + 1\<rparr>"
  obtain s1 where s1: "receive_packet e cb b n cs ?s = Ret (Next_block, n + length d) s1"
    "flash s1 = flash s @ d" "only_acks src ?s s1" "netbufs s1 = netbufs s"
    "conn s1 = Some src" "recv_timeout s1 = recv_timeout s" "arriving s1 = evs"
    using packet_accepted [OF assms full_block.hyps(1,3), of ?s src cb n] full_block.hyps(2) full_block.prems(1) by auto
  have acks: "only_acks src s s1" using s1(3) by (simp add: only_acks_def)
  obtain s2 where s2: "receive_loop e cb (Suc b) TFTP_TIMEOUT_RETRANSMITS None (n + length d) s1
      = Ret (ERR_OK, n + length d + length img) s2"
    "flash s2 = flash s1 @ img" "only_acks src s1 s2" "netbufs s2 = netbufs s1"
    using full_block.IH [of s1 "n + length d"] s1(5-7) full_block.prems(2) by auto
  show ?case
    using only_acks_trans [OF acks s2(3)] s1 s2
    by (subst receive_loop.simps) (simp add: ev add.assoc)
next
  case (silence k b img evs)
  note ev = receive_event_server(2) [OF silence.prems]
  let ?s = "s\<lparr>arriving := evs\<rparr>"
  obtain s1 where s1: "tftp_send_ack e (b - 1) ?s = Ret ERR_OK s1" "only_acks src ?s s1"
    "s1 = ?s\<lparr>sent_out := sent_out ?s @ [(Some src, ack_packet (b - 1))]\<rparr>"
    using send_ack_ok [OF assms, of ?s src "b - 1"] silence.prems(1) by auto
  have acks: "only_acks src s s1" using s1(2) by (simp add: only_acks_def)
  obtain s2 where s2: "receive_loop e cb b k None n s1 = Ret (ERR_OK, n + length img) s2"
    "flash s2 = flash s1 @ img" "only_acks src s1 s2" "netbufs s2 = netbufs s1"
    using silence.IH [of s1 n] s1(3) silence.prems by auto
  show ?case
    using only_acks_trans [OF acks s2(3)] s1(1,3) s2 silence.hyps(2)
    by (subst receive_loop.simps) (simp add: ev)
next
  case (again cs b d k img evs)
  note ev = receive_event_server(1) [OF again.prems]
  let ?s = "s\<lparr>arriving := evs, netbufs := netbufs s + 1\<rparr>"
  obtain s1 where s1: "receive_packet e cb b n cs ?s = Ret (Same_block, n) s1"
    "flash s1 = flash s" "only_acks src ?s s1" "netbufs s1 = netbufs s"
    "conn s1 = Some src" "recv_timeout s1 = recv_timeout s" "arriving s1 = evs"
    using packet_again [OF assms again.hyps(1-3), of ?s src cb n] again.prems(1) by auto
  have acks: "only_acks src s s1" using s1(3) by (simp add: only_acks_def)
  obtain s2 where s2: "receive_loop e cb b k None n s1 = Ret (ERR_OK, n + length img) s2"
    "flash s2 = flash s1 @ img" "only_acks src s1 s2" "netbufs s2 = netbufs s1"
    using again.IH [of s1 n] s1(5-7) again.prems(2) by auto
  show ?case
    using only_acks_trans [OF acks s2(3)] s1 s2
    by (subst receive_loop.simps) (simp add: ev)
next
  case (stranger other k b img evs cs)
  have "receive_loop e cb b k None n s = receive_loop e cb b k None n (s\<lparr>arriving := evs\<rparr>)"
    by (subst (1 2) receive_loop.simps) (simp only: receive_event_server(3) [OF stranger.prems stranger.hyps(1)])
  then show ?case using stranger.IH [of "s\<lparr>arriving := evs\<rparr>" n] stranger.prems by (simp add: only_acks_def)
qed

section \<open>The fields of a request\<close>

text \<open>The NUL-terminated strings of a packet, as the protocol defines them.\<close>

function fields :: "byte list \<Rightarrow> byte list list" where
  "fields bs = (if 0 \<in> set bs then takeWhile (\<lambda>b. b \<noteq> 0) bs # fields (tl (dropWhile (\<lambda>b. b \<noteq> 0) bs)) else [])"
  by pat_completeness auto
termination
proof (relation "measure length", goal_cases)
  case (2 bs)
  then have "dropWhile (\<lambda>b. b \<noteq> 0) bs \<noteq> []" by (auto simp: dropWhile_eq_Nil_conv)
  then have "length (tl (dropWhile (\<lambda>b. b \<noteq> 0) bs)) < length (dropWhile (\<lambda>b. b \<noteq> 0) bs)" by simp
  also have "\<dots> \<le> length bs" by (rule length_dropWhile_le)
  finally show ?case by simp
qed simp

declare fields.simps [simp del]

lemma fields_none: "0 \<notin> set bs \<Longrightarrow> fields bs = []"
  by (subst fields.simps) simp

lemma fields_nul: "0 \<notin> set f \<Longrightarrow> fields (f @ 0 # r) = f # fields r"
proof -
  assume "0 \<notin> set f"
  then have "takeWhile (\<lambda>b. b \<noteq> 0) (f @ 0 # r) = f" "dropWhile (\<lambda>b. b \<noteq> 0) (f @ 0 # r) = 0 # r"
    by (subst takeWhile_append2 dropWhile_append2; auto)+
  then show ?thesis by (subst fields.simps) simp
qed

lemma nul_cases:
  obtains "(0 :: byte) \<notin> set bs" | f r where "bs = f @ 0 # r" "0 \<notin> set f"
  using split_list_first [of 0 bs] by blast

lemma field_loop_stop: "field < 0 \<Longrightarrow> field_loop field offs fo fl bs = (field, fo, fl)"
  by (cases bs) auto

lemma field_loop_none: "0 \<notin> set bs \<Longrightarrow> 0 \<le> field \<Longrightarrow> fst (field_loop field offs fo fl bs) = field"
  by (induction bs arbitrary: offs fl) (auto simp: Let_def)

lemma field_loop_nul:
  "0 \<notin> set f \<Longrightarrow> 0 \<le> field \<Longrightarrow> field_loop field offs fo fl (f @ 0 # r)
     = field_loop (field - 1) (offs + length f + 1) (if field = 1 then offs + length f + 1 else fo)
         (if field = 0 then fl + length f + 1 else fl) r"
  by (induction f arbitrary: offs fl) (auto simp: Let_def)

definition field_pos :: "nat \<Rightarrow> byte list \<Rightarrow> nat" where
  "field_pos k bs = sum_list (map (\<lambda>f. length f + 1) (take k (fields bs)))"

lemma field_loop_fields:
  "if k < length (fields bs)
   then field_loop (int k) offs fo 0 bs
       = (-1, if k = 0 then fo else offs + field_pos k bs, length (fields bs ! k) + 1)
     \<and> take (length (fields bs ! k) + 1) (drop (field_pos k bs) bs) = fields bs ! k @ [0]
   else fst (field_loop (int k) offs fo 0 bs) \<noteq> -1"
proof (induction k arbitrary: bs offs fo)
  case 0
  show ?case
    by (rule nul_cases [of bs])
      (auto simp: fields_none field_loop_none fields_nul field_loop_nul field_loop_stop field_pos_def)
next
  case (Suc k)
  show ?case
  proof (rule nul_cases [of bs])
    assume "0 \<notin> set bs"
    then show ?thesis using field_loop_none [of bs "1 + int k"] by (simp add: fields_none)
  next
    fix f r assume bs: "bs = f @ 0 # r" "0 \<notin> set f"
    have step: "field_loop (int (Suc k)) offs fo 0 bs
        = field_loop (int k) (offs + length f + 1) (if k = 0 then offs + length f + 1 else fo) 0 r"
      using field_loop_nul [OF bs(2), of "int (Suc k)"] by (simp add: bs(1))
    have pos: "field_pos (Suc k) bs = length f + 1 + field_pos k r" "field_pos 0 r = 0"
      by (simp_all add: field_pos_def bs fields_nul)
    show ?thesis
      unfolding step using Suc.IH [of r "offs + length f + 1" "if k = 0 then offs + length f + 1 else fo"] pos bs
      by (auto simp: fields_nul)
  qed
qed

lemma get_field_fields:
  assumes "2 \<le> length nb"
  shows "tftp_get_field (int k) nb = (if k < length (fields (drop 2 nb)) then Some (fields (drop 2 nb) ! k @ [0]) else None)"
  using field_loop_fields [of k "drop 2 nb" 2 2] assms
  by (auto simp: tftp_get_field_def field_pos_def numeral_2_eq_2 split: if_splits prod.splits)

text \<open>
  \<open>tftp_get_field\<close> returns exactly the NUL-terminated strings of the packet behind the opcode, and
  nothing when the packet has fewer: the result always ends with a NUL and lies inside the packet.
  The request the client builds reads back as its file name and the mode.
\<close>

theorem get_field_correct:
  assumes "2 \<le> length nb" and "0 \<notin> set f"
  shows "tftp_get_field (int k) nb = (if k < length (fields (drop 2 nb)) then Some (fields (drop 2 nb) ! k @ [0]) else None)
    \<and> tftp_get_field 0 (rrq_packet f) = Some (f @ [0])
    \<and> tftp_get_field 1 (rrq_packet f) = Some (str TFTP_OCTET_MODE @ [0])"
proof -
  have oct: "0 \<notin> set (str TFTP_OCTET_MODE)" by (simp add: TFTP_OCTET_MODE_def)
  have "drop 2 (rrq_packet f) = f @ 0 # str TFTP_OCTET_MODE @ 0 # []" by (simp add: rrq_packet_def u16_n_def)
  then have fs: "fields (drop 2 (rrq_packet f)) = [f, str TFTP_OCTET_MODE]"
    by (simp only: fields_nul [OF assms(2)] fields_nul [OF oct] fields_none list.set empty_iff not_False_eq_True)
  have len: "2 \<le> length (rrq_packet f)" by (simp add: rrq_packet_def u16_n_def)
  show ?thesis
    using get_field_fields [OF assms(1), of k] get_field_fields [OF len, of 0] get_field_fields [OF len, of 1]
    by (simp add: fs)
qed

theorem get_field_correct_witness:
  "tftp_get_field 0 (rrq_packet (str ''a'')) = Some (str ''a'' @ [0])
   \<and> tftp_get_field 1 (rrq_packet (str ''a'')) = Some (str TFTP_OCTET_MODE @ [0])"
proof -
  have "2 \<le> length (rrq_packet (str ''a''))" by (simp add: rrq_packet_def u16_n_def)
  moreover have "0 \<notin> set (str ''a'')" by simp
  ultimately show ?thesis using get_field_correct by blast
qed

section \<open>What a transfer leaves in the flash memory\<close>

text \<open>The packets that arrive, whole, and the blocks of an image with their numbers.\<close>

fun packets :: "net_event list \<Rightarrow> byte list list" where
  "packets [] = []"
| "packets (Packet src cs # evs) = concat cs # packets evs"
| "packets (_ # evs) = packets evs"

fun numbered :: "nat \<Rightarrow> byte list list \<Rightarrow> byte list list" where
  "numbered b [] = []"
| "numbered b (d # ds) = data_packet b d # numbered (Suc b) ds"

definition complete_blocks :: "byte list list \<Rightarrow> bool" where
  "complete_blocks ds \<longleftrightarrow> ds \<noteq> [] \<and> (\<forall>d\<in>set (butlast ds). 512 \<le> length d) \<and> length (last ds) < 512"

lemma next_event_packets:
  "next_event c t evs = (Some (Packet src cs), r) \<Longrightarrow> subseq (concat cs # packets r) (packets evs)"
  "next_event c t evs = (ev, r) \<Longrightarrow> subseq (packets r) (packets evs)"
proof -
  show "next_event c t evs = (Some (Packet src cs), r) \<Longrightarrow> subseq (concat cs # packets r) (packets evs)"
    by (induction c t evs rule: next_event.induct) (auto split: if_splits dest: subseq_Cons')
  show "next_event c t evs = (ev, r) \<Longrightarrow> subseq (packets r) (packets evs)"
    by (induction c t evs rule: next_event.induct) (auto split: if_splits)
qed

lemma receive_event_packets:
  assumes "receive_event p s = Ret (ev, q) s'"
  shows "flash s' = flash s" and "subseq (packets (arriving s')) (packets (arriving s))"
    and "ev = Packet src cs \<Longrightarrow> subseq (concat cs # packets (arriving s')) (packets (arriving s))"
  using assms next_event_packets(1) [of "if p = None then conn s else None" "0 < recv_timeout s" "arriving s" src cs]
    next_event_packets(2) [of "if p = None then conn s else None" "0 < recv_timeout s" "arriving s"]
  by (auto simp: receive_event_def netconn_recv_def andthen_Ret_iff
      split: option.splits net_event.splits prod.splits if_splits)

lemma write_chunks_True:
  "write_chunks e h cs s = Ret True s' \<Longrightarrow>
     flash s' = flash s @ drop h (concat cs) \<and> arriving s' = arriving s \<and> h \<le> length (concat cs)"
  by (induction e h cs s rule: write_chunks.induct) (auto split: if_splits)

lemma data_packet_read:
  assumes "netbuf_read_u16_n e nb 0 = 3" and "netbuf_read_u16_n e nb 2 = b" and "4 \<le> length nb"
  shows "nb = data_packet b (drop 4 nb)"
proof -
  obtain x0 x1 x2 x3 d where nb: "nb = x0 # x1 # x2 # x3 # d"
    using assms(3) by (auto simp: Suc_le_length_iff numeral_eq_Suc)
  have lt: "unat x < 256" for x :: byte using unsigned_less [where ?'a = nat, of x] by simp
  have "256 * unat x0 + unat x1 = 3" "256 * unat x2 + unat x3 = b"
    using assms(1,2) by (simp_all add: netbuf_read_u16_n_def byte_or_stale_def nb)
  moreover from this have "unat x0 = 0" using lt [of x1] by presburger
  ultimately have "unat x0 = 0" "unat x1 = 3" "b div 256 = unat x2" "b mod 256 = unat x3"
    using lt [of x3] by auto
  then have "x0 = 0" "x1 = 3" "of_nat (b div 256) = x2" "(of_nat b :: byte) = x3"
    by (simp_all add: word_unat_eq_iff unat_of_nat)
  then show ?thesis by (simp add: nb data_packet_def u16_n_def)
qed

lemma write_chunks_arriving: "write_chunks e h cs s = Ret b s' \<Longrightarrow> arriving s' = arriving s"
  by (induction e h cs s rule: write_chunks.induct) (auto split: if_splits)

lemma numbered_step:
  assumes "subseq (numbered (Suc b) ds) p1" and "subseq (data_packet b d # p1) p2" and "512 \<le> length d"
    and "complete_blocks ds"
  shows "subseq (numbered b (d # ds)) p2 \<and> complete_blocks (d # ds)"
proof
  have "subseq (numbered b (d # ds)) (data_packet b d # p1)" using assms(1) by simp
  with assms(2) show "subseq (numbered b (d # ds)) p2" by (rule subseq_order.trans [rotated])
  show "complete_blocks (d # ds)" using assms(3,4) by (auto simp: complete_blocks_def)
qed

lemma receive_packet_sound:
  assumes "receive_packet e cb b n cs s = Ret (v, n') s'"
  shows "arriving s' = arriving s"
    and "v = Same_block \<Longrightarrow> flash s' = flash s \<and> n' = n"
    and "v = Next_block \<or> v = Finish ERR_OK \<Longrightarrow>
      \<exists>d. concat cs = data_packet b d \<and> flash s' = flash s @ d \<and> n' = n + length d
        \<and> (if v = Next_block then 512 \<le> length d else length d < 512)"
proof -
  have sends: "tftp_send_ack e k t = Ret (send_err e (conn t) (u16_n 4 @ u16_n k))
      (t\<lparr>sent_out := sent_out t @ [(conn t, u16_n 4 @ u16_n k)]\<rparr>)"
    "tftp_send_error e k m t = Ret () (t\<lparr>sent_out := sent_out t @ [(conn t, u16_n 5 @ u16_n k @ str m @ [0])]\<rparr>)"
    for k m t by (simp_all add: tftp_send_ack_def tftp_send_error_def netconn_send_def)
  note tree = assms [unfolded receive_packet_def Let_def sends andthen.simps netbuf_delete_def]
  show "arriving s' = arriving s"
    using tree by (cases "write_chunks e 4 cs s") (auto simp: write_chunks_arriving split: if_splits)
  show "v = Same_block \<Longrightarrow> flash s' = flash s \<and> n' = n"
    using tree by (cases "write_chunks e 4 cs s") (auto split: if_splits)
  assume v: "v = Next_block \<or> v = Finish ERR_OK"
  obtain s1 where r: "netbuf_read_u16_n e (concat cs) 0 = 3" "netbuf_read_u16_n e (concat cs) 2 = b"
    and w: "write_chunks e 4 cs s = Ret True s1"
    and s': "flash s' = flash s1" "n' = n + (length (concat cs) - 4)"
    and fin: "v = (if length (concat cs) < 516 then Finish ERR_OK else Next_block)"
    using tree v by (cases "write_chunks e 4 cs s") (auto split: if_splits)
  note w' = write_chunks_True [OF w]
  have nb: "concat cs = data_packet b (drop 4 (concat cs))"
    using data_packet_read [OF r] w' by simp
  then show "\<exists>d. concat cs = data_packet b d \<and> flash s' = flash s @ d \<and> n' = n + length d
        \<and> (if v = Next_block then 512 \<le> length d else length d < 512)"
    using w' s' fin by (intro exI [where x = "drop 4 (concat cs)"]) (auto split: if_splits)
qed

lemma receive_sound:
  "receive_loop e cb b k p n s = Ret (ERR_OK, n') s' \<Longrightarrow>
     \<exists>ds. flash s' = flash s @ concat ds \<and> n' = n + length (concat ds) \<and> complete_blocks ds
       \<and> subseq (numbered b ds) (packets (arriving s))"
proof (induction e cb b k p n s rule: receive_loop.induct)
  case (1 e cb b k p n s)
  note run = "1.prems" [unfolded receive_loop.simps [of e cb b k p n s]]
  obtain ev q s1 where ev: "receive_event p s = Ret (ev, q) s1"
    using run by (cases "receive_event p s") auto
  note from_event = receive_event_packets [OF ev]
  show ?case
  proof (cases ev)
    case Silent
    then obtain s2 r where s2: "tftp_send_ack e (b - 1) s1 = Ret r s2" "0 < k \<and> 1 < b"
      "receive_loop e cb b (k - 1) q n s2 = Ret (ERR_OK, n') s'"
      using run ev by (auto simp: andthen_Ret_iff split: if_splits)
    have "flash s2 = flash s1" "arriving s2 = arriving s1"
      using s2(1) by (auto simp: tftp_send_ack_def netconn_send_def)
    then show ?thesis
      using "1.IH"(3) [OF ev [unfolded Silent] refl refl s2(2,1,3)] from_event(1,2) subseq_order.trans by metis
  next
    case (Failing x)
    then show ?thesis using run ev by (auto simp: andthen_Ret_iff)
  next
    case (Packet src cs)
    then obtain v n1 s2 where s2: "receive_packet e cb b n cs s1 = Ret (v, n1) s2"
      using run ev by (auto simp: andthen_Ret_iff)
    note sound = receive_packet_sound [OF s2]
    note arrive = from_event(3) [OF Packet]
    consider "v = Next_block" | "v = Same_block" | "v = Finish ERR_OK" "n1 = n'" "s2 = s'"
      using run ev Packet s2 by (cases v) (auto split: verdict.splits)
    then show ?thesis
    proof cases
      case 1
      then obtain d where d: "concat cs = data_packet b d" "flash s2 = flash s1 @ d" "n1 = n + length d" "512 \<le> length d"
        using sound(3) by auto
      have rec: "receive_loop e cb (b + 1) TFTP_TIMEOUT_RETRANSMITS q n1 s2 = Ret (ERR_OK, n') s'"
        using run ev Packet s2 1 by simp
      obtain ds where ds: "flash s' = flash s2 @ concat ds" "n' = n1 + length (concat ds)" "complete_blocks ds"
        "subseq (numbered (Suc b) ds) (packets (arriving s2))"
        using "1.IH"(1) [OF ev [unfolded Packet] refl refl s2 [unfolded 1] refl refl rec] by auto
      have "subseq (numbered b (d # ds)) (packets (arriving s)) \<and> complete_blocks (d # ds)"
        using numbered_step [OF ds(4) _ d(4) ds(3)] arrive d(1) sound(1) by simp
      then show ?thesis
        using ds d from_event(1) by (intro exI [where x = "d # ds"]) simp
    next
      case 2
      have rec: "receive_loop e cb b k q n1 s2 = Ret (ERR_OK, n') s'"
        using run ev Packet s2 2 by simp
      from "1.IH"(2) [OF ev [unfolded Packet] refl refl s2 [unfolded 2] refl refl rec] sound(1,2) 2 from_event(1,2)
      show ?thesis using subseq_order.trans by metis
    next
      case 3
      then obtain d where d: "concat cs = data_packet b d" "flash s2 = flash s1 @ d" "n1 = n + length d" "length d < 512"
        using sound(3) by auto
      have "subseq (numbered b [d]) (packets (arriving s))"
        using arrive d(1) by (auto dest: subseq_order.trans [rotated] intro: subseq_order.trans [of _ "data_packet b d # packets (arriving s1)"])
      then show ?thesis
        using d 3 from_event(1) by (intro exI [where x = "[d]"]) (simp add: complete_blocks_def)
    qed
  qed
qed

lemma receive_event_stop: "receive_event p s = Stop w s' \<Longrightarrow> w = Blocked"
  by (auto simp: receive_event_def netconn_recv_def andthen_Stop_iff
      split: option.splits prod.splits net_event.splits if_splits)

lemma write_chunks_stop: "write_chunks e h cs s = Stop w s' \<Longrightarrow> w = OutOfBounds"
  by (induction e h cs s rule: write_chunks.induct) (auto split: if_splits)

lemma receive_packet_stop: "receive_packet e cb b n cs s = Stop w s' \<Longrightarrow> w = OutOfBounds"
  by (cases "write_chunks e 4 cs s")
    (auto simp: receive_packet_def Let_def tftp_send_error_def tftp_send_ack_def netconn_send_def
      write_chunks_stop split: if_splits)

lemma receive_loop_stop: "receive_loop e cb b k p n s = Stop w s' \<Longrightarrow> w \<noteq> Deleted"
proof (induction e cb b k p n s rule: receive_loop.induct)
  case (1 e cb b k p n s)
  note run = "1.prems" [unfolded receive_loop.simps [of e cb b k p n s]]
  show ?case
  proof (cases "receive_event p s")
    case (Stop x t)
    then show ?thesis using run receive_event_stop [OF Stop] by auto
  next
    case (Ret r s1)
    obtain ev q where r: "r = (ev, q)" by fastforce
    note ev = Ret [unfolded r]
    show ?thesis
    proof (cases ev)
      case Silent
      show ?thesis
      proof (cases "tftp_send_ack e (b - 1) s1")
        case (Ret a s2)
        show ?thesis
        proof (cases "0 < k \<and> 1 < b")
          case True
          with run ev Silent Ret have "receive_loop e cb b (k - 1) q n s2 = Stop w s'" by simp
          then show ?thesis using "1.IH"(3) [OF ev [unfolded Silent] refl refl True Ret] by simp
        next
          case False
          then show ?thesis using run ev Silent by (auto simp: tftp_send_error_def netconn_send_def)
        qed
      qed (simp add: tftp_send_ack_def netconn_send_def)
    next
      case (Failing x)
      then show ?thesis using run ev by (simp add: tftp_send_error_def netconn_send_def)
    next
      case (Packet src cs)
      show ?thesis
      proof (cases "receive_packet e cb b n cs s1")
        case (Stop x t)
        then show ?thesis using run ev Packet receive_packet_stop [OF Stop] by auto
      next
        case (Ret a s2)
        obtain v m where a: "a = (v, m)" by fastforce
        show ?thesis
        proof (cases v)
          case (Finish x)
          then show ?thesis using run ev Packet Ret a by simp
        next
          case Next_block
          with run ev Packet Ret a
          have "receive_loop e cb (b + 1) TFTP_TIMEOUT_RETRANSMITS q m s2 = Stop w s'" by simp
          then show ?thesis
            using "1.IH"(1) [OF ev [unfolded Packet] refl refl Ret [unfolded a Next_block] refl refl] by simp
        next
          case Same_block
          with run ev Packet Ret a have "receive_loop e cb b k q m s2 = Stop w s'" by simp
          then show ?thesis
            using "1.IH"(2) [OF ev [unfolded Packet] refl refl Ret [unfolded a Same_block] refl refl] by simp
        qed
      qed
    qed
  qed
qed

lemma accept_deleted:
  assumes "tftp_accept e s = Stop Deleted s'"
  shows "\<exists>ds. flash s' = (if begin_ok e then [] else flash s) @ concat ds \<and> complete_blocks ds
    \<and> subseq (numbered 1 ds) (packets (arriving s)) \<and> boot_ok e (flash s')"
proof -
  let ?s = "s\<lparr>sent_out := sent_out s @ [(conn s, u16_n 4 @ u16_n 0)]\<rparr>"
  let ?f = "if begin_ok e then [] else flash s"
  have ack: "tftp_send_ack e 0 s = Ret (send_err e (conn s) (u16_n 4 @ u16_n 0)) ?s"
    by (simp add: tftp_send_ack_def netconn_send_def)
  obtain x s1 where init: "ota_tftp_init e ?s = Ret x s1" "flash s1 = ?f" "arriving s1 = arriving s"
    by (cases "begin_ok e") (auto simp: ota_tftp_init_def)
  obtain r s2 where run: "tftp_receive_data e False None (s1\<lparr>recv_timeout := 10000\<rparr>) = Ret r s2"
    and fin: "fst r = ERR_OK" "boot_ok e (flash s2)" "s' = s2\<lparr>conn := None, restarted := True\<rparr>"
    using assms
    unfolding tftp_accept_def ack andthen.simps Let_def
    by (auto simp: init tftp_receive_data_def andthen_Stop_iff split: if_splits dest: receive_loop_stop)
  from receive_sound [of e False 1 TFTP_TIMEOUT_RETRANSMITS None 0 "s1\<lparr>recv_timeout := 10000\<rparr>" "snd r" s2]
    run fin init
  show ?thesis by (cases r) (auto simp: tftp_receive_data_def)
qed

text \<open>
  C14. The device restarts with a new image only if the image is complete: whatever arrives on the
  socket, and in whatever order, the flash memory then holds exactly the data of blocks 1, 2, ... of
  packets that did arrive in this order, each once, all but the last full and the last short, and the
  partition passed the check of the boot loader. (When \<open>esp_ota_begin\<close> fails its result is ignored,
  and the blocks are appended to what was written before.)
\<close>

theorem restart_only_with_image:
  assumes "tftp_round e s = Stop Deleted s'"
  shows "\<exists>ds. flash s' = (if begin_ok e then [] else flash s) @ concat ds \<and> complete_blocks ds
    \<and> subseq (numbered 1 ds) (packets (arriving s)) \<and> boot_ok e (flash s')"
proof -
  let ?s = "s\<lparr>recv_timeout := 0\<rparr>"
  obtain ev s1 where ev: "netconn_recv ?s = Ret ev s1"
    using assms by (cases "netconn_recv ?s")
      (auto simp: tftp_round_def netconn_recv_def split: option.splits prod.splits net_event.splits if_splits)
  have "receive_event None ?s = Ret (ev, None) s1"
    by (cases ev) (simp_all add: receive_event_def ev)
  note from_event = receive_event_packets [OF this]
  obtain src where acc: "tftp_accept e (netbuf_delete (s1\<lparr>conn := Some src\<rparr>)) = Stop Deleted s'"
    using assms
    by (auto simp: tftp_round_def ev Let_def tftp_send_error_def netconn_send_def
        split: net_event.splits if_splits)
  from accept_deleted [OF acc] from_event(1,2) show ?thesis
    by (auto simp: netbuf_delete_def intro: subseq_order.trans)
qed

definition wrq_packet :: "byte list \<Rightarrow> byte list" where
  "wrq_packet options = u16_n 2 @ str TFTP_FIRMWARE_FILE @ [0] @ str TFTP_OCTET_MODE @ [0] @ options"

lemma wrq_fields:
  "tftp_get_field 0 (wrq_packet opts) = Some (str TFTP_FIRMWARE_FILE @ [0])"
  "tftp_get_field 1 (wrq_packet opts) = Some (str TFTP_OCTET_MODE @ [0])"
proof -
  have plain: "0 \<notin> set (str TFTP_FIRMWARE_FILE)" "0 \<notin> set (str TFTP_OCTET_MODE)"
    by (simp_all add: TFTP_FIRMWARE_FILE_def TFTP_OCTET_MODE_def)
  have "drop 2 (wrq_packet opts) = str TFTP_FIRMWARE_FILE @ 0 # str TFTP_OCTET_MODE @ 0 # opts"
    by (simp add: wrq_packet_def u16_n_def)
  then have fs: "fields (drop 2 (wrq_packet opts)) = str TFTP_FIRMWARE_FILE # str TFTP_OCTET_MODE # fields opts"
    by (simp only: fields_nul [OF plain(1)] fields_nul [OF plain(2)])
  have len: "2 \<le> length (wrq_packet opts)" by (simp add: wrq_packet_def u16_n_def)
  show "tftp_get_field 0 (wrq_packet opts) = Some (str TFTP_FIRMWARE_FILE @ [0])"
    "tftp_get_field 1 (wrq_packet opts) = Some (str TFTP_OCTET_MODE @ [0])"
    using get_field_fields [OF len, of 0] get_field_fields [OF len, of 1] by (simp_all add: fs)
qed

lemma wrq_read: "netbuf_read_u16_n e (wrq_packet opts) 0 = 2" "\<not> length (wrq_packet opts) < 6"
  by (simp_all add: netbuf_read_u16_n_def byte_or_stale_def wrq_packet_def u16_n_def
      TFTP_FIRMWARE_FILE_def TFTP_OCTET_MODE_def)

lemma upload_restarts:
  assumes "network_ok e" and "begin_ok e" and "boot_ok e img" and "conn s = None"
    and "arriving s = Packet src cs # evs" and "concat cs = wrq_packet opts"
    and "delivers src TFTP_TIMEOUT_RETRANSMITS 1 img evs"
  shows "\<exists>s'. tftp_round e s = Stop Deleted s' \<and> restarted s' \<and> flash s' = img
    \<and> only_acks src s s' \<and> netbufs s' = netbufs s"
proof -
  let ?r = "s\<lparr>recv_timeout := 0, arriving := evs, netbufs := netbufs s, conn := Some src\<rparr>"
  have recv: "netconn_recv (s\<lparr>recv_timeout := 0\<rparr>)
      = Ret (Packet src cs) (s\<lparr>recv_timeout := 0, arriving := evs, netbufs := netbufs s + 1\<rparr>)"
    using assms(4,5) by (simp add: netconn_recv_def)
  have ok: "field_is TFTP_FIRMWARE_FILE (tftp_get_field 0 (wrq_packet opts))"
    "field_is TFTP_OCTET_MODE (tftp_get_field 1 (wrq_packet opts))"
    by (simp_all add: wrq_fields field_is_def cstr_def TFTP_FIRMWARE_FILE_def TFTP_OCTET_MODE_def)
  have round: "tftp_round e s = tftp_accept e ?r"
    unfolding tftp_round_def recv
    using ok wrq_read by (simp add: assms(6) Let_def netbuf_delete_def)
  obtain s1 where s1: "tftp_send_ack e 0 ?r = Ret ERR_OK s1" "only_acks src ?r s1"
    "s1 = ?r\<lparr>sent_out := sent_out ?r @ [(Some src, ack_packet 0)]\<rparr>"
    using send_ack_ok [OF assms(1), of ?r src 0] by auto
  let ?s2 = "s1\<lparr>flash := [], recv_timeout := 10000\<rparr>"
  have c: "conn ?s2 = Some src" "0 < recv_timeout ?s2" "arriving ?s2 = evs" by (simp_all add: s1(3))
  obtain s3 where s3: "receive_loop e False 1 TFTP_TIMEOUT_RETRANSMITS None 0 ?s2 = Ret (ERR_OK, 0 + length img) s3"
    "flash s3 = flash ?s2 @ img" "only_acks src ?s2 s3" "netbufs s3 = netbufs ?s2"
    using receive_delivers [OF assms(1,7) c, of False 0] by blast
  have "tftp_accept e ?r = Stop Deleted (s3\<lparr>conn := None, restarted := True\<rparr>)"
    unfolding tftp_accept_def s1(1) using assms(2,3) s3(1,2)
    by (simp add: ota_tftp_init_def tftp_receive_data_def Let_def)
  moreover have "only_acks src s s3"
    using only_acks_trans [of src ?r s1 s3] s1(2) s3(3) by (simp add: only_acks_def)
  ultimately show ?thesis
    using s3 s1(3) round by (auto simp: only_acks_def)
qed

text \<open>
  C15. A sender that follows the protocol updates the firmware: after a write request for \<open>firmware.bin\<close> in octet mode,
  once the answer to it has reached the sender (it is not repeated), and with any mixture of lost acknowledgements,
  repeated blocks, up to ten silences before each block after the first, and packets of other hosts, the device has
  exactly the image in its flash memory, restarts, has sent nothing but acknowledgements to the sender, and has freed
  every buffer.
\<close>

theorem upload_boots:
  assumes "network_ok e" and "begin_ok e" and "boot_ok e img" and "conn s = None"
    and "arriving s = Packet src cs # evs" and "concat cs = wrq_packet opts"
    and "delivers src TFTP_TIMEOUT_RETRANSMITS 1 img evs"
  shows "\<exists>s'. tftp_round e s = Stop Deleted s' \<and> restarted s' \<and> flash s' = img
    \<and> only_acks src s s' \<and> netbufs s' = netbufs s"
  by (rule upload_restarts [OF assms])

text \<open>
  The limits of that: the server never repeats its answer to the request, so a silence before the first block ends the
  transfer at once, and a sender that repeats its request is told that the operation is unknown.
\<close>

lemma first_block_must_come:
  assumes "network_ok e" and "conn s = Some src" and "0 < recv_timeout s"
  shows "arriving s = Silent # evs \<Longrightarrow> \<exists>s'. tftp_receive_data e cb None s = Ret (ERR_TIMEOUT, 0) s' \<and> flash s' = flash s"
    and "arriving s = Packet src cs # evs \<Longrightarrow> concat cs = wrq_packet opts \<Longrightarrow>
      \<exists>s'. tftp_receive_data e cb None s = Ret (ERR_VAL, 0) s' \<and> flash s' = flash s"
proof -
  assume a: "arriving s = Silent # evs"
  then show "\<exists>s'. tftp_receive_data e cb None s = Ret (ERR_TIMEOUT, 0) s' \<and> flash s' = flash s"
    using assms unfolding tftp_receive_data_def
    by (subst receive_loop.simps) (simp add: receive_event_def netconn_recv_def tftp_send_error_def netconn_send_def)
next
  assume a: "arriving s = Packet src cs # evs" "concat cs = wrq_packet opts"
  have w: "netbuf_read_u16_n e (wrq_packet opts) 0 = 2"
    by (simp add: netbuf_read_u16_n_def byte_or_stale_def wrq_packet_def u16_n_def)
  show "\<exists>s'. tftp_receive_data e cb None s = Ret (ERR_VAL, 0) s' \<and> flash s' = flash s"
    using a(1) assms unfolding tftp_receive_data_def
    by (subst receive_loop.simps)
      (simp add: receive_event_def netconn_recv_def receive_packet_def a(2) w tftp_send_error_def netconn_send_def netbuf_delete_def)
qed

section \<open>The client\<close>

text \<open>
  C38. A download: the client asks for the file, learns the port of the server from the first packet,
  whichever port that is, and with a sender that follows the protocol writes exactly the file.
\<close>

theorem download_complete:
  assumes "network_ok e" and "begin_ok e" and "bind_loop e port port = ERR_OK" and "0 < timeout"
    and "0 \<notin> set filename" and "arriving s = Packet src cs # evs" and "delivers src TFTP_TIMEOUT_RETRANSMITS 1 img (arriving s)"
  shows "\<exists>s'. ota_tftp_download e port filename timeout (Inr a) cb s = Ret (ERR_OK, length img) s'
    \<and> flash s' = img \<and> (Some a, rrq_packet filename) \<in> set (sent_out s') \<and> netbufs s' = netbufs s"
proof -
  let ?s1 = "s\<lparr>flash := [], recv_timeout := timeout, conn := Some a, sent_out := sent_out s @ [(Some a, rrq_packet filename)]\<rparr>"
  let ?s2 = "?s1\<lparr>conn := Some src\<rparr>"
  have rrq: "tftp_send_rrq e filename (s\<lparr>flash := [], recv_timeout := timeout, conn := Some a\<rparr>) = Ret ERR_OK ?s1"
    using assms(1) by (simp add: tftp_send_rrq_def netconn_send_def network_ok_def rrq_packet_def u16_n_def TFTP_OCTET_MODE_def)
  have ev: "receive_event (Some a) ?s1 = receive_event None ?s2"
    using assms(4,6) by (simp add: receive_event_def netconn_recv_def sender_def)
  have "receive_loop e cb 1 TFTP_TIMEOUT_RETRANSMITS (Some a) 0 ?s1 = receive_loop e cb 1 TFTP_TIMEOUT_RETRANSMITS None 0 ?s2"
    by (subst (1 2) receive_loop.simps) (simp only: ev)
  moreover obtain s3 where s3: "receive_loop e cb 1 TFTP_TIMEOUT_RETRANSMITS None 0 ?s2 = Ret (ERR_OK, 0 + length img) s3"
    "flash s3 = flash ?s2 @ img" "only_acks src ?s2 s3" "netbufs s3 = netbufs ?s2"
    using receive_delivers [OF assms(1,7), of ?s2 cb 0] assms(4) by auto
  ultimately have "ota_tftp_download e port filename timeout (Inr a) cb s = Ret (ERR_OK, length img) s3"
    using assms(1-3) rrq by (simp add: network_ok_def ota_tftp_download_def ota_tftp_init_def tftp_receive_data_def)
  with s3 show ?thesis by (auto simp: only_acks_def)
qed

section \<open>Packets in small segments\<close>

text \<open>
  The code assumes that the first segment of a data packet holds its header. When it is shorter
  the 16-bit length wraps around, and the server reads and writes far behind the segment; with a first
  segment of at least 4 bytes nothing is accessed out of bounds, whatever arrives.
\<close>

theorem first_segment_needs_header:
  "(netbuf_read_u16_n e (c @ concat cs) 0 = 3 \<longrightarrow> netbuf_read_u16_n e (c @ concat cs) 2 = b \<longrightarrow> length c < 4 \<longrightarrow>
      receive_packet e cb b n (c # cs) s = Stop OutOfBounds s)
   \<and> (4 \<le> length c \<longrightarrow> (\<exists>v s'. receive_packet e cb b n (c # cs) s = Ret v s'))"
proof (intro conjI impI)
  assume "netbuf_read_u16_n e (c @ concat cs) 0 = 3" "netbuf_read_u16_n e (c @ concat cs) 2 = b" "length c < 4"
  then show "receive_packet e cb b n (c # cs) s = Stop OutOfBounds s"
    by (simp add: receive_packet_def Let_def)
next
  assume c: "4 \<le> length c"
  have tail: "\<exists>b s'. write_chunks e 0 cs t = Ret b s'" for t
    by (induction cs arbitrary: t) auto
  then obtain ok s1 where "write_chunks e 4 (c # cs) s = Ret ok s1"
    using c by (cases "write_ok e (flash s) (drop 4 c)") fastforce+
  then show "\<exists>v s'. receive_packet e cb b n (c # cs) s = Ret v s'"
    by (auto simp: receive_packet_def Let_def tftp_send_error_def tftp_send_ack_def netconn_send_def)
qed

subsection \<open>The properties at a concrete transfer\<close>

definition quiet_net :: tftp_env where
  "quiet_net = \<lparr>begin_ok = True, write_ok = (\<lambda>_ _. True), boot_ok = (\<lambda>_. True), send_err = (\<lambda>_ _. ERR_OK),
     new_ok = True, bind_err = (\<lambda>_. ERR_OK), stale = (\<lambda>_. 0)\<rparr>"

definition listening :: "net_event list \<Rightarrow> tftp" where
  "listening evs = \<lparr>conn = None, recv_timeout = 0, arriving = evs, sent_out = [], flash = [], netbufs = 0,
     reports = [], restarted = False\<rparr>"

text \<open>An image of 514 bytes: a full block, which is repeated, then silence, a stranger and the rest.\<close>

definition small_transfer :: "net_event list" where
  "small_transfer =
     [Packet 5 [data_packet 1 (replicate 512 7)], Packet 5 [data_packet 1 (replicate 512 7)], Silent,
      Packet 6 [[1]], Packet 5 [data_packet 2 [8, 9]]]"

lemma small_delivers:
  "delivers 5 TFTP_TIMEOUT_RETRANSMITS 1 (replicate 512 7 @ [8, 9]) small_transfer"
proof -
  have last: "delivers 5 9 2 [8, 9] [Packet 5 [data_packet 2 [8, 9]]]"
    by (rule delivers.last_block) (simp_all add: segments_def)
  have "delivers 5 9 2 [8, 9] [Packet 6 [[1]], Packet 5 [data_packet 2 [8, 9]]]"
    by (rule delivers.stranger [OF _ last]) simp
  then have "delivers 5 (Suc 9) 2 [8, 9] [Silent, Packet 6 [[1]], Packet 5 [data_packet 2 [8, 9]]]"
    by (rule delivers.silence) simp
  then have "delivers 5 (Suc 9) 2 [8, 9] [Packet 5 [data_packet 1 (replicate 512 7)], Silent, Packet 6 [[1]], Packet 5 [data_packet 2 [8, 9]]]"
    by (rule delivers.again [where d = "replicate 512 7", rotated 3]) simp_all
  then have two: "delivers 5 TFTP_TIMEOUT_RETRANSMITS (Suc 1) [8, 9] (tl small_transfer)"
    by (simp add: TFTP_TIMEOUT_RETRANSMITS_def small_transfer_def numeral_2_eq_2)
  show ?thesis
    using delivers.full_block [OF _ _ _ two, of "replicate 512 7" "[data_packet 1 (replicate 512 7)]" TFTP_TIMEOUT_RETRANSMITS]
    by (simp add: segments_def small_transfer_def)
qed

lemma quiet_net_ok: "network_ok quiet_net" "begin_ok quiet_net" "boot_ok quiet_net img"
  "bind_loop quiet_net p p = ERR_OK"
  by (simp_all add: quiet_net_def network_ok_def bind_loop.simps)

theorem upload_boots_witness:
  "\<exists>s'. tftp_round quiet_net (listening (Packet 5 [wrq_packet []] # small_transfer)) = Stop Deleted s'
     \<and> flash s' = replicate 512 7 @ [8, 9]"
  using upload_boots [OF quiet_net_ok(1-3) _ _ _ small_delivers, of "listening (Packet 5 [wrq_packet []] # small_transfer)" "[wrq_packet []]" "[]"]
  by (auto simp: listening_def)

theorem restart_only_with_image_witness:
  "\<exists>s' ds. tftp_round quiet_net (listening (Packet 5 [wrq_packet []] # small_transfer)) = Stop Deleted s'
     \<and> flash s' = concat ds \<and> complete_blocks ds"
proof -
  let ?s = "listening (Packet 5 [wrq_packet []] # small_transfer)"
  obtain s' where s': "tftp_round quiet_net ?s = Stop Deleted s'"
    using upload_restarts [OF quiet_net_ok(1-3) _ _ _ small_delivers, of ?s "[wrq_packet []]" "[]"]
    by (auto simp: listening_def)
  show ?thesis
    using restart_only_with_image [OF s'] s' quiet_net_ok(2) by (auto simp: listening_def)
qed

theorem download_complete_witness:
  "\<exists>s'. ota_tftp_download quiet_net 69 (str ''f'') 100 (Inr 3) True (listening small_transfer) = Ret (ERR_OK, 514) s'
     \<and> flash s' = replicate 512 7 @ [8, 9]"
proof -
  let ?s = "listening small_transfer"
  have a: "arriving ?s = Packet 5 [data_packet 1 (replicate 512 7)] # tl small_transfer"
    by (simp add: listening_def small_transfer_def)
  have d: "delivers 5 TFTP_TIMEOUT_RETRANSMITS 1 (replicate 512 7 @ [8, 9]) (arriving ?s)"
    using small_delivers by (simp add: listening_def)
  have "0 < (100 :: nat)" "0 \<notin> set (str ''f'')" by simp_all
  from download_complete [OF quiet_net_ok(1,2,4) this a d, of 69 3 True] show ?thesis by auto
qed

theorem first_segment_needs_header_witness:
  "receive_packet quiet_net False 1 0 [[0, 3], [0, 1, 9]] (listening []) = Stop OutOfBounds (listening [])"
  using first_segment_needs_header [of quiet_net "[0, 3]" "[[0, 1, 9]]" 1 False 0 "listening []"]
  by (simp add: netbuf_read_u16_n_def byte_or_stale_def)

end
