(* ===== verification/Platform.thy ===== *)
theory Platform
  imports Clib
begin

text \<open>
  The platform layer of \<open>src/main/platform.c\<close>: the clock of the debug port, the settings of the
  UART, and the Wi-Fi events. The bridge between the UART and the network is in the theory Bridge, the log queue
  in the theory DebugLog.
\<close>

section \<open>The clock of the debug port\<close>

definition SWD_CYCLES_PER_CLOCK :: int where "SWD_CYCLES_PER_CLOCK = 19"
definition SWD_TOTAL_CYCLES :: int where "SWD_TOTAL_CYCLES = 127"

text \<open>A result of signed 32-bit arithmetic; outside the range the behaviour is undefined.\<close>

definition fits_long :: "int \<Rightarrow> bool" where
  "fits_long i \<longleftrightarrow> - (2 ^ 31) \<le> i \<and> i < 2 ^ 31"

text \<open>
  \<open>platform_max_frequency_set\<close> on the delay count: \<open>None\<close> is undefined behaviour. The division
  truncates towards zero.
\<close>

definition platform_max_frequency_set :: "u32 \<Rightarrow> u32 \<Rightarrow> u32 option" where
  "platform_max_frequency_set freq swd_delay_cnt =
     (if freq < 50000 then Some swd_delay_cnt
      else
        (let f = sint freq; a = SWD_TOTAL_CYCLES * f; b = SWD_CYCLES_PER_CLOCK * f; c = 160000000 - a
         in if \<not> fits_long a \<or> \<not> fits_long b \<or> \<not> fits_long c \<or> b = 0 then None
            else
              (let cnt = sgn c * sgn b * (\<bar>c\<bar> div \<bar>b\<bar>)
               in Some (of_int (if cnt < 0 then 0 else cnt)))))"

definition platform_max_frequency_get :: "u32 \<Rightarrow> u32" where
  "platform_max_frequency_get swd_delay_cnt =
     160000000 div (swd_delay_cnt * of_int SWD_CYCLES_PER_CLOCK + of_int SWD_TOTAL_CYCLES)"

lemma sint_small: "unat (f :: u32) = m \<Longrightarrow> m < 2 ^ 31 \<Longrightarrow> sint f = int m"
proof -
  assume m: "unat f = m" "m < 2 ^ 31"
  then have "uint f = int m" by auto
  with m(2) show "sint f = int m"
    unfolding sint_uint by (subst signed_take_bit_int_eq_self) simp_all
qed

text \<open>
  Between 50 kHz and the fastest clock, 160 MHz / 127, the delay count chosen for a frequency is the
  largest with which the clock is not slower.
\<close>

lemma frequency_count:
  assumes "50000 \<le> freq" and "unat freq \<le> 1259842"
  shows "\<exists>n. platform_max_frequency_set freq d = Some (of_nat n) \<and> n < 200
    \<and> unat freq * (19 * n + 127) \<le> 160000000 \<and> 160000000 < unat freq * (19 * (n + 1) + 127)"
proof -
  obtain f where f: "unat freq = f" by simp
  have low: "50000 \<le> f" and high: "f \<le> 1259842" using assms f by (auto simp: word_le_nat_alt)
  have s: "sint freq = int f" using f high by (intro sint_small) simp_all
  let ?n = "(160000000 - 127 * f) div (19 * f)"
  have n: "(160000000 - 127 * int f) div (19 * int f) = int ?n"
    using high by (simp add: zdiv_int of_nat_diff)
  have "?n \<le> 160000000 div (19 * f)" by (rule div_le_mono) simp
  also have "\<dots> \<le> 160000000 div (19 * 50000)" by (rule div_le_mono2) (use low in auto)
  also have "\<dots> < 200" by simp
  finally have "?n < 200" .
  moreover have "platform_max_frequency_set freq d = Some (of_nat ?n)"
  proof -
    have "sgn (160000000 - 127 * int f) * (\<bar>160000000 - 127 * int f\<bar> div \<bar>19 * int f\<bar>) = int ?n"
      using high low n by (cases "160000000 - 127 * int f = 0") (auto simp: sgn_if)
    moreover have "\<not> freq < 50000" using assms(1) by simp
    ultimately show ?thesis
      using low high
      by (simp add: platform_max_frequency_set_def Let_def s SWD_TOTAL_CYCLES_def SWD_CYCLES_PER_CLOCK_def
          fits_long_def sgn_mult)
  qed
  moreover have "f * (19 * ?n + 127) \<le> 160000000 \<and> 160000000 < f * (19 * (?n + 1) + 127)"
  proof -
    have A: "19 * f * ?n \<le> 160000000 - 127 * f" by (rule times_div_less_eq_dividend)
    have B: "160000000 - 127 * f < 19 * f * ?n + 19 * f"
      using low dividend_less_div_times [of "19 * f" "160000000 - 127 * f"] by (simp add: mult.commute)
    have "19 * f * ?n + 127 * f \<le> 160000000" "160000000 < 19 * f * ?n + 19 * f + 127 * f"
      using A B high by linarith+
    then show ?thesis by (simp add: algebra_simps)
  qed
  ultimately show ?thesis unfolding f by blast
qed

text \<open>
  Setting the maximal frequency of the debug clock: from 50 kHz up to the fastest clock the delay
  chosen is the largest one with which the clock is not slower than the frequency asked for; so the
  clock is never below the \<open>maximum\<close> that was set, and above it unless it divides evenly. Lower
  frequencies are ignored, and from 16.9 MHz on the multiplication overflows.
\<close>

theorem frequency_not_slower:
  "(50000 \<le> freq \<longrightarrow> unat freq \<le> 1259842 \<longrightarrow>
      (\<exists>d. platform_max_frequency_set freq d0 = Some d \<and> freq \<le> platform_max_frequency_get d
         \<and> platform_max_frequency_get (d + 1) < freq))
   \<and> (freq < 50000 \<longrightarrow> platform_max_frequency_set freq d0 = Some d0)
   \<and> (16909321 \<le> unat freq \<longrightarrow> unat freq < 2 ^ 31 \<longrightarrow> platform_max_frequency_set freq d0 = None)"
proof (intro conjI impI)
  assume "50000 \<le> freq" "unat freq \<le> 1259842"
  then obtain n where n: "platform_max_frequency_set freq d0 = Some (of_nat n)" "n < 200"
    "unat freq * (19 * n + 127) \<le> 160000000" "160000000 < unat freq * (19 * (n + 1) + 127)"
    using frequency_count by blast
  have get: "unat (platform_max_frequency_get (of_nat k)) = 160000000 div (19 * k + 127)" if "k \<le> 200" for k
  proof -
    have "platform_max_frequency_get (of_nat k) = 160000000 div of_nat (19 * k + 127)"
      by (simp add: platform_max_frequency_get_def SWD_CYCLES_PER_CLOCK_def SWD_TOTAL_CYCLES_def mult.commute)
    moreover have "unat (of_nat (19 * k + 127) :: u32) = 19 * k + 127"
      using that by (subst unat_of_nat) simp
    ultimately show ?thesis by (simp add: unat_div_distrib del: of_nat_add of_nat_mult)
  qed
  have "unat freq \<le> 160000000 div (19 * n + 127)"
    using n(3) by (subst less_eq_div_iff_mult_less_eq) simp_all
  moreover have "160000000 div (19 * (n + 1) + 127) < unat freq"
    using n(4) by (subst div_less_iff_less_mult) simp_all
  ultimately have "freq \<le> platform_max_frequency_get (of_nat n)" "platform_max_frequency_get (of_nat (n + 1)) < freq"
    using get [of n] get [of "n + 1"] n(2) by (simp_all add: word_le_nat_alt word_less_nat_alt del: of_nat_add of_nat_Suc)
  with n(1) show "\<exists>d. platform_max_frequency_set freq d0 = Some d \<and> freq \<le> platform_max_frequency_get d
         \<and> platform_max_frequency_get (d + 1) < freq" by (auto simp: add.commute)
next
  assume "freq < 50000"
  then show "platform_max_frequency_set freq d0 = Some d0" by (simp add: platform_max_frequency_set_def)
next
  assume a: "16909321 \<le> unat freq" "unat freq < 2 ^ 31"
  then have "\<not> freq < 50000" by (simp add: word_less_nat_alt)
  moreover obtain m where m: "unat freq = m" by simp
  with a have "sint freq = int m" "16909321 \<le> m" by (simp_all add: sint_small)
  then have "\<not> fits_long (SWD_TOTAL_CYCLES * sint freq)"
    by (simp add: fits_long_def SWD_TOTAL_CYCLES_def)
  ultimately show "platform_max_frequency_set freq d0 = None"
    by (simp add: platform_max_frequency_set_def Let_def)
qed

theorem frequency_not_slower_witness:
  "\<exists>d. platform_max_frequency_set 1000000 0 = Some d \<and> 1000000 \<le> platform_max_frequency_get d"
  using frequency_not_slower [of 1000000 0] by auto

section \<open>Settings of the UART\<close>

text \<open>
  The two UARTs' rates as the driver keeps them, the rate stored in the configuration, and what has
  gone out on the first UART, each byte with the rate it was sent at. The driver is outside the
  repository: \<open>rate\<close> is the rate it really sets for a requested one.
\<close>

record uart =
  baud0 :: u32
  baud1 :: u32
  nvs_baud :: "u32 option"
  wire :: "(byte \<times> u32) list"

definition uart_write :: "byte list \<Rightarrow> uart \<Rightarrow> uart" where
  "uart_write bs u = u\<lparr>wire := wire u @ map (\<lambda>b. (b, baud0 u)) bs\<rparr>"

definition platform_set_baud :: "(u32 \<Rightarrow> u32) \<Rightarrow> u32 \<Rightarrow> uart \<Rightarrow> uart" where
  "platform_set_baud rate baud u = u\<lparr>baud0 := rate baud, baud1 := rate baud, nvs_baud := Some baud\<rparr>"

definition uart_send_break :: "(u32 \<Rightarrow> u32) \<Rightarrow> uart \<Rightarrow> uart" where
  "uart_send_break rate u =
     (let baud = baud0 u;
          u = u\<lparr>baud0 := rate (baud div 2)\<rparr>;
          u = uart_write [0] u
      in u\<lparr>baud0 := rate baud\<rparr>)"

text \<open>The monitor command; the text it prints to the debugger's console, the new state and its result.\<close>

definition cmd_setbaud :: "(u32 \<Rightarrow> u32) \<Rightarrow> byte list list \<Rightarrow> uart \<Rightarrow> byte list option \<times> uart \<times> bool" where
  "cmd_setbaud rate argv u =
     (if length argv = 1 then (vasprintf (str ''Current baud: %d'' @ [10]) [FNum (baud0 u)], u, True)
      else if length argv = 2 then
        (let baud = atoi (argv ! 1)
         in (vasprintf (str ''Setting baud: %d'' @ [10]) [FNum baud], platform_set_baud rate baud u, True))
      else (Some [], u, True))"

text \<open>The rates \<open>app_main\<close> sets when the firmware starts: the stored one, or 230400.\<close>

definition boot_baud :: "(u32 \<Rightarrow> u32) \<Rightarrow> uart \<Rightarrow> uart" where
  "boot_baud rate u =
     (let baud = (case nvs_baud u of None \<Rightarrow> 230400 | Some b \<Rightarrow> b) in u\<lparr>baud0 := rate baud, baud1 := rate baud\<rparr>)"

text \<open>
  A rate set by the monitor command \<open>setbaud\<close> survives a restart: whatever the rates are when the power
  comes back, the firmware sets what the command had set. An argument that is not a number counts as the
  rate 0, which is set and stored as well, so that a restart does not help.
\<close>

theorem baud_survives_restart:
  "(n < 2 ^ 31 \<longrightarrow>
      (\<exists>u'. cmd_setbaud rate [str ''setbaud'', fmt_dec n] u = (Some (str ''Setting baud: '' @ fmt_dec n @ [10]), u', True)
         \<and> baud0 u' = rate (of_nat n) \<and> baud1 u' = rate (of_nat n)
         \<and> (\<forall>a b. boot_baud rate (u'\<lparr>baud0 := a, baud1 := b\<rparr>) = u')))
   \<and> (\<forall>b arg. arg \<noteq> [] \<longrightarrow> \<not> isspace (hd arg) \<longrightarrow> hd arg \<noteq> 43 \<longrightarrow> hd arg \<noteq> 45 \<longrightarrow> \<not> isdigit (hd arg) \<longrightarrow>
        (let u' = fst (snd (cmd_setbaud rate [b, arg] u))
         in baud0 u' = rate 0 \<and> nvs_baud u' = Some 0 \<and> boot_baud rate u' = u'))"
proof (intro conjI impI allI)
  assume n: "n < 2 ^ 31"
  have "sint (of_nat n :: u32) = int n"
    using n by (subst signed_of_nat) (simp add: signed_take_bit_int_eq_self)
  then have "vasprintf (str ''Setting baud: %d'' @ [10]) [FNum (of_nat n)] = Some (str ''Setting baud: '' @ fmt_dec n @ [10])"
    by (simp add: parse_conv_def fmt_width_def pad_to_def fmt_int_def)
  then show "\<exists>u'. cmd_setbaud rate [str ''setbaud'', fmt_dec n] u = (Some (str ''Setting baud: '' @ fmt_dec n @ [10]), u', True)
         \<and> baud0 u' = rate (of_nat n) \<and> baud1 u' = rate (of_nat n)
         \<and> (\<forall>a b. boot_baud rate (u'\<lparr>baud0 := a, baud1 := b\<rparr>) = u')"
    by (simp add: cmd_setbaud_def atoi_fmt_dec [OF n] platform_set_baud_def boot_baud_def Let_def del: str.simps)
next
  fix b arg :: "byte list"
  assume "arg \<noteq> []" "\<not> isspace (hd arg)" "hd arg \<noteq> 43" "hd arg \<noteq> 45" "\<not> isdigit (hd arg)"
  then have "atoi arg = 0"
    by (cases arg) (auto simp: atoi_def cstr_def scan_dec_def sign_len_def)
  then show "let u' = fst (snd (cmd_setbaud rate [b, arg] u))
         in baud0 u' = rate 0 \<and> nvs_baud u' = Some 0 \<and> boot_baud rate u' = u'"
    by (simp add: cmd_setbaud_def platform_set_baud_def boot_baud_def Let_def)
qed

theorem baud_survives_restart_witness:
  "baud0 (boot_baud (\<lambda>b. b) (fst (snd (cmd_setbaud (\<lambda>b. b) [str ''setbaud'', str ''x''] \<lparr>baud0 = 9600, baud1 = 9600, nvs_baud = None, wire = []\<rparr>)))) = 0"
  using baud_survives_restart [of 1 "\<lambda>b. b" "\<lparr>baud0 = 9600, baud1 = 9600, nvs_baud = None, wire = []\<rparr>", THEN conjunct2, rule_format,
      of "str ''x''" "str ''setbaud''"]
  by (simp add: Let_def isspace_def)

section \<open>Wi-Fi\<close>

datatype disconnect_reason = BASIC_RATE_NOT_SUPPORT | NO_AP_FOUND | Reason_other nat

datatype wifi_event =
    STA_START
  | STA_CONNECTED
  | STA_GOT_IP
  | AP_STACONNECTED
  | AP_STADISCONNECTED
  | STA_DISCONNECTED disconnect_reason
  | Wifi_other

text \<open>The calls of the handler, apart from its log output; the host name is set when it is configured.\<close>

datatype wifi_call = Wifi_connect | Wifi_disconnect | Wifi_set_protocol | Wifi_set_hostname | Wifi_init_softap

definition event_handler :: "bool \<Rightarrow> wifi_event \<Rightarrow> wifi_call list" where
  "event_handler hostname ev =
     (case ev of
        STA_START \<Rightarrow> [Wifi_connect, Wifi_set_protocol]
      | STA_CONNECTED \<Rightarrow> if hostname then [Wifi_set_hostname] else []
      | STA_GOT_IP \<Rightarrow> []
      | AP_STACONNECTED \<Rightarrow> []
      | AP_STADISCONNECTED \<Rightarrow> []
      | STA_DISCONNECTED reason \<Rightarrow>
          (case reason of
             BASIC_RATE_NOT_SUPPORT \<Rightarrow> []
           | NO_AP_FOUND \<Rightarrow> [Wifi_disconnect, Wifi_init_softap]
           | Reason_other _ \<Rightarrow> [Wifi_connect])
      | Wifi_other \<Rightarrow> [])"

text \<open>
  The name of the access point: the configured one is used as a format (\<open>None\<close>: undefined) of a field
  of 32 bytes (\<open>Inl\<close>: it does not fit with its NUL).
\<close>

definition softap_ssid :: "byte list \<Rightarrow> bool \<Rightarrow> u32 \<Rightarrow> (byte list + byte list) option" where
  "softap_ssid config is_station chipid =
     map_option (\<lambda>t. if length t < 32 then Inr t else Inl t)
       (if config = str ''auto'' \<or> is_station then vasprintf (str ''blackmagic_%X'') [FNum chipid]
        else vasprintf config [])"

section \<open>Sending a break\<close>

text \<open>
  A break is a NUL at half the rate, and the rate is as before afterwards.
\<close>

theorem break_restores_baud:
  assumes "rate (baud0 u) = baud0 u"
  shows "baud0 (uart_send_break rate u) = baud0 u \<and> wire (uart_send_break rate u) = wire u @ [(0, rate (baud0 u div 2))]
    \<and> nvs_baud (uart_send_break rate u) = nvs_baud u"
  using assms by (simp add: uart_send_break_def uart_write_def Let_def)

subsection \<open>The properties at concrete states\<close>

theorem break_restores_baud_witness:
  "baud0 (uart_send_break (\<lambda>b. b) \<lparr>baud0 = 115200, baud1 = 0, nvs_baud = None, wire = []\<rparr>) = 115200"
  using break_restores_baud [of "\<lambda>b. b" "\<lparr>baud0 = 115200, baud1 = 0, nvs_baud = None, wire = []\<rparr>"] by simp

end
