(* ===== verification/HttpServer.thy ===== *)
theory HttpServer
  imports Platform
begin

text \<open>
  The handlers of the web server in \<open>src/main/http.c\<close> and the map of \<open>src/main/hashmap.cpp\<close> they use:
  rate and power settings, break, the status page with the load of each task, the table of URLs.
\<close>

section \<open>Answers\<close>

text \<open>
  \<open>snprintf\<close> into a buffer of \<open>n\<close> bytes, whose result is then sent with the length that was printed:
  when the text does not fit, bytes behind the buffer are sent (\<open>None\<close>).
\<close>

definition snprintf_sent :: "nat \<Rightarrow> byte list \<Rightarrow> farg list \<Rightarrow> byte list option" where
  "snprintf_sent n fmt args =
     (case vasprintf fmt args of None \<Rightarrow> None | Some t \<Rightarrow> if length t < n then Some t else None)"

text \<open>A string literal between double quotes.\<close>

definition quoted :: "string \<Rightarrow> byte list" where
  "quoted t = 34 # str t @ [34]"

text \<open>
  The handlers get whether the connection is closed and the value of the argument \<open>set\<close>, as
  \<open>httpdFindArg\<close> left it in the buffer (\<open>None\<close>: not found). Their result is the body of the answer,
  which is \<open>Some None\<close> when a handler sends bytes behind its buffer, and \<open>None\<close> without an answer.
\<close>

definition cgi_uart_break :: "(u32 \<Rightarrow> u32) \<Rightarrow> bool \<Rightarrow> uart \<Rightarrow> byte list option option \<times> uart" where
  "cgi_uart_break rate closed u =
     (if closed then (None, u) else (Some (Some []), uart_send_break rate u))"

definition cgi_baud :: "(u32 \<Rightarrow> u32) \<Rightarrow> bool \<Rightarrow> byte list option \<Rightarrow> uart \<Rightarrow> byte list option option \<times> uart" where
  "cgi_baud rate closed arg u =
     (if closed then (None, u)
      else
        (let u = (case arg of
                    Some v \<Rightarrow> if v \<noteq> [] \<and> atoi v \<noteq> 0 then platform_set_baud rate (atoi v) u else u
                  | None \<Rightarrow> u)
         in (Some (snprintf_sent 64 (str ''{'' @ quoted ''baudrate'' @ str '': %u }'') [FNum (baud0 u)]), u)))"

text \<open>The power is a signed byte that is printed as an unsigned integer; \<open>limit\<close> is what the driver makes of a setting.\<close>

definition cgi_tx_power :: "(u32 \<Rightarrow> byte) \<Rightarrow> bool \<Rightarrow> byte list option \<Rightarrow> byte \<Rightarrow> byte list option option \<times> byte" where
  "cgi_tx_power limit closed arg dbm =
     (if closed then (None, dbm)
      else
        (let dbm = (case arg of Some v \<Rightarrow> if v \<noteq> [] then limit (atoi v) else dbm | None \<Rightarrow> dbm)
         in (Some (snprintf_sent 64 (str ''{'' @ quoted ''txpower'' @ str '': %u }'') [FNum (scast dbm)]), dbm)))"

section \<open>The map of task times\<close>

text \<open>What the status page relies on: a map from task numbers to run times.\<close>

locale task_map =
  fixes empty_map :: 'm
    and set_time :: "'m \<Rightarrow> nat \<Rightarrow> u32 \<Rightarrow> 'm"
    and get_time :: "'m \<Rightarrow> nat \<Rightarrow> u32 option"
  assumes get_empty: "get_time empty_map k = None"
    and get_set: "get_time (set_time m k v) k' = (if k' = k then Some v else get_time m k')"
begin

text \<open>The times of a list of tasks are all there after they have been stored one by one.\<close>

lemma get_fold_other:
  "k \<notin> fst ` set ts \<Longrightarrow> get_time (fold (\<lambda>(i, v) m. set_time m i v) ts m) k = get_time m k"
  by (induction ts arbitrary: m) (auto simp: get_set)

lemma get_fold:
  "distinct (map fst ts) \<Longrightarrow> (k, v) \<in> set ts \<Longrightarrow> get_time (fold (\<lambda>(i, v) m. set_time m i v) ts m) k = Some v"
proof (induction ts arbitrary: m)
  case (Cons t ts)
  show ?case
  proof (cases "t = (k, v)")
    case True
    then have "k \<notin> fst ` set ts" using Cons.prems(1) by auto
    then show ?thesis using True get_fold_other by (simp add: get_set)
  next
    case False
    then show ?thesis using Cons by (cases t) auto
  qed
qed simp

end

text \<open>\<open>std::unordered_map<int, uint32_t>\<close>.\<close>

type_synonym hashmap = "nat \<Rightarrow> u32 option"

definition hashmap_new :: hashmap where "hashmap_new = (\<lambda>_. None)"

definition hashmap_set :: "hashmap \<Rightarrow> nat \<Rightarrow> u32 \<Rightarrow> hashmap" where
  "hashmap_set hm key value = hm(key \<mapsto> value)"

text \<open>The result, and \<open>*value\<close> afterwards, which was \<open>old\<close>.\<close>

definition hashmap_get :: "hashmap \<Rightarrow> nat \<Rightarrow> u32 \<Rightarrow> bool \<times> u32" where
  "hashmap_get hm key old = (case hm key of None \<Rightarrow> (False, old) | Some v \<Rightarrow> (True, v))"

definition hashmap_find :: "hashmap \<Rightarrow> nat \<Rightarrow> u32 option" where
  "hashmap_find hm key = (if fst (hashmap_get hm key 0) then Some (snd (hashmap_get hm key 0)) else None)"

interpretation times: task_map hashmap_new hashmap_set hashmap_find
  by unfold_locales (auto simp: hashmap_new_def hashmap_set_def hashmap_find_def hashmap_get_def)

section \<open>The status page\<close>

record task_status =
  task_number :: nat
  task_name :: "byte list"
  priority :: u32
  task_state :: nat
  high_water :: u16
  run_time :: u32

definition task_state_name :: "nat \<Rightarrow> byte list" where
  "task_state_name i = str ([''eRunning'', ''eReady'', ''eBlocked'', ''eSuspended'', ''eDeleted'', ''eInvalid''] ! i)"

text \<open>The run time of a task since the last page, which is kept in \<open>task_times\<close>; new tasks start at 0.\<close>

definition task_delta :: "hashmap \<Rightarrow> task_status \<Rightarrow> u32 \<times> hashmap" where
  "task_delta hm t =
     (let last = snd (hashmap_get hm (task_number t) (run_time t))
      in (run_time t - last, hashmap_set hm (task_number t) (run_time t)))"

definition task_line :: "task_status \<Rightarrow> u32 \<Rightarrow> byte list option" where
  "task_line t cpu =
     snprintf_sent 256 (9 # str ''id: %4u, name: %16s, prio: %3u, state: %8s, stack_hwm: %4u, cpu: %d%%'' @ [10])
       [FNum (of_nat (task_number t)), FStr (task_name t), FNum (priority t), FStr (task_state_name (task_state t)),
        FNum (ucast (high_water t)), FNum cpu]"

text \<open>The time one percent of the load stands for: never 0, so that it can divide.\<close>

definition percent_time :: "u32 \<Rightarrow> u32 \<Rightarrow> u32" where
  "percent_time total_runtime last_total =
     (let d = (total_runtime - last_total) div 100 in if d = 0 then 1 else d)"

fun task_lines :: "u32 \<Rightarrow> task_status list \<Rightarrow> hashmap \<Rightarrow> (byte list option \<times> u32) list \<times> hashmap" where
  "task_lines percent [] hm = ([], hm)"
| "task_lines percent (t # ts) hm =
     (let (delta, hm) = task_delta hm t; cpu = delta div percent;
          (ls, hm) = task_lines percent ts hm
      in ((task_line t cpu, cpu) # ls, hm))"

record status_counters =
  free_heap :: u32
  uptime :: u32
  status_baud :: u32
  overruns :: u32
  errors :: u32
  queue_full :: u32
  rx_count :: u32
  tx_count :: u32

definition status_head :: "status_counters \<Rightarrow> byte list option" where
  "status_head c =
     snprintf_sent 256
       (str ''free_heap: %u,'' @ [10] @ str ''uptime: %d ms'' @ [10] @ str ''baud_rate: %d,'' @ [10]
        @ str ''uart_overruns: %d'' @ [10] @ str ''uart_errors: %d'' @ [10] @ str ''uart_rx_full_cnt: %d'' @ [10]
        @ str ''uart_rx_count: %d'' @ [10] @ str ''uart_tx_count: %d'' @ [10] @ str ''tasks:'' @ [10])
       [FNum (free_heap c), FNum (uptime c), FNum (status_baud c), FNum (overruns c), FNum (errors c),
        FNum (queue_full c), FNum (rx_count c), FNum (tx_count c)]"

text \<open>
  \<open>cgi_status\<close>: the task times and the total run time at the last page are static variables. \<open>tasks\<close> is
  what \<open>uxTaskGetSystemState\<close> finds (\<open>None\<close>: there is no memory for it). The loads are listed beside
  the lines that print them.
\<close>

definition cgi_status ::
  "bool \<Rightarrow> status_counters \<Rightarrow> (task_status list \<times> u32) option \<Rightarrow> hashmap \<times> u32
     \<Rightarrow> (byte list option \<times> (byte list option \<times> u32) list) option \<times> hashmap \<times> u32" where
  "cgi_status closed c tasks st =
     (if closed then (None, st)
      else
        (case tasks of
           None \<Rightarrow> (Some (status_head c, []), st)
         | Some (ts, total_runtime) \<Rightarrow>
             (let (ls, hm) = task_lines (percent_time total_runtime (snd st)) (sort_key task_number ts) (fst st)
              in (Some (status_head c, ls), (hm, total_runtime)))))"

section \<open>The web sockets and the table of URLs\<close>

text \<open>What a terminal page sends goes to the UART; what a debug page sends is ignored.\<close>

definition on_term_recv :: "byte list \<Rightarrow> uart \<Rightarrow> uart" where
  "on_term_recv data u = uart_write data u"

definition on_debug_recv :: "byte list \<Rightarrow> uart \<Rightarrow> uart" where
  "on_debug_recv data u = u"

datatype url_handler =
    Redirect string
  | Upload_firmware
  | Reboot_firmware
  | Tx_power
  | Baud
  | Uart_break
  | Status
  | Term_socket
  | Debug_socket
  | File_system

definition builtInUrls :: "(string \<times> url_handler) list" where
  "builtInUrls =
     [(''/'', Redirect ''/index.html''), (''/flash/'', Redirect ''/flash/index.html''),
      (''/flash/upload'', Upload_firmware), (''/flash/reboot'', Reboot_firmware), (''/wifi/txpower'', Tx_power),
      (''/uart/baud'', Baud), (''/uart/break'', Uart_break), (''/status'', Status), (''/terminal'', Term_socket),
      (''/debugws'', Debug_socket), (''*'', File_system)]"

text \<open>
  The server library, outside the repository, takes the first entry whose pattern matches the path of a
  request. What the table relies on: a pattern without a star matches itself only, a star everything.
\<close>

definition route :: "(string \<Rightarrow> string \<Rightarrow> bool) \<Rightarrow> string \<Rightarrow> url_handler option" where
  "route matches path = map_option snd (find (\<lambda>(pat, h). matches pat path) builtInUrls)"

definition url_matching :: "(string \<Rightarrow> string \<Rightarrow> bool) \<Rightarrow> bool" where
  "url_matching matches \<longleftrightarrow>
     (\<forall>path. matches ''*'' path) \<and> (\<forall>pat path. CHR ''*'' \<notin> set pat \<longrightarrow> matches pat path = (path = pat))"

text \<open>The table as a map: a path that has no entry of its own is looked up in the file system.\<close>

lemma find_star:
  assumes "url_matching matches" and "\<forall>x\<in>set us. CHR ''*'' \<notin> set (fst x)"
  shows "map_option snd (find (\<lambda>(pat, h). matches pat path) (us @ [(''*'', h0)]))
    = (case map_of us path of None \<Rightarrow> Some h0 | Some h \<Rightarrow> Some h)"
  using assms(2)
proof (induction us)
  case Nil
  then show ?case using assms(1) by (simp add: url_matching_def)
next
  case (Cons x us)
  then show ?case using assms(1) by (cases x) (auto simp: url_matching_def)
qed

lemma route_map_of:
  assumes "url_matching matches"
  shows "route matches path = (case map_of (butlast builtInUrls) path of None \<Rightarrow> Some File_system | Some h \<Rightarrow> Some h)"
proof -
  have "builtInUrls = butlast builtInUrls @ [(''*'', File_system)]" by (simp add: builtInUrls_def)
  moreover have "\<forall>x\<in>set (butlast builtInUrls). CHR ''*'' \<notin> set (fst x)" by (simp add: builtInUrls_def)
  ultimately show ?thesis using find_star [OF assms] unfolding route_def by metis
qed

section \<open>The load of the tasks\<close>

text \<open>The load of a task, given the times kept at the last page.\<close>

definition load_since :: "hashmap \<Rightarrow> u32 \<Rightarrow> task_status \<Rightarrow> u32" where
  "load_since hm percent t =
     (run_time t - (case hashmap_find hm (task_number t) of None \<Rightarrow> run_time t | Some v \<Rightarrow> v)) div percent"

lemma hashmap_get_find: "snd (hashmap_get hm k old) = (case hashmap_find hm k of None \<Rightarrow> old | Some v \<Rightarrow> v)"
  by (simp add: hashmap_get_def hashmap_find_def split: option.split)

lemma load_since_other:
  "k \<noteq> task_number t \<Longrightarrow> load_since (hashmap_set hm k v) p t = load_since hm p t"
  by (simp add: load_since_def times.get_set)

lemma task_lines_loads:
  "distinct (map task_number ts) \<Longrightarrow>
     map snd (fst (task_lines p ts hm)) = map (load_since hm p) ts
     \<and> snd (task_lines p ts hm) = fold (\<lambda>(i, v) m. hashmap_set m i v) (map (\<lambda>t. (task_number t, run_time t)) ts) hm"
proof (induction ts arbitrary: hm)
  case (Cons t ts)
  let ?hm = "hashmap_set hm (task_number t) (run_time t)"
  have eq: "map (load_since ?hm p) ts = map (load_since hm p) ts"
    using Cons.prems by (intro map_cong refl load_since_other) auto
  obtain ls hm' where l: "task_lines p ts ?hm = (ls, hm')" by fastforce
  have d: "task_delta hm t = (run_time t - (case hashmap_find hm (task_number t) of None \<Rightarrow> run_time t | Some v \<Rightarrow> v), ?hm)"
    by (simp add: task_delta_def Let_def hashmap_get_find)
  show ?case
    using Cons.IH [of ?hm] Cons.prems eq by (simp add: d l Let_def load_since_def [of _ _ t])
qed simp

lemma percent_time_bounds:
  assumes "delta \<le> total_runtime - before"
  shows "percent_time total_runtime before \<noteq> 0" and "delta div percent_time total_runtime before \<le> 199"
proof -
  let ?d = "unat (total_runtime - before)"
  have p: "unat (percent_time total_runtime before) = (if ?d div 100 = 0 then 1 else ?d div 100)"
    by (simp add: percent_time_def Let_def unat_div_distrib word_unat_eq_iff)
  then show "percent_time total_runtime before \<noteq> 0" by (auto simp: word_unat_eq_iff split: if_splits)
  have le: "unat delta \<le> ?d" using assms by (simp add: word_le_nat_alt)
  have "unat delta div (if ?d div 100 = 0 then 1 else ?d div 100) \<le> 199"
  proof (cases "?d div 100 = 0")
    case True
    then have "?d < 100" by (simp add: div_eq_0_iff)
    with True le show ?thesis by simp
  next
    case False
    have "unat delta div (?d div 100) \<le> ?d div (?d div 100)" using le by (rule div_le_mono)
    also have "\<dots> \<le> 199"
    proof -
      have "?d < 100 * (?d div 100) + 100" by (metis mod_less_divisor mult_div_mod_eq nat_add_left_cancel_less zero_less_numeral)
      also have "\<dots> \<le> 200 * (?d div 100)" using False by simp
      finally have "?d div (?d div 100) < 200"
        using False by (simp add: div_less_iff_less_mult)
      then show ?thesis by simp
    qed
    finally show ?thesis using False by simp
  qed
  then show "delta div percent_time total_runtime before \<le> 199"
    by (simp add: word_le_nat_alt unat_div_distrib p)
qed

lemma sort_distinct: "distinct (map task_number ts) \<Longrightarrow> distinct (map task_number (sort_key task_number ts))"
proof -
  assume d: "distinct (map task_number ts)"
  then have "distinct ts" "inj_on task_number (set ts)" by (simp_all add: distinct_map)
  then show ?thesis by (simp add: distinct_map)
qed

lemma kept_times:
  assumes "distinct (map task_number ts)" and "t \<in> set ts"
  shows "hashmap_find (snd (task_lines p (sort_key task_number ts) hm)) (task_number t) = Some (run_time t)"
proof -
  have d: "distinct (map fst (map (\<lambda>t. (task_number t, run_time t)) (sort_key task_number ts)))"
    using sort_distinct [OF assms(1)] by (simp add: comp_def)
  have "(task_number t, run_time t) \<in> set (map (\<lambda>t. (task_number t, run_time t)) (sort_key task_number ts))"
    using assms(2) by auto
  from times.get_fold [OF d this] task_lines_loads [OF sort_distinct [OF assms(1)]] show ?thesis by simp
qed

text \<open>
  The status page lists the load of each task since the page before: the run time it used, divided
  by the time one percent stands for, which is never 0; a load is at most 199, reached when the pages
  follow each other quickly. On a first page every load is 0.
\<close>

theorem status_loads:
  assumes "cgi_status False c (Some (ts, t1)) (hashmap_new, t0) = (Some (h1, ls1), st1)"
    and "cgi_status False c' (Some (ts', t2)) st1 = (Some (h2, ls2), st2)"
    and "distinct (map task_number ts)" and "distinct (map task_number ts')"
  shows "(\<forall>x\<in>set ls1. snd x = 0)
    \<and> map snd ls2 = map (load_since (fst st1) (percent_time t2 t1)) (sort_key task_number ts')
    \<and> percent_time t2 t1 \<noteq> 0
    \<and> (\<forall>t\<in>set ts. \<forall>t'\<in>set ts'. task_number t' = task_number t \<longrightarrow> run_time t' - run_time t \<le> t2 - t1 \<longrightarrow>
         load_since (fst st1) (percent_time t2 t1) t' = (run_time t' - run_time t) div percent_time t2 t1
         \<and> load_since (fst st1) (percent_time t2 t1) t' \<le> 199)"
proof -
  let ?s = "sort_key task_number ts"
  have first: "ls1 = fst (task_lines (percent_time t1 t0) ?s hashmap_new)"
    "fst st1 = snd (task_lines (percent_time t1 t0) ?s hashmap_new)" "snd st1 = t1"
    using assms(1) by (auto simp: cgi_status_def Let_def split: prod.splits)
  have second: "ls2 = fst (task_lines (percent_time t2 t1) (sort_key task_number ts') (fst st1))"
    using assms(2) first(3) by (auto simp: cgi_status_def Let_def split: prod.splits)
  have "map snd ls1 = map (load_since hashmap_new (percent_time t1 t0)) ?s"
    using task_lines_loads [OF sort_distinct [OF assms(3)]] first(1) by simp
  moreover have "load_since hashmap_new p t = 0" for p t
    by (simp add: load_since_def times.get_empty)
  ultimately have zero: "map snd ls1 = map (\<lambda>_. 0) ?s" by simp
  have "\<forall>x\<in>set ls1. snd x = 0"
  proof
    fix x assume "x \<in> set ls1"
    then have "snd x \<in> set (map snd ls1)" by simp
    then show "snd x = 0" unfolding zero by auto
  qed
  moreover have "map snd ls2 = map (load_since (fst st1) (percent_time t2 t1)) (sort_key task_number ts')"
    using task_lines_loads [OF sort_distinct [OF assms(4)]] second by simp
  moreover have "percent_time t2 t1 \<noteq> 0" by (rule percent_time_bounds(1) [of 0]) simp
  moreover have "load_since (fst st1) p t' = (run_time t' - run_time t) div p"
    if "t \<in> set ts" "task_number t' = task_number t" for t t' p
    using kept_times [OF assms(3) that(1)] that(2) by (simp add: load_since_def first(2))
  ultimately show ?thesis using percent_time_bounds(2) by metis
qed

section \<open>The buffers\<close>

lemma vasprintf_num:
  "37 \<notin> set p \<Longrightarrow> vasprintf (p @ 37 # 117 # f) (FNum n # args)
     = map_option (\<lambda>t. p @ fmt_dec (unat n) @ t) (vasprintf f args)"
  "37 \<notin> set p \<Longrightarrow> vasprintf (p @ 37 # 100 # f) (FNum n # args)
     = map_option (\<lambda>t. p @ fmt_int (sint n) @ t) (vasprintf f args)"
  by (simp_all add: vasprintf_plain_append parse_conv_def fmt_width_def pad_to_def map_option_case split: option.split)

text \<open>A printed number has at most 11 characters.\<close>

lemma number_lengths: "length (fmt_dec (unat (n :: u32))) \<le> 11" "length (fmt_int (sint (n :: u32))) \<le> 11"
  using length_fmt_dec_u32 [of n] length_fmt_int_u32 [of n] by simp_all

lemma head_fits: "\<exists>t. status_head c = Some t"
proof -
  let ?t = "str ''free_heap: '' @ fmt_dec (unat (free_heap c)) @ str '','' @ [10] @ str ''uptime: '' @ fmt_int (sint (uptime c))
    @ str '' ms'' @ [10] @ str ''baud_rate: '' @ fmt_int (sint (status_baud c)) @ str '','' @ [10]
    @ str ''uart_overruns: '' @ fmt_int (sint (overruns c)) @ [10] @ str ''uart_errors: '' @ fmt_int (sint (errors c)) @ [10]
    @ str ''uart_rx_full_cnt: '' @ fmt_int (sint (queue_full c)) @ [10] @ str ''uart_rx_count: '' @ fmt_int (sint (rx_count c))
    @ [10] @ str ''uart_tx_count: '' @ fmt_int (sint (tx_count c)) @ [10] @ str ''tasks:'' @ [10]"
  have "vasprintf (str ''free_heap: %u,'' @ [10] @ str ''uptime: %d ms'' @ [10] @ str ''baud_rate: %d,'' @ [10]
        @ str ''uart_overruns: %d'' @ [10] @ str ''uart_errors: %d'' @ [10] @ str ''uart_rx_full_cnt: %d'' @ [10]
        @ str ''uart_rx_count: %d'' @ [10] @ str ''uart_tx_count: %d'' @ [10] @ str ''tasks:'' @ [10])
       [FNum (free_heap c), FNum (uptime c), FNum (status_baud c), FNum (overruns c), FNum (errors c),
        FNum (queue_full c), FNum (rx_count c), FNum (tx_count c)] = Some ?t"
    by (simp add: parse_conv_def fmt_width_def pad_to_def)
  moreover have "length ?t < 256"
    using number_lengths(1) [of "free_heap c"] number_lengths(2) [of "uptime c"] number_lengths(2) [of "status_baud c"]
      number_lengths(2) [of "overruns c"] number_lengths(2) [of "errors c"] number_lengths(2) [of "queue_full c"]
      number_lengths(2) [of "rx_count c"] number_lengths(2) [of "tx_count c"]
    by simp
  ultimately show ?thesis by (simp add: status_head_def snprintf_sent_def)
qed

lemma pad_length: "length (pad_to z w t) = max w (length t)"
  by (simp add: pad_to_def)

lemma line_fits:
  assumes "length (task_name t) < 16" and "task_state t < 6"
  shows "\<exists>l. task_line t cpu = Some l"
proof -
  let ?t = "9 # str ''id: '' @ pad_to False 4 (fmt_dec (unat (of_nat (task_number t) :: u32))) @ str '', name: ''
    @ pad_to False 16 (task_name t) @ str '', prio: '' @ pad_to False 3 (fmt_dec (unat (priority t))) @ str '', state: ''
    @ pad_to False 8 (task_state_name (task_state t)) @ str '', stack_hwm: ''
    @ pad_to False 4 (fmt_dec (unat (ucast (high_water t) :: u32))) @ str '', cpu: '' @ fmt_int (sint cpu) @ [37, 10]"
  have "vasprintf (9 # str ''id: %4u, name: %16s, prio: %3u, state: %8s, stack_hwm: %4u, cpu: %d%%'' @ [10])
       [FNum (of_nat (task_number t)), FStr (task_name t), FNum (priority t), FStr (task_state_name (task_state t)),
        FNum (ucast (high_water t)), FNum cpu] = Some ?t"
    by (simp add: parse_conv_def fmt_width_def)(simp add: pad_to_def)
  moreover have "length (task_state_name (task_state t)) \<le> 10"
  proof -
    consider "task_state t = 0" | "task_state t = 1" | "task_state t = 2" | "task_state t = 3" | "task_state t = 4" | "task_state t = 5"
      using assms(2) by linarith
    then show ?thesis by cases (simp_all add: task_state_name_def)
  qed
  then have "length ?t < 256"
    using assms(1) number_lengths(1) [of "of_nat (task_number t)"] number_lengths(1) [of "priority t"]
      number_lengths(1) [of "ucast (high_water t)"] number_lengths(2) [of cpu]
    by (simp add: pad_length)
  ultimately show ?thesis by (simp add: task_line_def snprintf_sent_def)
qed

lemma task_lines_line:
  "x \<in> set (fst (task_lines p ts hm)) \<Longrightarrow> \<exists>t\<in>set ts. \<exists>cpu. fst x = task_line t cpu"
proof (induction ts arbitrary: hm)
  case (Cons t ts)
  obtain d hm1 where d: "task_delta hm t = (d, hm1)" by fastforce
  obtain ls hm2 where l: "task_lines p ts hm1 = (ls, hm2)" by fastforce
  have "x = (task_line t (d div p), d div p) \<or> x \<in> set (fst (task_lines p ts hm1))"
    using Cons.prems by (simp add: d l Let_def)
  then show ?case using Cons.IH [of hm1] by auto
qed simp

lemma short_json_fits:
  assumes "length k < 20" and "37 \<notin> set (str k)"
  shows "\<exists>t. snprintf_sent 64 (str ''{'' @ quoted k @ str '': %u }'') [FNum n] = Some t"
proof -
  have "vasprintf (str ''{'' @ quoted k @ str '': %u }'') [FNum n]
      = Some (str ''{'' @ quoted k @ str '': '' @ fmt_dec (unat n) @ str '' }'')"
    using vasprintf_num(1) [of "str ''{'' @ quoted k @ str '': ''" "str '' }''" n "[]"] assms(2)
    by (simp add: quoted_def)
  then show ?thesis
    using assms(1) number_lengths(1) [of n] by (simp add: snprintf_sent_def quoted_def)
qed

text \<open>
  Every text of the web server fits the buffer it is printed to: the answers about the baud rate and
  the transmit power 64 bytes, the head and every line of the status page 256 bytes, for any values of
  the counters, provided the names of tasks have at most 15 characters and the states are the six the
  kernel has.
\<close>

theorem answers_fit:
  assumes "\<forall>t\<in>set ts. length (task_name t) < 16 \<and> task_state t < 6"
  shows "fst (cgi_baud rate closed arg u) \<noteq> Some None \<and> fst (cgi_tx_power limit closed arg dbm) \<noteq> Some None
    \<and> (case fst (cgi_status closed c (Some (ts, n)) st) of None \<Rightarrow> closed
       | Some (h, ls) \<Rightarrow> h \<noteq> None \<and> (\<forall>l\<in>set ls. fst l \<noteq> None))"
proof (intro conjI)
  have short: "snprintf_sent 64 (str ''{'' @ quoted k @ str '': %u }'') [FNum n] \<noteq> None"
    if "k = ''baudrate'' \<or> k = ''txpower''" for k n
    using that short_json_fits [of k n] by force
  show "fst (cgi_baud rate closed arg u) \<noteq> Some None"
    unfolding cgi_baud_def Let_def by (cases closed) (simp_all only: fst_conv if_True if_False short option.inject simp_thms option.distinct)
  show "fst (cgi_tx_power limit closed arg dbm) \<noteq> Some None"
    unfolding cgi_tx_power_def Let_def by (cases closed) (simp_all only: fst_conv if_True if_False short option.inject simp_thms option.distinct)
  obtain ls hm where l: "task_lines (percent_time n (snd st)) (sort_key task_number ts) (fst st) = (ls, hm)"
    by fastforce
  have "fst x \<noteq> None" if x: "x \<in> set ls" for x
  proof -
    from x l obtain t cpu where "t \<in> set ts" "fst x = task_line t cpu"
      using task_lines_line [of x "percent_time n (snd st)" "sort_key task_number ts" "fst st"] by auto
    with assms line_fits [of t cpu] show ?thesis by auto
  qed
  then show "case fst (cgi_status closed c (Some (ts, n)) st) of None \<Rightarrow> closed
       | Some (h, ls) \<Rightarrow> h \<noteq> None \<and> (\<forall>l\<in>set ls. fst l \<noteq> None)"
    using head_fits [of c] by (auto simp: cgi_status_def l)
qed

subsection \<open>The properties at concrete states\<close>

definition idle_task :: "u32 \<Rightarrow> task_status" where
  "idle_task time = \<lparr>task_number = 1, task_name = str ''IDLE'', priority = 0, task_state = 1, high_water = 300, run_time = time\<rparr>"

definition no_counts :: status_counters where
  "no_counts = \<lparr>free_heap = 0, uptime = 0, status_baud = 0, overruns = 0, errors = 0, queue_full = 0, rx_count = 0, tx_count = 0\<rparr>"

theorem answers_fit_witness:
  "fst (cgi_baud (\<lambda>b. b) False None \<lparr>baud0 = 4294967295, baud1 = 0, nvs_baud = None, wire = []\<rparr>) \<noteq> Some None"
  by (rule answers_fit [of "[]", THEN conjunct1]) simp

lemma cgi_status_answers: "\<exists>h ls st'. cgi_status False c (Some (ts, n)) st = (Some (h, ls), st')"
  by (simp add: cgi_status_def split: prod.split)

theorem status_loads_witness:
  "\<exists>h1 ls1 st1 h2 ls2 st2. cgi_status False no_counts (Some ([idle_task 100], 1000)) (hashmap_new, 0) = (Some (h1, ls1), st1)
    \<and> cgi_status False no_counts (Some ([idle_task 600], 2000)) st1 = (Some (h2, ls2), st2) \<and> map snd ls2 = [50]"
proof -
  obtain h1 ls1 st1 where one: "cgi_status False no_counts (Some ([idle_task 100], 1000)) (hashmap_new, 0) = (Some (h1, ls1), st1)"
    using cgi_status_answers by blast
  obtain h2 ls2 st2 where two: "cgi_status False no_counts (Some ([idle_task 600], 2000)) st1 = (Some (h2, ls2), st2)"
    using cgi_status_answers by blast
  have "load_since (fst st1) (percent_time 2000 1000) (idle_task 600) = 50"
    using status_loads [OF one two]
    by (simp add: idle_task_def percent_time_def word_le_nat_alt)
  moreover have "map snd ls2 = map (load_since (fst st1) (percent_time 2000 1000)) [idle_task 600]"
    using status_loads [OF one two] by (simp add: idle_task_def)
  ultimately show ?thesis using one two by auto
qed

end
