(* ===== verification/XtermText.thy ===== *)
theory XtermText
  imports Prelude
begin

text \<open>
  The text decoders of the terminal in \<open>src/html/xterm.js\<close>: \<open>StringToUtf32\<close> for strings, whose code units
  are 16-bit words, \<open>Utf8ToUtf32\<close> for the bytes of web socket messages, and \<open>utf32ToString\<close>. Both
  decoders keep what a chunk leaves incomplete in a member \<open>interim\<close>. Code points are natural numbers;
  a decoder returns the ones it has stored in the parse buffer.
\<close>

section \<open>Strings\<close>

text \<open>\<open>String.fromCharCode\<close> and \<open>charCodeAt\<close>.\<close>

abbreviation from_char_code :: "nat \<Rightarrow> u16" where
  "from_char_code n \<equiv> of_nat n"

fun utf32ToString :: "nat list \<Rightarrow> u16 list" where
  "utf32ToString [] = []"
| "utf32ToString (q # r) =
     (if 65535 < q then
        (let q = q - 65536
         in from_char_code (55296 + drop_bit 10 q) # from_char_code (q mod 1024 + 56320) # utf32ToString r)
      else from_char_code q # utf32ToString r)"

definition high_surrogate :: "nat \<Rightarrow> bool" where
  "high_surrogate s \<longleftrightarrow> 55296 \<le> s \<and> s \<le> 56319"

definition low_surrogate :: "nat \<Rightarrow> bool" where
  "low_surrogate a \<longleftrightarrow> 56320 \<le> a \<and> a \<le> 57343"

text \<open>A high surrogate with the code unit that follows it.\<close>

definition surrogate_pair :: "nat \<Rightarrow> nat \<Rightarrow> nat list" where
  "surrogate_pair s a = (if low_surrogate a then [1024 * (s - 55296) + a - 56320 + 65536] else [s, a])"

text \<open>The loop of \<open>decode\<close>; the second result is the new \<open>_interim\<close>.\<close>

fun string_loop :: "u16 list \<Rightarrow> nat list \<times> nat" where
  "string_loop [] = ([], 0)"
| "string_loop (c # r) =
     (if high_surrogate (unat c) then
        (case r of
           [] \<Rightarrow> ([], unat c)
         | a # r' \<Rightarrow> apfst (\<lambda>t. surrogate_pair (unat c) (unat a) @ t) (string_loop r'))
      else apfst (\<lambda>t. unat c # t) (string_loop r))"

definition StringToUtf32_decode :: "nat \<Rightarrow> u16 list \<Rightarrow> nat list \<times> nat" where
  "StringToUtf32_decode interim e =
     (case e of
        [] \<Rightarrow> ([], interim)
      | a # r \<Rightarrow> if interim \<noteq> 0 then apfst (\<lambda>t. surrogate_pair interim (unat a) @ t) (string_loop r) else string_loop e)"

section \<open>UTF-8\<close>

text \<open>The masks of the decoder: leading bytes of two, three and four bytes, and following bytes.\<close>

definition lead2 :: "byte \<Rightarrow> bool" where "lead2 i \<longleftrightarrow> 192 = 224 AND i"
definition lead3 :: "byte \<Rightarrow> bool" where "lead3 i \<longleftrightarrow> 224 = 240 AND i"
definition lead4 :: "byte \<Rightarrow> bool" where "lead4 i \<longleftrightarrow> 240 = 248 AND i"
definition follows :: "byte \<Rightarrow> bool" where "follows n \<longleftrightarrow> 128 = 192 AND n"

text \<open>\<open>u << 6 | 63 & n\<close>; the numbers stay below \<open>2 ^ 21\<close>.\<close>

definition shift_in :: "nat \<Rightarrow> byte \<Rightarrow> nat" where
  "shift_in u n = push_bit 6 u OR unat (63 AND n)"

definition bad3 :: "nat \<Rightarrow> bool" where
  "bad3 c \<longleftrightarrow> c < 2048 \<or> 55296 \<le> c \<and> c \<le> 57343"

definition bad4 :: "nat \<Rightarrow> bool" where
  "bad4 c \<longleftrightarrow> c < 65536 \<or> 1114111 < c"

text \<open>The inner loop of the fast path: four ASCII bytes at a time, while more than four are left.\<close>

fun ascii_run :: "byte list \<Rightarrow> nat list \<times> byte list" where
  "ascii_run (i # n # q # s # x # r) =
     (if 128 AND i = 0 \<and> 128 AND n = 0 \<and> 128 AND q = 0 \<and> 128 AND s = 0
      then apfst (\<lambda>t. unat i # unat n # unat q # unat s # t) (ascii_run (x # r))
      else ([], i # n # q # s # x # r))"
| "ascii_run e = ([], e)"

lemma ascii_run_length: "(t, e') = ascii_run e \<Longrightarrow> length e' \<le> length e"
  by (induction e arbitrary: t e' rule: ascii_run.induct)
    (force simp: apfst_def map_prod_def split: if_splits prod.splits)+

text \<open>
  The body of the loop of \<open>decode\<close>, for the byte \<open>i\<close> and the rest \<open>r\<close> of the chunk: it goes on with the code
  points stored and what is left, or returns with the bytes it has put into \<open>interim\<close>. A byte that does
  not belong to the sequence is looked at again (\<open>g--\<close>).
\<close>

datatype round = Next "nat list" "byte list" | Incomplete "byte list"

definition emit_unless :: "bool \<Rightarrow> nat \<Rightarrow> nat list" where
  "emit_unless bad c = (if bad then [] else [c])"

definition utf8_body :: "byte \<Rightarrow> byte list \<Rightarrow> round" where
  "utf8_body i r =
     (if i < 128 then Next [unat i] r
      else if lead2 i then
        (case r of
           [] \<Rightarrow> Incomplete [i]
         | n # r1 \<Rightarrow>
             if \<not> follows n then Next [] r
             else (let c = shift_in (unat (31 AND i)) n in if c < 128 then Next [] r else Next [c] r1))
      else if lead3 i then
        (case r of
           [] \<Rightarrow> Incomplete [i]
         | n # r1 \<Rightarrow>
             if \<not> follows n then Next [] r
             else
               (case r1 of
                  [] \<Rightarrow> Incomplete [i, n]
                | q # r2 \<Rightarrow>
                    if \<not> follows q then Next [] r1
                    else (let c = shift_in (shift_in (unat (15 AND i)) n) q in Next (emit_unless (bad3 c) c) r2)))
      else if lead4 i then
        (case r of
           [] \<Rightarrow> Incomplete [i]
         | n # r1 \<Rightarrow>
             if \<not> follows n then Next [] r
             else
               (case r1 of
                  [] \<Rightarrow> Incomplete [i, n]
                | q # r2 \<Rightarrow>
                    if \<not> follows q then Next [] r1
                    else
                      (case r2 of
                         [] \<Rightarrow> Incomplete [i, n, q]
                       | s # r3 \<Rightarrow>
                           if \<not> follows s then Next [] r2
                           else
                             (let c = shift_in (shift_in (shift_in (unat (7 AND i)) n) q) s
                              in Next (emit_unless (bad4 c) c) r3))))
      else Next [] r)"

lemma utf8_body_length: "utf8_body i r = Next t r' \<Longrightarrow> length r' \<le> length r"
  by (auto simp: utf8_body_def Let_def split: if_splits list.splits)

definition store_left :: "byte list \<Rightarrow> byte list \<Rightarrow> byte list" where
  "store_left p m = p @ drop (length p) m"

function utf8_loop :: "byte list \<Rightarrow> byte list \<Rightarrow> nat list \<times> byte list" where
  "utf8_loop m e =
     (let (t, e') = ascii_run e
      in apfst (\<lambda>u. t @ u)
        (case e' of
           [] \<Rightarrow> ([], m)
         | i # r \<Rightarrow>
             (case utf8_body i r of
                Next u r' \<Rightarrow> apfst (\<lambda>v. u @ v) (utf8_loop m r')
              | Incomplete p \<Rightarrow> ([], store_left p m))))"
  by pat_completeness auto
termination
  by (relation "measure (\<lambda>(m, e). length e)") (auto dest!: ascii_run_length utf8_body_length)

declare utf8_loop.simps [simp del]

text \<open>
  What is in \<open>interim\<close> already, from its second byte: the number of bytes and the bits they give. The
  search ends at a byte whose lower six bits are zero.
\<close>

fun interim_bits :: "byte list \<Rightarrow> nat \<Rightarrow> nat \<Rightarrow> nat \<times> nat" where
  "interim_bits [] f u = (f, u)"
| "interim_bits (x # r) f u = (if 63 AND x \<noteq> 0 then interim_bits r (f + 1) (shift_in u x) else (f, u))"

text \<open>
  Completing a sequence with the first bytes of a chunk: there are not enough, one does not belong to
  it, or it is complete. What is stored behind the end of the array is lost, as in a typed array.
\<close>

datatype completion = Short "byte list" | Broken "byte list" | Complete nat "byte list"

fun complete_loop :: "nat \<Rightarrow> nat \<Rightarrow> nat \<Rightarrow> byte list \<Rightarrow> byte list \<Rightarrow> completion" where
  "complete_loop 0 f u m e = Complete u e"
| "complete_loop (Suc k) f u m [] = Short m"
| "complete_loop (Suc k) f u m (b # r) =
     (if \<not> follows b then Broken (b # r) else complete_loop k (f + 1) (shift_in u b) (m[f := b]) r)"

definition Utf8ToUtf32_decode :: "byte list \<Rightarrow> byte list \<Rightarrow> nat list \<times> byte list" where
  "Utf8ToUtf32_decode m e =
     (if e = [] then ([], m)
      else if m ! 0 = 0 then utf8_loop m e
      else
        (let i = m ! 0;
             (f, u) = interim_bits (tl m) 1 (unat ((if lead2 i then 31 else if lead3 i then 15 else 7) AND i));
             d = (if lead2 i then 2 else if lead3 i then 3 else 4);
             z = map (\<lambda>_. 0) m
         in case complete_loop (d - f) f u m e of
              Short m' \<Rightarrow> ([], m')
            | Broken r \<Rightarrow> utf8_loop z r
            | Complete u r \<Rightarrow>
                if d = 2 then
                  (if u < 128 then utf8_loop z (drop (length e - length r - 1) e)
                   else apfst (\<lambda>t. u # t) (utf8_loop z r))
                else apfst (\<lambda>t. emit_unless (if d = 3 then bad3 u else bad4 u) u @ t) (utf8_loop z r)))"

definition new_interim :: "byte list" where
  "new_interim = [0, 0, 0]"

section \<open>The reference decoder\<close>

text \<open>A decoder of whole texts: the code points, and the bytes of an incomplete sequence at the end.\<close>

function utf8_text :: "byte list \<Rightarrow> nat list \<times> byte list" where
  "utf8_text e =
     (case e of
        [] \<Rightarrow> ([], [])
      | i # r \<Rightarrow>
          (case utf8_body i r of
             Next t r' \<Rightarrow> apfst (\<lambda>u. t @ u) (utf8_text r')
           | Incomplete p \<Rightarrow> ([], p)))"
  by pat_completeness auto
termination
  by (relation "measure length") (auto dest!: utf8_body_length)

declare utf8_text.simps [simp del]

lemma utf8_text_Nil [simp]: "utf8_text [] = ([], [])"
  by (simp add: utf8_text.simps)

lemma utf8_text_Cons:
  "utf8_text (i # r) = (case utf8_body i r of Next t r' \<Rightarrow> apfst (\<lambda>u. t @ u) (utf8_text r') | Incomplete p \<Rightarrow> ([], p))"
  by (subst utf8_text.simps) simp

lemma apfst_append [simp]: "apfst (\<lambda>u. a @ u) (apfst (\<lambda>u. b @ u) x) = apfst (\<lambda>u. (a @ b) @ u) x"
  by (cases x) simp

lemma apfst_nil [simp]: "apfst (\<lambda>u. u) x = x" "apfst ((@) []) x = x"
  by (cases x; simp)+

lemma high_bit_clear: "128 AND (i :: byte) = 0 \<longleftrightarrow> i < 128"
proof -
  have "128 AND i = 0 \<longleftrightarrow> \<not> bit i 7"
    using and_exp_eq_0_iff_not_bit [of i 7] by (simp add: and.commute)
  also have "\<not> bit i 7 \<longleftrightarrow> take_bit 7 i = i"
  proof
    assume n: "\<not> bit i 7"
    have "k < 7" if "bit i k" for k
    proof -
      have "k < 8" using bit_imp_le_length [OF that] by simp
      moreover have "k \<noteq> 7" using that n by auto
      ultimately show ?thesis by simp
    qed
    then show "take_bit 7 i = i" by (intro bit_eqI) (auto simp: bit_take_bit_iff)
  next
    assume "take_bit 7 i = i"
    then show "\<not> bit i 7" by (metis bit_take_bit_iff less_irrefl)
  qed
  also have "take_bit 7 i = i \<longleftrightarrow> i < 128"
    by (simp add: word_less_nat_alt word_unat_eq_iff unsigned_take_bit_eq take_bit_nat_eq_self_iff)
  finally show ?thesis .
qed

lemma utf8_text_ascii: "i < 128 \<Longrightarrow> utf8_text (i # r) = apfst (\<lambda>u. unat i # u) (utf8_text r)"
  by (simp add: utf8_text_Cons utf8_body_def)

lemma ascii_run_text: "(t, e') = ascii_run e \<Longrightarrow> utf8_text e = apfst (\<lambda>u. t @ u) (utf8_text e')"
proof (induction e arbitrary: t e' rule: ascii_run.induct)
  case (1 i n q s x r)
  show ?case
  proof (cases "128 AND i = 0 \<and> 128 AND n = 0 \<and> 128 AND q = 0 \<and> 128 AND s = 0")
    case True
    obtain t1 e1 where t1: "(t1, e1) = ascii_run (x # r)" by (metis prod.collapse)
    with True 1(2) have "t = unat i # unat n # unat q # unat s # t1" "e' = e1"
      by (simp_all add: apfst_def map_prod_def split: prod.splits)
    with True 1(1) [OF True t1] show ?thesis
      by (cases "utf8_text e1") (simp add: high_bit_clear utf8_text_ascii)
  next
    case False
    with 1(2) show ?thesis by simp
  qed
qed simp_all

text \<open>The loop of the decoder is the reference decoder.\<close>

lemma utf8_loop_text: "utf8_loop m e = (fst (utf8_text e), store_left (snd (utf8_text e)) m)"
proof (induction m e rule: utf8_loop.induct)
  case (1 m e)
  obtain t e' where t: "(t, e') = ascii_run e" by (metis prod.collapse)
  show ?case
  proof (cases e')
    case Nil
    then show ?thesis
      using ascii_run_text [OF t] t [symmetric] by (subst utf8_loop.simps) (simp add: store_left_def)
  next
    case (Cons i r)
    show ?thesis
    proof (cases "utf8_body i r")
      case (Next u r')
      then show ?thesis
        using ascii_run_text [OF t] t [symmetric] Cons 1(1) [OF t refl Cons Next]
        by (subst utf8_loop.simps) (simp add: utf8_text_Cons)
    next
      case (Incomplete p)
      then show ?thesis
        using ascii_run_text [OF t] t [symmetric] Cons by (subst utf8_loop.simps) (simp add: utf8_text_Cons)
    qed
  qed
qed

text \<open>More bytes do not change what a round has done, unless it had too few.\<close>

lemma utf8_body_more: "utf8_body i r = Next t r' \<Longrightarrow> utf8_body i (r @ b) = Next t (r' @ b)"
  by (auto simp: utf8_body_def Let_def split: if_splits list.splits)

lemma utf8_body_incomplete: "utf8_body i r = Incomplete p \<Longrightarrow> p = i # r"
  by (auto simp: utf8_body_def Let_def split: if_splits list.splits)

lemma utf8_text_append:
  "utf8_text (a @ b) = apfst (\<lambda>u. fst (utf8_text a) @ u) (utf8_text (snd (utf8_text a) @ b))"
proof (induction a rule: utf8_text.induct)
  case (1 a)
  show ?case
  proof (cases a)
    case (Cons i r)
    show ?thesis
    proof (cases "utf8_body i r")
      case (Next t r')
      with Cons 1(1) [OF Cons Next] show ?thesis by (simp add: utf8_text_Cons utf8_body_more)
    next
      case (Incomplete p)
      with Cons utf8_body_incomplete [OF Incomplete] show ?thesis by (simp add: utf8_text_Cons)
    qed
  qed simp
qed

section \<open>Texts in chunks\<close>

text \<open>
  The bytes of a sequence that the end of a chunk has cut, as \<open>interim\<close> keeps them. The cut is safe when
  the lower six bits of the following bytes among them are not all zero.
\<close>

definition cut_sequence :: "byte list \<Rightarrow> bool" where
  "cut_sequence p \<longleftrightarrow> (case p of [] \<Rightarrow> True | i # r \<Rightarrow> utf8_body i r = Incomplete p)"

definition safe_cut :: "byte list \<Rightarrow> bool" where
  "safe_cut p \<longleftrightarrow> (\<forall>n\<in>set (tl p). 63 AND n \<noteq> 0)"

lemma cut_shapes:
  assumes "utf8_body i r = Incomplete p"
  obtains (two) "r = []" "lead2 i"
  | (three1) "r = []" "\<not> lead2 i" "lead3 i"
  | (three2) n where "r = [n]" "\<not> lead2 i" "lead3 i" "follows n"
  | (four1) "r = []" "\<not> lead2 i" "\<not> lead3 i" "lead4 i"
  | (four2) n where "r = [n]" "\<not> lead2 i" "\<not> lead3 i" "lead4 i" "follows n"
  | (four3) n q where "r = [n, q]" "\<not> lead2 i" "\<not> lead3 i" "lead4 i" "follows n" "follows q"
  using assms by (auto simp: utf8_body_def Let_def split: if_splits list.splits)

lemma cut_first: "utf8_body i r = Incomplete p \<Longrightarrow> \<not> i < 128 \<and> i \<noteq> 0"
  by (auto simp: utf8_body_def split: if_splits)

lemma new_interim_simps [simp]:
  "map (\<lambda>_. 0) (store_left p new_interim) = replicate (length p + (3 - length p)) 0"
  by (simp add: store_left_def new_interim_def map_replicate_const)

lemma complete_loop_numerals [simp]:
  "complete_loop 2 f u m [] = Short m" "complete_loop 3 f u m [] = Short m"
  "complete_loop 2 f u m (b # r) =
     (if \<not> follows b then Broken (b # r) else complete_loop 1 (f + 1) (shift_in u b) (m[f := b]) r)"
  "complete_loop 3 f u m (b # r) =
     (if \<not> follows b then Broken (b # r) else complete_loop 2 (f + 1) (shift_in u b) (m[f := b]) r)"
  by (simp_all add: numeral_2_eq_2 numeral_3_eq_3)

lemma decode_cut:
  assumes cut: "utf8_body i r = Incomplete (i # r)" and safe: "safe_cut (i # r)"
  shows "Utf8ToUtf32_decode (store_left (i # r) new_interim) e
    = (fst (utf8_text (i # r @ e)), store_left (snd (utf8_text (i # r @ e))) new_interim)"
proof (cases "e = []")
  case True
  then show ?thesis using cut by (simp add: Utf8ToUtf32_decode_def utf8_text_Cons)
next
  case False
  then obtain b e1 where e: "e = b # e1" by (auto simp: neq_Nil_conv)
  note big = cut_first [OF cut]
  have z: "[0, 0, 0] = new_interim" by (simp add: new_interim_def)
  note defs = Utf8ToUtf32_decode_def store_left_def new_interim_def utf8_body_def
    utf8_loop_text Let_def
  note whole = utf8_text_Cons [of i "r @ e"]
  from cut show ?thesis
  proof (cases rule: cut_shapes)
    case two
    then show ?thesis using big whole by (simp add: defs e)
  next
    case three1
    then show ?thesis using big whole by (cases e1) (simp_all add: defs e)
  next
    case three2
    then show ?thesis using big whole safe by (simp add: defs e safe_cut_def)
  next
    case four1
    then show ?thesis using big whole by (cases e1; cases "tl e1") (simp_all add: defs e)
  next
    case four2
    then show ?thesis using big whole safe by (cases e1) (simp_all add: defs e safe_cut_def)
  next
    case four3
    then show ?thesis using big whole safe by (simp add: defs e safe_cut_def)
  qed
qed

lemma store_Nil [simp]: "store_left [] m = m"
  by (simp add: store_left_def)

lemma decode_text:
  assumes "cut_sequence p" and "safe_cut p"
  shows "Utf8ToUtf32_decode (store_left p new_interim) e
    = (fst (utf8_text (p @ e)), store_left (snd (utf8_text (p @ e))) new_interim)"
proof (cases p)
  case Nil
  then show ?thesis by (simp add: Utf8ToUtf32_decode_def new_interim_def utf8_loop_text)
next
  case (Cons i r)
  then show ?thesis using decode_cut [of i r e] assms by (simp add: cut_sequence_def)
qed

lemma decode_new:
  "Utf8ToUtf32_decode new_interim e = (fst (utf8_text e), store_left (snd (utf8_text e)) new_interim)"
  using decode_text [of "[]" e] by (simp add: cut_sequence_def safe_cut_def)

lemma cut_sequence_text: "cut_sequence (snd (utf8_text a))"
proof (induction a rule: utf8_text.induct)
  case (1 a)
  show ?case
  proof (cases a)
    case Nil
    then show ?thesis by (simp add: cut_sequence_def)
  next
    case (Cons i r)
    show ?thesis
    proof (cases "utf8_body i r")
      case (Next t r')
      with 1 [OF Cons Next] Cons show ?thesis by (simp add: utf8_text_Cons)
    next
      case (Incomplete p)
      with Cons utf8_body_incomplete [OF Incomplete] show ?thesis by (simp add: utf8_text_Cons cut_sequence_def)
    qed
  qed
qed

lemma follows_nonzero: "follows n \<Longrightarrow> n \<noteq> 0"
  by (auto simp: follows_def)

text \<open>The bytes of a cut sequence are the ones in \<open>interim\<close> before the first 0.\<close>

lemma stored_bytes: "cut_sequence p \<Longrightarrow> takeWhile (\<lambda>b. b \<noteq> 0) (store_left p new_interim) = p"
proof (cases p)
  case (Cons i r)
  assume "cut_sequence p"
  with Cons have cut: "utf8_body i r = Incomplete (i # r)" by (simp add: cut_sequence_def)
  note first = cut_first [OF cut]
  from cut show ?thesis
    by (cases rule: cut_shapes) (use Cons first follows_nonzero in \<open>auto simp: store_left_def new_interim_def\<close>)
qed (simp add: store_left_def new_interim_def)

fun decode_all :: "byte list \<Rightarrow> byte list list \<Rightarrow> nat list \<times> byte list" where
  "decode_all m [] = ([], m)"
| "decode_all m (c # cs) =
     (let (t, m) = Utf8ToUtf32_decode m c; (u, m) = decode_all m cs in (t @ u, m))"

lemma decode_all_append:
  "decode_all m (a @ b) = (let (t, m) = decode_all m a; (u, m) = decode_all m b in (t @ u, m))"
  by (induction a arbitrary: m) (simp_all add: Let_def split: prod.split)

definition interim_bytes :: "byte list \<Rightarrow> byte list" where
  "interim_bytes m = takeWhile (\<lambda>b. b \<noteq> 0) m"

lemma decode_all_whole:
  assumes "\<forall>k < length cs. safe_cut (interim_bytes (snd (Utf8ToUtf32_decode new_interim (concat (take k cs)))))"
  shows "decode_all new_interim cs = Utf8ToUtf32_decode new_interim (concat cs)"
  using assms
proof (induction cs rule: rev_induct)
  case Nil
  then show ?case by (simp add: decode_new)
next
  case (snoc c cs)
  have "safe_cut (interim_bytes (snd (Utf8ToUtf32_decode new_interim (concat (take k cs)))))" if "k < length cs" for k
    using snoc.prems [rule_format, of k] that by simp
  with snoc.IH have ih: "decode_all new_interim cs = Utf8ToUtf32_decode new_interim (concat cs)" by blast
  let ?p = "snd (utf8_text (concat cs))"
  have "safe_cut ?p"
    using snoc.prems [rule_format, of "length cs"]
    by (simp add: decode_new interim_bytes_def stored_bytes [OF cut_sequence_text])
  then have "Utf8ToUtf32_decode (store_left ?p new_interim) c
      = (fst (utf8_text (?p @ c)), store_left (snd (utf8_text (?p @ c))) new_interim)"
    by (rule decode_text [OF cut_sequence_text])
  then show ?case
    by (simp add: decode_all_append ih decode_new utf8_text_append [of "concat cs" c])
qed

text \<open>
  However a text is cut into chunks, whether it is valid UTF-8 or not, decoding the chunks one after
  the other gives the code points of the whole text, and leaves the same bytes for the next chunk,
  provided that no cut leaves a following byte whose lower six bits are all zero.
\<close>

theorem utf8_chunks:
  assumes "\<forall>k < length cs. safe_cut (interim_bytes (snd (Utf8ToUtf32_decode new_interim (concat (take k cs)))))"
  shows "decode_all new_interim cs = Utf8ToUtf32_decode new_interim (concat cs)"
  using assms by (rule decode_all_whole)

section \<open>Texts that are UTF-8\<close>

text \<open>The encoding of a code point.\<close>

definition scalar :: "nat \<Rightarrow> bool" where
  "scalar c \<longleftrightarrow> c < 55296 \<or> 57343 < c \<and> c \<le> 1114111"

definition utf8_encode :: "nat \<Rightarrow> byte list" where
  "utf8_encode c =
     (if c < 128 then [of_nat c]
      else if c < 2048 then [of_nat (192 + c div 64), of_nat (128 + c mod 64)]
      else if c < 65536 then [of_nat (224 + c div 4096), of_nat (128 + c div 64 mod 64), of_nat (128 + c mod 64)]
      else [of_nat (240 + c div 262144), of_nat (128 + c div 4096 mod 64), of_nat (128 + c div 64 mod 64),
            of_nat (128 + c mod 64)])"

lemma follow_bytes: "\<forall>b\<in>set [0..<64]. follows (of_nat (128 + b)) \<and> unat (63 AND of_nat (128 + b) :: byte) = b"
  by code_simp

lemma lead2_bytes: "\<forall>a\<in>set [0..<32]. let i = of_nat (192 + a) :: byte in \<not> i < 128 \<and> lead2 i \<and> unat (31 AND i) = a"
  by code_simp

lemma lead3_bytes:
  "\<forall>a\<in>set [0..<16]. let i = of_nat (224 + a) :: byte in \<not> i < 128 \<and> \<not> lead2 i \<and> lead3 i \<and> unat (15 AND i) = a"
  by code_simp

lemma lead4_bytes:
  "\<forall>a\<in>set [0..<8]. let i = of_nat (240 + a) :: byte in
     \<not> i < 128 \<and> \<not> lead2 i \<and> \<not> lead3 i \<and> lead4 i \<and> unat (7 AND i) = a"
  by code_simp

lemma follow_byte: "b < 64 \<Longrightarrow> follows (of_nat (128 + b)) \<and> unat (63 AND of_nat (128 + b) :: byte) = b"
  using follow_bytes by (simp del: of_nat_add)

lemma shift_in_follow: "b < 64 \<Longrightarrow> shift_in u (of_nat (128 + b)) = 64 * u + b"
proof -
  assume b: "b < 64"
  then have "take_bit 6 b = b" by (simp add: take_bit_nat_eq_self)
  then have low: "bit b n \<Longrightarrow> n < 6" for n by (metis bit_take_bit_iff)
  have "push_bit 6 u OR b = push_bit 6 u + b"
    by (rule disjunctive_add [symmetric]) (auto simp: bit_push_bit_iff dest: low)
  with follow_byte [OF b] show ?thesis
    by (simp add: shift_in_def push_bit_eq_mult mult.commute del: of_nat_add)
qed

text \<open>The digits of a number to the base 64.\<close>

lemma base64: "64 * (c div 4096) + c div 64 mod 64 = c div (64 :: nat)"
  "64 * (c div 262144) + c div 4096 mod 64 = c div (4096 :: nat)"
proof -
  have d: "c div 4096 = c div 64 div 64" "c div 262144 = c div 4096 div 64"
    by (simp_all add: div_mult2_eq [symmetric])
  show "64 * (c div 4096) + c div 64 mod 64 = c div 64" unfolding d(1) by simp
  show "64 * (c div 262144) + c div 4096 mod 64 = c div 4096" unfolding d(2) by simp
qed

text \<open>The first round on an encoded code point stores just that.\<close>

lemma utf8_body_encode:
  assumes "scalar c"
  shows "utf8_text (utf8_encode c @ r) = apfst (\<lambda>u. c # u) (utf8_text r)"
proof -
  have m: "c mod 64 < 64" "c div 64 mod 64 < 64" "c div 4096 mod 64 < 64" by simp_all
  note follow = follow_byte [OF m(1)] follow_byte [OF m(2)] follow_byte [OF m(3)]
    shift_in_follow [OF m(1)] shift_in_follow [OF m(2)] shift_in_follow [OF m(3)]
  consider "c < 128" | "128 \<le> c" "c < 2048" | "2048 \<le> c" "c < 65536" | "65536 \<le> c" by linarith
  then show ?thesis
  proof cases
    case 1
    then have "of_nat c < (128 :: byte)" "unat (of_nat c :: byte) = c"
      by (simp_all add: word_less_nat_alt unat_of_nat)
    with 1 show ?thesis by (simp add: utf8_encode_def utf8_text_ascii)
  next
    case 2
    define i :: byte where "i = of_nat (192 + c div 64)"
    have "c div 64 < 32" using 2 by (simp add: less_mult_imp_div_less)
    then have i: "\<not> i < 128" "lead2 i" "unat (31 AND i) = c div 64"
      using lead2_bytes by (simp_all add: i_def Let_def del: of_nat_add)
    have e: "utf8_encode c = [i, of_nat (128 + c mod 64)]" using 2 by (simp add: utf8_encode_def i_def)
    have v: "64 * (c div 64) + c mod 64 = c" by simp
    show ?thesis
      using i follow 2 unfolding e by (simp add: utf8_text_Cons [of i] utf8_body_def v del: of_nat_add)
  next
    case 3
    define i :: byte where "i = of_nat (224 + c div 4096)"
    have "c div 4096 < 16" using 3 by (simp add: less_mult_imp_div_less)
    then have i: "\<not> i < 128" "\<not> lead2 i" "lead3 i" "unat (15 AND i) = c div 4096"
      using lead3_bytes by (simp_all add: i_def Let_def del: of_nat_add)
    have e: "utf8_encode c = [i, of_nat (128 + c div 64 mod 64), of_nat (128 + c mod 64)]"
      using 3 by (simp add: utf8_encode_def i_def)
    have "64 * (64 * (c div 4096) + c div 64 mod 64) + c mod 64 = c" unfolding base64 by simp
    then have v: "4096 * (c div 4096) + 64 * (c div 64 mod 64) + c mod 64 = c" by (simp add: distrib_left)
    have "\<not> bad3 c" using assms 3 by (auto simp: bad3_def scalar_def)
    with i follow show ?thesis
      unfolding e by (simp add: utf8_text_Cons [of i] utf8_body_def v emit_unless_def Let_def del: of_nat_add)
  next
    case 4
    define i :: byte where "i = of_nat (240 + c div 262144)"
    have top: "c \<le> 1114111" using assms 4 by (auto simp: scalar_def)
    then have "c div 262144 < 8" by (simp add: less_mult_imp_div_less)
    then have i: "\<not> i < 128" "\<not> lead2 i" "\<not> lead3 i" "lead4 i" "unat (7 AND i) = c div 262144"
      using lead4_bytes by (simp_all add: i_def Let_def del: of_nat_add)
    have e: "utf8_encode c = [i, of_nat (128 + c div 4096 mod 64), of_nat (128 + c div 64 mod 64), of_nat (128 + c mod 64)]"
      using 4 by (simp add: utf8_encode_def i_def)
    have "64 * (64 * (64 * (c div 262144) + c div 4096 mod 64) + c div 64 mod 64) + c mod 64 = c"
      unfolding base64 by simp
    then have v: "262144 * (c div 262144) + 4096 * (c div 4096 mod 64) + 64 * (c div 64 mod 64) + c mod 64 = c"
      by (simp add: distrib_left)
    have "\<not> bad4 c" using 4 top by (auto simp: bad4_def)
    with i follow show ?thesis
      unfolding e by (simp add: utf8_text_Cons [of i] utf8_body_def v emit_unless_def Let_def del: of_nat_add)
  qed
qed

text \<open>
  C31. The decoder reads back every text: the code points that were encoded, and nothing is left over.
\<close>

theorem utf8_roundtrip:
  assumes "\<forall>c\<in>set cps. scalar c"
  shows "Utf8ToUtf32_decode new_interim (concat (map utf8_encode cps)) = (cps, new_interim)"
proof -
  have "utf8_text (concat (map utf8_encode cps)) = (cps, [])"
    using assms
  proof (induction cps)
    case (Cons c cps)
    then show ?case using utf8_body_encode [of c "concat (map utf8_encode cps)"] by simp
  qed simp
  then show ?thesis by (simp add: decode_new)
qed

theorem utf8_roundtrip_witness:
  "Utf8ToUtf32_decode new_interim (concat (map utf8_encode [72, 233, 8364, 128512])) = ([72, 233, 8364, 128512], new_interim)"
  by (rule utf8_roundtrip) (simp add: scalar_def)

text \<open>A cut in the middle of a character of two bytes is safe, for instance.\<close>

theorem utf8_chunks_witness:
  "decode_all new_interim [[72, 195], [169, 33]] = Utf8ToUtf32_decode new_interim [72, 195, 169, 33]"
proof -
  have d: "Utf8ToUtf32_decode new_interim [72, 195] = ([72], [195, 0, 0])"
    by (subst decode_new) (simp add: utf8_text_Cons utf8_body_def lead2_def store_left_def new_interim_def)
  have "\<forall>k < length [[72, 195], [169, 33 :: byte]].
      safe_cut (interim_bytes (snd (Utf8ToUtf32_decode new_interim (concat (take k [[72, 195], [169, 33]])))))"
    using d decode_new [of "[]"] by (auto simp: less_Suc_eq safe_cut_def interim_bytes_def)
      (simp add: new_interim_def)
  from utf8_chunks [OF this] show ?thesis by simp
qed

lemma ascii_follows_not: "x < 128 \<Longrightarrow> \<not> follows x"
proof
  assume "x < 128" "follows x"
  then have "128 AND x = 0" "192 AND x = 128" by (simp_all add: high_bit_clear follows_def)
  moreover have "128 AND x = 128 AND (192 AND x)" by (simp flip: and.assoc)
  ultimately show False by simp
qed

text \<open>
  The characters from \<open>U+2000\<close> to \<open>U+203F\<close>, the dashes and quotation marks among them, are lost when a
  chunk ends after their second byte, which is \<open>0x80\<close>: its lower bits are zero, and the decoder forgets
  that it has had it. In one chunk they are decoded as they should be.
\<close>

theorem split_character_lost:
  assumes "k < 64" and "x < 128"
  shows "utf8_encode (8192 + k) = [226, 128, of_nat (128 + k)]
    \<and> Utf8ToUtf32_decode new_interim (utf8_encode (8192 + k) @ x # r)
      = apfst (\<lambda>t. (8192 + k) # t) (Utf8ToUtf32_decode new_interim (x # r))
    \<and> decode_all new_interim [[226, 128], of_nat (128 + k) # x # r] = Utf8ToUtf32_decode new_interim (x # r)"
proof (intro conjI)
  have "(8192 + k) div 4096 = 2" "(8192 + k) div 64 = 128"
    by (rule div_nat_eqI; use assms(1) in simp)+
  moreover have "(8192 + k) mod 64 = k" using mod_mult_self3 [of 128 64 k] assms(1) by simp
  ultimately have "(8192 + k) div 4096 = 2" "(8192 + k) div 64 mod 64 = 0" "(8192 + k) mod 64 = k" by simp_all
  then show "utf8_encode (8192 + k) = [226, 128, of_nat (128 + k)]" using assms(1) by (simp add: utf8_encode_def)
  have "scalar (8192 + k)" using assms(1) by (simp add: scalar_def)
  then show "Utf8ToUtf32_decode new_interim (utf8_encode (8192 + k) @ x # r)
      = apfst (\<lambda>t. (8192 + k) # t) (Utf8ToUtf32_decode new_interim (x # r))"
    by (simp add: decode_new utf8_body_encode)
  have one: "Utf8ToUtf32_decode new_interim [226, 128] = ([], [226, 128, 0])"
    by (subst decode_new) (simp add: utf8_text_Cons utf8_body_def lead2_def lead3_def follows_def store_left_def new_interim_def)
  have "Utf8ToUtf32_decode [226, 128, 0] (of_nat (128 + k) # x # r) = utf8_loop [0, 0, 0] (x # r)"
    using ascii_follows_not [OF assms(2)] follow_byte [OF assms(1)]
    by (simp add: Utf8ToUtf32_decode_def lead2_def lead3_def Let_def del: of_nat_add)
  then show "decode_all new_interim [[226, 128], of_nat (128 + k) # x # r] = Utf8ToUtf32_decode new_interim (x # r)"
    using decode_new [of "x # r"] by (simp add: one utf8_loop_text del: of_nat_add) (simp add: new_interim_def)
qed

theorem split_character_lost_witness:
  "decode_all new_interim [[226, 128], [148, 33]] = ([33], new_interim)
   \<and> Utf8ToUtf32_decode new_interim [226, 128, 148, 33] = ([8212, 33], new_interim)"
proof -
  have "Utf8ToUtf32_decode new_interim [33] = ([33], new_interim)"
    by (simp add: decode_new utf8_text_ascii)
  moreover have e: "utf8_encode 8212 = [226, 128, 148]" using split_character_lost [of 20 33 "[]"] by simp
  ultimately show ?thesis using split_character_lost [of 20 33 "[]"] by (simp add: e)
qed

text \<open>A chunk gives at most as many code points as it has bytes.\<close>

lemma utf8_body_count: "utf8_body i r = Next t r' \<Longrightarrow> length t + length r' \<le> Suc (length r)"
  by (auto simp: utf8_body_def emit_unless_def Let_def split: if_splits list.splits)

lemma utf8_text_count: "length (fst (utf8_text e)) \<le> length e"
proof (induction e rule: utf8_text.induct)
  case (1 e)
  show ?case
  proof (cases e)
    case (Cons i r)
    show ?thesis
    proof (cases "utf8_body i r")
      case (Next t r')
      with 1 [OF Cons Next] utf8_body_count [OF Next] Cons show ?thesis by (simp add: utf8_text_Cons)
    qed (simp add: Cons utf8_text_Cons)
  qed simp
qed

section \<open>Strings, in chunks and back\<close>

lemma high_nonzero: "high_surrogate s \<Longrightarrow> s \<noteq> 0"
  by (auto simp: high_surrogate_def)

lemma decode_string: "StringToUtf32_decode 0 e = string_loop e"
  by (cases e) (simp_all add: StringToUtf32_decode_def)

lemma string_loop_append:
  "string_loop (a @ b) = (let (t, i) = string_loop a; (u, j) = StringToUtf32_decode i b in (t @ u, j))"
proof (induction a rule: string_loop.induct)
  case (2 c r)
  show ?case
  proof (cases "high_surrogate (unat c)")
    case True
    show ?thesis
    proof (cases r)
      case Nil
      with True high_nonzero [OF True] show ?thesis
        by (cases b) (simp_all add: StringToUtf32_decode_def apfst_def map_prod_def split: prod.split)
    next
      case (Cons a r')
      with True 2(1) [OF True Cons] show ?thesis
        by (simp add: apfst_def map_prod_def split: prod.splits)
    qed
  next
    case False
    with 2(2) [OF False] show ?thesis by (simp add: apfst_def map_prod_def split: prod.splits)
  qed
qed (simp add: decode_string)

fun decode_strings :: "nat \<Rightarrow> u16 list list \<Rightarrow> nat list \<times> nat" where
  "decode_strings i [] = ([], i)"
| "decode_strings i (c # cs) =
     (let (t, i) = StringToUtf32_decode i c; (u, i) = decode_strings i cs in (t @ u, i))"

lemma decode_string_append:
  "StringToUtf32_decode i (c @ b) = (let (t, i) = StringToUtf32_decode i c; (u, j) = StringToUtf32_decode i b in (t @ u, j))"
proof (cases "i = 0")
  case True
  then show ?thesis by (simp add: decode_string string_loop_append)
next
  case False
  show ?thesis
  proof (cases c)
    case Nil
    then show ?thesis by (simp add: StringToUtf32_decode_def [of i "[]"] split: prod.split)
  next
    case (Cons a r)
    with False show ?thesis
      by (simp add: StringToUtf32_decode_def [of i "_ # _"] string_loop_append apfst_def map_prod_def split: prod.split)
  qed
qed

lemma utf32ToString_append [simp]: "utf32ToString (a @ b) = utf32ToString a @ utf32ToString b"
  by (induction a) (simp_all add: Let_def)

lemma u16_bound: "unat (c :: u16) < 65536"
  using unsigned_less [where ?'a = nat, of c] by simp

lemma utf32_unit: "utf32ToString [unat c] = [c]"
  using u16_bound [of c] by simp

lemma utf32_pair: "high_surrogate (unat c) \<Longrightarrow> utf32ToString (surrogate_pair (unat c) (unat a)) = [c, a]"
proof (cases "low_surrogate (unat a)")
  case True
  assume h: "high_surrogate (unat c)"
  obtain x where x: "unat c = 55296 + x" using h by (metis high_surrogate_def le_Suc_ex)
  obtain y where y: "unat a = 56320 + y" using True by (metis low_surrogate_def le_Suc_ex)
  then have "y < 1024" using True by (simp add: low_surrogate_def)
  note y = y this
  have p: "surrogate_pair (unat c) (unat a) = [1024 * x + y + 65536]"
    using True by (simp add: surrogate_pair_def x y(1))
  have d: "(1024 * x + y) div 1024 = x" "(1024 * x + y) mod 1024 = y" using y(2) by simp_all
  have "from_char_code (55296 + x) = c" "from_char_code (y + 56320) = a"
    using arg_cong [OF x, of "of_nat :: nat \<Rightarrow> u16"] arg_cong [OF y(1), of "of_nat :: nat \<Rightarrow> u16"] by (simp_all add: add.commute)
  then show ?thesis unfolding p using y(2) by (simp add: drop_bit_eq_div d Let_def del: of_nat_add)
next
  case False
  then show ?thesis using utf32_unit [of a] utf32_unit [of c] utf32ToString_append [of "[unat c]" "[unat a]"]
    by (simp add: surrogate_pair_def)
qed

lemma string_loop_back: "string_loop e = (t, i) \<Longrightarrow> utf32ToString t @ (if i = 0 then [] else [from_char_code i]) = e"
proof (induction e arbitrary: t rule: string_loop.induct)
  case (2 c r)
  show ?case
  proof (cases "high_surrogate (unat c)")
    case True
    show ?thesis
    proof (cases r)
      case Nil
      with True 2(3) high_nonzero [OF True] show ?thesis by auto
    next
      case (Cons a r')
      obtain u where u: "string_loop r' = (u, i)" "t = surrogate_pair (unat c) (unat a) @ u"
        using True Cons 2(3) by (cases "string_loop r'") auto
      from 2(1) [OF True Cons u(1)] show ?thesis by (simp add: u(2) Cons utf32_pair [OF True])
    qed
  next
    case False
    obtain u where u: "string_loop r = (u, i)" "t = [unat c] @ u"
      using False 2(3) by (cases "string_loop r") auto
    from 2(2) [OF False u(1)] show ?thesis unfolding u(2) utf32ToString_append utf32_unit by simp
  qed
qed simp

lemma decode_chunks: "decode_strings i cs = StringToUtf32_decode i (concat cs)"
  by (induction cs arbitrary: i)
    (simp_all add: decode_string_append StringToUtf32_decode_def [of _ "[]"] split: prod.split)

text \<open>
  Strings: whatever way a string is cut into chunks, decoding the chunks gives the code points of the
  whole string, and encoding the code points again gives the string back, with the surrogate that is
  still waiting for its partner; so no code unit is lost, valid or not.
\<close>

theorem string_decoding:
  "decode_strings 0 cs = StringToUtf32_decode 0 (concat cs)
   \<and> (case StringToUtf32_decode 0 e of (t, i) \<Rightarrow> utf32ToString t @ (if i = 0 then [] else [from_char_code i]) = e)"
proof (rule conjI)
  show "decode_strings 0 cs = StringToUtf32_decode 0 (concat cs)" by (rule decode_chunks)
  show "case StringToUtf32_decode 0 e of (t, i) \<Rightarrow> utf32ToString t @ (if i = 0 then [] else [from_char_code i]) = e"
    using string_loop_back [of e] by (cases "string_loop e") (simp add: decode_string)
qed

end
