(* ===== verification/XtermParams.thy ===== *)
theory XtermParams
  imports Prelude
begin

text \<open>
  The numbers of an escape sequence: the class \<open>Params\<close> of \<open>src/html/xterm.js\<close>.
\<close>

section \<open>Parameters\<close>

text \<open>
  The typed arrays hold the numbers in use, those below the lengths \<open>length\<close> and \<open>_subParamsLength\<close>; what is behind
  is written before it is read. An entry of \<open>_subParamsIdx\<close> holds two indexes of eight bits, where the
  subparameters of a parameter start and end.
\<close>

record params =
  max_params :: nat
  max_subs :: nat
  numbers :: "int list"
  subs :: "int list"
  subs_idx :: "16 word list"
  reject_digits :: bool
  reject_sub_digits :: bool
  digit_is_sub :: bool

definition new_params :: "nat \<Rightarrow> nat \<Rightarrow> params option" where
  "new_params e t =
     (if 256 < t then None
      else Some \<lparr>max_params = e, max_subs = t, numbers = [], subs = [], subs_idx = [],
        reject_digits = False, reject_sub_digits = False, digit_is_sub = False\<rparr>)"

definition reset_params :: "params \<Rightarrow> params" where
  "reset_params p = p\<lparr>numbers := [], subs := [], subs_idx := [], reject_digits := False, reject_sub_digits := False,
     digit_is_sub := False\<rparr>"

definition clamp :: "int \<Rightarrow> int" where
  "clamp e = (if 2147483647 < e then 2147483647 else e)"

text \<open>\<open>None\<close>: an exception.\<close>

definition addParam :: "int \<Rightarrow> params \<Rightarrow> params option" where
  "addParam e p =
     (let p = p\<lparr>digit_is_sub := False\<rparr>; l = of_nat (length (subs p))
      in if max_params p \<le> length (numbers p) then Some (p\<lparr>reject_digits := True\<rparr>)
         else if e < -1 then None
         else Some (p\<lparr>subs_idx := subs_idx p @ [push_bit 8 l OR l], numbers := numbers p @ [clamp e]\<rparr>))"

definition addSubParam :: "int \<Rightarrow> params \<Rightarrow> params option" where
  "addSubParam e p =
     (let p = p\<lparr>digit_is_sub := True\<rparr>
      in if numbers p = [] then Some p
         else if reject_digits p \<or> max_subs p \<le> length (subs p) then Some (p\<lparr>reject_sub_digits := True\<rparr>)
         else if e < -1 then None
         else Some (p\<lparr>subs := subs p @ [clamp e], subs_idx := butlast (subs_idx p) @ [List.last (subs_idx p) + 1]\<rparr>))"

definition append_digit :: "int \<Rightarrow> int \<Rightarrow> int" where
  "append_digit e i = (if i = -1 then e else min (10 * i + e) 2147483647)"

definition addDigit :: "int \<Rightarrow> params \<Rightarrow> params" where
  "addDigit e p =
     (if reject_digits p \<or> (if digit_is_sub p then subs p else numbers p) = [] \<or> digit_is_sub p \<and> reject_sub_digits p
      then p
      else if digit_is_sub p then p\<lparr>subs := butlast (subs p) @ [append_digit e (List.last (subs p))]\<rparr>
      else p\<lparr>numbers := butlast (numbers p) @ [append_digit e (List.last (numbers p))]\<rparr>)"

definition sub_start :: "16 word \<Rightarrow> nat" where "sub_start w = unat (drop_bit 8 w)"
definition sub_end :: "16 word \<Rightarrow> nat" where "sub_end w = unat (255 AND w)"

text \<open>\<open>toArray\<close>: each number, and its subparameters if there are any.\<close>

definition toArray :: "params \<Rightarrow> (int + int list) list" where
  "toArray p =
     concat (map (\<lambda>(n, w). Inl n # (if sub_start w < sub_end w
         then [Inr (take (sub_end w - sub_start w) (drop (sub_start w) (subs p)))] else []))
       (zip (numbers p) (subs_idx p)))"

text \<open>What every operation keeps: the arrays are large enough, and the numbers fit their 32 bits.\<close>

definition number_ok :: "int \<Rightarrow> bool" where
  "number_ok i \<longleftrightarrow> -1 \<le> i \<and> i \<le> 2147483647"

definition params_ok :: "params \<Rightarrow> bool" where
  "params_ok p \<longleftrightarrow> length (numbers p) \<le> max_params p \<and> length (subs p) \<le> max_subs p \<and> length (subs_idx p) = length (numbers p)
     \<and> (\<forall>i\<in>set (numbers p). number_ok i) \<and> (\<forall>i\<in>set (subs p). number_ok i)"

lemma number_ok_clamp [simp]: "-1 \<le> e \<Longrightarrow> number_ok (clamp e)"
  by (simp add: number_ok_def clamp_def)

lemma number_ok_append [simp]: "0 \<le> e \<Longrightarrow> e \<le> 9 \<Longrightarrow> number_ok i \<Longrightarrow> number_ok (append_digit e i)"
  by (auto simp: number_ok_def append_digit_def)

lemma params_ok_new: "new_params e t = Some p \<Longrightarrow> params_ok p"
  by (auto simp: new_params_def params_ok_def split: if_splits)

lemma params_ok_reset [simp]: "params_ok (reset_params p)"
  by (simp add: reset_params_def params_ok_def)

lemma addParam_ok: "params_ok p \<Longrightarrow> -1 \<le> e \<Longrightarrow> \<exists>q. addParam e p = Some q \<and> params_ok q"
  by (auto simp: addParam_def params_ok_def Let_def)

lemma addSubParam_ok: "params_ok p \<Longrightarrow> -1 \<le> e \<Longrightarrow> \<exists>q. addSubParam e p = Some q \<and> params_ok q"
  by (auto simp: addSubParam_def params_ok_def Let_def simp flip: length_greater_0_conv)

lemma addDigit_ok: "params_ok p \<Longrightarrow> 0 \<le> e \<Longrightarrow> e \<le> 9 \<Longrightarrow> params_ok (addDigit e p)"
  by (auto simp: addDigit_def params_ok_def dest!: in_set_butlastD)

end
