(* ===== verification/XtermTable.thy ===== *)
theory XtermTable
  imports Prelude
begin

text \<open>
  The table of transitions of the parser of escape sequences in \<open>src/html/xterm.js\<close>, as the script builds it, and
  what the parser depends on in it.
\<close>

section \<open>The table of transitions\<close>

text \<open>
  A table of bytes; an index is the state, shifted left by eight bits, and the code, an entry the action, shifted
  by four bits, and the next state. The table is the list of its \<open>add\<close> and \<open>addMany\<close> calls, carried out in order.
\<close>

type_synonym table = "nat \<Rightarrow> nat"

definition setDefault :: "nat \<Rightarrow> nat \<Rightarrow> table" where
  "setDefault e t = (\<lambda>_. push_bit 4 e OR t)"

definition table_add :: "nat \<Rightarrow> nat \<Rightarrow> nat \<Rightarrow> nat \<Rightarrow> table \<Rightarrow> table" where
  "table_add e t r i tab = tab(push_bit 8 t OR e := push_bit 4 r OR i)"

definition addMany :: "nat list \<Rightarrow> nat \<Rightarrow> nat \<Rightarrow> nat \<Rightarrow> table \<Rightarrow> table" where
  "addMany e t r i tab = fold (\<lambda>c. table_add c t r i) e tab"

definition PRINTABLES :: "nat list" where
  "PRINTABLES = [32..<127]"

definition EXECUTABLES :: "nat list" where
  "EXECUTABLES = [0..<24] @ [25] @ [28..<32]"

text \<open>The calls: codes, state, action, next state. Those of the loop over all states come second.\<close>

type_synonym transition = "nat list \<times> nat \<times> nat \<times> nat"

definition any_state_transitions :: "nat \<Rightarrow> transition list" where
  "any_state_transitions s =
     [([24, 26, 153, 154], s, 3, 0), ([128..<144], s, 3, 0), ([144..<152], s, 3, 0), ([156], s, 0, 0), ([27], s, 11, 1),
      ([157], s, 4, 8), ([152, 158, 159], s, 0, 7), ([155], s, 11, 3), ([144], s, 11, 9)]"

definition state_transitions :: "transition list" where
  "state_transitions =
     [(EXECUTABLES, 0, 3, 0), (EXECUTABLES, 1, 3, 1), ([127], 1, 0, 1), (EXECUTABLES, 8, 0, 8), (EXECUTABLES, 3, 3, 3),
      ([127], 3, 0, 3), (EXECUTABLES, 4, 3, 4), ([127], 4, 0, 4), (EXECUTABLES, 6, 3, 6), (EXECUTABLES, 5, 3, 5),
      ([127], 5, 0, 5), (EXECUTABLES, 2, 3, 2), ([127], 2, 0, 2), ([93], 1, 4, 8), (PRINTABLES, 8, 5, 8), ([127], 8, 5, 8),
      ([156, 27, 24, 26, 7], 8, 6, 0), ([28..<32], 8, 0, 8), ([88, 94, 95], 1, 0, 7), (PRINTABLES, 7, 0, 7),
      (EXECUTABLES, 7, 0, 7), ([156], 7, 0, 0), ([127], 7, 0, 7), ([91], 1, 11, 3), ([64..<127], 3, 7, 0),
      ([48..<60], 3, 8, 4), ([60, 61, 62, 63], 3, 9, 4), ([48..<60], 4, 8, 4), ([64..<127], 4, 7, 0),
      ([60, 61, 62, 63], 4, 0, 6), ([32..<64], 6, 0, 6), ([127], 6, 0, 6), ([64..<127], 6, 0, 0), ([32..<48], 3, 9, 5),
      ([32..<48], 5, 9, 5), ([48..<64], 5, 0, 6), ([64..<127], 5, 7, 0), ([32..<48], 4, 9, 5), ([32..<48], 1, 9, 2),
      ([32..<48], 2, 9, 2), ([48..<127], 2, 10, 0), ([48..<80], 1, 10, 0), ([81..<88], 1, 10, 0), ([89, 90, 92], 1, 10, 0),
      ([96..<127], 1, 10, 0), ([80], 1, 11, 9), (EXECUTABLES, 9, 0, 9), ([127], 9, 0, 9), ([28..<32], 9, 0, 9),
      ([32..<48], 9, 9, 12), ([48..<60], 9, 8, 10), ([60, 61, 62, 63], 9, 9, 10), (EXECUTABLES, 11, 0, 11),
      ([32..<128], 11, 0, 11), ([28..<32], 11, 0, 11), (EXECUTABLES, 10, 0, 10), ([127], 10, 0, 10), ([28..<32], 10, 0, 10),
      ([48..<60], 10, 8, 10), ([60, 61, 62, 63], 10, 0, 11), ([32..<48], 10, 9, 12), (EXECUTABLES, 12, 0, 12),
      ([127], 12, 0, 12), ([28..<32], 12, 0, 12), ([32..<48], 12, 9, 12), ([48..<64], 12, 0, 11), ([64..<127], 12, 12, 13),
      ([64..<127], 10, 12, 13), ([64..<127], 9, 12, 13), (EXECUTABLES, 13, 13, 13), (PRINTABLES, 13, 13, 13),
      ([127], 13, 0, 13), ([27, 156, 24, 26], 13, 14, 0), ([160], 0, 2, 0), ([160], 8, 5, 8), ([160], 6, 0, 6),
      ([160], 11, 0, 11), ([160], 13, 13, 13)]"

definition all_transitions :: "transition list" where
  "all_transitions = (PRINTABLES, 0, 2, 0) # concat (map any_state_transitions [0..<14]) @ state_transitions"

definition VT500_TRANSITION_TABLE :: table where
  "VT500_TRANSITION_TABLE = fold (\<lambda>(c, t, r, i). addMany c t r i) all_transitions (setDefault 1 0)"

text \<open>Looking it up is looking for the last call with the state and the code.\<close>

lemma index_of: "c < 256 \<Longrightarrow> push_bit 8 s OR c = 256 * s + (c :: nat)"
proof -
  assume "c < 256"
  then have "take_bit 8 c = c" by (simp add: take_bit_eq_mod)
  then have "push_bit 8 s AND c = push_bit 8 s AND take_bit 8 c" by simp
  also have "\<dots> = 0" by (auto simp: bit_eq_iff bit_simps)
  finally show ?thesis by (simp add: push_bit_eq_mult flip: disjunctive_add_eq_or)
qed

lemma index_eq: "c < 256 \<Longrightarrow> d < 256 \<Longrightarrow> push_bit 8 s OR c = push_bit 8 t OR d \<longleftrightarrow> s = t \<and> c = (d :: nat)"
proof
  assume "c < 256" "d < 256" "push_bit 8 s OR c = push_bit 8 t OR d"
  then have e: "256 * s + c = 256 * t + d" and c: "c < 256" and d: "d < 256" by (simp_all add: index_of)
  have "(256 * s + c) div 256 = s" "(256 * t + d) div 256 = t" using c d by simp_all
  with e show "s = t \<and> c = d" by simp
qed simp

fun first_match :: "(nat list \<times> nat \<times> nat) list \<Rightarrow> nat \<Rightarrow> (nat \<times> nat) option" where
  "first_match [] c = None"
| "first_match ((cs, e) # es) c = (if c \<in> set cs then Some e else first_match es c)"

lemma first_match_append:
  "first_match (es @ fs) c = (case first_match es c of None \<Rightarrow> first_match fs c | Some e \<Rightarrow> Some e)"
  by (induction es c rule: first_match.induct) auto

fun of_state :: "nat \<Rightarrow> transition list \<Rightarrow> (nat list \<times> nat \<times> nat) list" where
  "of_state s [] = []"
| "of_state s ((cs, t, e) # ts) = (if t = s then [(cs, e)] else []) @ of_state s ts"

lemma of_state_append [simp]: "of_state s (ts @ us) = of_state s ts @ of_state s us"
  by (induction s ts rule: of_state.induct) auto

lemma of_state_set: "(cs, e) \<in> set (of_state s ts) \<longleftrightarrow> (cs, s, e) \<in> set ts"
  by (induction s ts rule: of_state.induct) auto

lemma addMany_at:
  "\<forall>d\<in>set cs. d < 256 \<Longrightarrow> c < 256 \<Longrightarrow>
     addMany cs t r i tab (push_bit 8 s OR c) = (if t = s \<and> c \<in> set cs then push_bit 4 r OR i else tab (push_bit 8 s OR c))"
  unfolding addMany_def
  by (induction cs arbitrary: tab) (auto simp: table_add_def index_eq)

lemma table_at:
  assumes "\<forall>(cs, _)\<in>set ts. \<forall>d\<in>set cs. d < 256" and "c < 256"
  shows "fold (\<lambda>(c, t, r, i). addMany c t r i) ts tab (push_bit 8 s OR c)
    = (case first_match (rev (of_state s ts)) c of None \<Rightarrow> tab (push_bit 8 s OR c) | Some (r, i) \<Rightarrow> push_bit 4 r OR i)"
  using assms
proof (induction ts arbitrary: tab)
  case (Cons e ts)
  obtain cs t r i where e: "e = (cs, t, r, i)" by (cases e) auto
  show ?case using Cons by (auto simp: e first_match_append addMany_at split: option.split)
qed simp

definition entry_at :: "nat \<Rightarrow> nat \<Rightarrow> nat \<times> nat" where
  "entry_at s c = (case first_match (rev (of_state s all_transitions)) c of None \<Rightarrow> (1, 0) | Some e \<Rightarrow> e)"

lemma in_codes [simp]:
  "c \<in> set [numeral m..<numeral n] \<longleftrightarrow> numeral m \<le> c \<and> c < (numeral n :: nat)"
  "c \<in> set PRINTABLES \<longleftrightarrow> 32 \<le> c \<and> c < 127"
  "c \<in> set EXECUTABLES \<longleftrightarrow> c < 24 \<or> c = 25 \<or> 28 \<le> c \<and> c < 32"
  by (auto simp: PRINTABLES_def EXECUTABLES_def simp del: upt_rec_numeral)

lemma codes_below: "\<forall>(cs, _)\<in>set all_transitions. \<forall>d\<in>set cs. d < 256"
proof -
  have "list_all (\<lambda>(cs, _). \<forall>d\<in>set cs. d < 256) (concat (map any_state_transitions xs))" for xs
    by (induction xs) (auto simp: any_state_transitions_def simp del: upt_rec_numeral)
  then have "list_all (\<lambda>(cs, _). \<forall>d\<in>set cs. d < 256) all_transitions"
    by (simp add: all_transitions_def state_transitions_def Ball_def del: upt_rec_numeral)
  then show ?thesis by (simp only: list_all_iff)
qed

lemma table_lookup:
  "c < 256 \<Longrightarrow> VT500_TRANSITION_TABLE (push_bit 8 s OR c) = push_bit 4 (fst (entry_at s c)) OR snd (entry_at s c)"
  using table_at [OF codes_below, of c "setDefault 1 0" s]
  by (auto simp: VT500_TRANSITION_TABLE_def entry_at_def setDefault_def split: option.splits)

text \<open>A fact about all entries holds for what is looked up.\<close>

lemma first_match_in: "first_match es c = Some e \<Longrightarrow> \<exists>cs. (cs, e) \<in> set es \<and> c \<in> set cs"
  by (induction es c rule: first_match.induct) (auto split: if_splits)

lemma entry_in: "entry_at s c = (1, 0) \<or> (\<exists>cs. (cs, s, entry_at s c) \<in> set all_transitions \<and> c \<in> set cs)"
  using first_match_in [of "rev (of_state s all_transitions)" c]
  by (auto simp: entry_at_def of_state_set split: option.splits)

text \<open>The entries the runs of the parser and the ends of strings depend on.\<close>

definition entry_ok :: "nat \<Rightarrow> nat \<Rightarrow> bool" where
  "entry_ok r i \<longleftrightarrow> r < 15 \<and> i < 14 \<and> (r = 2 \<longrightarrow> i = 0) \<and> (r = 8 \<longrightarrow> i = 4 \<or> i = 10) \<and> (r = 13 \<longrightarrow> i = 13)
     \<and> (r = 5 \<longrightarrow> i = 8) \<and> (r = 6 \<or> r = 14 \<longrightarrow> i = 0)"

lemma entries_ok: "list_all (\<lambda>(_, _, r, i). entry_ok r i) all_transitions"
proof -
  have "list_all (\<lambda>(_, _, r, i). entry_ok r i) (concat (map any_state_transitions xs))" for xs
    by (induction xs) (simp_all add: any_state_transitions_def entry_ok_def del: upt_rec_numeral)
  then show ?thesis by (simp add: all_transitions_def state_transitions_def entry_ok_def del: upt_rec_numeral)
qed

lemma entry_at_ok: "entry_ok (fst (entry_at s c)) (snd (entry_at s c))"
  using entry_in [of s c] entries_ok by (auto simp: list_all_iff) (simp add: entry_ok_def)

lemma number_entries: "list_all (\<lambda>(cs, _, r, _). r = 8 \<longrightarrow> (\<forall>c\<in>set cs. 48 \<le> c \<and> c < 60)) all_transitions"
proof -
  have "list_all (\<lambda>(cs, _, r, _). r = 8 \<longrightarrow> (\<forall>c\<in>set cs. 48 \<le> c \<and> c < 60)) (concat (map any_state_transitions xs))" for xs
    by (induction xs) (simp_all add: any_state_transitions_def del: upt_rec_numeral)
  then show ?thesis by (simp add: all_transitions_def state_transitions_def del: upt_rec_numeral)
qed

lemma entry_number: "fst (entry_at s c) = 8 \<Longrightarrow> 48 \<le> c \<and> c < 60"
  using entry_in [of s c] number_entries unfolding list_all_iff by (cases "entry_at s c") fastforce

lemma of_any_state:
  "distinct xs \<Longrightarrow> of_state s (concat (map any_state_transitions xs))
     = (if s \<in> set xs then map (\<lambda>(cs, _, e). (cs, e)) (any_state_transitions s) else [])"
  by (induction xs) (auto simp: any_state_transitions_def simp del: upt_rec_numeral)

lemma of_all: "s < 14 \<Longrightarrow> of_state s all_transitions = (if s = 0 then [(PRINTABLES, 2, 0)] else [])
   @ map (\<lambda>(cs, _, e). (cs, e)) (any_state_transitions s) @ of_state s state_transitions"
  by (simp add: all_transitions_def of_any_state)

text \<open>The entries of the states in which runs are read, and of those of a control sequence; the others are alike.\<close>

lemma state_entries:
  "rev (of_state 0 all_transitions) = [([160], 2, 0), (EXECUTABLES, 3, 0), ([144], 11, 9), ([155], 11, 3),
     ([152, 158, 159], 0, 7), ([157], 4, 8), ([27], 11, 1), ([156], 0, 0), ([144..<152], 3, 0), ([128..<144], 3,
     0), ([24, 26, 153, 154], 3, 0), (PRINTABLES, 2, 0)]"
  "rev (of_state 1 all_transitions) = [([80], 11, 9), ([96..<127], 10, 0), ([89, 90, 92], 10, 0), ([81..<88],
     10, 0), ([48..<80], 10, 0), ([32..<48], 9, 2), ([91], 11, 3), ([88, 94, 95], 0, 7), ([93], 4, 8), ([127],
     0, 1), (EXECUTABLES, 3, 1), ([144], 11, 9), ([155], 11, 3), ([152, 158, 159], 0, 7), ([157], 4, 8), ([27],
     11, 1), ([156], 0, 0), ([144..<152], 3, 0), ([128..<144], 3, 0), ([24, 26, 153, 154], 3, 0)]"
  "rev (of_state 3 all_transitions) = [([32..<48], 9, 5), ([60, 61, 62, 63], 9, 4), ([48..<60], 8, 4),
     ([64..<127], 7, 0), ([127], 0, 3), (EXECUTABLES, 3, 3), ([144], 11, 9), ([155], 11, 3), ([152, 158, 159],
     0, 7), ([157], 4, 8), ([27], 11, 1), ([156], 0, 0), ([144..<152], 3, 0), ([128..<144], 3, 0), ([24, 26,
     153, 154], 3, 0)]"
  "rev (of_state 4 all_transitions) = [([32..<48], 9, 5), ([60, 61, 62, 63], 0, 6), ([64..<127], 7, 0),
     ([48..<60], 8, 4), ([127], 0, 4), (EXECUTABLES, 3, 4), ([144], 11, 9), ([155], 11, 3), ([152, 158, 159], 0,
     7), ([157], 4, 8), ([27], 11, 1), ([156], 0, 0), ([144..<152], 3, 0), ([128..<144], 3, 0), ([24, 26, 153,
     154], 3, 0)]"
  "rev (of_state 5 all_transitions) = [([64..<127], 7, 0), ([48..<64], 0, 6), ([32..<48], 9, 5), ([127], 0, 5),
     (EXECUTABLES, 3, 5), ([144], 11, 9), ([155], 11, 3), ([152, 158, 159], 0, 7), ([157], 4, 8), ([27], 11, 1),
     ([156], 0, 0), ([144..<152], 3, 0), ([128..<144], 3, 0), ([24, 26, 153, 154], 3, 0)]"
  "rev (of_state 8 all_transitions) = [([160], 5, 8), ([28..<32], 0, 8), ([156, 27, 24, 26, 7], 6, 0), ([127],
     5, 8), (PRINTABLES, 5, 8), (EXECUTABLES, 0, 8), ([144], 11, 9), ([155], 11, 3), ([152, 158, 159], 0, 7),
     ([157], 4, 8), ([27], 11, 1), ([156], 0, 0), ([144..<152], 3, 0), ([128..<144], 3, 0), ([24, 26, 153, 154],
     3, 0)]"
  "rev (of_state 10 all_transitions) = [([64..<127], 12, 13), ([32..<48], 9, 12), ([60, 61, 62, 63], 0, 11),
     ([48..<60], 8, 10), ([28..<32], 0, 10), ([127], 0, 10), (EXECUTABLES, 0, 10), ([144], 11, 9), ([155], 11,
     3), ([152, 158, 159], 0, 7), ([157], 4, 8), ([27], 11, 1), ([156], 0, 0), ([144..<152], 3, 0),
     ([128..<144], 3, 0), ([24, 26, 153, 154], 3, 0)]"
  "rev (of_state 13 all_transitions) = [([160], 13, 13), ([27, 156, 24, 26], 14, 0), ([127], 0, 13),
     (PRINTABLES, 13, 13), (EXECUTABLES, 13, 13), ([144], 11, 9), ([155], 11, 3), ([152, 158, 159], 0, 7),
     ([157], 4, 8), ([27], 11, 1), ([156], 0, 0), ([144..<152], 3, 0), ([128..<144], 3, 0), ([24, 26, 153, 154],
     3, 0)]"
  by (simp_all add: of_all any_state_transitions_def state_transitions_def del: upt_rec_numeral)

lemma entry_print: "32 \<le> c \<and> c < 127 \<or> c = 160 \<Longrightarrow> entry_at 0 c = (2, 0)"
  by (auto simp: entry_at_def state_entries simp del: upt_rec_numeral)

lemma entry_digit: "48 \<le> c \<Longrightarrow> c < 60 \<Longrightarrow> entry_at 4 c = (8, 4)" "48 \<le> c \<Longrightarrow> c < 60 \<Longrightarrow> entry_at 10 c = (8, 10)"
  by (auto simp: entry_at_def state_entries simp del: upt_rec_numeral)

lemma entry_dcs_put: "c < 24 \<or> c = 25 \<or> 28 \<le> c \<and> c < 127 \<or> c = 160 \<Longrightarrow> entry_at 13 c = (13, 13)"
  by (elim disjE conjE; simp add: entry_at_def state_entries del: upt_rec_numeral)

lemma entry_osc_put: "32 \<le> c \<and> c < 128 \<or> c = 160 \<Longrightarrow> entry_at 8 c = (5, 8)"
  by (elim disjE conjE; simp add: entry_at_def state_entries del: upt_rec_numeral)

end
