(* ===== verification/XtermParser.thy ===== *)
theory XtermParser
  imports XtermParams XtermTable
begin

text \<open>
  The parser of escape sequences: the class \<open>EscapeSequenceParser\<close> of \<open>src/html/xterm.js\<close>. What a handler is called
  with is an event; the handlers themselves are not here.
\<close>

section \<open>The parser\<close>

text \<open>
  What the parser calls: the handlers of text, control characters, control sequences and escape sequences, and the
  parsers of device control and operating system strings. A handler of control sequences is chosen by the identifier
  of the sequence; the numbers are what they are at the call.
\<close>

datatype event =
    Print "nat list" | Execute nat | Csi u32 params | Esc u32
  | Hook u32 params | Put "nat list" | Unhook bool
  | Osc_start | Osc_put "nat list" | Osc_end bool
  | Parse_error nat

record parser =
  current_state :: nat
  parser_params :: params
  collected :: u32

text \<open>Of the calls of \<open>addParam\<close> and \<open>addSubParam\<close> here none throws.\<close>

definition clear_params :: "params \<Rightarrow> params" where
  "clear_params p = the (addParam 0 (reset_params p))"

definition new_parser :: parser where
  "new_parser = \<lparr>current_state = 0, parser_params = the (addParam 0 (the (new_params 32 32))), collected = 0\<rparr>"

definition reset_parser :: "parser \<Rightarrow> parser" where
  "reset_parser s = s\<lparr>current_state := 0, parser_params := clear_params (parser_params s), collected := 0\<rparr>"

definition param_char :: "nat \<Rightarrow> params \<Rightarrow> params" where
  "param_char r p =
     (if r = 59 then the (addParam 0 p)
      else if r = 58 then the (addSubParam (-1) p)
      else addDigit (int r - 48) p)"

text \<open>What belongs to a run of text, of parameters, of a device control string, of a system string.\<close>

definition in_text :: "nat \<Rightarrow> bool" where "in_text c \<longleftrightarrow> \<not> (c < 32 \<or> 126 < c \<and> c < 160)"
definition in_params :: "nat \<Rightarrow> bool" where "in_params c \<longleftrightarrow> 47 < c \<and> c < 60"
definition in_dcs :: "nat \<Rightarrow> bool" where "in_dcs c \<longleftrightarrow> \<not> (c = 24 \<or> c = 26 \<or> c = 27 \<or> 127 < c \<and> c < 160)"
definition in_osc :: "nat \<Rightarrow> bool" where "in_osc c \<longleftrightarrow> \<not> (c < 32 \<or> 127 < c \<and> c \<le> 159)"

definition table_index :: "nat \<Rightarrow> nat" where
  "table_index r = (if r < 160 then r else 160)"

text \<open>
  One round of the loop, with the code \<open>r\<close> and what follows it: the events, what is left, and the new state. The
  action 1 asks the error handler, which logs the error and does not abort; the action 0 does nothing.
\<close>

definition iteration :: "nat \<Rightarrow> nat list \<Rightarrow> parser \<Rightarrow> event list \<times> nat list \<times> parser" where
  "iteration r rest s =
     (let i = VT500_TRANSITION_TABLE (push_bit 8 (current_state s) OR table_index r);
          i' = (if r = 27 then i OR 1 else i);
          ident = push_bit 8 (collected s) OR of_nat r;
          to = (\<lambda>j s. s\<lparr>current_state := 15 AND j\<rparr>);
          cleared = s\<lparr>parser_params := clear_params (parser_params s), collected := 0\<rparr>;
          n = drop_bit 4 i
      in if n = 2 then ([Print (r # takeWhile in_text rest)], dropWhile in_text rest, to i s)
         else if n = 3 then ([Execute r], rest, to i s)
         else if n = 1 then ([Parse_error r], rest, to i s)
         else if n = 7 then ([Csi ident (parser_params s)], rest, to i s)
         else if n = 8 then
           ([], dropWhile in_params rest,
            to i (s\<lparr>parser_params := fold param_char (r # takeWhile in_params rest) (parser_params s)\<rparr>))
         else if n = 9 then ([], rest, to i (s\<lparr>collected := ident\<rparr>))
         else if n = 10 then ([Esc ident], rest, to i s)
         else if n = 11 then ([], rest, to i cleared)
         else if n = 12 then ([Hook ident (parser_params s)], rest, to i s)
         else if n = 13 then ([Put (r # takeWhile in_dcs rest)], dropWhile in_dcs rest, to i s)
         else if n = 14 then ([Unhook (r \<noteq> 24 \<and> r \<noteq> 26)], rest, to i' cleared)
         else if n = 4 then ([Osc_start], rest, to i s)
         else if n = 5 then ([Osc_put (r # takeWhile in_osc rest)], dropWhile in_osc rest, to i s)
         else if n = 6 then ([Osc_end (r \<noteq> 24 \<and> r \<noteq> 26)], rest, to i' cleared)
         else ([], rest, to i s))"

lemma iteration_consumes: "length (fst (snd (iteration r rest s))) \<le> length rest"
  by (simp add: iteration_def Let_def length_dropWhile_le)

function parse :: "nat list \<Rightarrow> parser \<Rightarrow> event list \<times> parser" where
  "parse [] s = ([], s)"
| "parse (r # rest) s =
     (let (es, rest, s) = iteration r rest s; (fs, s) = parse rest s in (es @ fs, s))"
  by pat_completeness auto
termination
proof (relation "measure (\<lambda>(e, _). length e)")
  fix r rest s x es y rest' s'
  assume "x = iteration r rest s" "(es, y) = x" "(rest', s') = y"
  then have "snd (iteration r rest s) = (rest', s')" by (metis snd_conv)
  then have "length rest' \<le> length rest" using iteration_consumes [of r rest s] by simp
  then show "((rest', s'), r # rest, s) \<in> measure (\<lambda>(e, _). length e)" by simp
qed simp

section \<open>One code after the other\<close>

text \<open>The machine without runs, and the events of single codes a run stands for.\<close>

fun steps :: "nat list \<Rightarrow> parser \<Rightarrow> event list \<times> parser" where
  "steps [] s = ([], s)"
| "steps (r # rest) s =
     (let (es, _, s) = iteration r [] s; (fs, s) = steps rest s in (es @ fs, s))"

fun letters :: "event \<Rightarrow> event list" where
  "letters (Print cs) = map (\<lambda>c. Print [c]) cs"
| "letters (Put cs) = map (\<lambda>c. Put [c]) cs"
| "letters (Osc_put cs) = map (\<lambda>c. Osc_put [c]) cs"
| "letters e = [e]"

definition spelled :: "event list \<Rightarrow> event list" where
  "spelled es = concat (map letters es)"

lemma spelled_simps [simp]: "spelled [] = []" "spelled (e # es) = letters e @ spelled es" "spelled (es @ fs) = spelled es @ spelled fs"
  by (simp_all add: spelled_def)

lemma steps_append: "steps (a @ b) s = (let (es, s) = steps a s; (fs, s) = steps b s in (es @ fs, s))"
  by (induction a arbitrary: s) (simp_all add: Let_def split: prod.split)

text \<open>The entries of the table, taken apart.\<close>

lemma entry_parts:
  assumes "c < 256"
  shows "drop_bit 4 (VT500_TRANSITION_TABLE (push_bit 8 s OR c)) = fst (entry_at s c)"
    and "15 AND VT500_TRANSITION_TABLE (push_bit 8 s OR c) = snd (entry_at s c)"
    and "15 AND (VT500_TRANSITION_TABLE (push_bit 8 s OR c) OR 1) = snd (entry_at s c) OR 1"
proof -
  have i: "snd (entry_at s c) < 16" using entry_at_ok [of s c] by (simp add: entry_ok_def)
  then have t: "take_bit 4 (snd (entry_at s c)) = snd (entry_at s c)" "drop_bit 4 (snd (entry_at s c)) = 0"
    by (simp_all add: take_bit_eq_mod drop_bit_eq_div)
  have m: "15 AND x = take_bit 4 x" for x :: nat by (simp add: take_bit_eq_mask mask_eq_exp_minus_1 and.commute)
  show "drop_bit 4 (VT500_TRANSITION_TABLE (push_bit 8 s OR c)) = fst (entry_at s c)"
    by (simp add: table_lookup assms drop_bit_or drop_bit_push_bit t)
  show "15 AND VT500_TRANSITION_TABLE (push_bit 8 s OR c) = snd (entry_at s c)"
    by (simp add: table_lookup assms m take_bit_or take_bit_push_bit t)
  show "15 AND (VT500_TRANSITION_TABLE (push_bit 8 s OR c) OR 1) = snd (entry_at s c) OR 1"
    by (simp add: table_lookup assms m take_bit_or take_bit_push_bit t)
qed

lemma table_index_less [simp]: "table_index r < 256"
  by (simp add: table_index_def)

text \<open>A round, with what the table says for the state and the code.\<close>

lemma iteration_by_entry:
  assumes "entry_at (current_state s) (table_index r) = (n, j)"
  shows "iteration r rest s =
    (let ident = push_bit 8 (collected s) OR of_nat r; t = s\<lparr>current_state := j\<rparr>;
         cleared = s\<lparr>current_state := (if r = 27 then j OR 1 else j), parser_params := clear_params (parser_params s), collected := 0\<rparr>
     in if n = 2 then ([Print (r # takeWhile in_text rest)], dropWhile in_text rest, t)
        else if n = 3 then ([Execute r], rest, t)
        else if n = 1 then ([Parse_error r], rest, t)
        else if n = 7 then ([Csi ident (parser_params s)], rest, t)
        else if n = 8 then
          ([], dropWhile in_params rest,
           t\<lparr>parser_params := fold param_char (r # takeWhile in_params rest) (parser_params s)\<rparr>)
        else if n = 9 then ([], rest, t\<lparr>collected := ident\<rparr>)
        else if n = 10 then ([Esc ident], rest, t)
        else if n = 11 then ([], rest, t\<lparr>parser_params := clear_params (parser_params s), collected := 0\<rparr>)
        else if n = 12 then ([Hook ident (parser_params s)], rest, t)
        else if n = 13 then ([Put (r # takeWhile in_dcs rest)], dropWhile in_dcs rest, t)
        else if n = 14 then ([Unhook (r \<noteq> 24 \<and> r \<noteq> 26)], rest, cleared)
        else if n = 4 then ([Osc_start], rest, t)
        else if n = 5 then ([Osc_put (r # takeWhile in_osc rest)], dropWhile in_osc rest, t)
        else if n = 6 then ([Osc_end (r \<noteq> 24 \<and> r \<noteq> 26)], rest, cleared)
        else ([], rest, t))"
proof -
  define i where "i = VT500_TRANSITION_TABLE (push_bit 8 (current_state s) OR table_index r)"
  have "drop_bit 4 i = n" "15 AND i = j" "15 AND (i OR 1) = j OR 1"
    using entry_parts [OF table_index_less, of "current_state s" r] assms unfolding i_def by simp_all
  then show ?thesis unfolding iteration_def i_def [symmetric] by (simp add: Let_def)
qed

lemma iteration_state: "current_state (snd (snd (iteration r rest s))) < 14"
proof -
  obtain n j where e: "entry_at (current_state s) (table_index r) = (n, j)" by fastforce
  then have "entry_ok n j" using entry_at_ok [of "current_state s" "table_index r"] by simp
  then show ?thesis by (auto simp: iteration_by_entry [OF e] Let_def entry_ok_def)
qed

text \<open>The runs: as long as the state and the action stay, the codes can be taken together.\<close>

lemma steps_run:
  assumes "\<And>c. c \<in> set cs \<Longrightarrow> entry_at (current_state s) (table_index c) = (n, current_state s)"
    and "n = 2 \<and> E = Print \<or> n = 13 \<and> E = Put \<or> n = 5 \<and> E = Osc_put"
  shows "steps cs s = (map (\<lambda>c. E [c]) cs, s)"
  using assms(1)
proof (induction cs)
  case (Cons c cs)
  have "iteration c [] s = ([E [c]], [], s)"
    using assms(2) by (auto simp: iteration_by_entry [OF Cons.prems, of c] Let_def)
  then show ?case using Cons by simp
qed simp

lemma steps_params:
  assumes "\<forall>c\<in>set cs. in_params c" and "current_state s = 4 \<or> current_state s = 10"
  shows "steps cs s = ([], s\<lparr>parser_params := fold param_char cs (parser_params s)\<rparr>)"
  using assms
proof (induction cs arbitrary: s)
  case (Cons c cs)
  have "table_index c = c" using Cons.prems(1) by (simp add: table_index_def in_params_def)
  then have e: "entry_at (current_state s) (table_index c) = (8, current_state s)"
    using Cons.prems entry_digit [of c] by (auto simp: in_params_def)
  have "iteration c [] s = ([], [], s\<lparr>parser_params := param_char c (parser_params s)\<rparr>)"
    by (simp add: iteration_by_entry [OF e] Let_def)
  then show ?case using Cons by simp
qed simp

lemma text_entry: "in_text c \<Longrightarrow> entry_at 0 (table_index c) = (2, 0)"
  by (rule entry_print) (auto simp: in_text_def table_index_def)

lemma osc_entry: "in_osc c \<Longrightarrow> entry_at 8 (table_index c) = (5, 8)"
  by (rule entry_osc_put) (auto simp: in_osc_def table_index_def)

lemma dcs_entry: "in_dcs c \<Longrightarrow> c \<noteq> 127 \<Longrightarrow> entry_at 13 (table_index c) = (13, 13)"
  by (rule entry_dcs_put) (auto simp: in_dcs_def table_index_def)

lemma steps_split: "steps rest s = (let (es, s') = steps (takeWhile P rest) s; (fs, s'') = steps (dropWhile P rest) s' in (es @ fs, s''))"
  using steps_append [of "takeWhile P rest" "dropWhile P rest" s] by simp

lemma steps_iteration:
  assumes "127 \<notin> set rest"
  shows "steps (r # rest) s = (let (es, rest, s) = iteration r rest s; (fs, s) = steps rest s in (spelled es @ fs, s))"
proof -
  obtain n j where e: "entry_at (current_state s) (table_index r) = (n, j)" by fastforce
  then have ok: "entry_ok n j" using entry_at_ok [of "current_state s" "table_index r"] by simp
  note it = iteration_by_entry [OF e]
  let ?t = "s\<lparr>current_state := j\<rparr>"
  consider "n = 2" | "n = 8" | "n = 13" | "n = 5" | "n \<notin> {2, 8, 13, 5}" by blast
  then show ?thesis
  proof cases
    case 1
    then have "j = 0" using ok by (simp add: entry_ok_def)
    then have "steps (takeWhile in_text rest) ?t = (map (\<lambda>c. Print [c]) (takeWhile in_text rest), ?t)"
      by (intro steps_run [where n = 2]) (auto dest: set_takeWhileD text_entry)
    then show ?thesis using 1 steps_split [of rest ?t in_text] by (simp add: it Let_def split: prod.split)
  next
    case 2
    let ?u = "?t\<lparr>parser_params := param_char r (parser_params s)\<rparr>"
    have "j = 4 \<or> j = 10" using 2 ok by (simp add: entry_ok_def)
    then have "steps (takeWhile in_params rest) ?u
        = ([], ?u\<lparr>parser_params := fold param_char (takeWhile in_params rest) (parser_params ?u)\<rparr>)"
      by (intro steps_params) (auto dest: set_takeWhileD)
    then show ?thesis using 2 steps_split [of rest ?u in_params] by (simp add: it Let_def split: prod.split)
  next
    case 3
    then have "j = 13" using ok by (simp add: entry_ok_def)
    moreover have "entry_at 13 (table_index c) = (13, 13)" if "c \<in> set (takeWhile in_dcs rest)" for c
      using set_takeWhileD [OF that] assms by (auto intro: dcs_entry)
    ultimately have "steps (takeWhile in_dcs rest) ?t = (map (\<lambda>c. Put [c]) (takeWhile in_dcs rest), ?t)"
      by (intro steps_run [where n = 13]) auto
    then show ?thesis using 3 steps_split [of rest ?t in_dcs] by (simp add: it Let_def split: prod.split)
  next
    case 4
    then have "j = 8" using ok by (simp add: entry_ok_def)
    then have "steps (takeWhile in_osc rest) ?t = (map (\<lambda>c. Osc_put [c]) (takeWhile in_osc rest), ?t)"
      by (intro steps_run [where n = 5]) (auto dest: set_takeWhileD osc_entry)
    then show ?thesis using 4 steps_split [of rest ?t in_osc] by (simp add: it Let_def split: prod.split)
  next
    case 5
    then show ?thesis by (simp add: it Let_def split: prod.split)
  qed
qed

lemma parse_steps: "127 \<notin> set xs \<Longrightarrow> apfst spelled (parse xs s) = steps xs s"
proof (induction xs s rule: parse.induct)
  case (2 r rest s)
  obtain es rest' s' where i: "iteration r rest s = (es, rest', s')" by (cases "iteration r rest s") auto
  have "set rest' \<subseteq> set rest"
    using i by (auto simp: iteration_def Let_def dest: set_dropWhileD split: if_splits)
  then have "apfst spelled (parse rest' s') = steps rest' s'"
    using 2(1) [OF i [symmetric] refl refl] 2(2) by auto
  then show ?case using 2(2) i steps_iteration [of rest r s] by (auto simp: split: prod.splits)
qed simp

section \<open>Chunks\<close>

text \<open>The terminal parses what comes chunk by chunk.\<close>

fun parse_all :: "nat list list \<Rightarrow> parser \<Rightarrow> event list \<times> parser" where
  "parse_all [] s = ([], s)"
| "parse_all (c # cs) s = (let (es, s) = parse c s; (fs, s) = parse_all cs s in (es @ fs, s))"

lemma parse_all_steps: "127 \<notin> set (concat cs) \<Longrightarrow> apfst spelled (parse_all cs s) = steps (concat cs) s"
proof (induction cs arbitrary: s)
  case (Cons c cs)
  obtain es t where c: "parse c s = (es, t)" by fastforce
  obtain fs u where cs: "parse_all cs t = (fs, u)" by fastforce
  have "apfst spelled (parse c s) = steps c s" by (rule parse_steps) (use Cons.prems in simp)
  moreover have "apfst spelled (parse_all cs t) = steps (concat cs) t" by (rule Cons.IH) (use Cons.prems in simp)
  ultimately have "steps c s = (spelled es, t)" "steps (concat cs) t = (spelled fs, u)" by (simp_all add: c cs)
  then show ?case by (simp add: c cs steps_append)
qed simp

section \<open>Properties\<close>

text \<open>
  C11. Input without the code 127. The loop of the parser takes text, numbers and strings in runs, without a look at the table;
  it does the same as the machine that looks up every code, and so however such an input is cut into chunks: the same
  characters are printed, the same handlers called with the same numbers, in the same order, and the same state is
  left. (With the code 127 this fails for device control strings: \<open>delete_code_in_device_string\<close>.)
\<close>

theorem parser_chunks:
  assumes "127 \<notin> set (concat cs)"
  shows "apfst spelled (parse_all cs s) = steps (concat cs) s
    \<and> apfst spelled (parse (concat cs) s) = steps (concat cs) s"
  using parse_all_steps [OF assms] parse_steps [OF assms] by simp

theorem parser_chunks_witness:
  "apfst spelled (parse_all [[72, 27, 91, 51], [49, 109, 105]] new_parser) = steps [72, 27, 91, 51, 49, 109, 105] new_parser"
  using parser_chunks [of "[[72, 27, 91, 51], [49, 109, 105]]" new_parser] by simp

definition parser_ok :: "parser \<Rightarrow> bool" where
  "parser_ok s \<longleftrightarrow> current_state s < 14 \<and> params_ok (parser_params s)"

fun event_ok :: "event \<Rightarrow> bool" where
  "event_ok (Csi _ p) = params_ok p"
| "event_ok (Hook _ p) = params_ok p"
| "event_ok _ = True"

lemma param_char_ok: "params_ok p \<Longrightarrow> in_params r \<Longrightarrow> params_ok (param_char r p)"
  using addParam_ok [of p 0] addSubParam_ok [of p "-1"] addDigit_ok [of p "int r - 48"]
  by (auto simp: param_char_def in_params_def)

lemma fold_param_char_ok: "params_ok p \<Longrightarrow> \<forall>r\<in>set rs. in_params r \<Longrightarrow> params_ok (fold param_char rs p)"
  by (induction rs arbitrary: p) (simp_all add: param_char_ok)

lemma clear_params_ok [simp]: "params_ok (clear_params p)"
  using addParam_ok [of "reset_params p" 0] by (auto simp: clear_params_def)

lemma iteration_ok:
  assumes "parser_ok s"
  shows "parser_ok (snd (snd (iteration r rest s))) \<and> list_all event_ok (fst (iteration r rest s))"
proof -
  obtain n j where e: "entry_at (current_state s) (table_index r) = (n, j)" by fastforce
  then have ok: "entry_ok n j" using entry_at_ok [of "current_state s" "table_index r"] by simp
  have "params_ok (fold param_char (takeWhile in_params rest) (param_char r (parser_params s)))" if "n = 8"
  proof (rule fold_param_char_ok)
    have "in_params r" using entry_number [of "current_state s" "table_index r"] e that
      by (auto simp: in_params_def table_index_def split: if_splits)
    then show "params_ok (param_char r (parser_params s))"
      using assms by (simp add: parser_ok_def param_char_ok)
  qed (auto dest: set_takeWhileD)
  then have "params_ok (parser_params (snd (snd (iteration r rest s)))) \<and> list_all event_ok (fst (iteration r rest s))"
    using assms by (auto simp: iteration_by_entry [OF e] Let_def parser_ok_def)
  then show ?thesis using iteration_state by (simp add: parser_ok_def)
qed

lemma parse_ok: "parser_ok s \<Longrightarrow> parser_ok (snd (parse xs s)) \<and> list_all event_ok (fst (parse xs s))"
proof (induction xs s rule: parse.induct)
  case (2 r rest s)
  obtain es rest' s' where i: "iteration r rest s = (es, rest', s')" by (cases "iteration r rest s") auto
  then have "parser_ok s'" "list_all event_ok es" using iteration_ok [OF 2(2), of r rest] by simp_all
  with 2(1) [OF i [symmetric] refl refl] show ?case by (cases "parse rest' s'") (simp add: i)
qed simp

text \<open>
  C27. A parser that is in one of its states and has its numbers in range stays so, whatever it reads: every index into
  the table is below its size of 4095, the arrays of the numbers are not overrun, and what the handlers get is in range.
\<close>

theorem parser_in_bounds:
  assumes "parser_ok s"
  shows "parser_ok (snd (parse xs s)) \<and> list_all event_ok (fst (parse xs s))
    \<and> push_bit 8 (current_state s) OR table_index r < 4095"
proof -
  have "table_index r \<le> 160" "current_state s < 14" using assms by (simp_all add: table_index_def parser_ok_def)
  then show ?thesis using parse_ok [OF assms, of xs] by (simp add: index_of)
qed

theorem parser_in_bounds_witness:
  "parser_ok new_parser \<and> parser_ok (snd (parse [27, 91, 57, 109] new_parser))"
proof -
  have ok: "parser_ok new_parser"
    by (simp add: parser_ok_def new_parser_def new_params_def addParam_def params_ok_def clamp_def number_ok_def Let_def)
  then show ?thesis using parser_in_bounds [OF ok, of "[27, 91, 57, 109]" 0] by blast
qed

end
