(* ===== verification/XtermWrite.thy ===== *)
theory XtermWrite
  imports XtermText XtermParser
begin

text \<open>
  The way of what is written to the terminal in \<open>src/html/xterm.js\<close>: the class \<open>WriteBuffer\<close>, which keeps the chunks
  and hands them on between the other work of the page, and \<open>InputHandler.parse\<close>, which decodes and parses a chunk.
\<close>

section \<open>WriteBuffer\<close>

text \<open>A chunk is a string or an array of bytes.\<close>

datatype chunk = Units "u16 list" | Bytes "byte list"

fun chunk_length :: "chunk \<Rightarrow> nat" where
  "chunk_length (Units u) = length u"
| "chunk_length (Bytes b) = length b"

text \<open>
  What a call leaves behind, when it returns and when it throws an exception: the exception of a timer ends in the
  event loop of the browser, which reports it, that of \<open>write\<close> and \<open>writeSync\<close> in the script that has called them.
\<close>

datatype 's called = Returned 's | Thrown 's

fun left_behind :: "'s called \<Rightarrow> 's" where
  "left_behind (Returned s) = s"
| "left_behind (Thrown s) = s"

text \<open>
  The members, the number of timers that will call \<open>_innerWrite\<close>, and what the action and the callbacks work on.
  A callback may be missing; here callbacks do not write themselves.
\<close>

type_synonym 's action = "chunk \<Rightarrow> 's \<Rightarrow> 's called"
type_synonym 's callback = "('s \<Rightarrow> 's called) option"

record 's write_buffer =
  queued :: "chunk list"
  callbacks :: "'s callback list"
  pending_data :: int
  buffer_offset :: nat
  timers :: nat
  target :: 's

definition new_write_buffer :: "'s \<Rightarrow> 's write_buffer" where
  "new_write_buffer s = \<lparr>queued = [], callbacks = [], pending_data = 0, buffer_offset = 0, timers = 0, target = s\<rparr>"

text \<open>\<open>write\<close>; \<open>None\<close>: it throws, the data is discarded.\<close>

definition buffer_write :: "chunk \<Rightarrow> 's callback \<Rightarrow> 's write_buffer \<Rightarrow> 's write_buffer option" where
  "buffer_write e t b =
     (if 50000000 < pending_data b then None
      else
        (let b = (if queued b = [] then b\<lparr>buffer_offset := 0, timers := timers b + 1\<rparr> else b)
         in Some (b\<lparr>pending_data := pending_data b + int (chunk_length e), queued := queued b @ [e], callbacks := callbacks b @ [t]\<rparr>)))"

text \<open>The callback of a chunk, and the action on the chunk followed by it.\<close>

definition call_back :: "'s callback \<Rightarrow> 's \<Rightarrow> 's called" where
  "call_back i s = (case i of None \<Rightarrow> Returned s | Some f \<Rightarrow> f s)"

definition handle_chunk :: "'s action \<Rightarrow> chunk \<Rightarrow> 's callback \<Rightarrow> 's \<Rightarrow> 's called" where
  "handle_chunk act r i s = (case act r s of Returned s \<Rightarrow> call_back i s | Thrown s \<Rightarrow> Thrown s)"

text \<open>
  \<open>_innerWrite\<close>, called by a timer: \<open>late n\<close> tells whether the clock shows 12 ms or more after the chunk that moved
  the offset to \<open>n\<close>. The offset moves before the action, and the count of what is pending after it.
\<close>

function inner_loop :: "(nat \<Rightarrow> bool) \<Rightarrow> 's action \<Rightarrow> 's write_buffer \<Rightarrow> 's write_buffer called" where
  "inner_loop late act b =
     (if buffer_offset b < length (queued b) then
        (let r = queued b ! buffer_offset b; i = callbacks b ! buffer_offset b;
             b = b\<lparr>buffer_offset := buffer_offset b + 1\<rparr>
         in case act r (target b) of
              Thrown s \<Rightarrow> Thrown (b\<lparr>target := s\<rparr>)
            | Returned s \<Rightarrow>
                (let b = b\<lparr>target := s, pending_data := pending_data b - int (chunk_length r)\<rparr>
                 in case call_back i (target b) of
                      Thrown s \<Rightarrow> Thrown (b\<lparr>target := s\<rparr>)
                    | Returned s \<Rightarrow>
                        (let b = b\<lparr>target := s\<rparr>
                         in if late (buffer_offset b) then Returned b else inner_loop late act b)))
      else Returned b)"
  by pat_completeness auto
termination
  by (relation "measure (\<lambda>(_, _, b). length (queued b) - buffer_offset b)") (auto simp: Let_def)

declare inner_loop.simps [simp del]

definition inner_write :: "(nat \<Rightarrow> bool) \<Rightarrow> 's action \<Rightarrow> 's write_buffer \<Rightarrow> 's write_buffer called" where
  "inner_write late act b =
     (case inner_loop late act (b\<lparr>timers := timers b - 1\<rparr>) of
        Thrown b \<Rightarrow> Thrown b
      | Returned b \<Rightarrow> Returned
          (if buffer_offset b < length (queued b) then
             (let b = (if 50 < buffer_offset b then
                   b\<lparr>queued := drop (buffer_offset b) (queued b), callbacks := drop (buffer_offset b) (callbacks b), buffer_offset := 0\<rparr>
                 else b)
              in b\<lparr>timers := timers b + 1\<rparr>)
           else b\<lparr>queued := [], callbacks := [], pending_data := 0, buffer_offset := 0\<rparr>))"

text \<open>The chunks with their callbacks, one after the other, until one throws; \<open>writeSync\<close> changes the members after its loop.\<close>

fun handle_all :: "'s action \<Rightarrow> (chunk \<times> 's callback) list \<Rightarrow> 's \<Rightarrow> 's called" where
  "handle_all act [] s = Returned s"
| "handle_all act ((e, t) # w) s = (case handle_chunk act e t s of Returned s \<Rightarrow> handle_all act w s | Thrown s \<Rightarrow> Thrown s)"

definition waiting :: "'s write_buffer \<Rightarrow> (chunk \<times> 's callback) list" where
  "waiting b = drop (buffer_offset b) (zip (queued b) (callbacks b))"

definition write_sync :: "'s action \<Rightarrow> chunk \<Rightarrow> 's write_buffer \<Rightarrow> 's write_buffer called" where
  "write_sync act e b =
     (case (if queued b = [] then Returned (target b) else handle_all act (waiting b) (target b)) of
        Thrown s \<Rightarrow> Thrown (b\<lparr>target := s\<rparr>)
      | Returned s \<Rightarrow>
          (let b = (if queued b = [] then b
                 else b\<lparr>target := s, queued := [], callbacks := [], pending_data := 0, buffer_offset := 2147483647\<rparr>)
           in case act e (target b) of Returned s \<Rightarrow> Returned (b\<lparr>target := s\<rparr>) | Thrown s \<Rightarrow> Thrown (b\<lparr>target := s\<rparr>)))"

text \<open>What the page can do to the buffer, with the list of the chunks it has written.\<close>

inductive written :: "'s action \<Rightarrow> 's \<Rightarrow> (chunk \<times> 's callback) list \<Rightarrow> 's write_buffer \<Rightarrow> bool" for act s where
  untouched: "written act s [] (new_write_buffer s)"
| writing: "written act s w b \<Longrightarrow> buffer_write e t b = Some b' \<Longrightarrow> written act s (w @ [(e, t)]) b'"
| sync_writing: "written act s w b \<Longrightarrow> written act s (w @ [(e, None)]) (left_behind (write_sync act e b))"
| timer_fires: "written act s w b \<Longrightarrow> 0 < timers b \<Longrightarrow> written act s w (left_behind (inner_write late act b))"

definition total_length :: "(chunk \<times> 's callback) list \<Rightarrow> int" where
  "total_length w = (\<Sum>(e, t)\<leftarrow>w. int (chunk_length e))"

text \<open>As long as nothing throws: what is counted is what waits.\<close>

definition buffer_holds :: "'s write_buffer \<Rightarrow> bool" where
  "buffer_holds b \<longleftrightarrow> length (callbacks b) = length (queued b) \<and> pending_data b = total_length (waiting b)
     \<and> (queued b \<noteq> [] \<longrightarrow> buffer_offset b < length (queued b))"

lemma handle_all_append [simp]:
  "handle_all act (v @ w) s = (case handle_all act v s of Returned s \<Rightarrow> handle_all act w s | Thrown s \<Rightarrow> Thrown s)"
  by (induction act v s rule: handle_all.induct) (auto split: called.split)

lemma handled_chunk:
  "handle_chunk act r i s = Returned s'' \<longleftrightarrow> (\<exists>s'. act r s = Returned s' \<and> call_back i s' = Returned s'')"
  by (simp add: handle_chunk_def split: called.split)

lemma total_length_simps [simp]:
  "total_length [] = 0" "total_length ((e, t) # w) = int (chunk_length e) + total_length w"
  "total_length (v @ w) = total_length v + total_length w"
  by (simp_all add: total_length_def)

lemma waiting_next:
  "length (callbacks b) = length (queued b) \<Longrightarrow> buffer_offset b < length (queued b) \<Longrightarrow>
     waiting b = (queued b ! buffer_offset b, callbacks b ! buffer_offset b) # waiting (b\<lparr>buffer_offset := buffer_offset b + 1\<rparr>)"
  using Cons_nth_drop_Suc [of "buffer_offset b" "zip (queued b) (callbacks b)"] by (simp add: waiting_def)

lemma write_holds:
  assumes "buffer_holds b" and "buffer_write e t b = Some b'"
  shows "buffer_holds b' \<and> waiting b' = waiting b @ [(e, t)] \<and> target b' = target b
    \<and> timers b' = (if queued b = [] then timers b + 1 else timers b)"
  using assms by (cases "queued b = []") (auto simp: buffer_write_def Let_def buffer_holds_def waiting_def split: if_splits)

lemma sync_holds:
  assumes "buffer_holds b" and "handle_all act (waiting b @ [(e, None)]) (target b) = Returned s"
  shows "\<exists>c. write_sync act e b = Returned c \<and> buffer_holds c \<and> waiting c = [] \<and> target c = s \<and> queued c = []"
  using assms
  by (cases "queued b = []")
    (auto simp: write_sync_def Let_def buffer_holds_def waiting_def handle_chunk_def call_back_def split: called.splits)

text \<open>A timer hands on some of the waiting chunks, at least one.\<close>

lemma loop_holds:
  assumes "length (callbacks b) = length (queued b)" and "pending_data b = total_length (waiting b)"
    and "buffer_offset b \<le> length (queued b)" and "handle_all act (waiting b) (target b) = Returned s"
  shows "\<exists>c. inner_loop late act b = Returned c \<and> queued c = queued b \<and> callbacks c = callbacks b \<and> timers c = timers b
    \<and> buffer_offset b \<le> buffer_offset c \<and> buffer_offset c \<le> length (queued b) \<and> pending_data c = total_length (waiting c)
    \<and> (buffer_offset b < length (queued b) \<longrightarrow> buffer_offset b < buffer_offset c)
    \<and> handle_all act (waiting c) (target c) = Returned s"
  using assms
proof (induction "length (queued b) - buffer_offset b" arbitrary: b)
  case 0
  then have "inner_loop late act b = Returned b" by (subst inner_loop.simps) simp
  with 0 show ?case by simp
next
  case (Suc n)
  let ?r = "queued b ! buffer_offset b" and ?i = "callbacks b ! buffer_offset b"
  let ?d = "b\<lparr>buffer_offset := buffer_offset b + 1\<rparr>"
  have o: "buffer_offset b < length (queued b)" using Suc.hyps(2) by simp
  have w: "waiting b = (?r, ?i) # waiting ?d" by (rule waiting_next [OF Suc.prems(1) o])
  obtain s1 s2 where s: "act ?r (target b) = Returned s1" "call_back ?i s1 = Returned s2"
      "handle_all act (waiting ?d) s2 = Returned s"
    using Suc.prems(4) unfolding w by (auto simp: handled_chunk split: called.splits)
  define d where "d = ?d\<lparr>pending_data := pending_data b - int (chunk_length ?r), target := s2\<rparr>"
  have l: "inner_loop late act b = (if late (buffer_offset d) then Returned d else inner_loop late act d)"
    by (subst inner_loop.simps) (simp add: o s d_def Let_def)
  have wd: "waiting d = waiting ?d" by (simp add: d_def waiting_def)
  have d: "length (callbacks d) = length (queued d)" "pending_data d = total_length (waiting d)"
    "buffer_offset d \<le> length (queued d)" "handle_all act (waiting d) (target d) = Returned s"
    "n = length (queued d) - buffer_offset d"
    using Suc o w s(3) unfolding wd by (simp_all add: d_def)
  have q: "queued d = queued b" "callbacks d = callbacks b" "timers d = timers b" "buffer_offset d = buffer_offset b + 1"
    by (simp_all add: d_def)
  show ?case
  proof (cases "late (buffer_offset d)")
    case True
    then show ?thesis using l d q o by simp
  next
    case False
    then show ?thesis using l Suc.hyps(1) [OF d(5,1-4)] q by auto
  qed
qed

lemma timer_holds:
  assumes "buffer_holds b" and "handle_all act (waiting b) (target b) = Returned s"
  shows "\<exists>c. inner_write late act b = Returned c \<and> buffer_holds c \<and> handle_all act (waiting c) (target c) = Returned s
    \<and> length (waiting c) \<le> length (waiting b) - 1 \<and> (queued c \<noteq> [] \<longrightarrow> 0 < timers c)"
proof (cases "queued b = []")
  case True
  then have "inner_loop late act (b\<lparr>timers := timers b - 1\<rparr>) = Returned (b\<lparr>timers := timers b - 1\<rparr>)"
    by (subst inner_loop.simps) simp
  then show ?thesis using True assms by (auto simp: inner_write_def buffer_holds_def waiting_def)
next
  case False
  let ?b = "b\<lparr>timers := timers b - 1\<rparr>"
  have o: "length (callbacks b) = length (queued b)" "buffer_offset b < length (queued b)"
    "pending_data b = total_length (waiting b)"
    using assms(1) False by (auto simp: buffer_holds_def)
  have w: "waiting ?b = waiting b" by (simp add: waiting_def)
  obtain d where d: "inner_loop late act ?b = Returned d" "queued d = queued b" "callbacks d = callbacks b"
    "buffer_offset b < buffer_offset d" "buffer_offset d \<le> length (queued b)" "pending_data d = total_length (waiting d)"
    "handle_all act (waiting d) (target d) = Returned s"
    using loop_holds [of ?b act s late] o assms(2) unfolding w by auto
  define c where "c = left_behind (inner_write late act b)"
  have c: "inner_write late act b = Returned c" using d(1) by (simp add: c_def inner_write_def)
  have w: "waiting c = waiting d" "target c = target d"
    unfolding c_def inner_write_def d(1) Let_def called.case left_behind.simps using d by (auto simp: waiting_def drop_zip)
  moreover have "length (waiting d) < length (waiting b)" using d(2-5) o by (simp add: waiting_def)
  moreover have "buffer_holds c" "queued c \<noteq> [] \<longrightarrow> 0 < timers c"
    unfolding c_def inner_write_def d(1) Let_def called.case left_behind.simps using d o(1) w(1) by (auto simp: buffer_holds_def waiting_def drop_zip)
  ultimately show ?thesis using d(7) c by simp
qed

lemma written_holds:
  "written act s w b \<Longrightarrow> handle_all act w s = Returned s' \<Longrightarrow>
     buffer_holds b \<and> handle_all act (waiting b) (target b) = Returned s' \<and> (queued b \<noteq> [] \<longrightarrow> 0 < timers b)"
proof (induction arbitrary: s' rule: written.induct)
  case untouched
  then show ?case by (simp add: new_write_buffer_def buffer_holds_def waiting_def)
next
  case (writing w b e t b')
  obtain s1 where s1: "handle_all act w s = Returned s1" "handle_all act [(e, t)] s1 = Returned s'"
    using writing.prems by (auto simp del: handle_all.simps split: called.splits)
  note h = writing.IH [OF s1(1)]
  then show ?case using write_holds [OF _ writing.hyps(2)] s1(2)
    by (auto simp del: handle_all.simps)
next
  case (sync_writing w b e)
  obtain s1 where s1: "handle_all act w s = Returned s1" "handle_all act [(e, None)] s1 = Returned s'"
    using sync_writing.prems by (auto simp del: handle_all.simps split: called.splits)
  note h = sync_writing.IH [OF s1(1)]
  then have "handle_all act (waiting b @ [(e, None)]) (target b) = Returned s'"
    using s1(2) by (simp del: handle_all.simps)
  then show ?case using sync_holds [of b act e s'] h by auto
next
  case (timer_fires w b late)
  then show ?case using timer_holds [of b act s' late] by fastforce
qed

text \<open>
  However the page interleaves its writes with the timers, and however long the chunks take, as long as nothing throws:
  what has been handled and what is waiting are all the chunks written, in order and each once, with their callbacks;
  the limit counts exactly what is waiting; and as long as something waits, a timer will come for it.
\<close>

theorem writes_in_order:
  assumes "written act s w b" and "handle_all act w s = Returned s'"
  shows "handle_all act (waiting b) (target b) = Returned s' \<and> pending_data b = total_length (waiting b)
    \<and> (waiting b \<noteq> [] \<longrightarrow> 0 < timers b)"
  using written_holds [OF assms] by (auto simp: buffer_holds_def waiting_def)

text \<open>The timers that are set fire, one for each clock of the list.\<close>

definition timers_fire :: "(nat \<Rightarrow> bool) list \<Rightarrow> 's action \<Rightarrow> 's write_buffer \<Rightarrow> 's write_buffer" where
  "timers_fire lates act b = fold (\<lambda>late b. if 0 < timers b then left_behind (inner_write late act b) else b) lates b"

lemma timers_fire_Cons:
  "timers_fire (late # lates) act b
    = timers_fire lates act (if 0 < timers b then left_behind (inner_write late act b) else b)"
  by (simp add: timers_fire_def)

lemma timers_fire_holds:
  "buffer_holds b \<Longrightarrow> (queued b \<noteq> [] \<longrightarrow> 0 < timers b) \<Longrightarrow> handle_all act (waiting b) (target b) = Returned s \<Longrightarrow>
     length (waiting b) \<le> length lates \<Longrightarrow>
     waiting (timers_fire lates act b) = [] \<and> target (timers_fire lates act b) = s"
proof (induction lates arbitrary: b)
  case Nil
  then show ?case by (simp add: timers_fire_def)
next
  case (Cons late lates)
  obtain c where c: "inner_write late act b = Returned c" "buffer_holds c" "handle_all act (waiting c) (target c) = Returned s"
    "length (waiting c) \<le> length (waiting b) - 1" "queued c \<noteq> [] \<longrightarrow> 0 < timers c"
    using timer_holds [OF Cons.prems(1,3), of late] by blast
  show ?case
  proof (cases "0 < timers b")
    case True
    then show ?thesis using Cons.IH [OF c(2,5,3)] c(1,4) Cons.prems(4) by (simp add: timers_fire_Cons)
  next
    case False
    then have "length (waiting b) \<le> length lates" using Cons.prems(2) by (simp add: waiting_def)
    then show ?thesis using Cons.IH [OF Cons.prems(1-3)] False by (simp add: timers_fire_Cons)
  qed
qed

text \<open>
  C12. Everything written is handled, as long as the action and the callbacks return: after as many timers as chunks are
  waiting, whatever the clock says, the target has seen all chunks in the order in which they were written, each
  followed by its callback, and nothing is left. (When the action throws this ends, see \<open>write_buffer_stuck\<close>.)
\<close>

theorem writes_delivered:
  assumes "written act s w b" and "handle_all act w s = Returned s'" and "length (waiting b) \<le> length lates"
  shows "waiting (timers_fire lates act b) = [] \<and> target (timers_fire lates act b) = s'"
  using written_holds [OF assms(1,2)] timers_fire_holds [OF _ _ _ assms(3)] by blast

theorem writes_in_order_witness:
  "(let b = the (buffer_write (Bytes [72]) None (new_write_buffer [])); act = (\<lambda>e s. Returned (s @ [e]))
    in handle_all act (waiting b) (target b) = Returned [Bytes [72]] \<and> 0 < timers b)"
proof -
  define act where "act = (\<lambda>e s. Returned (s @ [e :: chunk]))"
  define b where "b = the (buffer_write (Bytes [72]) None (new_write_buffer ([] :: chunk list)))"
  have b: "buffer_write (Bytes [72]) None (new_write_buffer []) = Some b" "waiting b = [(Bytes [72], None)]"
    by (simp_all add: b_def buffer_write_def new_write_buffer_def waiting_def)
  have w: "written act [] ([] @ [(Bytes [72], None)]) b" by (rule writing [OF untouched b(1)])
  have "handle_all act ([] @ [(Bytes [72], None)]) [] = Returned [Bytes [72]]"
    by (simp add: act_def handle_chunk_def call_back_def)
  from writes_in_order [OF w this] show ?thesis unfolding b_def [symmetric] act_def [symmetric] Let_def
    by (simp add: b(2))
qed

theorem writes_delivered_witness:
  "(let act = (\<lambda>e s. Returned (s @ [e]));
        b = the (buffer_write (Units [33]) None (the (buffer_write (Bytes [72]) None (new_write_buffer []))))
    in target (timers_fire [\<lambda>_. True, \<lambda>_. True] act b) = [Bytes [72], Units [33]])"
proof -
  define act where "act = (\<lambda>e s. Returned (s @ [e :: chunk]))"
  define a where "a = the (buffer_write (Bytes [72]) None (new_write_buffer ([] :: chunk list)))"
  define b where "b = the (buffer_write (Units [33]) None a)"
  have b: "buffer_write (Bytes [72]) None (new_write_buffer []) = Some a" "buffer_write (Units [33]) None a = Some b"
    "length (waiting b) \<le> length [\<lambda>_ :: nat. True, \<lambda>_. True]"
    by (simp_all add: b_def a_def buffer_write_def new_write_buffer_def waiting_def)
  have w: "written act [] (([] @ [(Bytes [72], None)]) @ [(Units [33], None)]) b"
    by (rule writing [OF writing [OF untouched b(1)] b(2)])
  have "handle_all act (([] @ [(Bytes [72], None)]) @ [(Units [33], None)]) [] = Returned [Bytes [72], Units [33]]"
    by (simp add: act_def handle_chunk_def call_back_def)
  from writes_delivered [OF w this b(3)] show ?thesis unfolding b_def [symmetric] a_def [symmetric] act_def [symmetric] Let_def
    by simp
qed

section \<open>An action that throws\<close>

text \<open>What may come later: writes, which may be refused, and timers, when one is set.\<close>

datatype 's page_step = Page_writes chunk "'s callback" | Page_timer "nat \<Rightarrow> bool"

fun page_does :: "'s action \<Rightarrow> 's page_step \<Rightarrow> 's write_buffer \<Rightarrow> 's write_buffer" where
  "page_does act (Page_writes e t) b = (case buffer_write e t b of None \<Rightarrow> b | Some b \<Rightarrow> b)"
| "page_does act (Page_timer late) b = timers_fire [late] act b"

lemma inner_write_throws:
  assumes "waiting b = (e, t) # v" and "act e (target b) = Thrown s"
  shows "inner_write late act b = Thrown (b\<lparr>timers := timers b - 1, buffer_offset := buffer_offset b + 1, target := s\<rparr>)"
proof -
  have o: "buffer_offset b < length (zip (queued b) (callbacks b))" using assms(1)
    by (metis drop_eq_Nil list.distinct(1) not_less waiting_def)
  have "(queued b ! buffer_offset b, callbacks b ! buffer_offset b) = (e, t)"
    using Cons_nth_drop_Suc [OF o] assms(1) o by (simp add: waiting_def)
  then have e: "queued b ! buffer_offset b = e" by simp
  let ?b = "b\<lparr>timers := timers b - 1\<rparr>"
  have "inner_loop late act ?b = Thrown (?b\<lparr>buffer_offset := buffer_offset b + 1, target := s\<rparr>)"
    using o by (subst inner_loop.simps) (simp add: e assms(2) Let_def)
  then show ?thesis by (simp add: inner_write_def)
qed

lemma stuck_kept:
  assumes "queued c \<noteq> []" and "timers c = 0"
  shows "target (fold (page_does act) ops c) = target c \<and> timers (fold (page_does act) ops c) = 0
    \<and> pending_data c \<le> pending_data (fold (page_does act) ops c)"
  using assms
proof (induction ops arbitrary: c)
  case (Cons op ops)
  let ?d = "page_does act op c"
  have "queued ?d \<noteq> [] \<and> timers ?d = 0 \<and> target ?d = target c \<and> pending_data c \<le> pending_data ?d"
    using Cons.prems by (cases op) (auto simp: buffer_write_def timers_fire_def split: option.splits if_splits)
  then show ?case using Cons.IH [of ?d] by auto
qed simp

text \<open>
  An exception of the action ends the work of the buffer. When the timer that has found the next chunk was the only one,
  it sets no other: the offset is past the chunk, but its length stays counted, and as the queue is not empty no later
  \<open>write\<close> sets a timer either. Whatever the page writes from then on is only kept, and never handled.
\<close>

theorem write_buffer_stuck:
  fixes act :: "'s action" and late
  assumes "timers b = 1" and "waiting b = (e, t) # v" and "act e (target b) = Thrown s"
  defines "c \<equiv> left_behind (inner_write late act b)"
  shows "inner_write late act b = Thrown c \<and> waiting c = v \<and> pending_data c = pending_data b
    \<and> target (fold (page_does act) ops c) = s \<and> timers (fold (page_does act) ops c) = 0"
proof -
  have i: "inner_write late act b = Thrown c"
    and c: "c = b\<lparr>timers := timers b - 1, buffer_offset := buffer_offset b + 1, target := s\<rparr>"
    using inner_write_throws [of b e t v act s late] assms(2,3) by (simp_all add: c_def)
  have q: "queued b \<noteq> []" using assms(2) by (auto simp: waiting_def)
  have "waiting c = drop 1 (waiting b)" by (simp add: c waiting_def add.commute)
  then show ?thesis using i stuck_kept [of c act ops] q assms(1,2) by (simp add: c)
qed

theorem write_buffer_stuck_witness:
  "(let act = (\<lambda>e s. if e = Units [33] then Thrown s else Returned (s @ [e]));
        b = the (buffer_write (Units [33]) None (new_write_buffer []))
    in target (fold (page_does act) [Page_writes (Bytes [72]) None, Page_timer (\<lambda>_. False)]
         (left_behind (inner_write (\<lambda>_. False) act b))) = [])"
proof -
  define act where "act = (\<lambda>e s. if e = Units [33] then Thrown s else Returned (s @ [e :: chunk]))"
  define b where "b = the (buffer_write (Units [33]) None (new_write_buffer ([] :: chunk list)))"
  have b: "timers b = 1" "waiting b = [(Units [33], None)]" "act (Units [33]) (target b) = Thrown []"
    by (simp_all add: b_def act_def buffer_write_def new_write_buffer_def waiting_def)
  from write_buffer_stuck [where act = act and ops = "[Page_writes (Bytes [72]) None, Page_timer (\<lambda>_. False)]", OF b]
  show ?thesis unfolding b_def [symmetric] act_def [symmetric] Let_def by blast
qed

section \<open>The input handler\<close>

text \<open>The decoders and the parser, and the events so far.\<close>

record input_handler =
  string_left :: nat
  bytes_left :: "byte list"
  input_parser :: parser
  events :: "event list"

definition new_input :: input_handler where
  "new_input = \<lparr>string_left = 0, bytes_left = new_interim, input_parser = new_parser, events = []\<rparr>"

definition parse_codes :: "nat list \<Rightarrow> input_handler \<Rightarrow> input_handler" where
  "parse_codes t h = (let (es, s) = parse t (input_parser h) in h\<lparr>input_parser := s, events := events h @ es\<rparr>)"

definition parse_units :: "u16 list \<Rightarrow> input_handler \<Rightarrow> input_handler" where
  "parse_units u h = (let (t, i) = StringToUtf32_decode (string_left h) u in parse_codes t (h\<lparr>string_left := i\<rparr>))"

definition parse_bytes :: "byte list \<Rightarrow> input_handler \<Rightarrow> input_handler" where
  "parse_bytes e h = (let (t, m) = Utf8ToUtf32_decode (bytes_left h) e in parse_codes t (h\<lparr>bytes_left := m\<rparr>))"

text \<open>What is longer than 131072 is taken in pieces of that length.\<close>

function pieces :: "'a list \<Rightarrow> 'a list list" where
  "pieces e = (if length e \<le> 131072 then [e] else take 131072 e # pieces (drop 131072 e))"
  by pat_completeness auto
termination
  by (relation "measure length") auto

declare pieces.simps [simp del]

fun input_parse :: "chunk \<Rightarrow> input_handler \<Rightarrow> input_handler" where
  "input_parse (Units u) h = fold parse_units (pieces u) h"
| "input_parse (Bytes e) h = fold parse_bytes (pieces e) h"

lemma concat_pieces: "concat (pieces e) = e"
  by (induction e rule: pieces.induct) (subst pieces.simps, simp)

lemma piece_bound: "p \<in> set (pieces e) \<Longrightarrow> length p \<le> 131072"
  by (induction e rule: pieces.induct) (subst (asm) (2) pieces.simps, auto split: if_splits)

text \<open>The bytes of the chunks, in the pieces in which they are decoded.\<close>

definition byte_pieces :: "byte list list \<Rightarrow> byte list list" where
  "byte_pieces cs = concat (map pieces cs)"

lemma concat_byte_pieces: "concat (byte_pieces cs) = concat cs"
  by (induction cs) (simp_all add: byte_pieces_def concat_pieces)

lemma fold_parse_bytes:
  "127 \<notin> set (fst (decode_all (bytes_left h) ps)) \<Longrightarrow>
     spelled (events (fold parse_bytes ps h)) = spelled (events h) @ fst (steps (fst (decode_all (bytes_left h) ps)) (input_parser h))
     \<and> input_parser (fold parse_bytes ps h) = snd (steps (fst (decode_all (bytes_left h) ps)) (input_parser h))
     \<and> bytes_left (fold parse_bytes ps h) = snd (decode_all (bytes_left h) ps)
     \<and> string_left (fold parse_bytes ps h) = string_left h"
proof (induction ps arbitrary: h)
  case (Cons p ps)
  obtain t m where d: "Utf8ToUtf32_decode (bytes_left h) p = (t, m)" by fastforce
  obtain u k where ds: "decode_all m ps = (u, k)" by fastforce
  obtain es s where p: "parse t (input_parser h) = (es, s)" by fastforce
  have "127 \<notin> set t" "127 \<notin> set u" using Cons.prems by (simp_all add: d ds)
  then have st: "steps t (input_parser h) = (spelled es, s)" using parse_steps [of t "input_parser h"] by (simp add: p)
  have h: "parse_bytes p h = h\<lparr>bytes_left := m, input_parser := s, events := events h @ es\<rparr>"
    by (simp add: parse_bytes_def parse_codes_def d p)
  show ?case using Cons.IH [of "parse_bytes p h"] \<open>127 \<notin> set u\<close>
    by (simp add: h ds d st steps_append split: prod.split)
qed simp

text \<open>The action of the terminal when all handlers return, as far as the input goes.\<close>

definition input_action :: "chunk \<Rightarrow> input_handler \<Rightarrow> input_handler called" where
  "input_action e h = Returned (input_parse e h)"

lemma handle_bytes:
  "handle_all input_action (map (\<lambda>e. (Bytes e, None)) cs) h = Returned (fold parse_bytes (byte_pieces cs) h)"
  by (induction cs arbitrary: h) (simp_all add: byte_pieces_def handle_chunk_def call_back_def input_action_def)

text \<open>
  C3. The terminal as a whole, from the bytes of the socket to the handlers, when the handlers return: whatever the sizes of
  the messages the page writes, however the timers interleave and wherever the messages are cut into pieces, except
  inside a character after a continuation byte with no bits (128; \<open>split_character_lost\<close>: the character is lost), and
  when the code 127 does not occur (\<open>delete_code_in_device_string\<close>): the text is the decoded text of all bytes
  together, and the handlers are called as by the machine that reads it one code after the other.
\<close>

theorem terminal_input:
  assumes "written input_action new_input (map (\<lambda>e. (Bytes e, None)) cs) b" and "length (waiting b) \<le> length lates"
    and "\<forall>k < length (byte_pieces cs).
      safe_cut (interim_bytes (snd (Utf8ToUtf32_decode new_interim (concat (take k (byte_pieces cs))))))"
    and "127 \<notin> set (fst (Utf8ToUtf32_decode new_interim (concat cs)))"
  shows "apfst spelled (events (target (timers_fire lates input_action b)), input_parser (target (timers_fire lates input_action b)))
    = steps (fst (Utf8ToUtf32_decode new_interim (concat cs))) new_parser"
proof -
  have d: "decode_all new_interim (byte_pieces cs) = Utf8ToUtf32_decode new_interim (concat cs)"
    using decode_all_whole [OF assms(3)] by (simp add: concat_byte_pieces)
  have "target (timers_fire lates input_action b) = fold parse_bytes (byte_pieces cs) new_input"
    using written_holds [OF assms(1) handle_bytes] timers_fire_holds [OF _ _ _ assms(2)] by blast
  then show ?thesis
    using fold_parse_bytes [of new_input "byte_pieces cs"] assms(4) by (simp add: d new_input_def)
qed

theorem terminal_input_witness:
  "(let b = the (buffer_write (Bytes [169, 33]) None (the (buffer_write (Bytes [72, 195]) None (new_write_buffer new_input))))
    in spelled (events (target (timers_fire [\<lambda>_. True, \<lambda>_. True] input_action b))) = [Print [72], Print [233], Print [33]])"
proof -
  define a where "a = the (buffer_write (Bytes [72, 195]) None (new_write_buffer new_input))"
  define b where "b = the (buffer_write (Bytes [169, 33]) None a)"
  have b: "buffer_write (Bytes [72, 195]) None (new_write_buffer new_input) = Some a"
    "buffer_write (Bytes [169, 33]) None a = Some b" "length (waiting b) \<le> length [\<lambda>_ :: nat. True, \<lambda>_. True]"
    by (simp_all add: b_def a_def buffer_write_def new_write_buffer_def waiting_def)
  have w: "written input_action new_input (map (\<lambda>e. (Bytes e, None)) [[72, 195], [169, 33]]) b"
    using writing [OF writing [OF untouched b(1)] b(2)] by simp
  have ps: "byte_pieces [[72, 195], [169, 33]] = [[72, 195], [169, 33]]" by (simp add: byte_pieces_def pieces.simps)
  have d: "Utf8ToUtf32_decode new_interim [72, 195] = ([72], [195, 0, 0])"
    "Utf8ToUtf32_decode new_interim [72, 195, 169, 33] = ([72, 233, 33], [0, 0, 0])"
    "Utf8ToUtf32_decode new_interim [] = ([], [0, 0, 0])"
    by code_simp+
  have s: "\<forall>k < length (byte_pieces [[72, 195], [169, 33]]).
      safe_cut (interim_bytes (snd (Utf8ToUtf32_decode new_interim (concat (take k (byte_pieces [[72, 195], [169, 33]]))))))"
    unfolding ps by (auto simp: less_Suc_eq d safe_cut_def interim_bytes_def)
  have "steps [72, 233, 33] new_parser = ([Print [72], Print [233], Print [33]], new_parser)"
  proof -
    have 0: "current_state new_parser = 0" by (simp add: new_parser_def)
    have "steps [72, 233, 33] new_parser = (map (\<lambda>c. Print [c]) [72, 233, 33], new_parser)"
      by (rule steps_run [where n = 2]) (auto simp: 0 in_text_def intro!: text_entry)
    then show ?thesis by simp
  qed
  then show ?thesis
    using terminal_input [OF w b(3) s] unfolding b_def [symmetric] a_def [symmetric] Let_def by (simp add: d apfst_def map_prod_def)
qed

lemma string_loop_count: "length (fst (string_loop u)) \<le> length u"
proof (induction u rule: string_loop.induct)
  case (2 c r)
  show ?case
  proof (cases r)
    case Nil
    then show ?thesis by simp
  next
    case (Cons a r')
    have "length (surrogate_pair (unat c) (unat a)) \<le> 2" by (simp add: surrogate_pair_def)
    then show ?thesis using 2 Cons by (auto simp: apfst_def map_prod_def split: prod.splits)
  qed
qed simp

text \<open>
  The buffer for the codes is as long as the piece, or longer. The string decoder gives at most as many codes as the
  piece has code units, except when a surrogate is left over from the piece before and finds no partner:
  then it may be one more, and a piece as long as the buffer overruns it.
\<close>

theorem string_codes_bound:
  "length (fst (StringToUtf32_decode i u)) \<le> length u + (if i = 0 then 0 else 1)
   \<and> length (fst (StringToUtf32_decode 55296 (replicate (Suc n) 65))) = Suc n + 1"
proof
  show "length (fst (StringToUtf32_decode i u)) \<le> length u + (if i = 0 then 0 else 1)"
  proof (cases u)
    case (Cons a r)
    have "length (surrogate_pair i (unat a)) \<le> 2" by (simp add: surrogate_pair_def)
    then show ?thesis using Cons string_loop_count [of r] string_loop_count [of u]
      by (simp add: StringToUtf32_decode_def)
  qed (simp add: StringToUtf32_decode_def)
  have "fst (string_loop (replicate n 65)) = replicate n 65"
    by (induction n) (simp_all add: high_surrogate_def)
  then show "length (fst (StringToUtf32_decode 55296 (replicate (Suc n) 65))) = Suc n + 1"
    by (simp add: StringToUtf32_decode_def surrogate_pair_def low_surrogate_def)
qed

end
