(* ===== verification/XtermSequences.thy ===== *)
theory XtermSequences
  imports XtermParser
begin

text \<open>
  What the parser of \<open>src/html/xterm.js\<close> makes of control sequences, and how it finds its way back from any state:
  the identifiers under which handlers are registered, the numbers of a sequence, the codes that cancel.
\<close>

section \<open>Identifiers of handlers\<close>

text \<open>
  \<open>_identifier\<close>: prefix, intermediates and final byte of the sequences a handler is for, with the range of the
  final byte. \<open>None\<close>: it throws. (The code 0 as a prefix passes the test, since it counts as false.)
\<close>

definition shift_code :: "nat \<Rightarrow> u32 \<Rightarrow> u32" where
  "shift_code n r = push_bit 8 r OR of_nat n"

definition handler_id :: "nat \<Rightarrow> nat \<Rightarrow> nat list \<Rightarrow> nat list \<Rightarrow> nat list \<Rightarrow> u32 option" where
  "handler_id lo hi pre mid final =
     (if 1 < length pre then None
      else if pre \<noteq> [] \<and> (hd pre \<noteq> 0 \<and> hd pre < 60 \<or> 63 < hd pre) then None
      else if 2 < length mid then None
      else if \<exists>n\<in>set mid. n < 32 \<or> 47 < n then None
      else if length final \<noteq> 1 then None
      else if hd final < lo \<or> hi < hd final then None
      else Some (shift_code (hd final) (fold shift_code mid (if pre = [] then 0 else of_nat (hd pre)))))"

section \<open>The numbers of a sequence\<close>

fun decimal :: "nat \<Rightarrow> nat list" where
  "decimal n = (if n < 10 then [48 + n] else decimal (n div 10) @ [48 + n mod 10])"

declare decimal.simps [simp del]

fun param_text :: "nat list \<Rightarrow> nat list" where
  "param_text [] = []"
| "param_text [n] = decimal n"
| "param_text (n # ns) = decimal n @ 59 # param_text ns"

lemma decimal_codes: "c \<in> set (decimal n) \<Longrightarrow> in_params c \<and> c < 58"
  by (induction n rule: decimal.induct) (subst (asm) (2) decimal.simps, auto simp: in_params_def split: if_splits)

lemma decimal_not_empty: "decimal n \<noteq> []"
  by (subst decimal.simps) simp

lemma param_text_codes: "c \<in> set (param_text ns) \<Longrightarrow> in_params c"
  by (induction ns rule: param_text.induct) (auto dest: decimal_codes simp: in_params_def)

lemma param_text_empty: "param_text ns = [] \<longleftrightarrow> ns = []"
  by (cases ns rule: param_text.cases) (simp_all add: decimal_not_empty)

text \<open>The parameters after the values \<open>vs\<close>, of which the array keeps the first \<open>m\<close>.\<close>

definition holds_values :: "nat \<Rightarrow> int list \<Rightarrow> params \<Rightarrow> bool" where
  "holds_values m vs p \<longleftrightarrow> max_params p = m \<and> \<not> digit_is_sub p \<and> subs p = [] \<and> vs \<noteq> [] \<and> numbers p = take m vs
     \<and> (reject_digits p \<longleftrightarrow> m < length vs)"

lemma holds_clear: "holds_values (max_params p) [0] (clear_params p)"
  by (auto simp: holds_values_def clear_params_def addParam_def reset_params_def Let_def clamp_def)

lemma holds_add: "holds_values m vs p \<Longrightarrow> holds_values m (vs @ [0]) (param_char 59 p)"
  by (auto simp: holds_values_def param_char_def addParam_def Let_def clamp_def not_le)

lemma holds_digit:
  "holds_values m (vs @ [v]) p \<Longrightarrow> d < 10 \<Longrightarrow> holds_values m (vs @ [append_digit (int d) v]) (param_char (48 + d) p)"
  by (auto simp: holds_values_def param_char_def addDigit_def)

lemma append_digit_clamp: "append_digit (int (n mod 10)) (clamp (int (n div 10))) = clamp (int n)"
proof -
  have "10 * (n div 10) + n mod 10 = n" "n mod 10 < 10" by simp_all
  then have "int n = 10 * int (n div 10) + int (n mod 10)" "int (n mod 10) < 10" by linarith+
  then show ?thesis unfolding append_digit_def clamp_def by (smt (verit) of_nat_0_le_iff)
qed

lemma holds_decimal:
  "holds_values m (vs @ [0]) p \<Longrightarrow> holds_values m (vs @ [clamp (int n)]) (fold param_char (decimal n) p)"
proof (induction n rule: decimal.induct)
  case (1 n)
  show ?case
  proof (cases "n < 10")
    case True
    then have "append_digit (int n) 0 = clamp (int n)" by (simp add: append_digit_def clamp_def)
    then show ?thesis using holds_digit [OF 1(2) True] True by (subst decimal.simps) simp
  next
    case False
    then have "holds_values m (vs @ [clamp (int (n div 10))]) (fold param_char (decimal (n div 10)) p)" using 1 by simp
    from holds_digit [OF this, of "n mod 10"] show ?thesis using False
      by (subst decimal.simps) (simp add: append_digit_clamp)
  qed
qed

lemma holds_text:
  "ns \<noteq> [] \<Longrightarrow> holds_values m (vs @ [0]) p \<Longrightarrow>
     holds_values m (vs @ map (\<lambda>n. clamp (int n)) ns) (fold param_char (param_text ns) p)"
proof (induction ns arbitrary: vs p rule: param_text.induct)
  case (3 n k ns)
  have "holds_values m ((vs @ [clamp (int n)]) @ [0]) (param_char 59 (fold param_char (decimal n) p))"
    using holds_add [OF holds_decimal [OF 3(3)]] by simp
  from 3(1) [OF _ this] show ?case by simp
qed (simp_all add: holds_decimal)

section \<open>Back from any state\<close>

text \<open>
  An escape code clears what was read and starts a sequence in every state, and the codes 24 and 26 bring the parser
  back to text; a string that was open is closed, in the first case as complete, in the second as cancelled.
\<close>

definition closing :: "bool \<Rightarrow> nat \<Rightarrow> event list" where
  "closing ok s = (if s = 8 then [Osc_end ok] else if s = 13 then [Unhook ok] else [])"

lemma escape_entries:
  "list_all (\<lambda>s. entry_at s 27 = (if s = 8 then (6, 0) else if s = 13 then (14, 0) else (11, 1))) [0..<14]"
  "list_all (\<lambda>s. \<forall>c\<in>{24, 26}. entry_at s c = (if s = 8 then (6, 0) else if s = 13 then (14, 0) else (3, 0))) [0..<14]"
  by code_simp+

lemma entry_escape: "s < 14 \<Longrightarrow> entry_at s 27 = (if s = 8 then (6, 0) else if s = 13 then (14, 0) else (11, 1))"
  using escape_entries(1) unfolding list_all_iff by simp

lemma entry_cancel:
  "s < 14 \<Longrightarrow> c = 24 \<or> c = 26 \<Longrightarrow> entry_at s c = (if s = 8 then (6, 0) else if s = 13 then (14, 0) else (3, 0))"
  using escape_entries(2) unfolding list_all_iff by auto

definition cleared :: "nat \<Rightarrow> parser \<Rightarrow> parser" where
  "cleared k s = s\<lparr>current_state := k, parser_params := clear_params (parser_params s), collected := 0\<rparr>"

lemma steps_escape:
  assumes "current_state s < 14"
  shows "steps [27] s = (closing True (current_state s), cleared 1 s)"
proof -
  have e: "entry_at (current_state s) (table_index 27)
      = (if current_state s = 8 then (6, 0) else if current_state s = 13 then (14, 0) else (11, 1))"
    using entry_escape [OF assms] by (simp add: table_index_def)
  consider "current_state s = 8" | "current_state s = 13" | "current_state s \<noteq> 8" "current_state s \<noteq> 13" by blast
  then show ?thesis
  proof cases
    case 1
    then show ?thesis using iteration_by_entry [of s 27 6 0 "[]"] e by (simp add: closing_def cleared_def)
  next
    case 2
    then show ?thesis using iteration_by_entry [of s 27 14 0 "[]"] e by (simp add: closing_def cleared_def)
  next
    case 3
    then show ?thesis using iteration_by_entry [of s 27 11 1 "[]"] e by (simp add: closing_def cleared_def Let_def)
  qed
qed

lemma steps_csi:
  assumes "current_state s < 14"
  shows "steps [27, 91] s = (closing True (current_state s), cleared 3 (cleared 1 s))"
proof -
  have "entry_at 1 (table_index 91) = (11, 3)"
    unfolding table_index_def entry_at_def state_entries by simp
  then have "steps [91] (cleared 1 s) = ([], cleared 3 (cleared 1 s))"
    using iteration_by_entry [of "cleared 1 s" 91 11 3 "[]"] by (simp add: cleared_def Let_def)
  then show ?thesis using steps_append [of "[27]" "[91]" s] steps_escape [OF assms] by simp
qed

section \<open>Control sequences\<close>

lemma entry_csi_digit: "48 \<le> c \<Longrightarrow> c < 60 \<Longrightarrow> entry_at 3 c = (8, 4)"
  by (auto simp: entry_at_def state_entries simp del: upt_rec_numeral)

lemma entry_prefix: "60 \<le> c \<Longrightarrow> c \<le> 63 \<Longrightarrow> entry_at 3 c = (9, 4)"
  by (simp add: entry_at_def state_entries del: upt_rec_numeral) presburger

lemma entry_mid: "s \<in> {3, 4, 5} \<Longrightarrow> 32 \<le> c \<Longrightarrow> c \<le> 47 \<Longrightarrow> entry_at s c = (9, 5)"
  by (elim insertE emptyE; simp add: entry_at_def state_entries del: upt_rec_numeral)

lemma entry_final: "s \<in> {3, 4, 5} \<Longrightarrow> 64 \<le> c \<Longrightarrow> c \<le> 126 \<Longrightarrow> entry_at s c = (7, 0)"
  by (elim insertE emptyE; simp add: entry_at_def state_entries del: upt_rec_numeral)

lemma steps_mid:
  assumes "\<forall>c\<in>set cs. 32 \<le> c \<and> c \<le> 47" and "current_state s \<in> {3, 4, 5}"
  shows "steps cs s = ([], s\<lparr>current_state := (if cs = [] then current_state s else 5), collected := fold shift_code cs (collected s)\<rparr>)"
  using assms
proof (induction cs arbitrary: s)
  case (Cons c cs)
  have "table_index c = c" using Cons.prems(1) by (simp add: table_index_def)
  moreover have "entry_at (current_state s) c = (9, 5)"
    using Cons.prems by (intro entry_mid) auto
  ultimately have "iteration c [] s = ([], [], s\<lparr>current_state := 5, collected := shift_code c (collected s)\<rparr>)"
    using iteration_by_entry [of s c 9 5 "[]"] by (simp add: Let_def shift_code_def)
  then show ?case using Cons by simp
qed simp

lemma steps_prefix:
  assumes "60 \<le> c" "c \<le> 63" and "current_state s = 3"
  shows "steps [c] s = ([], s\<lparr>current_state := 4, collected := shift_code c (collected s)\<rparr>)"
proof -
  have "entry_at (current_state s) (table_index c) = (9, 4)"
    using entry_prefix [OF assms(1,2)] assms by (simp add: table_index_def)
  then show ?thesis using iteration_by_entry [of s c 9 4 "[]"] by (simp add: Let_def shift_code_def)
qed

lemma steps_numbers:
  assumes "\<forall>c\<in>set cs. in_params c" and "cs \<noteq> []" and "current_state s \<in> {3, 4}"
  shows "steps cs s = ([], s\<lparr>current_state := 4, parser_params := fold param_char cs (parser_params s)\<rparr>)"
proof -
  obtain c ds where cs: "cs = c # ds" using assms(2) by (cases cs) auto
  then have c: "48 \<le> c" "c < 60" using assms(1) by (auto simp: in_params_def)
  have "entry_at (current_state s) (table_index c) = (8, 4)"
    using c assms(3) entry_digit(1) [OF c] entry_csi_digit [OF c] by (auto simp: table_index_def)
  then have "iteration c [] s = ([], [], s\<lparr>current_state := 4, parser_params := param_char c (parser_params s)\<rparr>)"
    using iteration_by_entry [of s c 8 4 "[]"] by (simp add: Let_def)
  then show ?thesis
    using steps_params [of ds "s\<lparr>current_state := 4, parser_params := param_char c (parser_params s)\<rparr>"] assms(1)
    by (simp add: cs)
qed

lemma steps_final:
  assumes "64 \<le> c" "c \<le> 126" and "current_state s \<in> {3, 4, 5}"
  shows "steps [c] s = ([Csi (shift_code c (collected s)) (parser_params s)], s\<lparr>current_state := 0\<rparr>)"
proof -
  have "entry_at (current_state s) (table_index c) = (7, 0)"
    using entry_final [OF assms(3,1,2)] assms(2) by (simp add: table_index_def)
  then show ?thesis using iteration_by_entry [of s c 7 0 "[]"] by (simp add: Let_def shift_code_def)
qed

lemma handler_id_parts:
  assumes "handler_id lo hi pre mid fin = Some i" and "pre \<noteq> [0]"
  shows "pre = [] \<or> (\<exists>c. pre = [c] \<and> 60 \<le> c \<and> c \<le> 63)" and "\<forall>n\<in>set mid. 32 \<le> n \<and> n \<le> 47"
    and "\<exists>f. fin = [f] \<and> lo \<le> f \<and> f \<le> hi \<and> i = shift_code f (fold shift_code (pre @ mid) 0)"
proof -
  have z: "shift_code c 0 = of_nat c" for c by (simp add: shift_code_def)
  note u = assms(1) [unfolded handler_id_def]
  show p: "pre = [] \<or> (\<exists>c. pre = [c] \<and> 60 \<le> c \<and> c \<le> 63)"
    using u assms(2) by (cases pre) (auto split: if_splits)
  show "\<forall>n\<in>set mid. 32 \<le> n \<and> n \<le> 47" using u by (auto split: if_splits)
  have "length fin = 1" using u by (auto split: if_splits)
  then obtain f where f: "fin = [f]" by (cases fin) auto
  have "i = shift_code f (fold shift_code (pre @ mid) 0)" using u f p by (auto simp: z split: if_splits)
  moreover have "lo \<le> f" "f \<le> hi" using u f by (auto split: if_splits)
  ultimately show "\<exists>f. fin = [f] \<and> lo \<le> f \<and> f \<le> hi \<and> i = shift_code f (fold shift_code (pre @ mid) 0)" using f by blast
qed

definition control_sequence :: "nat list \<Rightarrow> nat list \<Rightarrow> nat list \<Rightarrow> nat list \<Rightarrow> nat list" where
  "control_sequence pre ns mid fin = [27, 91] @ pre @ param_text ns @ mid @ fin"

lemma steps_control_sequence:
  assumes id: "handler_id 64 126 pre mid fin = Some i" and pre: "pre \<noteq> [0]" and s: "current_state s < 14"
  shows "\<exists>p t. steps (control_sequence pre ns mid fin) s = (closing True (current_state s) @ [Csi i p], t)
    \<and> current_state t = 0 \<and> subs p = []
    \<and> numbers p = take (max_params (parser_params s)) (if ns = [] then [0] else map (\<lambda>n. clamp (int n)) ns)"
proof -
  note parts = handler_id_parts [OF id pre]
  obtain f where f: "fin = [f]" "64 \<le> f" "f \<le> 126" "i = shift_code f (fold shift_code (pre @ mid) 0)" using parts(3) by blast
  define s1 where "s1 = cleared 3 (cleared 1 s)"
  let ?m = "max_params (parser_params s)"
  have mp: "max_params (clear_params p) = max_params p" for p using holds_clear [of p] by (simp add: holds_values_def)
  have s1: "current_state s1 = 3" "collected s1 = 0" "holds_values ?m [0] (parser_params s1)"
    using holds_clear [of "clear_params (parser_params s)"] by (simp_all add: s1_def cleared_def mp)
  define s2 where "s2 = s1\<lparr>current_state := (if pre = [] then 3 else 4), collected := fold shift_code pre 0\<rparr>"
  have 2: "steps pre s1 = ([], s2)" using parts(1) steps_prefix [of _ s1] s1(1,2) by (auto simp: s2_def)
  define s3 where "s3 = s2\<lparr>current_state := (if param_text ns = [] then current_state s2 else 4),
    parser_params := fold param_char (param_text ns) (parser_params s2)\<rparr>"
  have 3: "steps (param_text ns) s2 = ([], s3)"
  proof (cases "param_text ns = []")
    case False
    have "\<forall>c\<in>set (param_text ns). in_params c" using param_text_codes by blast
    from steps_numbers [OF this False, of s2] show ?thesis using False by (simp add: s3_def s2_def)
  qed (simp add: s3_def)
  define s4 where "s4 = s3\<lparr>current_state := (if mid = [] then current_state s3 else 5), collected := fold shift_code mid (collected s3)\<rparr>"
  have 4: "steps mid s3 = ([], s4)" unfolding s4_def by (rule steps_mid [OF parts(2)]) (auto simp: s3_def s2_def)
  have c4: "collected s4 = fold shift_code (pre @ mid) 0" "parser_params s4 = parser_params s3"
    by (simp_all add: s4_def s3_def s2_def)
  have 5: "steps fin s4 = ([Csi i (parser_params s3)], s4\<lparr>current_state := 0\<rparr>)"
    unfolding f(1) using steps_final [OF f(2,3), of s4] by (simp add: c4 f(4)) (auto simp: s4_def s3_def s2_def)
  have "holds_values ?m (if ns = [] then [0] else map (\<lambda>n. clamp (int n)) ns) (parser_params s3)"
    using s1(3) holds_text [of ns ?m "[]" "parser_params s1"] by (simp add: s3_def s2_def)
  moreover have "steps (control_sequence pre ns mid fin) s
      = (closing True (current_state s) @ [Csi i (parser_params s3)], s4\<lparr>current_state := 0\<rparr>)"
    unfolding control_sequence_def
    by (subst steps_append, simp only: steps_csi [OF s] s1_def [symmetric], simp add: steps_append 2 3 4 5)
  ultimately show ?thesis by (auto simp: holds_values_def)
qed

text \<open>
  C4. A control sequence reaches the handler registered for it, with its numbers: whatever the parser was doing, it
  gives the identifier that \<open>_identifier\<close> makes of the same prefix, intermediates and final byte, and the numbers
  as written, clamped to 31 bits, those beyond the 32 the parser keeps dropped; no number counts as one 0. A string that was
  open is closed first, and afterwards the parser reads text.
\<close>

theorem control_sequence_dispatched:
  assumes "handler_id 64 126 pre mid fin = Some i" and "pre \<noteq> [0]" and "current_state s < 14"
  shows "\<exists>es p t. parse (control_sequence pre ns mid fin) s = (es, t)
    \<and> spelled es = closing True (current_state s) @ [Csi i p] \<and> current_state t = 0 \<and> subs p = []
    \<and> numbers p = take (max_params (parser_params s)) (if ns = [] then [0] else map (\<lambda>n. clamp (int n)) ns)"
proof -
  obtain f where "fin = [f]" "f \<le> 126" using handler_id_parts(3) [OF assms(1,2)] by blast
  moreover have "127 \<notin> set pre" "127 \<notin> set mid" using handler_id_parts(1,2) [OF assms(1,2)] by auto
  moreover have "127 \<notin> set (param_text ns)" using param_text_codes [of 127 ns] by (auto simp: in_params_def)
  ultimately have "127 \<notin> set (control_sequence pre ns mid fin)" by (auto simp: control_sequence_def)
  from parse_steps [OF this, of s] show ?thesis
    using steps_control_sequence [OF assms, of ns]
    by (cases "parse (control_sequence pre ns mid fin) s") auto
qed

theorem control_sequence_dispatched_witness:
  "\<exists>es p t. parse [27, 91, 63, 49, 48, 52, 57, 104] new_parser = (es, t) \<and> spelled es = [Csi 16232 p]
     \<and> current_state t = 0 \<and> subs p = [] \<and> numbers p = [1049]"
proof -
  have i: "handler_id 64 126 [63] [] [104] = Some 16232" by code_simp
  have "control_sequence [63] [1049] [] [104] = [27, 91, 63, 49, 48, 52, 57, 104]" by code_simp
  moreover have "max_params (parser_params new_parser) = 32" "current_state new_parser = 0" by code_simp+
  ultimately show ?thesis
    using control_sequence_dispatched [OF i, of new_parser "[1049]"] by (simp add: closing_def clamp_def)
qed

section \<open>Cancelling, and text\<close>

lemma parse_text:
  assumes "\<forall>c\<in>set cs. in_text c" and "cs \<noteq> []" and "current_state s = 0"
  shows "parse cs s = ([Print cs], s)"
proof -
  obtain c ds where cs: "cs = c # ds" using assms(2) by (cases cs) auto
  have "entry_at (current_state s) (table_index c) = (2, 0)" using text_entry [of c] assms(1,3) cs by simp
  moreover have "takeWhile in_text ds = ds" "dropWhile in_text ds = []" using assms(1) cs by simp_all
  ultimately have "iteration c ds s = ([Print cs], [], s)"
    using iteration_by_entry [of s c 2 0 ds] assms(3) cs by simp
  then show ?thesis by (simp add: cs)
qed

text \<open>
  The codes 24 and 26 end whatever the parser is in the middle of, in every state; a string that was open is
  given up, and text that follows is printed, in one piece and as it is.
\<close>

theorem cancel_resynchronises:
  assumes "current_state s < 14" and "c = 24 \<or> c = 26" and "\<forall>c\<in>set cs. in_text c" and "cs \<noteq> []"
  shows "\<exists>t. parse (c # cs) s
      = ((if current_state s = 8 \<or> current_state s = 13 then closing False (current_state s) else [Execute c]) @ [Print cs], t)
    \<and> current_state t = 0"
proof -
  have e: "entry_at (current_state s) (table_index c)
      = (if current_state s = 8 then (6, 0) else if current_state s = 13 then (14, 0) else (3, 0))"
    using entry_cancel [OF assms(1,2)] assms(2) by (auto simp: table_index_def)
  have "\<exists>t. iteration c cs s
      = (if current_state s = 8 \<or> current_state s = 13 then closing False (current_state s) else [Execute c], cs, t)
    \<and> current_state t = 0"
    using iteration_by_entry [OF e [THEN trans], of _ _ cs] assms(2) by (auto simp: closing_def Let_def)
  then show ?thesis using parse_text [OF assms(3,4)] by auto
qed

theorem cancel_resynchronises_witness:
  "\<exists>t. parse [24, 72, 105] (new_parser\<lparr>current_state := 8\<rparr>) = ([Osc_end False, Print [72, 105]], t) \<and> current_state t = 0"
  using cancel_resynchronises [of "new_parser\<lparr>current_state := 8\<rparr>" 24 "[72, 105]"]
  by (simp add: in_text_def closing_def)

text \<open>
  What a device control string holds depends on how it is cut: the code 127 inside a run is handed to the string's
  handler, at the start of a chunk it is ignored, as the table says.
\<close>

theorem delete_code_in_device_string:
  assumes "current_state s = 13" and "\<forall>c\<in>set (xs @ ys). in_dcs c \<and> c \<noteq> 127" and "xs \<noteq> []" and "ys \<noteq> []"
  shows "parse (xs @ 127 # ys) s = ([Put (xs @ 127 # ys)], s)
    \<and> parse_all [xs, 127 # ys] s = ([Put xs, Put ys], s)
    \<and> spelled [Put xs, Put ys] \<noteq> spelled [Put (xs @ 127 # ys)]"
proof -
  have run: "parse (c # cs) s = ([Put (c # cs)], s)" if "in_dcs c" "c \<noteq> 127" "\<forall>d\<in>set cs. in_dcs d" for c cs
  proof -
    have "entry_at (current_state s) (table_index c) = (13, 13)" using dcs_entry [OF that(1,2)] assms(1) by simp
    moreover have "takeWhile in_dcs cs = cs" "dropWhile in_dcs cs = []" using that(3) by simp_all
    ultimately have "iteration c cs s = ([Put (c # cs)], [], s)"
      using iteration_by_entry [of s c 13 13 cs] assms(1) by simp
    then show ?thesis by simp
  qed
  have "entry_at 13 127 = (0, 13)" unfolding entry_at_def state_entries by (simp del: upt_rec_numeral)
  then have del: "iteration 127 r s = ([], r, s)" for r
    using iteration_by_entry [of s 127 0 13 r] assms(1) by (simp add: table_index_def)
  obtain x xs' where xs: "xs = x # xs'" using assms(3) by (cases xs) auto
  obtain y ys' where ys: "ys = y # ys'" using assms(4) by (cases ys) auto
  have "in_dcs 127" by (simp add: in_dcs_def)
  then have "parse (xs @ 127 # ys) s = ([Put (xs @ 127 # ys)], s)" using run [of x "xs' @ 127 # ys"] assms(2) xs by simp
  moreover have "parse xs s = ([Put xs], s)" "parse ys s = ([Put ys], s)"
    using run [of x xs'] run [of y ys'] assms(2) xs ys by simp_all
  ultimately show ?thesis using del by simp
qed

theorem delete_code_in_device_string_witness:
  "parse [49, 127, 50] (new_parser\<lparr>current_state := 13\<rparr>) = ([Put [49, 127, 50]], new_parser\<lparr>current_state := 13\<rparr>)
   \<and> parse_all [[49], [127, 50]] (new_parser\<lparr>current_state := 13\<rparr>) = ([Put [49], Put [50]], new_parser\<lparr>current_state := 13\<rparr>)"
  using delete_code_in_device_string [of "new_parser\<lparr>current_state := 13\<rparr>" "[49]" "[50]"] by (simp add: in_dcs_def)

end
