(* ===== verification/XtermStrings.thy ===== *)
theory XtermStrings
  imports XtermSequences XtermText
begin

text \<open>
  Operating system strings in \<open>src/html/xterm.js\<close>: the classes \<open>OscParser\<close>, which reads the number at the start and
  hands the rest to the handlers registered under it, and \<open>OscHandler\<close>, which collects it; and the way of such a
  string from the parser of escape sequences to its handlers.
\<close>

section \<open>OscHandler\<close>

record osc_handler =
  osc_data :: "u16 list"
  hit_limit :: bool

definition PAYLOAD_LIMIT :: nat where
  "PAYLOAD_LIMIT = 10000000"

definition idle_handler :: osc_handler where
  "idle_handler = \<lparr>osc_data = [], hit_limit = False\<rparr>"

definition handler_put :: "nat list \<Rightarrow> osc_handler \<Rightarrow> osc_handler" where
  "handler_put e h =
     (if hit_limit h then h
      else
        (let h = h\<lparr>osc_data := osc_data h @ utf32ToString e\<rparr>
         in if PAYLOAD_LIMIT < length (osc_data h) then h\<lparr>osc_data := [], hit_limit := True\<rparr> else h))"

section \<open>OscParser\<close>

text \<open>
  The states are 0 (no string), 1 (its number), 2 (its text), 3 (given up). The calls are those of a handler's function
  with what was collected, by the number and the place of the handler, and those of the fallback.
\<close>

datatype osc_call =
    Called int nat "u16 list"
  | Fallback_start int | Fallback_put int "u16 list" | Fallback_end int bool

record osc_parser =
  osc_state :: nat
  osc_id :: int
  osc_handlers :: "int \<Rightarrow> osc_handler list option"
  osc_calls :: "osc_call list"

definition osc_call :: "osc_call list \<Rightarrow> osc_parser \<Rightarrow> osc_parser" where
  "osc_call c p = p\<lparr>osc_calls := osc_calls p @ c\<rparr>"

definition set_handlers :: "osc_handler list \<Rightarrow> osc_parser \<Rightarrow> osc_parser" where
  "set_handlers hs p = p\<lparr>osc_handlers := (osc_handlers p)(osc_id p := Some hs)\<rparr>"

text \<open>\<open>_start\<close> and \<open>_put\<close>.\<close>

definition osc_begin :: "osc_parser \<Rightarrow> osc_parser" where
  "osc_begin p =
     (case osc_handlers p (osc_id p) of
        Some hs \<Rightarrow> set_handlers (map (\<lambda>_. idle_handler) hs) p
      | None \<Rightarrow> osc_call [Fallback_start (osc_id p)] p)"

definition osc_collect :: "nat list \<Rightarrow> osc_parser \<Rightarrow> osc_parser" where
  "osc_collect e p =
     (case osc_handlers p (osc_id p) of
        Some hs \<Rightarrow> set_handlers (map (handler_put e) hs) p
      | None \<Rightarrow> osc_call [Fallback_put (osc_id p) (utf32ToString e)] p)"

text \<open>
  \<open>_end\<close>: the handlers, the last one first, are given what they collected until one does not return false, which
  \<open>returns_true\<close> tells; the others only clear what they have, as all do when the string was cancelled. One that hit
  the limit counts as returning false.
\<close>

fun end_calls :: "(int \<Rightarrow> nat \<Rightarrow> u16 list \<Rightarrow> bool) \<Rightarrow> int \<Rightarrow> (nat \<times> osc_handler) list \<Rightarrow> osc_call list" where
  "end_calls returns_true i [] = []"
| "end_calls returns_true i ((r, h) # hs) =
     (if hit_limit h then end_calls returns_true i hs
      else Called i r (osc_data h) # (if returns_true i r (osc_data h) then [] else end_calls returns_true i hs))"

definition osc_finish :: "(int \<Rightarrow> nat \<Rightarrow> u16 list \<Rightarrow> bool) \<Rightarrow> bool \<Rightarrow> osc_parser \<Rightarrow> osc_parser" where
  "osc_finish returns_true e p =
     (case osc_handlers p (osc_id p) of
        Some hs \<Rightarrow>
          osc_call (if e then end_calls returns_true (osc_id p) (rev (zip [0..<length hs] hs)) else [])
            (set_handlers (map (\<lambda>_. idle_handler) hs) p)
      | None \<Rightarrow> osc_call [Fallback_end (osc_id p) e] p)"

definition osc_end :: "(int \<Rightarrow> nat \<Rightarrow> u16 list \<Rightarrow> bool) \<Rightarrow> bool \<Rightarrow> osc_parser \<Rightarrow> osc_parser" where
  "osc_end returns_true e p =
     (if osc_state p = 0 then p
      else
        (let p = (if osc_state p = 3 then p else osc_finish returns_true e (if osc_state p = 1 then osc_begin p else p))
         in p\<lparr>osc_id := -1, osc_state := 0\<rparr>))"

definition osc_reset :: "(int \<Rightarrow> nat \<Rightarrow> u16 list \<Rightarrow> bool) \<Rightarrow> osc_parser \<Rightarrow> osc_parser" where
  "osc_reset returns_true p =
     (let p = (if osc_state p = 2 then osc_end returns_true False p else p) in p\<lparr>osc_id := -1, osc_state := 0\<rparr>)"

definition osc_start :: "(int \<Rightarrow> nat \<Rightarrow> u16 list \<Rightarrow> bool) \<Rightarrow> osc_parser \<Rightarrow> osc_parser" where
  "osc_start returns_true p = (osc_reset returns_true p)\<lparr>osc_id := -1, osc_state := 1\<rparr>"

text \<open>\<open>put\<close>: the number up to the semicolon, then the text.\<close>

fun put_number :: "nat list \<Rightarrow> osc_parser \<Rightarrow> nat list \<times> osc_parser" where
  "put_number [] p = ([], p)"
| "put_number (i # e) p =
     (if i = 59 then (e, osc_begin (p\<lparr>osc_state := 2\<rparr>))
      else if i < 48 \<or> 57 < i then ([], p\<lparr>osc_state := 3\<rparr>)
      else put_number e (p\<lparr>osc_id := 10 * (if osc_id p = -1 then 0 else osc_id p) + int i - 48\<rparr>))"

definition osc_put :: "nat list \<Rightarrow> osc_parser \<Rightarrow> osc_parser" where
  "osc_put e p =
     (if osc_state p = 3 then p
      else
        (let (e, p) = (if osc_state p = 1 then put_number e p else (e, p))
         in if osc_state p = 2 \<and> e \<noteq> [] then osc_collect e p else p))"

text \<open>What the parser of escape sequences calls.\<close>

fun osc_step :: "(int \<Rightarrow> nat \<Rightarrow> u16 list \<Rightarrow> bool) \<Rightarrow> event \<Rightarrow> osc_parser \<Rightarrow> osc_parser" where
  "osc_step returns_true Osc_start p = osc_start returns_true p"
| "osc_step returns_true (Osc_put e) p = osc_put e p"
| "osc_step returns_true (Osc_end ok) p = osc_end returns_true ok p"
| "osc_step returns_true _ p = p"

section \<open>Runs\<close>

lemma handler_put_append: "handler_put (a @ b) = handler_put b \<circ> handler_put a"
  by (simp add: handler_put_def Let_def fun_eq_iff)

lemma osc_simps [simp]:
  "osc_state (osc_begin p) = osc_state p" "osc_id (osc_begin p) = osc_id p"
  "osc_state (osc_collect e p) = osc_state p" "osc_id (osc_collect e p) = osc_id p"
  by (auto simp: osc_begin_def osc_collect_def set_handlers_def osc_call_def split: option.splits)

lemma begin_handled: "osc_handlers p i \<noteq> None \<Longrightarrow> osc_handlers (osc_begin p) i \<noteq> None"
  by (auto simp: osc_begin_def set_handlers_def osc_call_def split: option.splits)

lemma collect_append:
  "osc_handlers p (osc_id p) \<noteq> None \<Longrightarrow> osc_collect (a @ b) p = osc_collect b (osc_collect a p)"
  by (auto simp: osc_collect_def set_handlers_def handler_put_append)

lemma put_in_text: "osc_state p = 2 \<Longrightarrow> osc_put e p = (if e = [] then p else osc_collect e p)"
  by (simp add: osc_put_def)

lemma put_in_number:
  "osc_state p = 1 \<Longrightarrow> osc_put [] p = p"
  "osc_state p = 1 \<Longrightarrow> osc_put (i # e) p =
     (if i = 59 then osc_put e (osc_begin (p\<lparr>osc_state := 2\<rparr>))
      else if i < 48 \<or> 57 < i then p\<lparr>osc_state := 3\<rparr>
      else osc_put e (p\<lparr>osc_id := 10 * (if osc_id p = -1 then 0 else osc_id p) + int i - 48\<rparr>))"
  by (auto simp: osc_put_def split: prod.splits)

lemma put_append:
  assumes "osc_state (osc_put (a @ b) p) = 2 \<Longrightarrow> osc_handlers p (osc_id (osc_put (a @ b) p)) \<noteq> None"
    and "osc_state p \<in> {1, 2, 3}"
  shows "osc_put (a @ b) p = osc_put b (osc_put a p)"
proof -
  have direct: "osc_put (a @ b) p = osc_put b (osc_put a p)" if "osc_state p = 2" "osc_handlers p (osc_id p) \<noteq> None" for a p
    using that collect_append [OF that(2), of a b] by (cases "a = []"; cases "b = []") (simp_all add: put_in_text)
  consider "osc_state p = 1" | "osc_state p = 2" | "osc_state p = 3" using assms(2) by auto
  then show ?thesis
  proof cases
    case 1
    then show ?thesis using assms(1)
    proof (induction a arbitrary: p)
      case (Cons i a)
      let ?p = "osc_begin (p\<lparr>osc_state := 2\<rparr>)"
      show ?case
      proof (cases "i = 59")
        case True
        have "osc_put ((i # a) @ b) p = osc_put (a @ b) ?p" using True Cons.prems(1) by (simp add: put_in_number(2))
        moreover have "osc_state (osc_put (a @ b) ?p) = 2" "osc_id (osc_put (a @ b) ?p) = osc_id p"
          by (simp_all add: put_in_text)
        ultimately have "osc_handlers p (osc_id p) \<noteq> None" using Cons.prems(2) by simp
        then have h: "osc_handlers ?p (osc_id ?p) \<noteq> None" using begin_handled [of "p\<lparr>osc_state := 2\<rparr>"] by simp
        show ?thesis using True Cons.prems(1) direct [OF _ h, of a] by (simp add: put_in_number(2))
      next
        case False
        then show ?thesis using Cons by (auto simp: put_in_number(2) osc_put_def [of b "p\<lparr>osc_state := 3\<rparr>"])
      qed
    qed (simp add: put_in_number(1))
  next
    case 2
    then have "osc_state (osc_put (a @ b) p) = 2" "osc_id (osc_put (a @ b) p) = osc_id p" by (simp_all add: put_in_text)
    then show ?thesis using direct [OF 2] assms(1) by simp
  next
    case 3
    then show ?thesis by (simp add: osc_put_def)
  qed
qed

section \<open>From the parser to the handlers\<close>

lemma put_nothing [simp]: "osc_put [] p = p"
  by (simp add: osc_put_def)

lemma put_number_state: "osc_state p = 1 \<Longrightarrow> osc_state (snd (put_number e p)) \<in> {1, 2, 3}"
  by (induction e p rule: put_number.induct) auto

lemma put_number_handled: "osc_handlers p i \<noteq> None \<Longrightarrow> osc_handlers (snd (put_number e p)) i \<noteq> None"
  by (induction e p rule: put_number.induct) (simp_all add: begin_handled del: not_None_eq)

lemma put_handled: "osc_handlers p i \<noteq> None \<Longrightarrow> osc_handlers (osc_put e p) i \<noteq> None"
proof -
  assume h: "osc_handlers p i \<noteq> None"
  have c: "osc_handlers (osc_collect f q) i \<noteq> None" if "osc_handlers q i \<noteq> None" for f q
    using that by (auto simp: osc_collect_def set_handlers_def osc_call_def split: option.splits)
  obtain f q where q: "(if osc_state p = 1 then put_number e p else (e, p)) = (f, q)" by fastforce
  then have "osc_handlers q i \<noteq> None" using h put_number_handled [OF h, of e] by (cases "osc_state p = 1") auto
  then have "osc_handlers (if osc_state q = 2 \<and> f \<noteq> [] then osc_collect f q else q) i \<noteq> None" using c by simp
  then show ?thesis using h q by (simp add: osc_put_def del: not_None_eq)
qed

lemma put_state: "osc_state p \<in> {1, 2, 3} \<Longrightarrow> osc_state (osc_put e p) \<in> {1, 2, 3}"
  using put_number_state [of p e] by (auto simp: osc_put_def split: prod.splits)

lemma spelled_nothing: "spelled es = [] \<Longrightarrow> fold (osc_step rt) es p = p"
proof (induction es)
  case (Cons e es)
  then have "osc_step rt e p = p" by (cases e) auto
  then show ?case using Cons by simp
qed simp

text \<open>However the text of a string is cut into runs, it ends with the same calls.\<close>

lemma fold_runs:
  "spelled es = map (\<lambda>c. Osc_put [c]) e @ [Osc_end b] \<Longrightarrow> osc_state p \<in> {1, 2, 3} \<Longrightarrow>
     (osc_state (osc_put e p) = 2 \<Longrightarrow> osc_handlers p (osc_id (osc_put e p)) \<noteq> None) \<Longrightarrow>
     fold (osc_step rt) es p = osc_end rt b (osc_put e p)"
proof (induction es arbitrary: e p)
  case (Cons x es)
  show ?case
  proof (cases x)
    case (Osc_put f)
    define k where "k = length f"
    have "map (\<lambda>c. Osc_put [c]) f = take k (spelled (x # es))" by (simp add: Osc_put k_def)
    also have "\<dots> = map (\<lambda>c. Osc_put [c]) (take k e) @ take (k - length e) [Osc_end b]"
      unfolding Cons.prems(1) by (simp add: take_map)
    finally have "map (\<lambda>c. Osc_put [c]) f = map (\<lambda>c. Osc_put [c]) (take k e)"
      by (cases "k - length e") (auto simp: map_eq_append_conv)
    moreover have "inj (\<lambda>c. Osc_put [c])" by (simp add: inj_def)
    ultimately have "f = take k e" by (simp only: inj_map_eq_map)
    then have e: "e = f @ drop k e" by (metis append_take_drop_id)
    have "spelled es = map (\<lambda>c. Osc_put [c]) (drop k e) @ [Osc_end b]"
      using Cons.prems(1) by (subst (asm) e) (simp add: Osc_put)
    moreover have p: "osc_put e p = osc_put (drop k e) (osc_put f p)"
      using put_append [of f "drop k e" p] Cons.prems(2,3) by (simp flip: e)
    ultimately have "fold (osc_step rt) es (osc_put f p) = osc_end rt b (osc_put (drop k e) (osc_put f p))"
      using Cons.IH [of "drop k e" "osc_put f p"] put_state [OF Cons.prems(2)] put_handled Cons.prems(3) by simp
    then show ?thesis using p by (simp add: Osc_put)
  next
    case (Osc_end c)
    then have "e = [] \<and> c = b \<and> spelled es = []" using Cons.prems(1) by (cases e) auto
    then show ?thesis using Osc_end spelled_nothing [of es] by simp
  next
    case (Print f)
    then have "f = []" using Cons.prems(1) by (cases f; cases e) auto
    then show ?thesis using Print Cons by simp
  next
    case (Put f)
    then have "f = []" using Cons.prems(1) by (cases f; cases e) auto
    then show ?thesis using Put Cons by simp
  qed (use Cons.prems(1) in \<open>cases e; auto\<close>)+
qed simp

lemma spelled_first:
  "spelled es = x # r \<Longrightarrow> (\<forall>c. x \<noteq> Print c \<and> x \<noteq> Put c \<and> x \<noteq> Osc_put c) \<Longrightarrow>
     \<exists>fs. spelled fs = r \<and> (\<forall>p. fold (osc_step rt) es p = fold (osc_step rt) fs (osc_step rt x p))"
proof (induction es)
  case (Cons e es)
  show ?case
  proof (cases "letters e = []")
    case True
    then have "osc_step rt e p = p" for p by (cases e) auto
    then show ?thesis using Cons True by simp
  next
    case False
    then have "e = x \<and> spelled es = r" using Cons.prems by (cases e) (auto simp: neq_Nil_conv)
    then show ?thesis by auto
  qed
qed simp

lemma put_decimal:
  "osc_state p = 1 \<Longrightarrow> osc_id p = -1 \<Longrightarrow> osc_put (decimal n @ e) p = osc_put e (p\<lparr>osc_id := int n\<rparr>)"
proof (induction n arbitrary: e rule: decimal.induct)
  case (1 n)
  show ?case
  proof (cases "n < 10")
    case True
    then show ?thesis using 1(2,3) by (subst decimal.simps) (simp add: put_in_number(2))
  next
    case False
    have "10 * (n div 10) + n mod 10 = n" "n mod 10 < 10" by simp_all
    then have "10 * int (n div 10) + int (n mod 10) = int n" "n mod 10 < 10" by linarith+
    then show ?thesis using 1 False by (subst decimal.simps) (simp add: put_in_number(2))
  qed
qed

text \<open>The string with the number \<open>n\<close> and the text \<open>e\<close>, ended by the code 7.\<close>

definition osc_string :: "nat \<Rightarrow> nat list \<Rightarrow> nat list" where
  "osc_string n e = [27, 93] @ (decimal n @ 59 # e) @ [7]"

lemma steps_osc_string:
  assumes "current_state s < 14" and "current_state s \<noteq> 8" and e: "\<forall>c\<in>set e. in_osc c"
  shows "fst (steps (osc_string n e) s)
    = closing True (current_state s) @ Osc_start # map (\<lambda>c. Osc_put [c]) (decimal n @ 59 # e) @ [Osc_end True]"
proof -
  define t where "t = cleared 1 s\<lparr>current_state := 8\<rparr>"
  have t: "current_state t = 8" by (simp add: t_def)
  have "entry_at 1 (table_index 93) = (4, 8)" "entry_at 8 (table_index 7) = (6, 0)"
    unfolding table_index_def entry_at_def state_entries by simp_all
  then have 1: "steps [93] (cleared 1 s) = ([Osc_start], t)" and 3: "fst (steps [7] t) = [Osc_end True]"
    using iteration_by_entry [of "cleared 1 s" 93 4 8 "[]"] iteration_by_entry [of t 7 6 0 "[]"] t
    by (simp_all add: t_def cleared_def)
  have "in_osc c" if "c \<in> set (decimal n @ 59 # e)" for c
    using that e decimal_codes [of c n] by (auto simp: in_osc_def in_params_def)
  then have 2: "steps (decimal n @ 59 # e) t = (map (\<lambda>c. Osc_put [c]) (decimal n @ 59 # e), t)"
    by (intro steps_run [where n = 5]) (simp_all only: t osc_entry, simp_all)
  define x where "x = decimal n @ 59 # e"
  define r where "r = map (\<lambda>c. Osc_put [c]) x"
  obtain u where 7: "steps [7] t = ([Osc_end True], u)" using 3 by (cases "steps [7] t") simp
  have "steps (x @ [7]) t = (r @ [Osc_end True], u)"
    by (simp only: steps_append [of x "[7]"] 2 [folded x_def, folded r_def] 7 Let_def prod.case)
  then have "steps ([93] @ x @ [7]) (cleared 1 s) = ([Osc_start] @ r @ [Osc_end True], u)"
    using steps_append [of "[93]" "x @ [7]" "cleared 1 s"] unfolding 1 by (simp only: Let_def prod.case)
  then have "steps ([27] @ [93] @ x @ [7]) s = (closing True (current_state s) @ [Osc_start] @ r @ [Osc_end True], u)"
    using steps_append [of "[27]" "[93] @ x @ [7]" s] unfolding steps_escape [OF assms(1)] by (simp only: Let_def prod.case)
  then have "fst (steps (osc_string n e) s) = closing True (current_state s) @ [Osc_start] @ r @ [Osc_end True]"
    unfolding osc_string_def x_def by (simp only: fst_conv append_Cons append_Nil)
  then show ?thesis unfolding r_def x_def by (simp only: append_Cons append_Nil)
qed

text \<open>The events of such a string, in whatever chunks it comes: it is started, read in runs, and ended.\<close>

lemma osc_events:
  assumes "concat cs = osc_string n e" and e: "\<forall>c\<in>set e. in_osc c \<and> c \<noteq> 127"
    and s: "current_state s < 14" "current_state s \<noteq> 8"
  shows "\<exists>es. spelled es = map (\<lambda>c. Osc_put [c]) (decimal n @ 59 # e) @ [Osc_end True]
    \<and> (\<forall>p. fold (osc_step rt) (fst (parse_all cs s)) p = fold (osc_step rt) es (osc_start rt p))"
proof -
  let ?r = "Osc_start # map (\<lambda>c. Osc_put [c]) (decimal n @ 59 # e) @ [Osc_end True]"
  have no127: "127 \<notin> set (concat cs)"
    using assms(1) e decimal_codes [of 127 n] by (auto simp: osc_string_def)
  have "apfst spelled (parse_all cs s) = steps (osc_string n e) s"
    using parse_all_steps [OF no127, of s] by (simp only: assms(1))
  then have "spelled (fst (parse_all cs s)) = fst (steps (osc_string n e) s)" by (metis fst_apfst)
  then have sp: "spelled (fst (parse_all cs s)) = closing True (current_state s) @ ?r"
    using steps_osc_string [OF s, of e n] e by simp
  obtain fs where fs: "spelled fs = ?r" "\<forall>p. fold (osc_step rt) (fst (parse_all cs s)) p = fold (osc_step rt) fs p"
  proof (cases "current_state s = 13")
    case True
    then show ?thesis using spelled_first [of _ "Unhook True"] sp that by (force simp: closing_def)
  next
    case False
    then show ?thesis using sp s(2) that by (simp add: closing_def)
  qed
  then show ?thesis using spelled_first [OF fs(1), of rt] by force
qed

text \<open>
  C26. A string for the system, such as a title, reaches its handlers: whatever the chunks in which it comes, the handlers
  registered under its number, the newest first, are called with exactly its text until one accepts it, every one
  once at most; the others are not called, and the parser of strings is idle again. (Strings that BEL ends, with texts up
  to the limit of ten million code units and without the code 127.)
\<close>

theorem osc_string_handled:
  assumes "concat cs = osc_string n e" and "\<forall>c\<in>set e. in_osc c \<and> c \<noteq> 127" and "length (utf32ToString e) \<le> PAYLOAD_LIMIT"
    and "current_state s < 14" and "current_state s \<noteq> 8" and "osc_state p = 0" and "osc_handlers p (int n) = Some hs"
  shows "let q = fold (osc_step returns_true) (fst (parse_all cs s)) p
    in osc_state q = 0 \<and> osc_calls q = osc_calls p
      @ end_calls returns_true (int n) (rev (zip [0..<length hs] (map (\<lambda>_. \<lparr>osc_data = utf32ToString e, hit_limit = False\<rparr>) hs)))"
proof -
  let ?e = "decimal n @ 59 # e"
  define p1 where "p1 = osc_start returns_true p"
  have p1: "osc_state p1 = 1" "osc_id p1 = -1" "osc_handlers p1 = osc_handlers p" "osc_calls p1 = osc_calls p"
    using assms(6) by (simp_all add: p1_def osc_start_def osc_reset_def)
  define p2 where "p2 = osc_begin (p1\<lparr>osc_id := int n, osc_state := 2\<rparr>)"
  have put: "osc_put ?e p1 = osc_put e p2"
    using put_decimal [OF p1(1,2), of n "59 # e"] by (simp add: put_in_number(2) p1(1) p2_def)
  have p2: "osc_state p2 = 2" "osc_id p2 = int n" "osc_handlers p2 (int n) = Some (map (\<lambda>_. idle_handler) hs)"
    "osc_calls p2 = osc_calls p"
    using assms(7) p1 by (simp_all add: p2_def osc_begin_def set_handlers_def)
  have "handler_put e idle_handler = \<lparr>osc_data = utf32ToString e, hit_limit = False\<rparr>"
    using assms(3) by (simp add: handler_put_def idle_handler_def Let_def)
  then have p3: "osc_state (osc_put e p2) = 2" "osc_id (osc_put e p2) = int n" "osc_calls (osc_put e p2) = osc_calls p"
    "osc_handlers (osc_put e p2) (int n) = Some (map (\<lambda>_. \<lparr>osc_data = utf32ToString e, hit_limit = False\<rparr>) hs)"
    using p2 by (simp_all add: put_in_text osc_collect_def set_handlers_def comp_def) (simp add: idle_handler_def)
  obtain es where es: "spelled es = map (\<lambda>c. Osc_put [c]) ?e @ [Osc_end True]"
    "fold (osc_step returns_true) (fst (parse_all cs s)) p = fold (osc_step returns_true) es p1"
    using osc_events [OF assms(1) _ assms(4,5)] assms(2) unfolding p1_def by blast
  have "fold (osc_step returns_true) es p1 = osc_end returns_true True (osc_put ?e p1)"
    by (rule fold_runs [OF es(1)]) (use p1(1,3) p3 assms(7) in \<open>simp_all add: put\<close>)
  then show ?thesis
    using p3 unfolding es(2) put by (simp add: osc_end_def Let_def osc_finish_def osc_call_def set_handlers_def)
qed

text \<open>The title \<open>Hi\<close> for the handlers under 2, of which the newest does not accept it, in two chunks.\<close>

theorem osc_string_handled_witness:
  "(let p = \<lparr>osc_state = 0, osc_id = -1, osc_handlers = [2 \<mapsto> [idle_handler, idle_handler]], osc_calls = []\<rparr>
    in osc_calls (fold (osc_step (\<lambda>_ k _. k = 0)) (fst (parse_all [[27, 93, 50, 59, 72], [105, 7]] new_parser)) p)
       = [Called 2 1 [72, 105], Called 2 0 [72, 105]])"
proof -
  define p where "p = \<lparr>osc_state = 0, osc_id = -1, osc_handlers = [2 \<mapsto> [idle_handler, idle_handler]], osc_calls = []\<rparr>"
  have c: "concat [[27, 93, 50, 59, 72], [105, 7]] = osc_string 2 [72, 105]"
    by (simp add: osc_string_def decimal.simps)
  have s: "current_state new_parser < 14" "current_state new_parser \<noteq> 8" by (simp_all add: new_parser_def)
  have p: "osc_state p = 0" "osc_calls p = []" "osc_handlers p (int 2) = Some [idle_handler, idle_handler]"
    by (simp_all add: p_def)
  have e: "\<forall>c\<in>set [72, 105]. in_osc c \<and> c \<noteq> 127" "utf32ToString [72, 105] = [72, 105]"
    by (simp_all add: in_osc_def)
  show ?thesis
    using osc_string_handled [OF c e(1) _ s p(1,3), of "\<lambda>_ k _. k = 0"]
    unfolding p_def [symmetric] Let_def by (simp add: e(2) p(2) PAYLOAD_LIMIT_def)
qed

end
