(* ===== verification/XtermLists.thy ===== *)
theory XtermLists
  imports Prelude
begin

text \<open>
  The list of lines of the terminal in \<open>src/html/xterm.js\<close>: the class \<open>CircularList\<close> over an array that
  is used as a ring, and \<open>Terminal.scroll\<close>, which works on it.
\<close>

section \<open>CircularList\<close>

text \<open>
  The members; a place of the array that was never written is \<open>undefined\<close> (\<open>None\<close>). \<open>trims\<close> are the
  numbers fired to \<open>onTrim\<close>.
\<close>

record 'a clist =
  max_length :: nat
  cells :: "nat \<Rightarrow> 'a option"
  start_index :: nat
  len :: nat
  trims :: "nat list"

definition new_clist :: "nat \<Rightarrow> 'a clist" where
  "new_clist m = \<lparr>max_length = m, cells = (\<lambda>_. None), start_index = 0, len = 0, trims = []\<rparr>"

definition cyclic_index :: "'a clist \<Rightarrow> nat \<Rightarrow> nat" where
  "cyclic_index c i = (start_index c + i) mod max_length c"

definition cl_get :: "nat \<Rightarrow> 'a clist \<Rightarrow> 'a option" where
  "cl_get i c = cells c (cyclic_index c i)"

definition cl_set :: "nat \<Rightarrow> 'a option \<Rightarrow> 'a clist \<Rightarrow> 'a clist" where
  "cl_set i x c = c\<lparr>cells := (cells c)(cyclic_index c i := x)\<rparr>"

definition fire_trim :: "nat \<Rightarrow> 'a clist \<Rightarrow> 'a clist" where
  "fire_trim n c = c\<lparr>trims := trims c @ [n]\<rparr>"

definition is_full :: "'a clist \<Rightarrow> bool" where
  "is_full c \<longleftrightarrow> len c = max_length c"

definition cl_push :: "'a \<Rightarrow> 'a clist \<Rightarrow> 'a clist" where
  "cl_push x c =
     (let c = cl_set (len c) (Some x) c
      in if is_full c then fire_trim 1 (c\<lparr>start_index := (start_index c + 1) mod max_length c\<rparr>)
         else c\<lparr>len := len c + 1\<rparr>)"

text \<open>\<open>recycle\<close>: the oldest element becomes the last one and is returned; it throws (\<open>None\<close>) unless full.\<close>

definition cl_recycle :: "'a clist \<Rightarrow> ('a option \<times> 'a clist) option" where
  "cl_recycle c =
     (if \<not> is_full c then None
      else
        (let c = fire_trim 1 (c\<lparr>start_index := (start_index c + 1) mod max_length c\<rparr>)
         in Some (cl_get (len c - 1) c, c)))"

text \<open>\<open>pop\<close>, for a list that is not empty.\<close>

definition cl_pop :: "'a clist \<Rightarrow> 'a option \<times> 'a clist" where
  "cl_pop c = (cl_get (len c - 1) c, c\<lparr>len := len c - 1\<rparr>)"

definition cl_splice :: "nat \<Rightarrow> nat \<Rightarrow> 'a list \<Rightarrow> 'a clist \<Rightarrow> 'a clist" where
  "cl_splice e t r c =
     (let c = (if 0 < t then (fold (\<lambda>n c. cl_set n (cl_get (n + t) c) c) [e..<len c - t] c)\<lparr>len := len c - t\<rparr> else c);
          c = fold (\<lambda>n c. cl_set (n + length r) (cl_get n c) c) (rev [e..<len c]) c;
          c = fold (\<lambda>n c. cl_set (e + n) (Some (r ! n)) c) [0..<length r] c
      in if max_length c < len c + length r then
           (let k = len c + length r - max_length c
            in fire_trim k (c\<lparr>start_index := start_index c + k, len := max_length c\<rparr>))
         else c\<lparr>len := len c + length r\<rparr>)"

definition cl_trimStart :: "nat \<Rightarrow> 'a clist \<Rightarrow> 'a clist" where
  "cl_trimStart k c =
     (let k = (if len c < k then len c else k)
      in fire_trim k (c\<lparr>start_index := start_index c + k, len := len c - k\<rparr>))"

text \<open>\<open>shiftElements(start, count, -1)\<close>, the way \<open>scroll\<close> uses it; \<open>None\<close>: it throws.\<close>

definition cl_shift_back :: "nat \<Rightarrow> nat \<Rightarrow> 'a clist \<Rightarrow> 'a clist option" where
  "cl_shift_back s count c =
     (if count = 0 then Some c
      else if len c \<le> s \<or> s = 0 then None
      else Some (fold (\<lambda>i c. cl_set (s + i - 1) (cl_get (s + i) c) c) [0..<count] c))"

section \<open>The list it stands for\<close>

definition clist_ok :: "'a clist \<Rightarrow> bool" where
  "clist_ok c \<longleftrightarrow> 0 < max_length c \<and> len c \<le> max_length c"

definition items :: "'a clist \<Rightarrow> 'a option list" where
  "items c = map (\<lambda>i. cl_get i c) [0..<len c]"

lemma length_items [simp]: "length (items c) = len c"
  by (simp add: items_def)

lemma nth_items [simp]: "i < len c \<Longrightarrow> items c ! i = cl_get i c"
  by (simp add: items_def)

text \<open>Indexes of a window of the size of the array are different places.\<close>

lemma cyclic_eq:
  assumes "w \<le> i" "i < w + max_length c" and "w \<le> j" "j < w + max_length c"
  shows "cyclic_index c i = cyclic_index c j \<longleftrightarrow> i = j"
proof -
  have "i = j" if e: "(start_index c + i) mod max_length c = (start_index c + j) mod max_length c" "i \<le> j" "j < i + max_length c" for i j
  proof -
    have "max_length c dvd (start_index c + j) - (start_index c + i)"
      using e(1,2) mod_eq_dvd_iff_nat [of "start_index c + i" "start_index c + j" "max_length c"] by auto
    then have "max_length c dvd j - i" by simp
    moreover have "j - i < max_length c" using e(2,3) by simp
    ultimately show "i = j" using e(2) by (auto dest: dvd_imp_le)
  qed
  note eq = this
  show ?thesis
  proof
    assume "cyclic_index c i = cyclic_index c j"
    moreover have "j < i + max_length c" "i < j + max_length c" using assms by linarith+
    ultimately show "i = j"
      using eq [of i j] eq [of j i] unfolding cyclic_index_def by (cases "i \<le> j") auto
  qed simp
qed

lemma cl_frame [simp]:
  "max_length (cl_set i x c) = max_length c" "start_index (cl_set i x c) = start_index c" "len (cl_set i x c) = len c"
  "max_length (fire_trim n c) = max_length c" "start_index (fire_trim n c) = start_index c" "len (fire_trim n c) = len c"
  "cyclic_index (cl_set i x c) = cyclic_index c" "cyclic_index (fire_trim n c) = cyclic_index c"
  "cl_get j (fire_trim n c) = cl_get j c" "cl_get j (c\<lparr>len := k\<rparr>) = cl_get j c"
  "cyclic_index (c\<lparr>len := k\<rparr>) = cyclic_index c"
  by (simp_all add: cl_set_def fire_trim_def cyclic_index_def fun_eq_iff cl_get_def)

lemma get_set_window:
  "w \<le> i \<Longrightarrow> i < w + max_length c \<Longrightarrow> w \<le> j \<Longrightarrow> j < w + max_length c \<Longrightarrow>
     cl_get j (cl_set i x c) = (if j = i then x else cl_get j c)"
  using cyclic_eq [of w i c j] by (auto simp: cl_get_def) (auto simp: cl_set_def)

lemmas get_set = get_set_window [of 0, simplified]

lemma clist_ok_frame [simp]:
  "clist_ok (cl_set i x c) = clist_ok c" "clist_ok (fire_trim n c) = clist_ok c" "items (fire_trim n c) = items c"
  by (simp_all add: clist_ok_def items_def)

text \<open>Moving the start forward by \<open>k\<close>: the list without its first \<open>k\<close> elements, and what is behind its end.\<close>

lemma get_forward:
  "start_index d = (start_index c + k) mod max_length c \<or> start_index d = start_index c + k \<Longrightarrow>
     max_length d = max_length c \<Longrightarrow> cells d = cells c \<Longrightarrow> cl_get i d = cl_get (i + k) c"
  by (auto simp: cl_get_def cyclic_index_def mod_simps ac_simps)

lemma get_cyclic: "cl_get (i + max_length c) c = cl_get i c"
  by (simp add: cl_get_def cyclic_index_def flip: add.assoc)

lemma set_cyclic: "cl_set (i + max_length c) x c = cl_set i x c"
  by (simp add: cl_set_def cyclic_index_def flip: add.assoc)

lemma items_set: "clist_ok c \<Longrightarrow> i < len c \<Longrightarrow> items (cl_set i x c) = (items c)[i := x]"
  by (rule nth_equalityI) (auto simp: clist_ok_def get_set nth_list_update)

lemma push_ok: "clist_ok c \<Longrightarrow> clist_ok (cl_push x c)"
  by (auto simp: cl_push_def clist_ok_def is_full_def Let_def fire_trim_def)

text \<open>After a push the list has the new element, and has lost the oldest one if it was full.\<close>

lemma items_push:
  assumes "clist_ok c"
  shows "items (cl_push x c) = (if is_full c then tl (items c) else items c) @ [Some x]"
proof (cases "is_full c")
  case True
  then have m: "len c = max_length c" "0 < max_length c" using assms by (auto simp: clist_ok_def is_full_def)
  have z: "cl_set (len c) (Some x) c = cl_set 0 (Some x) c" using set_cyclic [of 0 c] m by simp
  let ?c = "cl_set 0 (Some x) c"
  define d where "d = ?c\<lparr>start_index := (start_index c + 1) mod max_length c\<rparr>"
  have g: "cl_get i d = cl_get (i + 1) ?c" for i unfolding d_def by (rule get_forward) simp_all
  have l: "len d = max_length c" using m by (simp add: d_def)
  have "items (cl_push x c) = items d" using True z by (simp add: cl_push_def is_full_def Let_def d_def)
  also have "\<dots> = tl (items c) @ [Some x]"
  proof (rule nth_equalityI)
    fix i assume "i < length (items d)"
    then have i: "i < max_length c" by (simp add: l)
    show "items d ! i = (tl (items c) @ [Some x]) ! i"
    proof (cases "i + 1 < max_length c")
      case True
      then have "i < max_length c - 1" by simp
      with True show ?thesis using m l by (simp add: g get_set nth_append nth_tl)
    next
      case False
      then have "i + 1 = 0 + max_length ?c" using i by simp
      then have "cl_get (i + 1) ?c = cl_get 0 ?c" using get_cyclic [of 0 ?c] by metis
      moreover have "i = max_length c - 1" using i False by simp
      ultimately show ?thesis using m l by (simp add: g get_set nth_append)
    qed
  qed (use m l in simp)
  finally show ?thesis using True by simp
next
  case False
  then have m: "len c < max_length c" using assms by (auto simp: clist_ok_def is_full_def)
  have "items (cl_push x c) = items c @ [Some x]"
    using False m by (intro nth_equalityI) (auto simp: cl_push_def is_full_def Let_def get_set nth_append less_Suc_eq)
  then show ?thesis using False by simp
qed

lemma items_recycle:
  assumes "clist_ok c" and "is_full c"
  shows "\<exists>d. cl_recycle c = Some (hd (items c), d) \<and> clist_ok d \<and> max_length d = max_length c
    \<and> items d = tl (items c) @ [hd (items c)]"
proof -
  have m: "len c = max_length c" "0 < max_length c" using assms by (auto simp: clist_ok_def is_full_def)
  define d where "d = c\<lparr>start_index := (start_index c + 1) mod max_length c\<rparr>"
  have g: "cl_get i d = cl_get (i + 1) c" for i unfolding d_def by (rule get_forward) simp_all
  have l: "len d = max_length c" using m by (simp add: d_def)
  have wrap: "cl_get (len c - 1) d = cl_get 0 c" using get_cyclic [of 0 c] m by (simp add: g)
  have h: "hd (items c) = cl_get 0 c" using m by (simp add: hd_conv_nth flip: length_greater_0_conv)
  have "items d = tl (items c) @ [cl_get 0 c]"
  proof (rule nth_equalityI)
    fix i assume "i < length (items d)"
    then have i: "i < max_length c" by (simp add: l)
    show "items d ! i = (tl (items c) @ [cl_get 0 c]) ! i"
    proof (cases "i + 1 < max_length c")
      case True
      then have "i < max_length c - 1" by simp
      with True show ?thesis using m l by (simp add: g nth_append nth_tl)
    next
      case False
      then have "i + 1 = 0 + max_length c" using i by simp
      then have "cl_get (i + 1) c = cl_get 0 c" using get_cyclic [of 0 c] by metis
      moreover have "i = max_length c - 1" using i False by simp
      ultimately show ?thesis using m l by (simp add: g nth_append)
    qed
  qed (use m l in simp)
  then show ?thesis
    using assms wrap h unfolding d_def by (simp add: cl_recycle_def Let_def clist_ok_def)
qed

lemma items_pop: "items (snd (cl_pop c)) = butlast (items c)" "0 < len c \<Longrightarrow> fst (cl_pop c) = last (items c)"
  by (auto intro!: nth_equalityI simp: cl_pop_def nth_butlast last_conv_nth simp flip: length_greater_0_conv)

lemma items_trimStart:
  "items (cl_trimStart k c) = drop k (items c)" "clist_ok c \<Longrightarrow> clist_ok (cl_trimStart k c)"
proof -
  let ?k = "if len c < k then len c else k"
  define d where "d = c\<lparr>start_index := start_index c + ?k, len := len c - ?k\<rparr>"
  have g: "cl_get i d = cl_get (i + ?k) c" for i unfolding d_def by (rule get_forward) simp_all
  have l: "len d = len c - ?k" by (simp add: d_def)
  have "items d = drop ?k (items c)" by (rule nth_equalityI) (auto simp: g l add.commute)
  then show "items (cl_trimStart k c) = drop k (items c)" by (simp add: cl_trimStart_def Let_def d_def)
  show "clist_ok c \<Longrightarrow> clist_ok (cl_trimStart k c)" by (auto simp: cl_trimStart_def clist_ok_def Let_def)
qed

text \<open>The three loops of \<open>splice\<close>: moving elements down, moving them up from the end, filling the gap.\<close>

lemma fold_frame:
  assumes "\<And>n d. max_length (f n d) = max_length d \<and> len (f n d) = len d \<and> start_index (f n d) = start_index d"
  shows "max_length (fold f xs c) = max_length c \<and> len (fold f xs c) = len c \<and> start_index (fold f xs c) = start_index c"
  using assms by (induction xs arbitrary: c) simp_all

lemma get_move_down:
  assumes "m + t \<le> max_length c" and "e \<le> m" and "j < max_length c"
  shows "cl_get j (fold (\<lambda>n c. cl_set n (cl_get (n + t) c) c) [e..<m] c) = (if e \<le> j \<and> j < m then cl_get (j + t) c else cl_get j c)"
  using assms(2,1,3)
proof (induction m arbitrary: j rule: dec_induct)
  case (step m)
  let ?d = "fold (\<lambda>n c. cl_set n (cl_get (n + t) c) c) [e..<m] c"
  have f: "max_length ?d = max_length c" using fold_frame [of "\<lambda>n c. cl_set n (cl_get (n + t) c) c" "[e..<m]" c] by simp
  have "cl_get (m + t) ?d = cl_get (m + t) c" using step.IH [of "m + t"] step.prems(1) by simp
  then show ?case
    using step f by (simp add: upt_Suc_append get_set less_Suc_eq)
qed auto

lemma get_move_up:
  assumes "w \<le> e" and "e \<le> l" and "l + k \<le> w + max_length c" and "w \<le> j" and "j < w + max_length c"
  shows "cl_get j (fold (\<lambda>n c. cl_set (n + k) (cl_get n c) c) (rev [e..<l]) c)
    = (if e + k \<le> j \<and> j < l + k then cl_get (j - k) c else cl_get j c)"
  using assms(2,1,3,4,5)
proof (induction e arbitrary: j rule: inc_induct)
  case (step e)
  let ?d = "fold (\<lambda>n c. cl_set (n + k) (cl_get n c) c) (rev [Suc e..<l]) c"
  have f: "max_length ?d = max_length c" using fold_frame [of "\<lambda>n c. cl_set (n + k) (cl_get n c) c" "rev [Suc e..<l]" c] by simp
  have "cl_get e ?d = cl_get e c" using step.IH [of e] step.prems step.hyps by simp
  moreover have "rev [e..<l] = rev [Suc e..<l] @ [e]" using step.hyps(2) by (simp add: upt_rec)
  moreover have "cl_get j (cl_set (e + k) x ?d) = (if j = e + k then x else cl_get j ?d)" for x
    using get_set_window [of w "e + k" ?d j x] step.prems step.hyps f by simp
  ultimately show ?case using step.IH [of j] step.prems by auto
qed auto

lemma get_fill:
  assumes "w \<le> e" and "e + k \<le> w + max_length c" and "w \<le> j" and "j < w + max_length c"
  shows "cl_get j (fold (\<lambda>n c. cl_set (e + n) (Some (r ! n)) c) [0..<k] c)
    = (if e \<le> j \<and> j < e + k then Some (r ! (j - e)) else cl_get j c)"
  using assms
proof (induction k arbitrary: j)
  case (Suc k)
  let ?d = "fold (\<lambda>n c. cl_set (e + n) (Some (r ! n)) c) [0..<k] c"
  have f: "max_length ?d = max_length c" using fold_frame [of "\<lambda>n c. cl_set (e + n) (Some (r ! n)) c" "[0..<k]" c] by simp
  have "cl_get j (cl_set (e + k) x ?d) = (if j = e + k then x else cl_get j ?d)" for x
    using get_set_window [of w "e + k" ?d j x] Suc.prems f by simp
  then show ?case using Suc.IH [of j] Suc.prems by auto
qed auto

definition splice_overflow :: "nat \<Rightarrow> nat \<Rightarrow> 'a clist \<Rightarrow> nat" where
  "splice_overflow t k c = len c - t + k - max_length c"

text \<open>
  \<open>splice\<close> replaces \<open>t\<close> elements from \<open>e\<close> on and drops what is too much at the start, provided that it does not
  have to drop more than the elements before \<open>e\<close>.
\<close>

lemma items_splice:
  assumes ok: "clist_ok c" and e: "e + t \<le> len c" and room: "splice_overflow t (length r) c \<le> e"
  shows "items (cl_splice e t r c)
      = drop (splice_overflow t (length r) c) (take e (items c) @ map Some r @ drop (e + t) (items c))"
    and "clist_ok (cl_splice e t r c)" and "max_length (cl_splice e t r c) = max_length c"
proof -
  let ?k = "length r" and ?o = "splice_overflow t (length r) c" and ?l = "len c - t" and ?m = "max_length c"
  define c1 where "c1 = (if 0 < t then (fold (\<lambda>n c. cl_set n (cl_get (n + t) c) c) [e..<?l] c)\<lparr>len := ?l\<rparr> else c)"
  define c2 where "c2 = fold (\<lambda>n c. cl_set (n + ?k) (cl_get n c) c) (rev [e..<?l]) c1"
  define c3 where "c3 = fold (\<lambda>n c. cl_set (e + n) (Some (r ! n)) c) [0..<?k] c2"
  have m: "0 < ?m" "len c \<le> ?m" using ok by (auto simp: clist_ok_def)
  have o: "?l + ?k \<le> ?o + ?m" "?o \<le> e" "e \<le> ?l" using room e by (auto simp: splice_overflow_def)
  have f1: "max_length c1 = ?m" "len c1 = ?l" "start_index c1 = start_index c"
    using fold_frame [of "\<lambda>n c. cl_set n (cl_get (n + t) c) c" "[e..<?l]" c] by (auto simp: c1_def)
  have f2: "max_length c2 = ?m" "len c2 = ?l" "start_index c2 = start_index c"
    using fold_frame [of "\<lambda>n c. cl_set (n + ?k) (cl_get n c) c" "rev [e..<?l]" c1] f1 by (simp_all add: c2_def)
  have f3: "max_length c3 = ?m" "len c3 = ?l" "start_index c3 = start_index c"
    using fold_frame [of "\<lambda>n c. cl_set (e + n) (Some (r ! n)) c" "[0..<?k]" c2] f2 by (simp_all add: c3_def)
  have g1: "cl_get j c1 = (if e \<le> j then cl_get (j + t) c else cl_get j c)" if "j < ?l" for j
    using get_move_down [of ?l t c e j] that o(3) e m by (auto simp: c1_def)
  have g3: "cl_get j c3 = (if j < e then cl_get j c else if j < e + ?k then Some (r ! (j - e)) else cl_get (j - ?k + t) c)"
    if "?o \<le> j" "j < ?l + ?k" for j
  proof -
    have w: "j < ?o + ?m" using that o(1) by simp
    have "cl_get j c3 = (if e \<le> j \<and> j < e + ?k then Some (r ! (j - e)) else cl_get j c2)"
      unfolding c3_def using get_fill [of ?o e ?k c2 j r] o that w f2 by simp
    also have "cl_get j c2 = (if e + ?k \<le> j \<and> j < ?l + ?k then cl_get (j - ?k) c1 else cl_get j c1)"
      unfolding c2_def using get_move_up [of ?o e ?l ?k c1 j] o that w f1 by simp
    finally show ?thesis using that o(3) g1 [of j] g1 [of "j - ?k"] by auto
  qed
  define d where "d = (if ?m < ?l + ?k then c3\<lparr>start_index := start_index c3 + ?o, len := ?m\<rparr> else c3\<lparr>len := ?l + ?k\<rparr>)"
  have s: "cl_splice e t r c = (if ?m < ?l + ?k then fire_trim ?o d else d)"
    by (simp add: cl_splice_def c1_def [symmetric] c2_def [symmetric] c3_def [symmetric] f1 f2 f3 Let_def d_def splice_overflow_def)
  have l: "len d = ?l + ?k - ?o" "max_length d = ?m" by (auto simp: d_def f3 splice_overflow_def)
  have "\<not> ?m < ?l + ?k \<Longrightarrow> ?o = 0" by (simp add: splice_overflow_def)
  then have gd: "cl_get i d = cl_get (i + ?o) c3" for i
    unfolding d_def by (cases "?m < ?l + ?k") (auto intro!: get_forward)
  have "items d = drop ?o (take e (items c) @ map Some r @ drop (e + t) (items c))"
  proof (rule nth_equalityI)
    show "length (items d) = length (drop ?o (take e (items c) @ map Some r @ drop (e + t) (items c)))"
      using e by (simp add: l)
    fix i assume "i < length (items d)"
    then have i: "i < ?l + ?k - ?o" by (simp add: l)
    define j where "j = i + ?o"
    have j: "?o \<le> j" "j < ?l + ?k" using i by (auto simp: j_def)
    have d: "items d ! i = (if j < e then cl_get j c else if j < e + ?k then Some (r ! (j - e)) else cl_get (j - ?k + t) c)"
      using g3 [OF j] i l by (simp add: gd j_def)
    consider "j < e" | "e \<le> j" "j < e + ?k" | "e + ?k \<le> j" by linarith
    then have "items d ! i = (take e (items c) @ map Some r @ drop (e + t) (items c)) ! (i + ?o)"
    proof cases
      case 1
      then show ?thesis using e unfolding d j_def [symmetric] by (simp add: nth_append)
    next
      case 2
      then have "j - e < ?k" by linarith
      with 2 show ?thesis using e unfolding d j_def [symmetric] by (simp add: nth_append)
    next
      case 3
      then have "\<not> j - e < ?k" "\<not> j < e" "e + t + (j - (e + ?k)) = j - ?k + t" "j - ?k + t < len c"
        using j(2) e by linarith+
      with 3 show ?thesis using e unfolding d j_def [symmetric] by (simp add: nth_append diff_diff_left)
    qed
    then show "items d ! i = drop ?o (take e (items c) @ map Some r @ drop (e + t) (items c)) ! i"
      using i e by (subst nth_drop) (simp_all add: add.commute)
  qed
  then show "items (cl_splice e t r c) = drop ?o (take e (items c) @ map Some r @ drop (e + t) (items c))"
    by (simp add: s)
  show "clist_ok (cl_splice e t r c)" "max_length (cl_splice e t r c) = ?m"
    using m l by (auto simp: s clist_ok_def splice_overflow_def)
qed

lemma items_shift_back:
  assumes ok: "clist_ok c" and s: "0 < s" "s + k \<le> len c"
  shows "\<exists>d. cl_shift_back s k c = Some d \<and> clist_ok d \<and> max_length d = max_length c
    \<and> items d = take (s - 1) (items c) @ take k (drop s (items c)) @ drop (s - 1 + k) (items c)"
proof (cases "k = 0")
  case True
  then show ?thesis using ok by (simp add: cl_shift_back_def)
next
  case False
  let ?f = "\<lambda>n c. cl_set n (cl_get (n + 1) c) c"
  define d where "d = fold ?f [s - 1..<s - 1 + k] c"
  have "[s - 1..<s - 1 + k] = map (\<lambda>i. s - 1 + i) [0..<k]"
    using map_add_upt [of "s - 1" k] by (simp add: add.commute)
  then have d: "d = fold (\<lambda>i c. cl_set (s + i - 1) (cl_get (s + i) c) c) [0..<k] c"
    using s(1) by (simp add: d_def fold_map comp_def)
  have f: "max_length d = max_length c" "len d = len c"
    using fold_frame [of ?f "[s - 1..<s - 1 + k]" c] by (simp_all add: d_def)
  have m: "len c \<le> max_length c" using ok by (simp add: clist_ok_def)
  have g: "cl_get j d = (if s - 1 \<le> j \<and> j < s - 1 + k then cl_get (j + 1) c else cl_get j c)" if "j < len c" for j
    unfolding d_def using get_move_down [of "s - 1 + k" 1 c "s - 1" j] that s m by simp
  have "items d = take (s - 1) (items c) @ take k (drop s (items c)) @ drop (s - 1 + k) (items c)"
  proof (rule nth_equalityI)
    show "length (items d) = length (take (s - 1) (items c) @ take k (drop s (items c)) @ drop (s - 1 + k) (items c))"
      using s by (simp add: f)
    fix j assume "j < length (items d)"
    then have j: "j < len c" by (simp add: f)
    consider "j < s - 1" | "s - 1 \<le> j" "j < s - 1 + k" | "s - 1 + k \<le> j" by linarith
    then show "items d ! j = (take (s - 1) (items c) @ take k (drop s (items c)) @ drop (s - 1 + k) (items c)) ! j"
    proof cases
      case 2
      then have "j - (s - 1) < k" "s + (j - (s - 1)) = j + 1" "j + 1 < len c" using s by linarith+
      with 2 show ?thesis using j s by (simp add: f g nth_append)
    next
      case 3
      then have "\<not> j - (s - 1) < k" "\<not> j < s - 1" "\<not> j < s - 1 + k" "s - 1 + k + (j - (s - 1) - k) = j" by linarith+
      then show ?thesis using j s by (simp add: f g nth_append)
    qed (use j s in \<open>simp add: f g nth_append\<close>)
  qed
  then show ?thesis
    using ok s f False unfolding cl_shift_back_def d [symmetric] by (simp add: clist_ok_def)
qed

section \<open>Scrolling\<close>

text \<open>What \<open>Terminal.scroll\<close> calls of the list of lines, and the members of the buffer it uses.\<close>

record ('a, 's) lines_if =
  if_full :: "'s \<Rightarrow> bool"
  if_length :: "'s \<Rightarrow> nat"
  if_push :: "'a \<Rightarrow> 's \<Rightarrow> 's"
  if_recycle :: "'a \<Rightarrow> 's \<Rightarrow> 's option"
  if_insert :: "nat \<Rightarrow> 'a \<Rightarrow> 's \<Rightarrow> 's"
  if_shift :: "nat \<Rightarrow> nat \<Rightarrow> 's \<Rightarrow> 's option"
  if_set :: "nat \<Rightarrow> 'a \<Rightarrow> 's \<Rightarrow> 's"

record 's scroll_buffer =
  buf_lines :: 's
  ybase :: nat
  ydisp :: nat
  scroll_top :: nat
  scroll_bottom :: nat
  user_scrolling :: bool

text \<open>
  \<open>scroll\<close> with the blank line \<open>t\<close>; \<open>None\<close> when a method of the list throws. \<open>recycle().copyFrom(t)\<close> is one
  operation of the interface.
\<close>

definition scroll :: "('a, 's) lines_if \<Rightarrow> 'a \<Rightarrow> 's scroll_buffer \<Rightarrow> 's scroll_buffer option" where
  "scroll l t b =
     (let i = ybase b + scroll_top b; n = ybase b + scroll_bottom b
      in map_option (\<lambda>b. if user_scrolling b then b else b\<lparr>ydisp := ybase b\<rparr>)
        (if scroll_top b = 0 then
           (let full = if_full l (buf_lines b)
            in map_option
                 (\<lambda>ls. let b = b\<lparr>buf_lines := ls\<rparr>
                       in if full then (if user_scrolling b then b\<lparr>ydisp := ydisp b - 1\<rparr> else b)
                          else
                            (let b = b\<lparr>ybase := ybase b + 1\<rparr>
                             in if user_scrolling b then b else b\<lparr>ydisp := ydisp b + 1\<rparr>))
                 (if n + 1 = if_length l (buf_lines b) then
                    (if full then if_recycle l t (buf_lines b) else Some (if_push l t (buf_lines b)))
                  else Some (if_insert l (n + 1) t (buf_lines b))))
         else map_option (\<lambda>ls. b\<lparr>buf_lines := if_set l n t ls\<rparr>) (if_shift l (i + 1) (n - i) (buf_lines b))))"

text \<open>
  The lines on the screen and those above it, for lists of lines whose contents are given by \<open>f\<close>, and what
  scrolling makes of a screen: the top line of the region goes, a blank line comes at its bottom.
\<close>

definition screen :: "('s \<Rightarrow> 'a option list) \<Rightarrow> 's scroll_buffer \<Rightarrow> 'a option list" where
  "screen f b = drop (ybase b) (f (buf_lines b))"

definition history :: "('s \<Rightarrow> 'a option list) \<Rightarrow> 's scroll_buffer \<Rightarrow> 'a option list" where
  "history f b = take (ybase b) (f (buf_lines b))"

definition scrolled :: "nat \<Rightarrow> nat \<Rightarrow> 'a \<Rightarrow> 'a option list \<Rightarrow> 'a option list" where
  "scrolled i n t scr = take i scr @ drop (i + 1) (take (n + 1) scr) @ Some t # drop (n + 1) scr"

definition buffer_ok :: "('s \<Rightarrow> bool) \<Rightarrow> ('s \<Rightarrow> 'a option list) \<Rightarrow> nat \<Rightarrow> 's scroll_buffer \<Rightarrow> bool" where
  "buffer_ok good f rows b \<longleftrightarrow> good (buf_lines b) \<and> length (f (buf_lines b)) = ybase b + rows \<and> ydisp b \<le> ybase b
     \<and> scroll_top b \<le> scroll_bottom b \<and> scroll_bottom b < rows"

text \<open>What scrolling relies on.\<close>

locale line_store =
  fixes l :: "('a, 's) lines_if"
    and good :: "'s \<Rightarrow> bool"
    and contents :: "'s \<Rightarrow> 'a option list"
    and limit :: "'s \<Rightarrow> nat"
  assumes full: "good s \<Longrightarrow> if_full l s \<longleftrightarrow> length (contents s) = limit s"
    and within: "good s \<Longrightarrow> length (contents s) \<le> limit s"
    and size: "good s \<Longrightarrow> if_length l s = length (contents s)"
    and push: "good s \<Longrightarrow> length (contents s) < limit s \<Longrightarrow>
      good (if_push l x s) \<and> limit (if_push l x s) = limit s \<and> contents (if_push l x s) = contents s @ [Some x]"
    and recycle: "good s \<Longrightarrow> length (contents s) = limit s \<Longrightarrow>
      \<exists>s'. if_recycle l x s = Some s' \<and> good s' \<and> limit s' = limit s \<and> contents s' = tl (contents s) @ [Some x]"
    and insert: "good s \<Longrightarrow> 0 < n \<Longrightarrow> n \<le> length (contents s) \<Longrightarrow>
      good (if_insert l n x s) \<and> limit (if_insert l n x s) = limit s
      \<and> contents (if_insert l n x s)
        = drop (length (contents s) + 1 - limit s) (take n (contents s) @ Some x # drop n (contents s))"
    and shift: "good s \<Longrightarrow> 0 < k \<Longrightarrow> k + j \<le> length (contents s) \<Longrightarrow>
      \<exists>s'. if_shift l k j s = Some s' \<and> good s' \<and> limit s' = limit s
        \<and> contents s' = take (k - 1) (contents s) @ take j (drop k (contents s)) @ drop (k - 1 + j) (contents s)"
    and set_line: "good s \<Longrightarrow> n < length (contents s) \<Longrightarrow>
      good (if_set l n x s) \<and> limit (if_set l n x s) = limit s \<and> contents (if_set l n x s) = (contents s)[n := Some x]"
begin

text \<open>The list after the two ways to scroll.\<close>

lemma push_line:
  assumes g: "good s" and n: "0 < n" "n \<le> length (contents s)"
  shows "\<exists>s'. (if n = if_length l s then (if if_full l s then if_recycle l t s else Some (if_push l t s))
              else Some (if_insert l n t s)) = Some s'
    \<and> good s' \<and> limit s' = limit s
    \<and> contents s' = drop (if if_full l s then 1 else 0) (take n (contents s) @ Some t # drop n (contents s))"
proof -
  have f: "length (contents s) + 1 - limit s = (if if_full l s then 1 else 0)"
    using within [OF g] full [OF g] by auto
  have r: "0 < length (contents s)" using n by linarith
  show ?thesis
  proof (cases "n = if_length l s")
    case False
    then show ?thesis using insert [OF g n, of t] unfolding f by (simp only: if_False option.inject) blast
  next
    case True
    then have n': "n = length (contents s)" using size [OF g] by simp
    show ?thesis
    proof (cases "if_full l s")
      case True
      then show ?thesis
        using recycle [OF g, of t] full [OF g] \<open>n = if_length l s\<close> n' r by (auto simp: drop_Suc)
    next
      case False
      then have "length (contents s) < limit s" using within [OF g] full [OF g] by simp
      then show ?thesis using push [OF g, of t] False \<open>n = if_length l s\<close> n' by simp
    qed
  qed
qed

lemma shift_lines:
  assumes g: "good s" and i: "i \<le> n" "n < length (contents s)"
  shows "\<exists>s'. if_shift l (i + 1) (n - i) s = Some s' \<and> good (if_set l n t s') \<and> limit (if_set l n t s') = limit s
    \<and> contents (if_set l n t s') = take i (contents s) @ drop (i + 1) (take (n + 1) (contents s)) @ Some t # drop (n + 1) (contents s)"
proof -
  obtain s' where s': "if_shift l (i + 1) (n - i) s = Some s'" "good s'" "limit s' = limit s"
    "contents s' = take i (contents s) @ take (n - i) (drop (i + 1) (contents s)) @ drop n (contents s)"
    using shift [OF g, of "i + 1" "n - i"] i by auto
  have "drop n (contents s) = contents s ! n # drop (n + 1) (contents s)"
    using i(2) by (simp add: Cons_nth_drop_Suc)
  moreover have "take (n - i) (drop (i + 1) (contents s)) = drop (i + 1) (take (n + 1) (contents s))"
    using i(1) by (simp add: take_drop)
  ultimately have "(contents s')[n := Some t]
      = take i (contents s) @ drop (i + 1) (take (n + 1) (contents s)) @ Some t # drop (n + 1) (contents s)"
    using i s'(4) by (simp add: list_update_append)
  moreover have "n < length (contents s')" using i s'(4) by simp
  ultimately show ?thesis using s' set_line [of s' n t] by auto
qed

text \<open>The contents as history and screen, cut at \<open>ybase\<close>.\<close>

lemma at_base:
  "buffer_ok good contents rows b \<Longrightarrow> contents (buf_lines b) = history contents b @ screen contents b"
  "buffer_ok good contents rows b \<Longrightarrow> length (history contents b) = ybase b"
  "buffer_ok good contents rows b \<Longrightarrow> length (screen contents b) = rows"
  by (auto simp: history_def screen_def buffer_ok_def)

lemma scroll_top_region:
  assumes ok: "buffer_ok good contents rows b" and top: "scroll_top b = 0"
  shows "\<exists>b'. scroll l t b = Some b' \<and> buffer_ok good contents rows b'
    \<and> screen contents b' = scrolled 0 (scroll_bottom b) t (screen contents b)
    \<and> history contents b' = drop (if if_full l (buf_lines b) then 1 else 0) (history contents b @ [hd (screen contents b)])"
proof -
  define k where "k = (if if_full l (buf_lines b) then 1 else 0 :: nat)"
  let ?n = "ybase b + scroll_bottom b + 1" and ?H = "history contents b" and ?S = "screen contents b"
  have g: "good (buf_lines b)" "?n \<le> length (contents (buf_lines b))" "scroll_bottom b < rows"
    using ok by (auto simp: buffer_ok_def)
  obtain ls where ls: "(if ?n = if_length l (buf_lines b) then (if if_full l (buf_lines b) then if_recycle l t (buf_lines b)
        else Some (if_push l t (buf_lines b))) else Some (if_insert l ?n t (buf_lines b))) = Some ls"
    "good ls" "contents ls = drop k (take ?n (contents (buf_lines b)) @ Some t # drop ?n (contents (buf_lines b)))"
    using push_line [OF g(1) _ g(2), of t] unfolding k_def by auto
  define y where "y = ybase b + 1 - k"
  define b' where "b' = b\<lparr>buf_lines := ls, ybase := y,
    ydisp := (if user_scrolling b then ydisp b - k else y)\<rparr>"
  have b: "scroll l t b = Some b'"
    using ls(1) top unfolding scroll_def Let_def b'_def y_def k_def by (auto simp del: One_nat_def)
  have c: "contents ls = drop k (?H @ hd ?S # drop 1 (take (scroll_bottom b + 1) ?S) @ Some t # drop (scroll_bottom b + 1) ?S)"
  proof -
    have "take (scroll_bottom b + 1) ?S = hd ?S # drop 1 (take (scroll_bottom b + 1) ?S)"
      using at_base(3) [OF ok] g(3) by (cases ?S) auto
    then have "take ?n (?H @ ?S) @ Some t # drop ?n (?H @ ?S)
        = ?H @ hd ?S # drop 1 (take (scroll_bottom b + 1) ?S) @ Some t # drop (scroll_bottom b + 1) ?S"
      using at_base(2) [OF ok] by simp
    then show ?thesis using ls(3) unfolding at_base(1) [OF ok] by (simp only:)
  qed
  have k: "k \<le> 1" by (simp add: k_def)
  have y: "length (?H @ [hd ?S]) = y + k" using at_base(2) [OF ok] k by (simp add: y_def)
  have c': "contents ls = drop k (?H @ [hd ?S]) @ scrolled 0 (scroll_bottom b) t ?S"
    unfolding c scrolled_def using k by (cases k; cases ?H) (auto simp: drop_Suc)
  define h where "h = drop k (?H @ [hd ?S])"
  have h: "length h = y" using y by (simp only: h_def length_drop)
  have "length (scrolled 0 (scroll_bottom b) t ?S) = rows" using at_base(3) [OF ok] g(3) by (simp add: scrolled_def)
  then have "screen contents b' = scrolled 0 (scroll_bottom b) t ?S" "history contents b' = h"
    "buffer_ok good contents rows b'"
    using c' [folded h_def] h ok ls(2) at_base(2) [OF ok] k
    by (auto simp: screen_def history_def b'_def buffer_ok_def y_def)
  then show ?thesis using b unfolding h_def k_def by blast
qed

lemma scroll_inner_region:
  assumes ok: "buffer_ok good contents rows b" and top: "0 < scroll_top b"
  shows "\<exists>b'. scroll l t b = Some b' \<and> buffer_ok good contents rows b'
    \<and> screen contents b' = scrolled (scroll_top b) (scroll_bottom b) t (screen contents b)
    \<and> history contents b' = history contents b"
proof -
  let ?i = "ybase b + scroll_top b" and ?n = "ybase b + scroll_bottom b"
  let ?H = "history contents b" and ?S = "screen contents b"
  have g: "good (buf_lines b)" "?i \<le> ?n" "?n < length (contents (buf_lines b))" "scroll_bottom b < rows"
    "scroll_top b \<le> scroll_bottom b"
    using ok by (auto simp: buffer_ok_def)
  obtain s' where s': "if_shift l (?i + 1) (?n - ?i) (buf_lines b) = Some s'" "good (if_set l ?n t s')"
    "contents (if_set l ?n t s') = take ?i (contents (buf_lines b)) @ drop (?i + 1) (take (?n + 1) (contents (buf_lines b)))
       @ Some t # drop (?n + 1) (contents (buf_lines b))"
    using shift_lines [OF g(1-3), of t] by blast
  define b' where "b' = b\<lparr>buf_lines := if_set l ?n t s', ydisp := (if user_scrolling b then ydisp b else ybase b)\<rparr>"
  have b: "scroll l t b = Some b'" using s'(1) top by (simp add: scroll_def Let_def b'_def)
  have c: "contents (if_set l ?n t s') = ?H @ scrolled (scroll_top b) (scroll_bottom b) t ?S"
    using s'(3) at_base(2) [OF ok] unfolding at_base(1) [OF ok] scrolled_def by simp
  define S where "S = scrolled (scroll_top b) (scroll_bottom b) t ?S"
  define H where "H = ?H"
  have "length S = rows" "length H = ybase b"
    using at_base(2,3) [OF ok] g(4,5) by (simp_all add: S_def H_def scrolled_def)
  then have "screen contents b' = S" "history contents b' = H" "buffer_ok good contents rows b'"
    using c [folded S_def H_def] ok s'(2) by (auto simp: screen_def history_def buffer_ok_def b'_def)
  then show ?thesis using b unfolding S_def H_def by blast
qed

lemma scroll_spec:
  assumes ok: "buffer_ok good contents rows b"
  shows "\<exists>b'. scroll l t b = Some b' \<and> buffer_ok good contents rows b'
    \<and> screen contents b' = scrolled (scroll_top b) (scroll_bottom b) t (screen contents b)
    \<and> history contents b' = (if 0 < scroll_top b then history contents b
        else drop (if if_full l (buf_lines b) then 1 else 0) (history contents b @ [hd (screen contents b)]))"
  using scroll_top_region [OF ok, of t] scroll_inner_region [OF ok, of t] by (cases "0 < scroll_top b") auto

end

section \<open>The list of lines of the terminal\<close>

text \<open>
  The methods of \<open>CircularList\<close> \<open>scroll\<close> calls; \<open>copyFrom\<close> on an element that is \<open>undefined\<close> throws.
\<close>

definition recycle_line :: "'a \<Rightarrow> 'a clist \<Rightarrow> 'a clist option" where
  "recycle_line t c =
     (case cl_recycle c of
        Some (Some _, d) \<Rightarrow> Some (cl_set (len d - 1) (Some t) d)
      | _ \<Rightarrow> None)"

definition circular_if :: "('a, 'a clist) lines_if" where
  "circular_if =
     \<lparr>if_full = is_full, if_length = len, if_push = cl_push, if_recycle = recycle_line,
      if_insert = (\<lambda>n x. cl_splice n 0 [x]), if_shift = cl_shift_back, if_set = (\<lambda>n x. cl_set n (Some x))\<rparr>"

definition lines_ok :: "'a clist \<Rightarrow> bool" where
  "lines_ok c \<longleftrightarrow> clist_ok c \<and> None \<notin> set (items c)"

lemma recycle_line:
  assumes "lines_ok c" and "is_full c"
  shows "\<exists>d. recycle_line x c = Some d \<and> lines_ok d \<and> max_length d = max_length c \<and> items d = tl (items c) @ [Some x]"
proof -
  have ok: "clist_ok c" "None \<notin> set (items c)" using assms(1) by (auto simp: lines_ok_def)
  obtain d where d: "cl_recycle c = Some (hd (items c), d)" "clist_ok d" "max_length d = max_length c"
    "items d = tl (items c) @ [hd (items c)]"
    using items_recycle [OF ok(1) assms(2)] by blast
  have "0 < length (items c)" using ok(1) assms(2) by (simp add: clist_ok_def is_full_def)
  then have "items c \<noteq> []" by (simp only: length_greater_0_conv not_False_eq_True)
  then obtain y where y: "hd (items c) = Some y" using ok(2) by (cases "items c"; cases "hd (items c)") auto
  have l: "len d = length (tl (items c)) + 1" using arg_cong [OF d(4), of length] by simp
  have "items (cl_set (len d - 1) (Some x) d) = tl (items c) @ [Some x]"
    using items_set [OF d(2), of "len d - 1" "Some x"] l d(4) by (simp add: list_update_append)
  moreover have "None \<notin> set (tl (items c))" using ok(2) by (cases "items c") auto
  ultimately show ?thesis using d(1-3) y by (simp add: recycle_line_def lines_ok_def)
qed

lemma splice_line:
  assumes "lines_ok c" and "0 < n" "n \<le> len c"
  shows "lines_ok (cl_splice n 0 [x] c) \<and> max_length (cl_splice n 0 [x] c) = max_length c
    \<and> items (cl_splice n 0 [x] c) = drop (len c + 1 - max_length c) (take n (items c) @ Some x # drop n (items c))"
proof -
  have ok: "clist_ok c" "n + 0 \<le> len c" "splice_overflow 0 (length [x]) c \<le> n" and none: "None \<notin> set (items c)"
    using assms by (auto simp: lines_ok_def clist_ok_def splice_overflow_def)
  have i: "items (cl_splice n 0 [x] c) = drop (len c + 1 - max_length c) (take n (items c) @ Some x # drop n (items c))"
    using items_splice(1) [OF ok] by (simp add: splice_overflow_def del: drop_append)
  have "None \<notin> set (drop k (take n (items c) @ Some x # drop n (items c)))" for k
    using none by (auto dest!: in_set_dropD in_set_takeD)
  then have "lines_ok (cl_splice n 0 [x] c)" using items_splice(2) [OF ok] by (simp only: lines_ok_def i simp_thms)
  then show ?thesis using i items_splice(3) [OF ok] by simp
qed

lemma shift_line:
  assumes "lines_ok c" and "0 < s" "s + k \<le> len c"
  shows "\<exists>d. cl_shift_back s k c = Some d \<and> lines_ok d \<and> max_length d = max_length c
    \<and> items d = take (s - 1) (items c) @ take k (drop s (items c)) @ drop (s - 1 + k) (items c)"
  using items_shift_back [of c s k] assms by (auto simp: lines_ok_def dest!: in_set_dropD in_set_takeD)

lemma set_line_ok:
  assumes "lines_ok c" and "n < len c"
  shows "lines_ok (cl_set n (Some x) c) \<and> items (cl_set n (Some x) c) = (items c)[n := Some x]"
  using assms items_set [of c n "Some x"] set_update_subset_insert [of "items c" n "Some x"] by (auto simp: lines_ok_def)

lemma circular_full: "if_full circular_if = is_full"
  by (simp add: circular_if_def)

lemma push_line_ok:
  "lines_ok c \<Longrightarrow> len c < max_length c \<Longrightarrow>
     lines_ok (cl_push x c) \<and> max_length (cl_push x c) = max_length c \<and> items (cl_push x c) = items c @ [Some x]"
  using items_push [of c x] push_ok [of c x] by (auto simp: lines_ok_def is_full_def) (simp add: cl_push_def is_full_def Let_def)

interpretation cl: line_store circular_if lines_ok items max_length
proof (unfold_locales, unfold circular_if_def lines_if.select_convs length_items)
  show "lines_ok c \<Longrightarrow> is_full c \<longleftrightarrow> len c = max_length c" for c :: "'a clist" by (simp add: is_full_def)
  show "lines_ok c \<Longrightarrow> 0 < s \<Longrightarrow> s + k \<le> len c \<Longrightarrow> \<exists>d. cl_shift_back s k c = Some d \<and> lines_ok d
      \<and> max_length d = max_length c
      \<and> items d = take (s - 1) (items c) @ take k (drop s (items c)) @ drop (s - 1 + k) (items c)" for s k and c :: "'a clist"
    by (rule shift_line)
  show "lines_ok c \<Longrightarrow> len c \<le> max_length c" for c :: "'a clist" by (simp add: lines_ok_def clist_ok_def)
qed (simp_all add: push_line_ok recycle_line is_full_def splice_line shift_line set_line_ok del: drop_append)

section \<open>Properties\<close>

text \<open>
  C21. The array used as a ring implements the list of lines: each operation does to the lines in the ring what its
  name says, whatever the place of the start; \<open>push\<close> loses the oldest line only when full, \<open>recycle\<close> throws unless
  full, and \<open>splice\<close> drops at the start what does not fit.
\<close>

theorem circular_list_refines:
  assumes "clist_ok c"
  shows "items (cl_push x c) = (if is_full c then tl (items c) else items c) @ [Some x]
    \<and> map_option (\<lambda>(y, d). (y, items d)) (cl_recycle c)
        = (if is_full c then Some (hd (items c), tl (items c) @ [hd (items c)]) else None)
    \<and> items (snd (cl_pop c)) = butlast (items c)
    \<and> items (cl_trimStart k c) = drop k (items c)
    \<and> (e + t \<le> len c \<longrightarrow> len c - t + length r \<le> max_length c + e \<longrightarrow>
         items (cl_splice e t r c)
           = drop (len c - t + length r - max_length c) (take e (items c) @ map Some r @ drop (e + t) (items c)))
    \<and> (0 < s \<longrightarrow> s + n \<le> len c \<longrightarrow>
         map_option items (cl_shift_back s n c)
           = Some (take (s - 1) (items c) @ take n (drop s (items c)) @ drop (s - 1 + n) (items c)))"
proof (intro conjI impI)
  show "map_option (\<lambda>(y, d). (y, items d)) (cl_recycle c)
      = (if is_full c then Some (hd (items c), tl (items c) @ [hd (items c)]) else None)"
    using items_recycle [OF assms] by (cases "is_full c") (auto simp: cl_recycle_def)
  show "items (cl_splice e t r c)
      = drop (len c - t + length r - max_length c) (take e (items c) @ map Some r @ drop (e + t) (items c))"
    if "e + t \<le> len c" "len c - t + length r \<le> max_length c + e"
    using items_splice(1) [OF assms that(1), of r] that by (simp add: splice_overflow_def del: drop_append)
  show "map_option items (cl_shift_back s n c)
      = Some (take (s - 1) (items c) @ take n (drop s (items c)) @ drop (s - 1 + n) (items c))"
    if "0 < s" "s + n \<le> len c"
    using items_shift_back [OF assms that] by auto
qed (rule items_push [OF assms] items_pop(1) items_trimStart(1))+

definition ring_of_four :: "nat clist" where
  "ring_of_four = fold cl_push [1, 2, 3, 4, 5, 6] (new_clist 4)"

theorem circular_list_refines_witness:
  "items ring_of_four = map Some [3, 4, 5, 6] \<and> start_index ring_of_four = 2
   \<and> items (cl_push 7 ring_of_four) = map Some [4, 5, 6, 7]
   \<and> items (cl_splice 2 1 [8, 9] ring_of_four) = map Some [4, 8, 9, 6]
   \<and> map_option items (cl_shift_back 1 2 ring_of_four) = Some (map Some [4, 5, 5, 6])"
proof -
  have "clist_ok ring_of_four" and r: "items ring_of_four = map Some [3, 4, 5, 6]" "start_index ring_of_four = 2"
    "len ring_of_four = 4" "max_length ring_of_four = 4" "is_full ring_of_four"
    by code_simp+
  from circular_list_refines [OF this(1), of 7 0 2 1 "[8, 9]" 1 2] show ?thesis using r by simp
qed

text \<open>
  C22. Scrolling the terminal: whatever the scroll region and however full the list of lines is, the line at the top
  of the region goes, those under it move up, the blank line comes at its bottom and the lines outside the region
  stay. When the region starts at the top, the line joins the history, of which the oldest line is dropped if the
  list is full. No method throws, the screen keeps its height and the view stays inside the history.
\<close>

theorem terminal_scroll:
  assumes "buffer_ok lines_ok items rows b"
  shows "\<exists>b'. scroll circular_if t b = Some b' \<and> buffer_ok lines_ok items rows b'
    \<and> screen items b' = scrolled (scroll_top b) (scroll_bottom b) t (screen items b)
    \<and> history items b' = (if 0 < scroll_top b then history items b
        else drop (if is_full (buf_lines b) then 1 else 0) (history items b @ [hd (screen items b)]))"
  using cl.scroll_spec [OF assms, of t] unfolding circular_full .

definition four_lines :: "nat \<Rightarrow> nat \<Rightarrow> nat clist scroll_buffer" where
  "four_lines first final = \<lparr>buf_lines = ring_of_four, ybase = 1, ydisp = 1, scroll_top = first, scroll_bottom = final,
     user_scrolling = False\<rparr>"

theorem terminal_scroll_witness:
  "map_option (\<lambda>b. (history items b, screen items b)) (scroll circular_if 0 (four_lines 0 2))
     = Some ([Some 4], [Some 5, Some 6, Some 0])
   \<and> map_option (\<lambda>b. (history items b, screen items b)) (scroll circular_if 0 (four_lines 1 2))
     = Some ([Some 3], [Some 4, Some 6, Some 0])"
proof -
  have b: "buffer_ok lines_ok items 3 (four_lines 0 2)" "buffer_ok lines_ok items 3 (four_lines 1 2)"
    by code_simp+
  have s: "screen items (four_lines m n) = [Some 4, Some 5, Some 6]" "history items (four_lines m n) = [Some 3]"
    "is_full (buf_lines (four_lines m n))" for m n
    unfolding four_lines_def screen_def history_def by code_simp+
  show ?thesis
    using terminal_scroll [OF b(1), of 0] terminal_scroll [OF b(2), of 0] s
    by (auto simp: scrolled_def) (simp_all add: four_lines_def numeral_2_eq_2 numeral_3_eq_3)
qed

text \<open>
  Without the condition on \<open>splice\<close>: inserting at the start of a full list does not drop the inserted line but
  the oldest one, and leaves the newest first and the inserted one at the end.
\<close>

theorem splice_at_start_corrupts:
  "items ring_of_four = map Some [3, 4, 5, 6]
   \<and> items (cl_splice 0 0 [7] ring_of_four) = map Some [6, 4, 5, 7]"
  by code_simp

end
