(* ===== verification/XtermCells.thy ===== *)
theory XtermCells
  imports XtermText
begin

text \<open>
  A line of the terminal in \<open>src/html/xterm.js\<close>: the classes \<open>CellData\<close> and \<open>BufferLine\<close>. A line keeps three
  32-bit words for each cell in a typed array and the text of cells with combining characters beside it; the theorem
  shows that its methods are operations on a list of cells.
\<close>

unbundle bit_operations_syntax

section \<open>Cells\<close>

text \<open>
  The members of a \<open>CellData\<close>. Bits 0 to 20 of \<open>content\<close> are the code point, bit 21 says that the text is in
  \<open>combinedData\<close> instead, bits 22 and 23 are the width.
\<close>

record attr =
  fg :: u32
  bg :: u32

record cell_data = attr +
  content :: u32
  combined_data :: "u16 list option"

definition is_combined :: "u32 \<Rightarrow> bool" where "is_combined w \<longleftrightarrow> 2097152 AND w \<noteq> 0"
definition code_bits :: "u32 \<Rightarrow> nat" where "code_bits w = unat (2097151 AND w)"
definition width_bits :: "u32 \<Rightarrow> nat" where "width_bits w = unat (drop_bit 22 w)"

text \<open>\<open>content\<close> of a code point \<open>t\<close> of width \<open>r\<close>, and the cell of \<open>getNullCell\<close>.\<close>

definition content_of :: "nat \<Rightarrow> nat \<Rightarrow> u32" where
  "content_of t r = of_nat t OR push_bit 22 (of_nat r)"

definition DEFAULT_ATTR_DATA :: attr where
  "DEFAULT_ATTR_DATA = \<lparr>fg = 0, bg = 0\<rparr>"

definition getNullCell :: "attr \<Rightarrow> cell_data" where
  "getNullCell a = \<lparr>fg = fg a, bg = bg a, content = 4194304, combined_data = None\<rparr>"

section \<open>Lines\<close>

text \<open>
  The words \<open>3 * e\<close>, \<open>3 * e + 1\<close> and \<open>3 * e + 2\<close> of the typed array are the entry \<open>e\<close> of \<open>words\<close>, in the order
  content, foreground, background. A write behind a typed array does nothing; a read behind it gives \<open>undefined\<close>,
  which the bit operations take for 0.
\<close>

record bline =
  words :: "(u32 \<times> u32 \<times> u32) list"
  combined :: "nat \<Rightarrow> u16 list option"
  is_wrapped :: bool

definition line_length :: "bline \<Rightarrow> nat" where
  "line_length l = length (words l)"

definition words_at :: "nat \<Rightarrow> bline \<Rightarrow> u32 \<times> u32 \<times> u32" where
  "words_at e l = (if e < length (words l) then words l ! e else (0, 0, 0))"

definition content_at :: "nat \<Rightarrow> bline \<Rightarrow> u32" where
  "content_at e l = fst (words_at e l)"

definition getWidth :: "nat \<Rightarrow> bline \<Rightarrow> nat" where
  "getWidth e l = width_bits (content_at e l)"

definition loadCell :: "nat \<Rightarrow> bline \<Rightarrow> cell_data" where
  "loadCell e l =
     (case words_at e l of
        (c, f, b) \<Rightarrow> \<lparr>fg = f, bg = b, content = c, combined_data = (if is_combined c then combined l e else None)\<rparr>)"

definition setCell :: "nat \<Rightarrow> cell_data \<Rightarrow> bline \<Rightarrow> bline" where
  "setCell e c l =
     (let l = (if is_combined (content c) then l\<lparr>combined := (combined l)(e := combined_data c)\<rparr> else l)
      in l\<lparr>words := (words l)[e := (content c, fg c, bg c)]\<rparr>)"

definition setCellFromCodePoint :: "nat \<Rightarrow> nat \<Rightarrow> nat \<Rightarrow> attr \<Rightarrow> bline \<Rightarrow> bline" where
  "setCellFromCodePoint e t r a l = l\<lparr>words := (words l)[e := (content_of t r, fg a, bg a)]\<rparr>"

text \<open>\<open>stringFromCodePoint\<close>.\<close>

definition stringFromCodePoint :: "nat \<Rightarrow> u16 list" where
  "stringFromCodePoint c = utf32ToString [c]"

definition addCodepointToCell :: "nat \<Rightarrow> nat \<Rightarrow> bline \<Rightarrow> bline" where
  "addCodepointToCell e t l =
     (let (r, f, b) = words_at e l
      in if is_combined r then l\<lparr>combined := (combined l)(e := map_option (\<lambda>s. s @ stringFromCodePoint t) (combined l e))\<rparr>
         else if code_bits r \<noteq> 0 then
           l\<lparr>combined := (combined l)(e := Some (stringFromCodePoint (code_bits r) @ stringFromCodePoint t)),
             words := (words l)[e := (NOT 2097151 AND r OR 2097152, f, b)]\<rparr>
         else l\<lparr>words := (words l)[e := (content_of t 1, f, b)]\<rparr>)"

definition replaceCells :: "nat \<Rightarrow> nat \<Rightarrow> cell_data \<Rightarrow> bline \<Rightarrow> bline" where
  "replaceCells e t r l = fold (\<lambda>n. setCell n r) [e..<min t (line_length l)] l"

definition insertCells :: "nat \<Rightarrow> nat \<Rightarrow> cell_data \<Rightarrow> bline \<Rightarrow> bline" where
  "insertCells e t r l =
     (let m = line_length l; e = e mod m
      in if t < m - e then
           fold (\<lambda>n. setCell (e + n) r) [0..<t]
             (fold (\<lambda>n l. setCell (e + t + n) (loadCell (e + n) l) l) (rev [0..<m - e - t]) l)
         else fold (\<lambda>n. setCell n r) [e..<m] l)"

definition deleteCells :: "nat \<Rightarrow> nat \<Rightarrow> cell_data \<Rightarrow> bline \<Rightarrow> bline" where
  "deleteCells e t r l =
     (let m = line_length l; e = e mod m
      in if t < m - e then
           fold (\<lambda>n. setCell n r) [m - t..<m]
             (fold (\<lambda>n l. setCell (e + n) (loadCell (e + t + n) l) l) [0..<m - e - t] l)
         else fold (\<lambda>n. setCell n r) [e..<m] l)"

definition fill_line :: "cell_data \<Rightarrow> bline \<Rightarrow> bline" where
  "fill_line r l = fold (\<lambda>n. setCell n r) [0..<line_length l] (l\<lparr>combined := (\<lambda>_. None)\<rparr>)"

text \<open>The constructor, with the cell to fill the line.\<close>

definition new_line :: "nat \<Rightarrow> cell_data \<Rightarrow> bool \<Rightarrow> bline" where
  "new_line m r wrapped =
     fold (\<lambda>n. setCell n r) [0..<m] \<lparr>words = replicate m (0, 0, 0), combined = (\<lambda>_. None), is_wrapped = wrapped\<rparr>"

text \<open>\<open>translateToString(false, t, r)\<close>; a cell whose text is missing counts as empty.\<close>

function translateToString :: "bline \<Rightarrow> nat \<Rightarrow> nat \<Rightarrow> u16 list" where
  "translateToString l t r =
     (if t < r then
        (let s = content_at t l
         in (if is_combined s then (case combined l t of Some x \<Rightarrow> x | None \<Rightarrow> [])
             else if code_bits s \<noteq> 0 then stringFromCodePoint (code_bits s) else [32])
            @ translateToString l (t + (if width_bits s = 0 then 1 else width_bits s)) r)
      else [])"
  by pat_completeness auto
termination
  by (relation "measure (\<lambda>(l, t, r). r - t)") auto

declare translateToString.simps [simp del]

section \<open>The list of cells\<close>

text \<open>What a line stands for; texts of cells that are not combined any more stay in the object but do not count.\<close>

definition cell_list :: "bline \<Rightarrow> cell_data list" where
  "cell_list l = map (\<lambda>e. loadCell e l) [0..<line_length l]"

definition plain :: "cell_data \<Rightarrow> cell_data" where
  "plain c = (if is_combined (content c) then c else c\<lparr>combined_data := None\<rparr>)"

lemma length_cell_list [simp]: "length (cell_list l) = line_length l"
  by (simp add: cell_list_def)

lemma nth_cell_list [simp]: "e < line_length l \<Longrightarrow> cell_list l ! e = loadCell e l"
  by (simp add: cell_list_def)

lemma plain_load [simp]: "plain (loadCell e l) = loadCell e l"
  by (simp add: plain_def loadCell_def split: prod.split)

lemma line_length_set [simp]: "line_length (setCell e c l) = line_length l" "is_wrapped (setCell e c l) = is_wrapped l"
  by (simp_all add: line_length_def setCell_def Let_def)

lemma line_length_code [simp]:
  "line_length (setCellFromCodePoint e t r a l) = line_length l" "is_wrapped (setCellFromCodePoint e t r a l) = is_wrapped l"
  by (simp_all add: line_length_def setCellFromCodePoint_def)

lemma load_set: "loadCell j (setCell e c l) = (if j = e \<and> e < line_length l then plain c else loadCell j l)"
  by (auto simp: loadCell_def setCell_def words_at_def plain_def line_length_def Let_def is_combined_def split: prod.splits)

lemma cell_list_set [simp]: "cell_list (setCell e c l) = (cell_list l)[e := plain c]"
  by (rule nth_equalityI) (auto simp: load_set nth_list_update)

text \<open>The loops of the methods, on lists.\<close>

lemma length_fold_update: "(\<And>n v. length (f n v) = length v) \<Longrightarrow> length (fold f ns v) = length v"
  by (induction ns arbitrary: v) simp_all

lemma fold_fill:
  "b \<le> length v \<Longrightarrow> a \<le> b \<Longrightarrow> fold (\<lambda>n v. v[n := x]) [a..<b] v = take a v @ replicate (b - a) x @ drop b v"
proof (induction b)
  case (Suc b)
  show ?case
  proof (cases "a = Suc b")
    case False
    then have "fold (\<lambda>n v. v[n := x]) [a..<Suc b] v = (take a v @ replicate (b - a) x @ drop b v)[b := x]"
      using Suc by simp
    also have "\<dots> = take a v @ replicate (b - a) x @ x # drop (Suc b) v"
      using Suc.prems False by (simp add: list_update_append Cons_nth_drop_Suc [symmetric])
    finally show ?thesis using Suc.prems False by (simp add: Suc_diff_le replicate_app_Cons_same)
  qed (use Suc.prems in simp)
qed simp

lemma fold_move_up:
  assumes "e + t + k \<le> length v"
  shows "fold (\<lambda>n v. v[e + t + n := v ! (e + n)]) (rev [0..<k]) v = take (e + t) v @ take k (drop e v) @ drop (e + t + k) v"
  using assms
proof (induction k arbitrary: v)
  case (Suc k)
  define v' where "v' = v[e + t + k := v ! (e + k)]"
  have "fold (\<lambda>n v. v[e + t + n := v ! (e + n)]) (rev [0..<Suc k]) v = take (e + t) v' @ take k (drop e v') @ drop (e + t + k) v'"
    using Suc by (simp add: v'_def)
  moreover have "take (e + t) v' = take (e + t) v" "take k (drop e v') = take k (drop e v)"
    using Suc.prems by (cases "t = 0"; simp add: v'_def drop_update_swap take_update_cancel)+
  moreover have "drop (e + t + k) v' = v ! (e + k) # drop (e + t + Suc k) v"
    using Suc.prems by (simp add: v'_def drop_update_swap Cons_nth_drop_Suc [symmetric])
  ultimately show ?case using Suc.prems by (simp add: take_Suc_conv_app_nth)
qed simp

lemma fold_move_down:
  assumes "e + t + k \<le> length v"
  shows "fold (\<lambda>n v. v[e + n := v ! (e + t + n)]) [0..<k] v = take e v @ take k (drop (e + t) v) @ drop (e + k) v"
  using assms
proof (induction k)
  case (Suc k)
  let ?w = "take e v @ take k (drop (e + t) v) @ drop (e + k) v"
  have n: "?w ! (e + t + k) = v ! (e + t + k)"
    using Suc.prems by (cases "t = 0") (simp_all add: nth_append add.commute add.left_commute)
  have "fold (\<lambda>n v. v[e + n := v ! (e + t + n)]) [0..<Suc k] v = ?w[e + k := v ! (e + t + k)]"
    using Suc by (simp add: n)
  also have "\<dots> = take e v @ take k (drop (e + t) v) @ v ! (e + t + k) # drop (e + Suc k) v"
    using Suc.prems by (simp add: list_update_append Cons_nth_drop_Suc [symmetric])
  finally show ?case using Suc.prems by (simp add: take_Suc_conv_app_nth)
qed simp

lemma cell_list_fold:
  "(\<And>n l. cell_list (f n l) = g n (cell_list l)) \<Longrightarrow> cell_list (fold f ns l) = fold g ns (cell_list l)"
  by (induction ns arbitrary: l) simp_all

lemma cell_list_fill: "cell_list (fold (\<lambda>n. setCell n r) ns l) = fold (\<lambda>n v. v[n := plain r]) ns (cell_list l)"
  by (rule cell_list_fold) simp

lemma line_length_fold: "(\<And>n l. line_length (f n l) = line_length l) \<Longrightarrow> line_length (fold f ns l) = line_length l"
  by (induction ns arbitrary: l) simp_all

lemma cell_list_replace:
  "cell_list (replaceCells e t r l)
     = take e (cell_list l) @ replicate (min t (line_length l) - e) (plain r) @ drop (max e (min t (line_length l))) (cell_list l)"
proof (cases "e \<le> min t (line_length l)")
  case True
  then show ?thesis by (simp add: replaceCells_def cell_list_fill fold_fill)
next
  case False
  then have "[e..<min t (line_length l)] = []" by (intro upt_conv_Nil) linarith
  moreover have "max e (min t (line_length l)) = e" using False by linarith
  moreover have "min t (line_length l) - e = 0" using False by linarith
  ultimately show ?thesis by (simp only: replaceCells_def fold_simps id_apply replicate_0 append_Nil append_take_drop_id)
qed

lemma cell_list_refill:
  "e \<le> line_length l \<Longrightarrow>
     cell_list (fold (\<lambda>n. setCell n r) [e..<line_length l] l) = take e (cell_list l) @ replicate (line_length l - e) (plain r)"
  by (simp add: cell_list_fill fold_fill)

lemma cell_list_insert:
  assumes "e < line_length l"
  shows "cell_list (insertCells e t r l)
    = take (line_length l) (take e (cell_list l) @ replicate t (plain r) @ drop e (cell_list l))"
proof -
  let ?m = "line_length l" and ?v = "cell_list l"
  have m: "e mod ?m = e" using assms by simp
  show ?thesis
  proof (cases "t < ?m - e")
    case True
    define k where "k = ?m - e - t"
    define w where "w = take (e + t) ?v @ take k (drop e ?v) @ drop (e + t + k) ?v"
    have move: "cell_list (fold (\<lambda>n l. setCell (e + t + n) (loadCell (e + n) l) l) (rev [0..<j]) l') = fold (\<lambda>n v. v[e + t + n := v ! (e + n)]) (rev [0..<j]) (cell_list l')"
      if "e + t + j \<le> line_length l'" for j l'
      using that by (induction j arbitrary: l') simp_all
    have len: "line_length (fold (\<lambda>n l. setCell (e + t + n) (loadCell (e + n) l) l) (rev [0..<k]) l) = ?m"
      by (rule line_length_fold) simp
    have w: "w = take (e + t) ?v @ take k (drop e ?v)" "length w = ?m" using True by (simp_all add: w_def k_def)
    have "cell_list (insertCells e t r l) = fold (\<lambda>n v. v[e + n := plain r]) [0..<t] w"
      using True move [of k l] fold_move_up [of e t k ?v]
      by (simp add: insertCells_def Let_def m w_def k_def cell_list_fold [where g = "\<lambda>n v. v[e + n := plain r]"])
    also have "fold (\<lambda>n v. v[e + n := plain r]) [0..<t] w = fold (\<lambda>n v. v[n := plain r]) [e..<e + t] w"
      using fold_map [of "\<lambda>n v. v[n := plain r]" "\<lambda>i. i + e" "[0..<t]"]
      by (simp add: map_add_upt comp_def add.commute)
    also have "\<dots> = take e w @ replicate t (plain r) @ drop (e + t) w" using True w(2) by (simp add: fold_fill)
    also have "\<dots> = take e ?v @ replicate t (plain r) @ take k (drop e ?v)" using True by (simp add: w(1))
    finally show ?thesis using True by (simp add: k_def)
  next
    case False
    then show ?thesis using assms by (simp add: insertCells_def Let_def m cell_list_refill)
  qed
qed

lemma cell_list_delete:
  assumes "e < line_length l"
  shows "cell_list (deleteCells e t r l)
    = take e (cell_list l) @ drop (e + t) (cell_list l) @ replicate (min t (line_length l - e)) (plain r)"
proof -
  let ?m = "line_length l" and ?v = "cell_list l"
  have m: "e mod ?m = e" using assms by simp
  show ?thesis
  proof (cases "t < ?m - e")
    case True
    define k where "k = ?m - e - t"
    define w where "w = take e ?v @ take k (drop (e + t) ?v) @ drop (e + k) ?v"
    have move: "cell_list (fold (\<lambda>n l. setCell (e + n) (loadCell (e + t + n) l) l) [0..<j] l) = fold (\<lambda>n v. v[e + n := v ! (e + t + n)]) [0..<j] ?v
        \<and> line_length (fold (\<lambda>n l. setCell (e + n) (loadCell (e + t + n) l) l) [0..<j] l) = ?m"
      if "e + t + j \<le> ?m" for j
      using that
    proof (induction j)
      case (Suc j)
      let ?l = "fold (\<lambda>n l. setCell (e + n) (loadCell (e + t + n) l) l) [0..<j] l"
      have "e + t + j < line_length ?l" using Suc by simp
      from nth_cell_list [OF this] Suc show ?case by simp
    qed simp
    have len: "line_length (fold (\<lambda>n l. setCell (e + n) (loadCell (e + t + n) l) l) [0..<k] l) = ?m"
      by (rule line_length_fold) simp
    have w: "w = take e ?v @ take k (drop (e + t) ?v) @ drop (e + k) ?v" "length w = ?m" using True by (simp_all add: w_def k_def)
    have "cell_list (deleteCells e t r l) = fold (\<lambda>n v. v[n := plain r]) [e + k..<?m] w"
      using True move [of k] fold_move_down [of e t k ?v] len
      by (simp add: deleteCells_def Let_def m w_def k_def cell_list_fill)
    also have "\<dots> = take (e + k) w @ replicate t (plain r)" using True w(2) by (simp add: fold_fill k_def)
    also have "take (e + k) w = take e ?v @ drop (e + t) ?v" using True by (simp add: w(1) k_def)
    finally show ?thesis using True by simp
  next
    case False
    then show ?thesis using assms by (simp add: deleteCells_def Let_def m cell_list_refill min_def)
  qed
qed

lemma line_length_ops [simp]:
  "line_length (replaceCells e t r l) = line_length l" "line_length (insertCells e t r l) = line_length l"
  "line_length (deleteCells e t r l) = line_length l" "line_length (fill_line r l) = line_length l"
  "line_length (addCodepointToCell e n l) = line_length l" "line_length (new_line m r w) = m"
  "line_length (l\<lparr>is_wrapped := w\<rparr>) = line_length l"
  by (simp_all add: replaceCells_def insertCells_def deleteCells_def fill_line_def new_line_def line_length_fold Let_def)
    (auto simp: addCodepointToCell_def line_length_def split: prod.split)

lemma cell_list_wrapped [simp]: "cell_list (l\<lparr>is_wrapped := w\<rparr>) = cell_list l"
  by (simp add: cell_list_def loadCell_def words_at_def line_length_def split: prod.split)

lemma cell_list_fill_line: "cell_list (fill_line r l) = replicate (line_length l) (plain r)"
  by (simp add: fill_line_def cell_list_fill fold_fill line_length_def)

lemma cell_list_new: "cell_list (new_line m r w) = replicate m (plain r)"
  by (simp add: new_line_def cell_list_fill fold_fill line_length_def)

lemma setCellFromCodePoint_eq:
  "setCellFromCodePoint e t r a l = (let c = content_of t r in
     if is_combined c then l\<lparr>words := (words l)[e := (c, fg a, bg a)]\<rparr>
     else setCell e \<lparr>fg = fg a, bg = bg a, content = c, combined_data = None\<rparr> l)"
  by (simp add: setCellFromCodePoint_def setCell_def Let_def)

text \<open>A cell with a code point: the code fits its 21 bits, the width two.\<close>

definition code_cell :: "nat \<Rightarrow> nat \<Rightarrow> attr \<Rightarrow> cell_data" where
  "code_cell t r a = \<lparr>fg = fg a, bg = bg a, content = content_of t r, combined_data = None\<rparr>"

lemma small_word:
  assumes "c < 2097152"
  shows "2097151 AND (of_nat c :: u32) = of_nat c" and "2097152 AND (of_nat c :: u32) = 0" and "drop_bit 22 (of_nat c :: u32) = 0"
    and "unat (of_nat c :: u32) = c"
proof -
  have m: "(2097151 :: u32) = mask 21" "(2097152 :: u32) = 2 ^ 21" by (simp_all add: mask_eq_exp_minus_1)
  show u: "unat (of_nat c :: u32) = c" using assms by (simp add: unat_of_nat take_bit_nat_eq_self)
  show a: "2097151 AND (of_nat c :: u32) = of_nat c"
    unfolding m by (simp add: and.commute [of "mask 21"] flip: take_bit_eq_mask)
      (rule word_unat_eq_iff [THEN iffD2], use assms u in \<open>simp add: unsigned_take_bit_eq take_bit_nat_eq_self\<close>)
  show "2097152 AND (of_nat c :: u32) = 0"
  proof (rule bit_eqI)
    fix n
    have "bit (of_nat c :: u32) n = (bit (mask 21 :: u32) n \<and> bit (of_nat c :: u32) n)"
      using arg_cong [OF a, of "\<lambda>w. bit w n"] unfolding m bit_and_iff by blast
    then show "bit (2097152 AND (of_nat c :: u32)) n = bit 0 n"
      unfolding m(2) bit_and_iff bit_exp_iff by (auto simp: bit_mask_iff)
  qed
  show "drop_bit 22 (of_nat c :: u32) = 0"
    unfolding word_unat_eq_iff unat_drop_bit_eq u using assms by (simp add: drop_bit_eq_div)
qed

lemma width_word:
  assumes "r \<le> 2"
  shows "2097151 AND (push_bit 22 (of_nat r) :: u32) = 0" and "2097152 AND (push_bit 22 (of_nat r) :: u32) = 0"
    and "unat (drop_bit 22 (push_bit 22 (of_nat r) :: u32)) = r"
proof -
  consider "r = 0" | "r = 1" | "r = 2" using assms by linarith
  then show "2097151 AND (push_bit 22 (of_nat r) :: u32) = 0" "2097152 AND (push_bit 22 (of_nat r) :: u32) = 0"
    "unat (drop_bit 22 (push_bit 22 (of_nat r) :: u32)) = r"
    by (cases; simp)+
qed

lemma content_of_parts [simp]:
  assumes "c < 2097152" and "r \<le> 2"
  shows "is_combined (content_of c r) \<longleftrightarrow> False" and "code_bits (content_of c r) = c" and "width_bits (content_of c r) = r"
  unfolding is_combined_def code_bits_def width_bits_def content_of_def bit.conj_disj_distrib drop_bit_or
  by (simp_all add: small_word [OF assms(1)] width_word [OF assms(2)])

lemma plain_code_cell [simp]: "plain (code_cell c r a) = code_cell c r a"
  by (simp add: plain_def code_cell_def)

lemma cell_list_code:
  "c < 2097152 \<Longrightarrow> r \<le> 2 \<Longrightarrow> cell_list (setCellFromCodePoint e c r a l) = (cell_list l)[e := code_cell c r a]"
  by (simp add: setCellFromCodePoint_eq Let_def) (simp add: plain_def code_cell_def)

lemma plain_null [simp]: "plain (getNullCell a) = getNullCell a"
  by (simp add: plain_def getNullCell_def)

text \<open>A combining character added to a cell.\<close>

definition add_code :: "nat \<Rightarrow> cell_data \<Rightarrow> cell_data" where
  "add_code t c =
     (if is_combined (content c) then c\<lparr>combined_data := map_option (\<lambda>s. s @ stringFromCodePoint t) (combined_data c)\<rparr>
      else if code_bits (content c) \<noteq> 0 then
        c\<lparr>content := NOT 2097151 AND content c OR 2097152,
          combined_data := Some (stringFromCodePoint (code_bits (content c)) @ stringFromCodePoint t)\<rparr>
      else c\<lparr>content := content_of t 1, combined_data := None\<rparr>)"

lemma combined_flag: "is_combined (r OR 2097152)"
  unfolding is_combined_def
proof
  assume "2097152 AND (r OR 2097152) = 0"
  from arg_cong [OF this, of "\<lambda>w. bit w 21"] have "\<not> bit (2097152 :: u32) 21" by (simp add: bit_and_iff bit_or_iff)
  moreover have "(2097152 :: u32) = 2 ^ 21" by simp
  ultimately show False by (simp only: bit_exp_iff) simp
qed

lemma add_codepoint:
  assumes "words_at e l = (r, f, b)"
  shows "addCodepointToCell e t l
    = (if is_combined r then l\<lparr>combined := (combined l)(e := map_option (\<lambda>s. s @ stringFromCodePoint t) (combined l e))\<rparr>
       else if code_bits r \<noteq> 0 then
         l\<lparr>combined := (combined l)(e := Some (stringFromCodePoint (code_bits r) @ stringFromCodePoint t)),
           words := (words l)[e := (NOT 2097151 AND r OR 2097152, f, b)]\<rparr>
       else l\<lparr>words := (words l)[e := (content_of t 1, f, b)]\<rparr>)"
  by (simp add: addCodepointToCell_def assms)

lemma load_add:
  assumes "t < 2097152" and "e < line_length l"
  shows "loadCell e (addCodepointToCell e t l) = add_code t (loadCell e l)"
proof -
  obtain r f b where at: "words_at e l = (r, f, b)" by (cases "words_at e l")
  have e: "e < length (words l)" using assms(2) by (simp add: line_length_def)
  have w: "words l ! e = (r, f, b)" using at e by (simp add: words_at_def)
  have load: "loadCell e l = \<lparr>fg = f, bg = b, content = r, combined_data = (if is_combined r then combined l e else None)\<rparr>"
    using at by (simp add: loadCell_def)
  consider "is_combined r" | "\<not> is_combined r" "code_bits r \<noteq> 0" | "\<not> is_combined r" "code_bits r = 0" by blast
  then have "loadCell e (addCodepointToCell e t l)
      = add_code t \<lparr>fg = f, bg = b, content = r, combined_data = (if is_combined r then combined l e else None)\<rparr>"
  proof cases
    case 1
    with e w show ?thesis by (simp add: add_codepoint [OF at] add_code_def loadCell_def words_at_def)
  qed (use e w assms(1) in \<open>simp_all add: add_codepoint [OF at] add_code_def loadCell_def words_at_def combined_flag\<close>)
  then show ?thesis by (simp only: load)
qed

lemma combined_width [simp]: "width_bits (- 2097152 AND r OR 2097152) = width_bits r"
proof -
  have m: "(2097151 :: u32) = mask 21" "(2097152 :: u32) = 2 ^ 21" by (simp_all add: mask_eq_exp_minus_1)
  have "drop_bit 22 (NOT (mask 21) AND r OR 2 ^ 21) = drop_bit 22 r"
  proof (rule bit_eqI)
    show "bit (drop_bit 22 (NOT (mask 21) AND r OR 2 ^ 21)) n = bit (drop_bit 22 r) n" if "possible_bit TYPE(32 word) n" for n
      using bit_imp_le_length [of r "22 + n"]
      unfolding bit_drop_bit_eq comp_def bit_or_iff bit_and_iff bit_not_iff bit_exp_iff bit_mask_iff by auto
  qed
  moreover have "(- 2097152 :: u32) = NOT 2097151" by simp
  ultimately show ?thesis unfolding width_bits_def by (simp only: m)
qed

lemma cell_list_add:
  assumes "t < 2097152"
  shows "cell_list (addCodepointToCell e t l) = (if e < line_length l then (cell_list l)[e := add_code t (loadCell e l)] else cell_list l)"
proof (cases "e < line_length l")
  case True
  have other: "loadCell j (addCodepointToCell e t l) = loadCell j l" if "j \<noteq> e" for j
  proof -
    obtain r f b where at: "words_at e l = (r, f, b)" by (cases "words_at e l")
    show ?thesis using that by (simp add: add_codepoint [OF at] loadCell_def words_at_def split: prod.split)
  qed
  with True load_add [OF assms True] show ?thesis by (auto intro!: nth_equalityI simp: nth_list_update)
next
  case False
  then have "addCodepointToCell e t l = l\<lparr>words := words l\<rparr>"
    by (simp add: addCodepointToCell_def words_at_def line_length_def is_combined_def code_bits_def list_update_beyond
        del: bline.update_convs)
  then show ?thesis using False by simp
qed

text \<open>Lines with all their texts.\<close>

definition cell_ok :: "cell_data \<Rightarrow> bool" where
  "cell_ok c \<longleftrightarrow> (is_combined (content c) \<longrightarrow> combined_data c \<noteq> None)"

definition line_ok :: "nat \<Rightarrow> bline \<Rightarrow> bool" where
  "line_ok m l \<longleftrightarrow> line_length l = m \<and> list_all cell_ok (cell_list l)"

lemma cell_ok_plain: "\<not> is_combined (content c) \<Longrightarrow> cell_ok c"
  by (simp add: cell_ok_def)

lemma null_cell_ok [simp]: "cell_ok (getNullCell a)" "content (getNullCell a) = 4194304"
  by (simp_all add: cell_ok_def getNullCell_def is_combined_def)

lemma add_code_ok: "t < 2097152 \<Longrightarrow> cell_ok c \<Longrightarrow> cell_ok (add_code t c)"
  by (auto simp: cell_ok_def add_code_def combined_flag)

lemma list_all_update: "list_all P xs \<Longrightarrow> P x \<Longrightarrow> list_all P (xs[i := x])"
  by (auto simp: list_all_iff dest!: set_update_subset_insert [THEN subsetD])

lemma list_all_parts: "list_all P xs \<Longrightarrow> list_all P (take n xs)" "list_all P xs \<Longrightarrow> list_all P (drop n xs)"
    "P x \<Longrightarrow> list_all P (replicate n x)"
  by (auto simp: list_all_iff dest: in_set_takeD in_set_dropD)

lemma plain_ok: "cell_ok c \<Longrightarrow> cell_ok (plain c)"
  by (simp add: cell_ok_def plain_def)

lemma null_parts [simp]: "is_combined 4194304 \<longleftrightarrow> False" "code_bits 4194304 = 0" "width_bits 4194304 = 1"
  by (simp_all add: is_combined_def code_bits_def width_bits_def)

lemma load_cell_ok: "list_all cell_ok (cell_list l) \<Longrightarrow> e < line_length l \<Longrightarrow> cell_ok (loadCell e l)"
  by (simp add: list_all_length)

text \<open>What the methods keep.\<close>

lemma line_ok_ops:
  assumes "line_ok m l"
  shows "cell_ok r \<Longrightarrow> line_ok m (setCell e r l)"
    and "cell_ok r \<Longrightarrow> line_ok m (replaceCells e t r l)"
    and "cell_ok r \<Longrightarrow> e < m \<Longrightarrow> line_ok m (insertCells e t r l)"
    and "cell_ok r \<Longrightarrow> e < m \<Longrightarrow> line_ok m (deleteCells e t r l)"
    and "cell_ok r \<Longrightarrow> line_ok m (fill_line r l)"
    and "\<not> is_combined (content_of c n) \<Longrightarrow> line_ok m (setCellFromCodePoint e c n a l)"
    and "c < 2097152 \<Longrightarrow> line_ok m (addCodepointToCell e c l)"
    and "line_ok m (l\<lparr>is_wrapped := w\<rparr>)"
  using assms
  by (auto simp: line_ok_def cell_list_replace cell_list_insert cell_list_delete cell_list_fill_line cell_list_add
      setCellFromCodePoint_eq Let_def cell_ok_plain load_cell_ok intro!: list_all_update list_all_parts plain_ok add_code_ok)

lemma line_ok_new: "cell_ok r \<Longrightarrow> line_ok m (new_line m r w)"
  by (simp add: line_ok_def cell_list_new list_all_parts plain_ok)

section \<open>The text of a line\<close>

definition cell_text :: "cell_data \<Rightarrow> u16 list" where
  "cell_text c =
     (if is_combined (content c) then (case combined_data c of Some x \<Rightarrow> x | None \<Rightarrow> [])
      else if code_bits (content c) \<noteq> 0 then stringFromCodePoint (code_bits (content c)) else [32])"

text \<open>The text of cells from the first on; a cell of width two hides the next one.\<close>

fun cells_text :: "cell_data list \<Rightarrow> u16 list" where
  "cells_text [] = []"
| "cells_text (c # cs) = cell_text c @ cells_text (drop (width_bits (content c) - 1) cs)"

lemma translate_cells: "r \<le> line_length l \<Longrightarrow> translateToString l t r = cells_text (drop t (take r (cell_list l)))"
proof (induction l t r rule: translateToString.induct)
  case (1 l t r)
  show ?case
  proof (cases "t < r")
    case True
    let ?w = "if width_bits (content_at t l) = 0 then 1 else width_bits (content_at t l)"
    have c: "content (loadCell t l) = content_at t l" "combined_data (loadCell t l) = (if is_combined (content_at t l) then combined l t else None)"
      by (simp_all add: loadCell_def content_at_def split: prod.split)
    have d: "drop t (take r (cell_list l)) = loadCell t l # drop (Suc t) (take r (cell_list l))"
      using True 1(2) by (subst Cons_nth_drop_Suc [symmetric]) simp_all
    have k: "drop (width_bits (content_at t l) - 1) (drop (Suc t) (take r (cell_list l))) = drop (t + ?w) (take r (cell_list l))"
      by (simp add: drop_drop add.commute)
    have "cells_text (drop t (take r (cell_list l))) = cell_text (loadCell t l) @ cells_text (drop (t + ?w) (take r (cell_list l)))"
      by (simp only: d cells_text.simps c k)
    also have "\<dots> = cell_text (loadCell t l) @ translateToString l (t + ?w) r" by (simp only: 1(1) [OF True refl 1(2)])
    also have "\<dots> = translateToString l t r"
      using True by (simp only: translateToString.simps [of l t]) (simp add: Let_def c cell_text_def)
    finally show ?thesis by simp
  qed (simp add: translateToString.simps)
qed

text \<open>
  C23. The methods of a line are those of a list of cells: cells are inserted, deleted, replaced and filled as the names
  say and nothing else changes, the words of the typed array and the texts kept beside it always fit together, and the
  text of the line is the text of its cells.
\<close>

theorem buffer_line_refines:
  assumes "line_ok m l" and "cell_ok r" and "e < m"
  shows "cell_list (setCell e r l) = (cell_list l)[e := plain r] \<and> line_ok m (setCell e r l)
    \<and> cell_list (insertCells e t r l) = take m (take e (cell_list l) @ replicate t (plain r) @ drop e (cell_list l))
    \<and> line_ok m (insertCells e t r l)
    \<and> cell_list (deleteCells e t r l)
        = take e (cell_list l) @ drop (e + t) (cell_list l) @ replicate (min t (m - e)) (plain r)
    \<and> line_ok m (deleteCells e t r l)
    \<and> cell_list (replaceCells e t r l)
        = take e (cell_list l) @ replicate (min t m - e) (plain r) @ drop (max e (min t m)) (cell_list l)
    \<and> line_ok m (replaceCells e t r l)
    \<and> cell_list (fill_line r l) = replicate m (plain r) \<and> line_ok m (fill_line r l)
    \<and> (c < 2097152 \<longrightarrow> cell_list (addCodepointToCell e c l) = (cell_list l)[e := add_code c (loadCell e l)]
          \<and> line_ok m (addCodepointToCell e c l))
    \<and> translateToString l 0 m = cells_text (cell_list l)"
proof -
  have m: "line_length l = m" using assms(1) by (simp add: line_ok_def)
  have e: "e < line_length l" using assms(3) m by simp
  note cells = cell_list_insert [OF e] cell_list_delete [OF e] cell_list_replace cell_list_fill_line cell_list_add
  show ?thesis
    using cells line_ok_ops [OF assms(1)] assms(2,3) translate_cells [of m l 0] m by simp
qed

definition abc_line :: bline where
  "abc_line = fold (\<lambda>(e, c). setCellFromCodePoint e c 1 DEFAULT_ATTR_DATA) [(0, 97), (1, 98), (2, 99)]
     (new_line 4 (getNullCell DEFAULT_ATTR_DATA) False)"

lemma abc_cells: "cell_list abc_line = [code_cell 97 1 DEFAULT_ATTR_DATA, code_cell 98 1 DEFAULT_ATTR_DATA,
    code_cell 99 1 DEFAULT_ATTR_DATA, getNullCell DEFAULT_ATTR_DATA]"
proof -
  have "replicate 4 c = [c, c, c, c]" for c :: cell_data by (simp add: numeral_eq_Suc)
  then show ?thesis by (simp add: abc_line_def cell_list_code cell_list_new)
qed

theorem buffer_line_refines_witness:
  "line_ok 4 abc_line \<and> translateToString abc_line 0 4 = [97, 98, 99, 32]
   \<and> cells_text (cell_list (insertCells 1 2 (getNullCell DEFAULT_ATTR_DATA) abc_line)) = [97, 32, 32, 98]
   \<and> cells_text (cell_list (deleteCells 0 1 (getNullCell DEFAULT_ATTR_DATA) abc_line)) = [98, 99, 32, 32]
   \<and> cells_text (cell_list (addCodepointToCell 1 769 abc_line)) = [97, 98, 769, 99, 32]"
proof -
  have ok: "line_ok 4 abc_line" by code_simp
  note r = buffer_line_refines [OF ok null_cell_ok(1) [of DEFAULT_ATTR_DATA]]
  have t: "translateToString abc_line 0 4 = cells_text (cell_list abc_line)" using r [of 0 0 0] by (simp only: zero_less_numeral simp_thms)
  have i: "cell_list (insertCells 1 2 (getNullCell DEFAULT_ATTR_DATA) abc_line)
      = take 4 (take 1 (cell_list abc_line) @ replicate 2 (plain (getNullCell DEFAULT_ATTR_DATA)) @ drop 1 (cell_list abc_line))"
    using r [of 1 2] by (simp only: one_less_numeral_iff semiring_norm simp_thms)
  have d: "cell_list (deleteCells 0 1 (getNullCell DEFAULT_ATTR_DATA) abc_line) = take 0 (cell_list abc_line)
      @ drop (0 + 1) (cell_list abc_line) @ replicate (min 1 (4 - 0)) (plain (getNullCell DEFAULT_ATTR_DATA))"
    using r [of 0 1] by (simp only: zero_less_numeral simp_thms)
  have a: "cell_list (addCodepointToCell 1 769 abc_line) = (cell_list abc_line)[1 := add_code 769 (loadCell 1 abc_line)]"
    using r [of 1 0 769] by (simp only: one_less_numeral_iff numeral_less_iff semiring_norm simp_thms)
  have l: "loadCell 1 abc_line = code_cell 98 1 DEFAULT_ATTR_DATA" using nth_cell_list [of 1 abc_line] ok by (simp add: line_ok_def abc_cells)
  show ?thesis
    unfolding t i d a l abc_cells using ok
    by (simp add: cell_text_def stringFromCodePoint_def code_cell_def add_code_def combined_flag numeral_2_eq_2)
qed

end
