(* ===== verification/XtermWidth.thy ===== *)
theory XtermWidth
  imports XtermText
begin

text \<open>
  How many columns a code point takes: the function \<open>wcwidth\<close> of \<open>src/html/xterm.js\<close>, with its two tables of
  combining characters, and of a string, \<open>getStringCellWidth\<close>. The first theorem compares the searches in
  the tables with the sets they stand for, the second \<open>getStringCellWidth\<close>, which decodes surrogates on its own,
  with the decoder for strings.
\<close>

section \<open>The tables\<close>

definition COMBINING :: "(nat \<times> nat) list" where
  "COMBINING =
     [(768, 879), (1155, 1158), (1160, 1161), (1425, 1469), (1471, 1471), (1473, 1474), (1476, 1477),
      (1479, 1479), (1536, 1539), (1552, 1557), (1611, 1630), (1648, 1648), (1750, 1764), (1767, 1768),
      (1770, 1773), (1807, 1807), (1809, 1809), (1840, 1866), (1958, 1968), (2027, 2035), (2305, 2306),
      (2364, 2364), (2369, 2376), (2381, 2381), (2385, 2388), (2402, 2403), (2433, 2433), (2492, 2492),
      (2497, 2500), (2509, 2509), (2530, 2531), (2561, 2562), (2620, 2620), (2625, 2626), (2631, 2632),
      (2635, 2637), (2672, 2673), (2689, 2690), (2748, 2748), (2753, 2757), (2759, 2760), (2765, 2765),
      (2786, 2787), (2817, 2817), (2876, 2876), (2879, 2879), (2881, 2883), (2893, 2893), (2902, 2902),
      (2946, 2946), (3008, 3008), (3021, 3021), (3134, 3136), (3142, 3144), (3146, 3149), (3157, 3158),
      (3260, 3260), (3263, 3263), (3270, 3270), (3276, 3277), (3298, 3299), (3393, 3395), (3405, 3405),
      (3530, 3530), (3538, 3540), (3542, 3542), (3633, 3633), (3636, 3642), (3655, 3662), (3761, 3761),
      (3764, 3769), (3771, 3772), (3784, 3789), (3864, 3865), (3893, 3893), (3895, 3895), (3897, 3897),
      (3953, 3966), (3968, 3972), (3974, 3975), (3984, 3991), (3993, 4028), (4038, 4038), (4141, 4144),
      (4146, 4146), (4150, 4151), (4153, 4153), (4184, 4185), (4448, 4607), (4959, 4959), (5906, 5908),
      (5938, 5940), (5970, 5971), (6002, 6003), (6068, 6069), (6071, 6077), (6086, 6086), (6089, 6099),
      (6109, 6109), (6155, 6157), (6313, 6313), (6432, 6434), (6439, 6440), (6450, 6450), (6457, 6459),
      (6679, 6680), (6912, 6915), (6964, 6964), (6966, 6970), (6972, 6972), (6978, 6978), (7019, 7027),
      (7616, 7626), (7678, 7679), (8203, 8207), (8234, 8238), (8288, 8291), (8298, 8303), (8400, 8431),
      (12330, 12335), (12441, 12442), (43014, 43014), (43019, 43019), (43045, 43046), (64286, 64286),
      (65024, 65039), (65056, 65059), (65279, 65279), (65529, 65531)]"

definition COMBINING_HIGH :: "(nat \<times> nat) list" where
  "COMBINING_HIGH =
     [(68097, 68099), (68101, 68102), (68108, 68111), (68152, 68154), (68159, 68159), (119143, 119145),
      (119155, 119170), (119173, 119179), (119210, 119213), (119362, 119364), (917505, 917505),
      (917536, 917631), (917760, 917999)]"

text \<open>The table of the code points below 65536, filled in this order; \<open>fill_range o v a b\<close> is \<open>i.fill(o,v,a,b)\<close>.\<close>

definition fill_range :: "nat \<Rightarrow> nat \<Rightarrow> nat \<Rightarrow> (nat \<Rightarrow> nat) \<Rightarrow> nat \<Rightarrow> nat" where
  "fill_range v a b t = (\<lambda>c. if a \<le> c \<and> c < b then v else t c)"

definition block_widths :: "nat \<Rightarrow> nat" where
  "block_widths =
     fold (\<lambda>(v, a, b). fill_range v a b)
       [(0, 1, 32), (0, 127, 160), (2, 4352, 4448), (2, 9001, 9002), (2, 9002, 9003), (2, 11904, 42192), (1, 12351, 12352),
        (2, 44032, 55204), (2, 63744, 64256), (2, 65040, 65050), (2, 65072, 65136), (2, 65280, 65377), (2, 65504, 65511)]
       ((\<lambda>_. 1)(0 := 0))"

definition low_widths :: "nat \<Rightarrow> nat" where
  "low_widths = fold (\<lambda>(a, b). fill_range 0 a (b + 1)) COMBINING block_widths"

section \<open>The search\<close>

text \<open>The loop, with the bounds \<open>i\<close> and \<open>n\<close>; \<open>n\<close> may become -1.\<close>

function bisearch_loop :: "nat \<Rightarrow> (nat \<times> nat) list \<Rightarrow> int \<Rightarrow> int \<Rightarrow> bool" where
  "bisearch_loop e t i n =
     (if n < i then False
      else
        (let r = (i + n) div 2
         in if snd (t ! nat r) < e then bisearch_loop e t (r + 1) n
            else if e < fst (t ! nat r) then bisearch_loop e t i (r - 1)
            else True))"
  by pat_completeness auto
termination
  by (relation "measure (\<lambda>(e, t, i, n). nat (n + 1 - i))") (auto simp: Let_def)

declare bisearch_loop.simps [simp del]

definition bisearch :: "nat \<Rightarrow> (nat \<times> nat) list \<Rightarrow> bool" where
  "bisearch e t =
     (let n = int (length t) - 1
      in if e < fst (t ! 0) \<or> snd (t ! nat n) < e then False else bisearch_loop e t 0 n)"

definition wcwidth :: "nat \<Rightarrow> nat" where
  "wcwidth e =
     (if e < 32 then 0
      else if e < 127 then 1
      else if e < 65536 then low_widths e
      else if bisearch e COMBINING_HIGH then 0
      else if 131072 \<le> e \<and> e \<le> 196605 \<or> 196608 \<le> e \<and> e \<le> 262141 then 2
      else 1)"

text \<open>The loop of \<open>getStringCellWidth\<close>.\<close>

fun getStringCellWidth :: "u16 list \<Rightarrow> nat" where
  "getStringCellWidth [] = 0"
| "getStringCellWidth (c # r) =
     (if high_surrogate (unat c) then
        (case r of
           [] \<Rightarrow> wcwidth (unat c)
         | a # r' \<Rightarrow>
             (if low_surrogate (unat a) then wcwidth (1024 * (unat c - 55296) + unat a - 56320 + 65536)
              else wcwidth (unat a) + wcwidth (unat c))
             + getStringCellWidth r')
      else wcwidth (unat c) + getStringCellWidth r)"

section \<open>Correctness\<close>

definition in_ranges :: "nat \<Rightarrow> (nat \<times> nat) list \<Rightarrow> bool" where
  "in_ranges e t \<longleftrightarrow> (\<exists>(a, b)\<in>set t. a \<le> e \<and> e \<le> b)"

definition ascending :: "(nat \<times> nat) list \<Rightarrow> bool" where
  "ascending t \<longleftrightarrow> list_all (\<lambda>(a, b). a \<le> b) t \<and> successively (\<lambda>p q. snd p < fst q \<and> fst q \<le> snd q) t"

lemma ascending_nth:
  assumes "ascending t"
  shows "j < length t \<Longrightarrow> fst (t ! j) \<le> snd (t ! j)" and "i < j \<Longrightarrow> j < length t \<Longrightarrow> snd (t ! i) < fst (t ! j)"
proof -
  have "transp (\<lambda>p q :: nat \<times> nat. snd p < fst q \<and> fst q \<le> snd q)" by (auto intro!: transpI)
  then have "sorted_wrt (\<lambda>p q. snd p < fst q \<and> fst q \<le> snd q) t"
    using assms by (simp add: ascending_def successively_conv_sorted_wrt)
  then show "i < j \<Longrightarrow> j < length t \<Longrightarrow> snd (t ! i) < fst (t ! j)" by (simp add: sorted_wrt_iff_nth_less)
  show "j < length t \<Longrightarrow> fst (t ! j) \<le> snd (t ! j)" using assms by (simp add: ascending_def list_all_length case_prod_beta)
qed

lemma ex_above: "i \<le> int r \<Longrightarrow> (\<And>j. Q j \<Longrightarrow> r < j) \<Longrightarrow> (\<exists>j. i \<le> int j \<and> Q j) \<longleftrightarrow> (\<exists>j. int r + 1 \<le> int j \<and> Q j)"
  by (rule ex_cong1) force

lemma ex_below: "int r \<le> n \<Longrightarrow> (\<And>j. int j \<le> n \<Longrightarrow> Q j \<Longrightarrow> j < r) \<Longrightarrow> (\<exists>j. int j \<le> n \<and> Q j) \<longleftrightarrow> (\<exists>j. int j \<le> int r - 1 \<and> Q j)"
  by (rule ex_cong1) force

lemma bisearch_loop_correct:
  assumes "ascending t" and "0 \<le> i" and "n < int (length t)"
  shows "bisearch_loop e t i n \<longleftrightarrow> (\<exists>j. i \<le> int j \<and> int j \<le> n \<and> fst (t ! j) \<le> e \<and> e \<le> snd (t ! j))"
  using assms
proof (induction e t i n rule: bisearch_loop.induct)
  case (1 e t i n)
  show ?case
  proof (cases "n < i")
    case True
    then show ?thesis by (subst bisearch_loop.simps) auto
  next
    case False
    define r where "r = nat ((i + n) div 2)"
    have r: "(i + n) div 2 = int r" "i \<le> int r" "int r \<le> n" "r < length t" using False 1(4,5) by (auto simp: r_def)
    have l: "bisearch_loop e t i n = (if snd (t ! r) < e then bisearch_loop e t (int r + 1) n
        else if e < fst (t ! r) then bisearch_loop e t i (int r - 1) else True)"
      using False by (subst bisearch_loop.simps) (simp add: Let_def r(1))
    consider "snd (t ! r) < e" | "e < fst (t ! r)" "\<not> snd (t ! r) < e" | "fst (t ! r) \<le> e" "e \<le> snd (t ! r)" by linarith
    then show ?thesis
    proof cases
      case 1
      have "j > r" if "e \<le> snd (t ! j)" "int j \<le> n" for j
      proof (rule ccontr)
        assume "\<not> r < j"
        then have "snd (t ! j) \<le> snd (t ! r)"
          using ascending_nth(2) [OF "1.prems"(1), of j r] ascending_nth(1) [OF "1.prems"(1), of r] r(4) by (cases "j = r") auto
        then show False using that(1) \<open>snd (t ! r) < e\<close> by simp
      qed
      then have "(\<exists>j. i \<le> int j \<and> int j \<le> n \<and> fst (t ! j) \<le> e \<and> e \<le> snd (t ! j))
          \<longleftrightarrow> (\<exists>j. int r + 1 \<le> int j \<and> int j \<le> n \<and> fst (t ! j) \<le> e \<and> e \<le> snd (t ! j))"
        by (intro ex_above r(2)) blast
      then show ?thesis using 1 "1.IH"(1) [OF False refl, unfolded r(1) nat_int, OF 1 "1.prems"(1)] "1.prems"(3) l by simp
    next
      case 2
      have below: "j < r" if "fst (t ! j) \<le> e" "int j \<le> n" for j
      proof (rule ccontr)
        assume "\<not> j < r"
        then have "fst (t ! r) \<le> fst (t ! j)"
          using ascending_nth(2) [OF "1.prems"(1), of r j] ascending_nth(1) [OF "1.prems"(1), of r] r(4) that(2) "1.prems"(3)
          by (cases "j = r") auto
        then show False using that(1) \<open>e < fst (t ! r)\<close> by simp
      qed
      then have "(\<exists>j. int j \<le> n \<and> i \<le> int j \<and> fst (t ! j) \<le> e \<and> e \<le> snd (t ! j))
          \<longleftrightarrow> (\<exists>j. int j \<le> int r - 1 \<and> i \<le> int j \<and> fst (t ! j) \<le> e \<and> e \<le> snd (t ! j))" if "int r \<le> n"
        by (rule ex_below [OF that]) (use below in blast)
      then show ?thesis
        using 2 "1.IH"(2) [OF False refl, unfolded r(1) nat_int, OF 2(2,1) "1.prems"(1,2)] r(3,4) l by (simp add: conj_left_commute)
    next
      case 3
      then show ?thesis using r l by auto
    qed
  qed
qed

lemma bisearch_correct:
  assumes "ascending t" and "t \<noteq> []"
  shows "bisearch e t \<longleftrightarrow> in_ranges e t"
proof -
  have in_r: "in_ranges e t \<longleftrightarrow> (\<exists>j < length t. fst (t ! j) \<le> e \<and> e \<le> snd (t ! j))"
    unfolding in_ranges_def by (force simp: in_set_conv_nth case_prod_beta)
  have loop: "bisearch_loop e t 0 (int (length t) - 1) \<longleftrightarrow> in_ranges e t"
    using bisearch_loop_correct [OF assms(1), of 0 "int (length t) - 1" e] by (auto simp: in_r)
  have "\<not> in_ranges e t" if "e < fst (t ! 0) \<or> snd (t ! (length t - 1)) < e"
  proof
    assume "in_ranges e t"
    then obtain j where j: "j < length t" "fst (t ! j) \<le> e" "e \<le> snd (t ! j)" by (auto simp: in_r)
    have "fst (t ! 0) \<le> fst (t ! j)"
      using ascending_nth(2) [OF assms(1), of 0 j] ascending_nth(1) [OF assms(1), of 0] j(1) assms(2)
      by (cases "j = 0") auto
    moreover have "snd (t ! j) \<le> snd (t ! (length t - 1))"
    proof (cases "j = length t - 1")
      case False
      then have "j < length t - 1" "length t - 1 < length t" using j(1) by linarith+
      then show ?thesis
        using ascending_nth(2) [OF assms(1), of j "length t - 1"] ascending_nth(1) [OF assms(1), of "length t - 1"] by linarith
    qed simp
    ultimately show False using that j by linarith
  qed
  moreover have "nat (int (length t) - 1) = length t - 1" by simp
  ultimately show ?thesis using loop by (auto simp: bisearch_def Let_def)
qed

lemma fill_ranges: "fold (\<lambda>(a, b). fill_range 0 a (b + 1)) xs t e = (if in_ranges e xs then 0 else t e)"
proof (induction xs arbitrary: t)
  case (Cons x xs)
  then show ?case by (cases x) (auto simp: in_ranges_def fill_range_def less_Suc_eq_le)
qed (simp add: in_ranges_def)

lemma tables_ascending: "ascending COMBINING" "ascending COMBINING_HIGH"
  by (simp_all add: ascending_def COMBINING_def COMBINING_HIGH_def)

lemma in_ranges_simps:
  "in_ranges e [] \<longleftrightarrow> False" "in_ranges e ((a, b) # t) \<longleftrightarrow> a \<le> e \<and> e \<le> b \<or> in_ranges e t"
  by (auto simp: in_ranges_def)

lemma at_most_or_above: "(e < k \<Longrightarrow> P) \<Longrightarrow> (k \<le> e \<Longrightarrow> P) \<Longrightarrow> P" for e k :: nat
  by (cases "e < k") auto

text \<open>The code points that take two columns.\<close>

definition wide :: "nat \<Rightarrow> bool" where
  "wide e \<longleftrightarrow> in_ranges e [(4352, 4447), (9001, 9002), (11904, 12350), (12352, 42191), (44032, 55203), (63744, 64255), (65040, 65049),
     (65072, 65135), (65280, 65376), (65504, 65510), (131072, 196605), (196608, 262141)]"

lemma block_widths:
  "127 \<le> e \<Longrightarrow> e < 65536 \<Longrightarrow> block_widths e = (if e < 160 then 0 else if wide e then 2 else 1)"
  unfolding block_widths_def wide_def in_ranges_simps
  by (rule at_most_or_above [of e 160], simp add: fill_range_def, rule at_most_or_above [of e 4352], simp add: fill_range_def,
      rule at_most_or_above [of e 4448], simp add: fill_range_def, rule at_most_or_above [of e 9001], simp add: fill_range_def,
      rule at_most_or_above [of e 9002], simp add: fill_range_def, rule at_most_or_above [of e 9003], simp add: fill_range_def,
      rule at_most_or_above [of e 11904], simp add: fill_range_def, rule at_most_or_above [of e 12351], simp add: fill_range_def,
      rule at_most_or_above [of e 12352], simp add: fill_range_def, rule at_most_or_above [of e 42192], simp add: fill_range_def,
      rule at_most_or_above [of e 44032], simp add: fill_range_def, rule at_most_or_above [of e 55204], simp add: fill_range_def,
      rule at_most_or_above [of e 63744], simp add: fill_range_def, rule at_most_or_above [of e 64256], simp add: fill_range_def,
      rule at_most_or_above [of e 65040], simp add: fill_range_def, rule at_most_or_above [of e 65050], simp add: fill_range_def,
      rule at_most_or_above [of e 65072], simp add: fill_range_def, rule at_most_or_above [of e 65136], simp add: fill_range_def,
      rule at_most_or_above [of e 65280], simp add: fill_range_def, rule at_most_or_above [of e 65377], simp add: fill_range_def,
      rule at_most_or_above [of e 65504], simp add: fill_range_def, rule at_most_or_above [of e 65511], simp add: fill_range_def,
      simp add: fill_range_def)

lemma wcwidth_spec:
  "wcwidth e = (if e < 32 \<or> 127 \<le> e \<and> e < 160 \<or> in_ranges e (COMBINING @ COMBINING_HIGH) then 0 else if wide e then 2 else 1)"
proof -
  have "list_all (\<lambda>(a, b). 768 \<le> a \<and> b < 65532) COMBINING" "list_all (\<lambda>(a, b). 68097 \<le> a \<and> b < 918000) COMBINING_HIGH"
    by (simp_all add: COMBINING_def COMBINING_HIGH_def)
  then have b: "in_ranges e COMBINING \<Longrightarrow> 768 \<le> e \<and> e < 65532" "in_ranges e COMBINING_HIGH \<Longrightarrow> 68097 \<le> e \<and> e < 918000"
    by (auto simp: in_ranges_def list_all_iff)
  have a: "in_ranges e (COMBINING @ COMBINING_HIGH) \<longleftrightarrow> in_ranges e COMBINING \<or> in_ranges e COMBINING_HIGH"
    by (auto simp: in_ranges_def)
  have h: "bisearch e COMBINING_HIGH \<longleftrightarrow> in_ranges e COMBINING_HIGH"
    by (rule bisearch_correct [OF tables_ascending(2)]) (simp add: COMBINING_HIGH_def)
  consider "e < 127" | "127 \<le> e" "e < 65536" | "65536 \<le> e" by linarith
  then show ?thesis
  proof cases
    case 1
    then have "\<not> in_ranges e COMBINING" "\<not> in_ranges e COMBINING_HIGH" "\<not> wide e" using b 1 by (auto simp: wide_def in_ranges_simps)
    with 1 show ?thesis by (simp add: wcwidth_def a)
  next
    case 2
    then have "\<not> in_ranges e COMBINING_HIGH" using b by auto
    with 2 show ?thesis using block_widths [OF 2]
      by (simp only: wcwidth_def low_widths_def fill_ranges a) simp
  next
    case 3
    then have "\<not> in_ranges e COMBINING" using b by auto
    with 3 show ?thesis by (auto simp: wcwidth_def a h wide_def in_ranges_simps)
  qed
qed

text \<open>
  C25. The width of a code point: control characters and combining characters take no column, wide characters two, all
  others one; so the binary search in the table of the high combining characters finds exactly those in the table.
\<close>

theorem wcwidth_correct:
  "wcwidth e = (if e < 32 \<or> 127 \<le> e \<and> e < 160 \<or> in_ranges e (COMBINING @ COMBINING_HIGH) then 0 else if wide e then 2 else 1)"
  by (rule wcwidth_spec)

text \<open>Two consequences for the screen.\<close>

lemma wcwidth_le: "wcwidth e \<le> 2"
  by (simp add: wcwidth_spec)

lemma wcwidth_0: "wcwidth e = 0 \<Longrightarrow> e < 2097152"
proof -
  assume "wcwidth e = 0"
  then have e: "e < 160 \<or> in_ranges e (COMBINING @ COMBINING_HIGH)" by (auto simp: wcwidth_spec split: if_splits)
  have small: "\<forall>(a, b)\<in>set (COMBINING @ COMBINING_HIGH). b < 2097152"
    unfolding list_all_iff [symmetric] by (simp add: COMBINING_def COMBINING_HIGH_def)
  have "e < 2097152" if r: "in_ranges e (COMBINING @ COMBINING_HIGH)"
  proof -
    obtain a b where "(a, b) \<in> set (COMBINING @ COMBINING_HIGH)" "e \<le> b" using r unfolding in_ranges_def by blast
    with bspec [OF small this(1)] show ?thesis by (simp only: prod.case)
  qed
  with e show ?thesis by linarith
qed

section \<open>Strings\<close>

lemma width_of_loop:
  "getStringCellWidth e = (case string_loop e of (t, i) \<Rightarrow> sum_list (map wcwidth t) + (if i = 0 then 0 else wcwidth i))"
proof (induction e rule: getStringCellWidth.induct)
  case (2 c r)
  show ?case
  proof (cases "high_surrogate (unat c)")
    case True
    note IH = 2(1) [OF True]
    show ?thesis
    proof (cases r)
      case Nil
      then show ?thesis using True high_nonzero [OF True] by simp
    next
      case (Cons a r')
      obtain t i where l: "string_loop r' = (t, i)" by fastforce
      show ?thesis using IH [OF Cons] True by (simp add: Cons l surrogate_pair_def)
    qed
  next
    case False
    obtain t i where l: "string_loop r = (t, i)" by fastforce
    show ?thesis using 2(2) [OF False] False by (simp add: l)
  qed
qed simp

text \<open>
  The width of a string is the sum of the widths of the code points the decoder for strings finds in it, in whatever
  chunks it comes, and of the surrogate that waits for its partner.
\<close>

theorem string_width:
  "getStringCellWidth (concat cs) = (case decode_strings 0 cs of (t, i) \<Rightarrow> sum_list (map wcwidth t) + (if i = 0 then 0 else wcwidth i))"
  by (simp add: decode_chunks width_of_loop decode_string)

end
