(* ===== verification/XtermScreen.thy ===== *)
theory XtermScreen
  imports XtermLists XtermCells XtermWidth XtermParser
begin

text \<open>
  The screen of the terminal in \<open>src/html/xterm.js\<close>: the state of the active buffer, of the modes and of the rows
  to repaint, and the handlers of \<open>InputHandler\<close> for characters, control characters and control sequences.
\<close>

unbundle bit_operations_syntax

section \<open>The state\<close>

text \<open>
  A character set replaces characters below 127; \<open>null\<close> is the empty one. \<open>buf\<close> holds the lines, the scroll region and
  the place of the screen in the lines; the cursor and what is saved of it are members of the buffer as well.
  \<open>dirty_first\<close> and \<open>dirty_last\<close> are the range of the \<open>DirtyRowService\<close>.
\<close>

type_synonym charset = "nat \<rightharpoonup> nat"

record vt =
  buf :: "bline clist scroll_buffer"
  cur_x :: nat
  cur_y :: nat
  tab_stops :: "nat \<Rightarrow> bool"
  saved_x :: nat
  saved_y :: nat
  saved_attr :: attr
  saved_charset :: charset
  n_cols :: nat
  n_rows :: nat
  cur_attr :: attr
  charset :: charset
  charsets :: "nat \<Rightarrow> charset"
  glevel :: nat
  origin_mode :: bool
  insert_mode :: bool
  wraparound_mode :: bool
  convert_eol :: bool
  preceding :: nat
  dirty_first :: nat
  dirty_last :: nat

text \<open>The numbers of a sequence; the parser always has at least one, and none is negative.\<close>

definition param :: "nat \<Rightarrow> params \<Rightarrow> nat" where
  "param i p = (if i < length (numbers p) then nat (numbers p ! i) else 0)"

text \<open>\<open>e.params[0] || 1\<close>\<close>

definition count :: "params \<Rightarrow> nat" where
  "count p = (if param 0 p = 0 then 1 else param 0 p)"

section \<open>Rows\<close>

definition markDirty :: "nat \<Rightarrow> vt \<Rightarrow> vt" where
  "markDirty e t =
     (if e < dirty_first t then t\<lparr>dirty_first := e\<rparr> else if dirty_last t < e then t\<lparr>dirty_last := e\<rparr> else t)"

definition markRangeDirty :: "nat \<Rightarrow> nat \<Rightarrow> vt \<Rightarrow> vt" where
  "markRangeDirty e k t =
     (let (e, k) = (if k < e then (k, e) else (e, k));
          t = (if e < dirty_first t then t\<lparr>dirty_first := e\<rparr> else t)
      in if dirty_last t < k then t\<lparr>dirty_last := k\<rparr> else t)"

definition clearRange :: "vt \<Rightarrow> vt" where
  "clearRange t = t\<lparr>dirty_first := cur_y t, dirty_last := cur_y t\<rparr>"

definition set_lines :: "bline clist \<Rightarrow> vt \<Rightarrow> vt" where
  "set_lines ls t = t\<lparr>buf := (buf t)\<lparr>buf_lines := ls\<rparr>\<rparr>"

abbreviation "lines t \<equiv> buf_lines (buf t)"
abbreviation "base t \<equiv> ybase (buf t)"
abbreviation "region_top t \<equiv> scroll_top (buf t)"
abbreviation "region_bottom t \<equiv> scroll_bottom (buf t)"

text \<open>A method of a line that changes it; on \<open>undefined\<close> the call throws (\<open>None\<close>).\<close>

definition with_line :: "nat \<Rightarrow> (bline \<Rightarrow> bline) \<Rightarrow> vt \<Rightarrow> vt option" where
  "with_line j f t = map_option (\<lambda>l. set_lines (cl_set j (Some (f l)) (lines t)) t) (cl_get j (lines t))"

definition eraseAttrData :: "vt \<Rightarrow> attr" where
  "eraseAttrData t = \<lparr>fg = 0, bg = 67108863 AND bg (cur_attr t)\<rparr>"

definition erase_cell :: "vt \<Rightarrow> cell_data" where
  "erase_cell t = getNullCell (eraseAttrData t)"

definition getBlankLine :: "attr \<Rightarrow> bool \<Rightarrow> vt \<Rightarrow> bline" where
  "getBlankLine a wrapped t = new_line (n_cols t) (getNullCell a) wrapped"

text \<open>\<open>Terminal.scroll\<close>; the blank line it keeps equals a new one.\<close>

definition scroll_screen :: "bool \<Rightarrow> vt \<Rightarrow> vt option" where
  "scroll_screen wrapped t =
     map_option (\<lambda>b. markRangeDirty (scroll_top b) (scroll_bottom b) (t\<lparr>buf := b\<rparr>))
       (scroll circular_if (getBlankLine (eraseAttrData t) wrapped t) (buf t))"

text \<open>\<open>y++\<close> inside the screen, and the end of a line feed.\<close>

definition row_below :: "vt \<Rightarrow> vt" where
  "row_below t = t\<lparr>cur_y := (if n_rows t \<le> cur_y t + 1 then n_rows t - 1 else cur_y t + 1)\<rparr>"

definition next_row :: "vt \<Rightarrow> vt option" where
  "next_row t = (if cur_y t + 1 = region_bottom t + 1 then scroll_screen False t else Some (row_below t))"

section \<open>Printing\<close>

text \<open>
  The cells of a character of code \<open>i\<close> and width \<open>n\<close> in column \<open>x\<close> of a line of \<open>m\<close> columns.
\<close>

definition put_char :: "bool \<Rightarrow> nat \<Rightarrow> attr \<Rightarrow> nat \<Rightarrow> nat \<Rightarrow> nat \<Rightarrow> bline \<Rightarrow> bline" where
  "put_char ins m a x i n l =
     (let l = (if ins then
                 (let l = insertCells x n (getNullCell a) l
                  in if getWidth (m - 1) l = 2 then setCellFromCodePoint (m - 1) 0 1 a l else l)
               else l);
          l = setCellFromCodePoint x i n a l
      in fold (\<lambda>k. setCellFromCodePoint (x + k) 0 0 a) [1..<n] l)"

text \<open>A character that takes no column joins the cell before the cursor, or the one before that.\<close>

definition combine_char :: "nat \<Rightarrow> nat \<Rightarrow> bline \<Rightarrow> bline" where
  "combine_char x i l =
     (if getWidth (x - 1) l \<noteq> 0 then addCodepointToCell (x - 1) i l
      else if 2 \<le> x then addCodepointToCell (x - 2) i l else l)"

text \<open>The next row for a character behind the last column; the mark is set without \<open>ybase\<close>.\<close>

definition wrap_line :: "vt \<Rightarrow> vt option" where
  "wrap_line t =
     (let t = t\<lparr>cur_x := 0\<rparr>
      in if cur_y t + 1 = region_bottom t + 1 then scroll_screen True t
         else (let t = row_below t in with_line (cur_y t) (\<lambda>l. l\<lparr>is_wrapped := True\<rparr>) t))"

definition put_at_cursor :: "nat \<Rightarrow> nat \<Rightarrow> vt \<Rightarrow> vt option" where
  "put_at_cursor i n t =
     map_option (\<lambda>t'. t'\<lparr>cur_x := cur_x t + (if n = 0 then 1 else n)\<rparr>)
       (with_line (cur_y t + base t) (put_char (insert_mode t) (n_cols t) (cur_attr t) (cur_x t) i n) t)"

definition translated :: "charset \<Rightarrow> nat \<Rightarrow> nat" where
  "translated s c = (if c < 127 then (case s c of Some g \<Rightarrow> g | None \<Rightarrow> c) else c)"

text \<open>One round of the loop of \<open>print\<close>.\<close>

definition print_code :: "nat \<Rightarrow> vt \<Rightarrow> vt option" where
  "print_code c t =
     (let n = wcwidth c; i = translated (charset t) c
      in if n \<noteq> 0 \<or> cur_x t = 0 then
           (if n_cols t < cur_x t + n then
              (if wraparound_mode t then Option.bind (wrap_line t) (put_at_cursor i n)
               else (let t = t\<lparr>cur_x := n_cols t - 1\<rparr> in if n = 2 then Some t else put_at_cursor i n t))
            else put_at_cursor i n t)
         else with_line (cur_y t + base t) (combine_char (cur_x t) i) t)"

fun print_loop :: "nat list \<Rightarrow> vt \<Rightarrow> vt option" where
  "print_loop [] t = Some t"
| "print_loop (c # cs) t = Option.bind (print_code c t) (print_loop cs)"

text \<open>What \<open>print\<close> remembers for \<open>repeatPrecedingCharacter\<close>, of the cell before the cursor.\<close>

definition remember_cell :: "cell_data \<Rightarrow> nat" where
  "remember_cell c =
     (let w = content c; chars = (case combined_data c of Some x \<Rightarrow> x | None \<Rightarrow> []);
          code = (if is_combined w then unat (List.last chars) else code_bits w)
      in if width_bits w = 2 \<or> 65535 < code then 0
         else if is_combined w then unat (hd chars) else unat w)"

definition print :: "nat list \<Rightarrow> vt \<Rightarrow> vt option" where
  "print cs t =
     Option.bind (print_loop cs (markDirty (cur_y t) t)) (\<lambda>t.
     map_option (\<lambda>l. markDirty (cur_y t) (t\<lparr>preceding := remember_cell (loadCell (cur_x t - 1) l)\<rparr>))
       (cl_get (cur_y t + base t) (lines t)))"

section \<open>Character sets\<close>

text \<open>\<open>CHARSETS\<close>, by the last character of the sequence; only the first code unit of an entry is used.\<close>

definition CHARSETS :: "(string \<times> (nat \<times> nat) list) list" where
  "CHARSETS =
     [(''0'', [(96, 9670), (97, 9618), (98, 9), (99, 12), (100, 13), (101, 10), (102, 176), (103, 177), (104, 9252),
         (105, 11), (106, 9496), (107, 9488), (108, 9484), (109, 9492), (110, 9532), (111, 9146), (112, 9147), (113, 9472),
         (114, 9148), (115, 9149), (116, 9500), (117, 9508), (118, 9524), (119, 9516), (120, 9474), (121, 8804), (122, 8805),
         (123, 960), (124, 8800), (125, 163), (126, 183)]),
      (''A'', [(35, 163)]),
      (''B'', []),
      (''4'', [(35, 163), (64, 190), (91, 105), (92, 189), (93, 124), (123, 168), (124, 102), (125, 188), (126, 180)]),
      (''C5'', [(91, 196), (92, 214), (93, 197), (94, 220), (96, 233), (123, 228), (124, 246), (125, 229), (126, 252)]),
      (''R'', [(35, 163), (64, 224), (91, 176), (92, 231), (93, 167), (123, 233), (124, 249), (125, 232), (126, 168)]),
      (''Q'', [(64, 224), (91, 226), (92, 231), (93, 234), (94, 238), (96, 244), (123, 233), (124, 249), (125, 232),
         (126, 251)]),
      (''K'', [(64, 167), (91, 196), (92, 214), (93, 220), (123, 228), (124, 246), (125, 252), (126, 223)]),
      (''Y'', [(35, 163), (64, 167), (91, 176), (92, 231), (93, 233), (96, 249), (123, 224), (124, 242), (125, 232),
         (126, 236)]),
      (''E6'', [(64, 196), (91, 198), (92, 216), (93, 197), (94, 220), (96, 228), (123, 230), (124, 248), (125, 229),
         (126, 252)]),
      (''Z'', [(35, 163), (64, 167), (91, 161), (92, 209), (93, 191), (123, 176), (124, 241), (125, 231)]),
      (''H7'', [(64, 201), (91, 196), (92, 214), (93, 197), (94, 220), (96, 233), (123, 228), (124, 246), (125, 229),
         (126, 252)]),
      (''='', [(35, 249), (64, 224), (91, 233), (92, 231), (93, 234), (94, 238), (95, 232), (96, 244), (123, 228),
         (124, 246), (125, 252), (126, 251)])]"

definition charset_table :: "nat \<Rightarrow> charset" where
  "charset_table c =
     (case List.find (\<lambda>(names, _). c \<in> of_char ` set names) CHARSETS of None \<Rightarrow> Map.empty | Some (_, t) \<Rightarrow> map_of t)"

definition setgCharset :: "nat \<Rightarrow> charset \<Rightarrow> vt \<Rightarrow> vt" where
  "setgCharset e s t =
     (let t = t\<lparr>charsets := (charsets t)(e := s)\<rparr> in if glevel t = e then t\<lparr>charset := s\<rparr> else t)"

definition setgLevel :: "nat \<Rightarrow> vt \<Rightarrow> vt" where
  "setgLevel e t = t\<lparr>glevel := e, charset := charsets t e\<rparr>"

definition selectDefaultCharset :: "vt \<Rightarrow> vt" where
  "selectDefaultCharset t = setgCharset 0 Map.empty (setgLevel 0 t)"

text \<open>\<open>selectCharset\<close> with the two characters of the sequence: the set they name, and its level.\<close>

definition charset_level :: "nat \<Rightarrow> nat option" where
  "charset_level c = map_of [(40, 0), (41, 1), (42, 2), (43, 3), (45, 1), (46, 2)] c"

definition selectCharset :: "nat \<Rightarrow> nat \<Rightarrow> vt \<Rightarrow> vt" where
  "selectCharset a b t = (case charset_level a of Some e \<Rightarrow> setgCharset e (charset_table b) t | None \<Rightarrow> t)"

section \<open>Control characters\<close>

definition lineFeed :: "vt \<Rightarrow> vt option" where
  "lineFeed t =
     (let t = markDirty (cur_y t) t;
          t = (if convert_eol t then t\<lparr>cur_x := 0\<rparr> else t)
      in map_option (\<lambda>t. let t = (if n_cols t \<le> cur_x t then t\<lparr>cur_x := cur_x t - 1\<rparr> else t) in markDirty (cur_y t) t) (next_row t))"

definition carriageReturn :: "vt \<Rightarrow> vt" where
  "carriageReturn t = t\<lparr>cur_x := 0\<rparr>"

text \<open>\<open>_restrictCursor\<close> of a cursor that may lie outside, and the two ways to move it.\<close>

definition restrict_to :: "int \<Rightarrow> int \<Rightarrow> vt \<Rightarrow> vt" where
  "restrict_to x y t =
     (let y' = (if origin_mode t then min (int (region_bottom t)) (max (int (region_top t)) y)
                else min (int (n_rows t) - 1) (max 0 y));
          t = t\<lparr>cur_x := nat (min (int (n_cols t) - 1) (max 0 x)), cur_y := nat y'\<rparr>
      in markDirty (cur_y t) t)"

definition restrictCursor :: "vt \<Rightarrow> vt" where
  "restrictCursor t = restrict_to (int (cur_x t)) (int (cur_y t)) t"

definition setCursor :: "int \<Rightarrow> int \<Rightarrow> vt \<Rightarrow> vt" where
  "setCursor e k t =
     (let t = markDirty (cur_y t) t;
          t = restrict_to e (if origin_mode t then int (region_top t) + k else k) t
      in markDirty (cur_y t) t)"

definition moveCursor :: "int \<Rightarrow> int \<Rightarrow> vt \<Rightarrow> vt" where
  "moveCursor e k t = (let t = restrictCursor t in setCursor (int (cur_x t) + e) (int (cur_y t) + k) t)"

definition backspace :: "vt \<Rightarrow> vt" where
  "backspace t = (let t = restrictCursor t in if 0 < cur_x t then t\<lparr>cur_x := cur_x t - 1\<rparr> else t)"

function stop_after :: "(nat \<Rightarrow> bool) \<Rightarrow> nat \<Rightarrow> nat \<Rightarrow> nat" where
  "stop_after tabs m e = (let e = e + 1 in if \<not> tabs e \<and> e < m then stop_after tabs m e else e)"
  by pat_completeness auto
termination
  by (relation "measure (\<lambda>(_, m, e). m - e)") auto

declare stop_after.simps [simp del]

definition nextStop :: "vt \<Rightarrow> nat" where
  "nextStop t = min (n_cols t - 1) (stop_after (tab_stops t) (n_cols t) (cur_x t))"

text \<open>\<open>prevStop\<close> from column \<open>e\<close>; from column 0 the loop ends at -1 and gives 0.\<close>

fun stop_before :: "(nat \<Rightarrow> bool) \<Rightarrow> nat \<Rightarrow> nat" where
  "stop_before tabs 0 = 0"
| "stop_before tabs (Suc e) = (if \<not> tabs e \<and> 0 < e then stop_before tabs e else e)"

definition prevStop :: "vt \<Rightarrow> nat" where
  "prevStop t = min (n_cols t - 1) (stop_before (tab_stops t) (cur_x t))"

definition tab :: "vt \<Rightarrow> vt" where
  "tab t = (if n_cols t \<le> cur_x t then t else t\<lparr>cur_x := nextStop t\<rparr>)"

definition index :: "vt \<Rightarrow> vt option" where
  "index t = map_option restrictCursor (next_row (restrictCursor t))"

definition nextLine :: "vt \<Rightarrow> vt option" where
  "nextLine t = index (t\<lparr>cur_x := 0\<rparr>)"

definition tabSet :: "vt \<Rightarrow> vt" where
  "tabSet t = t\<lparr>tab_stops := (tab_stops t)(cur_x t := True)\<rparr>"

section \<open>Moving the cursor\<close>

definition cursorUp :: "params \<Rightarrow> vt \<Rightarrow> vt" where
  "cursorUp p t =
     (if region_top t \<le> cur_y t then moveCursor 0 (- int (min (cur_y t - region_top t) (count p))) t
      else moveCursor 0 (- int (count p)) t)"

definition cursorDown :: "params \<Rightarrow> vt \<Rightarrow> vt" where
  "cursorDown p t =
     (if cur_y t \<le> region_bottom t then moveCursor 0 (int (min (region_bottom t - cur_y t) (count p))) t
      else moveCursor 0 (int (count p)) t)"

definition cursorForward :: "params \<Rightarrow> vt \<Rightarrow> vt" where
  "cursorForward p = moveCursor (int (count p)) 0"

definition cursorBackward :: "params \<Rightarrow> vt \<Rightarrow> vt" where
  "cursorBackward p = moveCursor (- int (count p)) 0"

definition cursorNextLine :: "params \<Rightarrow> vt \<Rightarrow> vt" where
  "cursorNextLine p t = (cursorDown p t)\<lparr>cur_x := 0\<rparr>"

definition cursorPrecedingLine :: "params \<Rightarrow> vt \<Rightarrow> vt" where
  "cursorPrecedingLine p t = (cursorUp p t)\<lparr>cur_x := 0\<rparr>"

text \<open>\<open>cursorCharAbsolute\<close> and \<open>charPosAbsolute\<close>; \<open>cursorPosition\<close> and \<open>hVPosition\<close>.\<close>

definition cursorCharAbsolute :: "params \<Rightarrow> vt \<Rightarrow> vt" where
  "cursorCharAbsolute p t = setCursor (int (count p) - 1) (int (cur_y t)) t"

definition cursorPosition :: "params \<Rightarrow> vt \<Rightarrow> vt" where
  "cursorPosition p =
     setCursor (if 2 \<le> length (numbers p) then int (if param 1 p = 0 then 1 else param 1 p) - 1 else 0) (int (count p) - 1)"

definition hPositionRelative :: "params \<Rightarrow> vt \<Rightarrow> vt" where
  "hPositionRelative p = moveCursor (int (count p)) 0"

definition linePosAbsolute :: "params \<Rightarrow> vt \<Rightarrow> vt" where
  "linePosAbsolute p t = setCursor (int (cur_x t)) (int (count p) - 1) t"

definition vPositionRelative :: "params \<Rightarrow> vt \<Rightarrow> vt" where
  "vPositionRelative p = moveCursor 0 (int (count p))"

definition tabClear :: "params \<Rightarrow> vt \<Rightarrow> vt" where
  "tabClear p t =
     (if param 0 p = 0 then t\<lparr>tab_stops := (tab_stops t)(cur_x t := False)\<rparr>
      else if param 0 p = 3 then t\<lparr>tab_stops := (\<lambda>_. False)\<rparr> else t)"

definition cursorForwardTab :: "params \<Rightarrow> vt \<Rightarrow> vt" where
  "cursorForwardTab p t = (if n_cols t \<le> cur_x t then t else ((\<lambda>t. t\<lparr>cur_x := nextStop t\<rparr>) ^^ count p) t)"

definition cursorBackwardTab :: "params \<Rightarrow> vt \<Rightarrow> vt" where
  "cursorBackwardTab p t = (if n_cols t \<le> cur_x t then t else ((\<lambda>t. t\<lparr>cur_x := prevStop t\<rparr>) ^^ count p) t)"

section \<open>Erasing\<close>

text \<open>A loop over rows whose body may throw.\<close>

fun each :: "('a \<Rightarrow> 's \<Rightarrow> 's option) \<Rightarrow> 'a list \<Rightarrow> 's \<Rightarrow> 's option" where
  "each f [] s = Some s"
| "each f (n # ns) s = Option.bind (f n s) (each f ns)"

definition eraseInBufferLine :: "nat \<Rightarrow> nat \<Rightarrow> nat \<Rightarrow> bool \<Rightarrow> vt \<Rightarrow> vt option" where
  "eraseInBufferLine e k r unwrap t =
     with_line (base t + e) (\<lambda>l. let l = replaceCells k r (erase_cell t) l in if unwrap then l\<lparr>is_wrapped := False\<rparr> else l) t"

definition resetBufferLine :: "nat \<Rightarrow> vt \<Rightarrow> vt option" where
  "resetBufferLine e t = with_line (base t + e) (\<lambda>l. (fill_line (erase_cell t) l)\<lparr>is_wrapped := False\<rparr>) t"

definition erase_below :: "vt \<Rightarrow> vt option" where
  "erase_below t =
     (let t = markDirty (cur_y t) t
      in Option.bind (eraseInBufferLine (cur_y t) (cur_x t) (n_cols t) (cur_x t = 0) t) (\<lambda>t.
         map_option (markDirty (n_rows t)) (each resetBufferLine [cur_y t + 1..<n_rows t] t)))"

text \<open>The line behind the cursor is looked up without \<open>ybase\<close>.\<close>

definition erase_above :: "vt \<Rightarrow> vt option" where
  "erase_above t =
     (let t = markDirty (cur_y t) t
      in Option.bind (eraseInBufferLine (cur_y t) 0 (cur_x t + 1) True t) (\<lambda>t.
         Option.bind (if n_cols t \<le> cur_x t + 1 then with_line (cur_y t + 1) (\<lambda>l. l\<lparr>is_wrapped := False\<rparr>) t else Some t) (\<lambda>t.
         map_option (markDirty 0) (each resetBufferLine (rev [0..<cur_y t]) t))))"

definition erase_screen :: "vt \<Rightarrow> vt option" where
  "erase_screen t =
     map_option (markDirty 0) (each resetBufferLine (rev [0..<n_rows t]) (markDirty (n_rows t - 1) t))"

definition erase_history :: "vt \<Rightarrow> vt" where
  "erase_history t =
     (let r = len (lines t) - n_rows t
      in if 0 < r then
           t\<lparr>buf := (buf t)\<lparr>buf_lines := cl_trimStart r (lines t), ybase := base t - r, ydisp := ydisp (buf t) - r\<rparr>\<rparr>
         else t)"

definition eraseInDisplay :: "params \<Rightarrow> vt \<Rightarrow> vt option" where
  "eraseInDisplay p t =
     (let t = restrictCursor t
      in if param 0 p = 0 then erase_below t
         else if param 0 p = 1 then erase_above t
         else if param 0 p = 2 then erase_screen t
         else if param 0 p = 3 then Some (erase_history t)
         else Some t)"

definition eraseInLine :: "params \<Rightarrow> vt \<Rightarrow> vt option" where
  "eraseInLine p t =
     (let t = restrictCursor t
      in map_option (\<lambda>t. markDirty (cur_y t) t)
        (if param 0 p = 0 then eraseInBufferLine (cur_y t) (cur_x t) (n_cols t) False t
         else if param 0 p = 1 then eraseInBufferLine (cur_y t) 0 (cur_x t + 1) False t
         else if param 0 p = 2 then eraseInBufferLine (cur_y t) 0 (n_cols t) False t
         else Some t))"

section \<open>Inserting and deleting\<close>

text \<open>One line out of the list at \<open>d\<close>, a blank one into it at \<open>i\<close>.\<close>

definition move_blank :: "nat \<Rightarrow> nat \<Rightarrow> attr \<Rightarrow> vt \<Rightarrow> vt" where
  "move_blank d i a t = set_lines (cl_splice i 0 [getBlankLine a False t] (cl_splice d 1 [] (lines t))) t"

definition in_region :: "vt \<Rightarrow> bool" where
  "in_region t \<longleftrightarrow> region_top t \<le> cur_y t \<and> cur_y t \<le> region_bottom t"

definition insertLines :: "params \<Rightarrow> vt \<Rightarrow> vt" where
  "insertLines p t =
     (let t = restrictCursor t
      in if in_region t then
           (let i = cur_y t + base t; n = n_rows t - 1 - region_bottom t; m = n_rows t - 1 + base t - n + 1;
                t = (move_blank (m - 1) i (eraseAttrData t) ^^ count p) t
            in (markRangeDirty (cur_y t) (region_bottom t) t)\<lparr>cur_x := 0\<rparr>)
         else t)"

definition deleteLines :: "params \<Rightarrow> vt \<Rightarrow> vt" where
  "deleteLines p t =
     (let t = restrictCursor t
      in if in_region t then
           (let n = cur_y t + base t; i = n_rows t - 1 - region_bottom t; i = n_rows t - 1 + base t - i;
                t = (move_blank n i (eraseAttrData t) ^^ count p) t
            in (markRangeDirty (cur_y t) (region_bottom t) t)\<lparr>cur_x := 0\<rparr>)
         else t)"

text \<open>The three handlers that test whether there is a line.\<close>

definition edit_row :: "(vt \<Rightarrow> bline \<Rightarrow> bline) \<Rightarrow> vt \<Rightarrow> vt" where
  "edit_row f t =
     (let t = restrictCursor t
      in case with_line (cur_y t + base t) (f t) t of None \<Rightarrow> t | Some t \<Rightarrow> markDirty (cur_y t) t)"

definition insertChars :: "params \<Rightarrow> vt \<Rightarrow> vt" where
  "insertChars p = edit_row (\<lambda>t. insertCells (cur_x t) (count p) (erase_cell t))"

definition deleteChars :: "params \<Rightarrow> vt \<Rightarrow> vt" where
  "deleteChars p = edit_row (\<lambda>t. deleteCells (cur_x t) (count p) (erase_cell t))"

definition eraseChars :: "params \<Rightarrow> vt \<Rightarrow> vt" where
  "eraseChars p = edit_row (\<lambda>t. replaceCells (cur_x t) (cur_x t + count p) (erase_cell t))"

definition scrollUp :: "params \<Rightarrow> vt \<Rightarrow> vt" where
  "scrollUp p t =
     (let t = (move_blank (base t + region_top t) (base t + region_bottom t) (eraseAttrData t) ^^ count p) t
      in markRangeDirty (region_top t) (region_bottom t) t)"

definition scrollDown :: "params \<Rightarrow> vt \<Rightarrow> vt" where
  "scrollDown p t =
     (let t = (move_blank (base t + region_bottom t) (base t + region_top t) DEFAULT_ATTR_DATA ^^ count p) t
      in markRangeDirty (region_top t) (region_bottom t) t)"

text \<open>The handlers for columns, over the rows of the region.\<close>

definition edit_columns :: "(bline \<Rightarrow> bline) \<Rightarrow> vt \<Rightarrow> vt option" where
  "edit_columns f t =
     (if in_region t then
        map_option (\<lambda>t. markRangeDirty (region_top t) (region_bottom t) t)
          (each (\<lambda>i t. with_line (base t + i) (\<lambda>l. (f l)\<lparr>is_wrapped := False\<rparr>) t) [region_top t..<region_bottom t + 1] t)
      else Some t)"

definition scrollLeft :: "params \<Rightarrow> vt \<Rightarrow> vt option" where
  "scrollLeft p t = edit_columns (deleteCells 0 (count p) (erase_cell t)) t"

definition scrollRight :: "params \<Rightarrow> vt \<Rightarrow> vt option" where
  "scrollRight p t = edit_columns (insertCells 0 (count p) (erase_cell t)) t"

definition insertColumns :: "params \<Rightarrow> vt \<Rightarrow> vt option" where
  "insertColumns p t = edit_columns (insertCells (cur_x t) (count p) (erase_cell t)) t"

definition deleteColumns :: "params \<Rightarrow> vt \<Rightarrow> vt option" where
  "deleteColumns p t = edit_columns (deleteCells (cur_x t) (count p) (erase_cell t)) t"

section \<open>The region, the saved cursor and the modes\<close>

text \<open>\<open>shiftElements(s, count, 1)\<close>; \<open>None\<close>: it throws.\<close>

definition cl_shift_forward :: "nat \<Rightarrow> nat \<Rightarrow> 'a clist \<Rightarrow> 'a clist option" where
  "cl_shift_forward s k c =
     (if k = 0 then Some c
      else if len c \<le> s then None
      else
        (let c = fold (\<lambda>i c. cl_set (s + i + 1) (cl_get (s + i) c) c) (rev [0..<k]) c;
             n = s + k + 1 - len c;
             over = len c + n - max_length c
         in Some ((fire_trim 1 ^^ over) (c\<lparr>len := len c + n - over, start_index := start_index c + over\<rparr>))))"

definition reverseIndex :: "vt \<Rightarrow> vt option" where
  "reverseIndex t =
     (let t = restrictCursor t
      in if cur_y t = region_top t then
           map_option (\<lambda>ls. markRangeDirty (region_top t) (region_bottom t)
               (set_lines (cl_set (cur_y t + base t) (Some (getBlankLine (eraseAttrData t) False t)) ls) t))
             (cl_shift_forward (cur_y t + base t) (region_bottom t - region_top t) (lines t))
         else Some (restrict_to (int (cur_x t)) (int (cur_y t) - 1) t))"

definition setScrollRegion :: "params \<Rightarrow> vt \<Rightarrow> vt" where
  "setScrollRegion p t =
     (let r = count p;
          k = (if length (numbers p) < 2 \<or> n_rows t < param 1 p \<or> param 1 p = 0 then n_rows t else param 1 p)
      in if r < k then setCursor 0 0 (t\<lparr>buf := (buf t)\<lparr>scroll_top := r - 1, scroll_bottom := k - 1\<rparr>\<rparr>) else t)"

definition saveCursor :: "vt \<Rightarrow> vt" where
  "saveCursor t = t\<lparr>saved_x := cur_x t, saved_y := base t + cur_y t, saved_attr := cur_attr t, saved_charset := charset t\<rparr>"

definition restoreCursor :: "vt \<Rightarrow> vt" where
  "restoreCursor t =
     restrictCursor (t\<lparr>cur_x := saved_x t, cur_y := saved_y t - base t, cur_attr := saved_attr t, charset := saved_charset t\<rparr>)"

definition softReset :: "vt \<Rightarrow> vt" where
  "softReset t =
     t\<lparr>insert_mode := False, origin_mode := False, wraparound_mode := True,
       buf := (buf t)\<lparr>scroll_top := 0, scroll_bottom := n_rows t - 1\<rparr>,
       cur_attr := DEFAULT_ATTR_DATA, cur_x := 0, cur_y := 0, charset := Map.empty, glevel := 0, charsets := (\<lambda>_. Map.empty)\<rparr>"

text \<open>\<open>setMode\<close> and \<open>resetMode\<close>.\<close>

definition set_mode :: "bool \<Rightarrow> params \<Rightarrow> vt \<Rightarrow> vt" where
  "set_mode on p t = (if 4 \<in> set (numbers p) then t\<lparr>insert_mode := on\<rparr> else t)"

text \<open>
  \<open>setModePrivate\<close> and \<open>resetModePrivate\<close>, one number; those not listed change nothing on the screen. The numbers
  that change the size of the screen or the buffer are left out, see \<open>left_out\<close>.
\<close>

definition set_private :: "bool \<Rightarrow> int \<Rightarrow> vt \<Rightarrow> vt" where
  "set_private on n t =
     (if n = 2 \<and> on then fold (\<lambda>e. setgCharset e Map.empty) [0, 1, 2, 3] t
      else if n = 6 then setCursor 0 0 (t\<lparr>origin_mode := on\<rparr>)
      else if n = 7 then t\<lparr>wraparound_mode := on\<rparr>
      else if n = 1048 then (if on then saveCursor t else restoreCursor t)
      else t)"

definition set_modes_private :: "bool \<Rightarrow> params \<Rightarrow> vt \<Rightarrow> vt" where
  "set_modes_private on p = fold (set_private on) (numbers p)"

definition screenAlignmentPattern :: "vt \<Rightarrow> vt option" where
  "screenAlignmentPattern t =
     (let e = code_cell 69 1 (cur_attr t); t = setCursor 0 0 t
      in map_option (\<lambda>t. setCursor 0 0 (markRangeDirty 0 (n_rows t - 1) t))
        (each (\<lambda>r t. with_line (base t + (cur_y t + r)) (\<lambda>l. (fill_line e l)\<lparr>is_wrapped := False\<rparr>) t) [0..<n_rows t] t))"

definition repeatPrecedingCharacter :: "params \<Rightarrow> vt \<Rightarrow> vt option" where
  "repeatPrecedingCharacter p t = (if preceding t = 0 then Some t else print (replicate (count p) (preceding t)) t)"

end
