(* ===== verification/XtermSteps.thy ===== *)
theory XtermSteps
  imports XtermScreen
begin

text \<open>
  What the handlers of \<open>XtermScreen\<close> keep: the invariant of the screen, and that every row a handler changes lies in
  the range of rows to repaint.
\<close>

section \<open>The invariant\<close>

definition charset_ok :: "charset \<Rightarrow> bool" where
  "charset_ok s \<longleftrightarrow> (\<forall>c g. s c = Some g \<longrightarrow> g < 65536)"

definition lines_fit :: "nat \<Rightarrow> bline clist \<Rightarrow> bool" where
  "lines_fit m c \<longleftrightarrow> list_all (\<lambda>x. case x of None \<Rightarrow> True | Some l \<Rightarrow> line_ok m l) (items c)"

definition vt_ok :: "vt \<Rightarrow> bool" where
  "vt_ok t \<longleftrightarrow> 2 \<le> n_cols t \<and> buffer_ok lines_ok items (n_rows t) (buf t) \<and> lines_fit (n_cols t) (lines t)
     \<and> cur_y t < n_rows t \<and> cur_x t \<le> n_cols t \<and> dirty_first t \<le> dirty_last t
     \<and> charset_ok (charset t) \<and> charset_ok (saved_charset t) \<and> (\<forall>e. charset_ok (charsets t e))
     \<and> \<not> is_combined (of_nat (preceding t))"

text \<open>The cells of a row of the screen.\<close>

definition row_cells :: "nat \<Rightarrow> vt \<Rightarrow> cell_data list option" where
  "row_cells j t = map_option cell_list (screen items (buf t) ! j)"

text \<open>
  A step of a handler: the invariant holds again, the size is the same, and a row outside the range to repaint shows what
  it showed before.
\<close>

definition good_step :: "vt \<Rightarrow> vt \<Rightarrow> bool" where
  "good_step t t' \<longleftrightarrow> vt_ok t' \<and> n_cols t' = n_cols t \<and> n_rows t' = n_rows t
     \<and> dirty_first t' \<le> dirty_first t \<and> dirty_last t \<le> dirty_last t'
     \<and> (\<forall>j<n_rows t. j < dirty_first t' \<or> dirty_last t' < j \<longrightarrow> row_cells j t' = row_cells j t)"

lemma good_step_refl: "vt_ok t \<Longrightarrow> good_step t t"
  by (simp add: good_step_def)

lemma good_step_trans: "good_step t u \<Longrightarrow> good_step u v \<Longrightarrow> good_step t v"
  unfolding good_step_def by (auto intro: order_trans)

lemma good_stepD: "good_step t t' \<Longrightarrow> vt_ok t'" "good_step t t' \<Longrightarrow> n_cols t' = n_cols t" "good_step t t' \<Longrightarrow> n_rows t' = n_rows t"
  by (simp_all add: good_step_def)

definition safe :: "(vt \<Rightarrow> vt option) \<Rightarrow> bool" where
  "safe f \<longleftrightarrow> (\<forall>t. vt_ok t \<longrightarrow> (\<exists>t'. f t = Some t' \<and> good_step t t'))"

definition keeps :: "(vt \<Rightarrow> vt) \<Rightarrow> bool" where
  "keeps f \<longleftrightarrow> (\<forall>t. vt_ok t \<longrightarrow> good_step t (f t))"

lemma safeE: "safe f \<Longrightarrow> vt_ok t \<Longrightarrow> (\<And>t'. f t = Some t' \<Longrightarrow> good_step t t' \<Longrightarrow> P) \<Longrightarrow> P"
  by (auto simp: safe_def)

lemma keepsD: "keeps f \<Longrightarrow> vt_ok t \<Longrightarrow> good_step t (f t)"
  by (simp add: keeps_def)

lemma keeps_comp: "keeps f \<Longrightarrow> keeps g \<Longrightarrow> keeps (\<lambda>t. g (f t))"
  unfolding keeps_def by (blast intro: good_step_trans dest: good_stepD(1))

lemma keeps_funpow: "keeps f \<Longrightarrow> keeps (f ^^ n)"
  by (induction n) (simp_all add: keeps_def good_step_refl, blast intro: good_step_trans dest: good_stepD(1))

lemma safe_bind: "safe f \<Longrightarrow> safe g \<Longrightarrow> safe (\<lambda>t. Option.bind (f t) g)"
  unfolding safe_def by (metis Option.bind.bind_lunit good_step_trans good_stepD(1))

lemma safe_map: "safe f \<Longrightarrow> keeps g \<Longrightarrow> safe (\<lambda>t. map_option g (f t))"
  unfolding safe_def keeps_def by (metis option.simps(9) good_step_trans good_stepD(1))

lemma safe_after: "keeps f \<Longrightarrow> safe g \<Longrightarrow> safe (\<lambda>t. g (f t))"
  unfolding safe_def keeps_def by (metis good_step_trans good_stepD(1))

lemma safe_Some: "keeps f \<Longrightarrow> safe (\<lambda>t. Some (f t))"
  by (simp add: safe_def keeps_def)

lemma safe_each: "(\<And>n. n \<in> set ns \<Longrightarrow> safe (f n)) \<Longrightarrow> safe (each f ns)"
proof (induction ns)
  case (Cons n ns)
  then have "safe (\<lambda>t. Option.bind (f n t) (each f ns))" by (intro safe_bind) simp_all
  then show ?case by (simp add: safe_def)
qed (simp add: safe_def good_step_refl)

section \<open>Members that do not show\<close>

text \<open>A step that leaves the buffer and the size alone and only widens the range.\<close>

lemma good_step_same:
  assumes "vt_ok t" and "buf t' = buf t" "n_cols t' = n_cols t" "n_rows t' = n_rows t"
    and "dirty_first t' \<le> dirty_first t" "dirty_last t \<le> dirty_last t'"
    and "cur_y t' < n_rows t" "cur_x t' \<le> n_cols t"
    and "charset_ok (charset t')" "charset_ok (saved_charset t')" "\<And>e. charset_ok (charsets t' e)"
    and "\<not> is_combined (of_nat (preceding t'))"
  shows "good_step t t'"
  using assms by (simp add: good_step_def vt_ok_def row_cells_def)

lemma mark_frame [simp]:
  "buf (markDirty e t) = buf t" "cur_x (markDirty e t) = cur_x t" "cur_y (markDirty e t) = cur_y t"
  "n_cols (markDirty e t) = n_cols t" "n_rows (markDirty e t) = n_rows t" "charset (markDirty e t) = charset t"
  "saved_charset (markDirty e t) = saved_charset t" "charsets (markDirty e t) = charsets t" "preceding (markDirty e t) = preceding t"
  "cur_attr (markDirty e t) = cur_attr t" "origin_mode (markDirty e t) = origin_mode t" "insert_mode (markDirty e t) = insert_mode t"
  "wraparound_mode (markDirty e t) = wraparound_mode t" "glevel (markDirty e t) = glevel t" "tab_stops (markDirty e t) = tab_stops t"
  "convert_eol (markDirty e t) = convert_eol t" "saved_x (markDirty e t) = saved_x t" "saved_y (markDirty e t) = saved_y t"
  "saved_attr (markDirty e t) = saved_attr t"
  by (simp_all add: markDirty_def)

lemma mark_range_frame [simp]:
  "buf (markRangeDirty e k t) = buf t" "cur_x (markRangeDirty e k t) = cur_x t" "cur_y (markRangeDirty e k t) = cur_y t"
  "n_cols (markRangeDirty e k t) = n_cols t" "n_rows (markRangeDirty e k t) = n_rows t" "charset (markRangeDirty e k t) = charset t"
  "saved_charset (markRangeDirty e k t) = saved_charset t" "charsets (markRangeDirty e k t) = charsets t"
  "preceding (markRangeDirty e k t) = preceding t" "cur_attr (markRangeDirty e k t) = cur_attr t"
  "origin_mode (markRangeDirty e k t) = origin_mode t" "insert_mode (markRangeDirty e k t) = insert_mode t"
  "wraparound_mode (markRangeDirty e k t) = wraparound_mode t" "glevel (markRangeDirty e k t) = glevel t"
  by (simp_all add: markRangeDirty_def Let_def split: prod.splits)

lemma mark_bounds:
  "dirty_first t \<le> dirty_last t \<Longrightarrow>
     dirty_first (markDirty e t) = min (dirty_first t) e \<and> dirty_last (markDirty e t) = max (dirty_last t) e"
  "e \<le> k \<Longrightarrow> dirty_first (markRangeDirty e k t) = min (dirty_first t) e \<and> dirty_last (markRangeDirty e k t) = max (dirty_last t) k"
  by (auto simp: markDirty_def markRangeDirty_def Let_def)

lemma keeps_mark: "keeps (markDirty e)"
  unfolding keeps_def
proof (intro allI impI)
  fix t
  assume "vt_ok t"
  then show "good_step t (markDirty e t)"
    using mark_bounds(1) [of t e] by (intro good_step_same) (simp_all add: vt_ok_def)
qed

lemma keeps_mark_at: "keeps (\<lambda>t. markDirty (f t) t)"
  using keeps_mark by (simp add: keeps_def)

section \<open>Changes of rows\<close>

text \<open>A step that changes at most the rows of \<open>R\<close>, wherever the range to repaint is.\<close>

definition changes :: "nat set \<Rightarrow> vt \<Rightarrow> vt \<Rightarrow> bool" where
  "changes R t t' \<longleftrightarrow> vt_ok t' \<and> n_cols t' = n_cols t \<and> n_rows t' = n_rows t
     \<and> dirty_first t' \<le> dirty_first t \<and> dirty_last t \<le> dirty_last t'
     \<and> (\<forall>j<n_rows t. j \<notin> R \<longrightarrow> row_cells j t' = row_cells j t)"

lemma changes_trans: "changes R t u \<Longrightarrow> changes S u v \<Longrightarrow> changes (R \<union> S) t v"
  unfolding changes_def by (auto intro: order_trans)

lemma changes_mono: "changes R t u \<Longrightarrow> R \<subseteq> S \<Longrightarrow> changes S t u"
  by (auto simp: changes_def)

lemma changes_good: "changes R t u \<Longrightarrow> (\<And>j. j \<in> R \<Longrightarrow> j < n_rows t \<Longrightarrow> dirty_first u \<le> j \<and> j \<le> dirty_last u) \<Longrightarrow> good_step t u"
  unfolding changes_def good_step_def by (metis leD)

lemma good_changes: "good_step t u \<Longrightarrow> changes {dirty_first u..dirty_last u} t u"
  by (auto simp: changes_def good_step_def)

lemma changes_same: "good_step t u \<Longrightarrow> buf u = buf t \<Longrightarrow> changes {} t u"
  by (simp add: changes_def good_step_def row_cells_def)

lemma set_lines_frame [simp]:
  "cur_x (set_lines ls t) = cur_x t" "cur_y (set_lines ls t) = cur_y t" "n_cols (set_lines ls t) = n_cols t"
  "n_rows (set_lines ls t) = n_rows t" "charset (set_lines ls t) = charset t" "saved_charset (set_lines ls t) = saved_charset t"
  "charsets (set_lines ls t) = charsets t" "preceding (set_lines ls t) = preceding t" "cur_attr (set_lines ls t) = cur_attr t"
  "origin_mode (set_lines ls t) = origin_mode t" "insert_mode (set_lines ls t) = insert_mode t"
  "wraparound_mode (set_lines ls t) = wraparound_mode t" "lines (set_lines ls t) = ls" "base (set_lines ls t) = base t"
  "region_top (set_lines ls t) = region_top t" "region_bottom (set_lines ls t) = region_bottom t"
  "dirty_first (set_lines ls t) = dirty_first t" "dirty_last (set_lines ls t) = dirty_last t"
  "ydisp (buf (set_lines ls t)) = ydisp (buf t)" "set_lines ks (set_lines ls t) = set_lines ks t"
  by (simp_all add: set_lines_def)

lemma vt_okD:
  assumes "vt_ok t"
  shows "lines_ok (lines t)" "clist_ok (lines t)" "len (lines t) = base t + n_rows t" "length (items (lines t)) = base t + n_rows t"
    "region_top t \<le> region_bottom t" "region_bottom t < n_rows t" "cur_y t < n_rows t" "2 \<le> n_cols t"
    "lines_fit (n_cols t) (lines t)" "cur_x t \<le> n_cols t" "dirty_first t \<le> dirty_last t"
  using assms by (auto simp: vt_ok_def buffer_ok_def lines_ok_def)

lemma fit_line: "vt_ok t \<Longrightarrow> j < base t + n_rows t \<Longrightarrow> \<exists>l. items (lines t) ! j = Some l \<and> cl_get j (lines t) = Some l \<and> line_ok (n_cols t) l"
proof -
  assume t: "vt_ok t" and j: "j < base t + n_rows t"
  then have "items (lines t) ! j \<in> set (items (lines t))" using vt_okD(4) [OF t] by (intro nth_mem) simp
  then show ?thesis
    using vt_okD(1,3,9) [OF t] j by (cases "cl_get j (lines t)") (auto simp: lines_ok_def lines_fit_def list_all_iff)
qed

lemma screen_row: "screen items (buf t) ! j = items (lines t) ! (base t + j)" if "vt_ok t" "j < n_rows t"
  using vt_okD(4) [OF that(1)] that(2) by (simp add: screen_def)

text \<open>The lines replaced by as many others.\<close>

lemma set_lines_ok:
  assumes t: "vt_ok t" and ls: "lines_ok ls" "len ls = len (lines t)" "lines_fit (n_cols t) ls"
  shows "vt_ok (set_lines ls t)"
  using t vt_okD [OF t] ls by (simp add: vt_ok_def buffer_ok_def)

lemma changes_lines:
  assumes "vt_ok t" and "lines_ok ls" "len ls = len (lines t)" "lines_fit (n_cols t) ls"
    and "\<And>j. j < n_rows t \<Longrightarrow> j \<notin> R \<Longrightarrow> items ls ! (base t + j) = items (lines t) ! (base t + j)"
  shows "changes R t (set_lines ls t)"
  using set_lines_ok [OF assms(1-4)] assms(5) screen_row [OF set_lines_ok [OF assms(1-4)]] screen_row [OF assms(1)]
  by (simp add: changes_def row_cells_def)

lemma lines_fit_set:
  assumes "clist_ok c" and "j < len c" and "lines_fit m c" and "line_ok m l"
  shows "lines_fit m (cl_set j (Some l) c)"
  using assms list_all_update [of "\<lambda>x. case x of None \<Rightarrow> True | Some l \<Rightarrow> line_ok m l" "items c" "Some l" j]
  by (simp add: lines_fit_def items_set)

lemma with_line_step:
  assumes t: "vt_ok t" and j: "j < base t + n_rows t" and f: "\<And>l. line_ok (n_cols t) l \<Longrightarrow> line_ok (n_cols t) (f l)"
  shows "\<exists>l. cl_get j (lines t) = Some l \<and> line_ok (n_cols t) l
    \<and> with_line j f t = Some (set_lines (cl_set j (Some (f l)) (lines t)) t)
    \<and> changes {y. base t + y = j} t (set_lines (cl_set j (Some (f l)) (lines t)) t)
    \<and> (\<forall>k<n_rows t. row_cells k (set_lines (cl_set j (Some (f l)) (lines t)) t)
          = (if base t + k = j then Some (cell_list (f l)) else row_cells k t))"
proof -
  obtain l where l: "cl_get j (lines t) = Some l" "line_ok (n_cols t) l" using fit_line [OF t j] by blast
  let ?ls = "cl_set j (Some (f l)) (lines t)"
  have s: "lines_ok ?ls" "items ?ls = (items (lines t))[j := Some (f l)]"
    using set_line_ok [OF vt_okD(1) [OF t], of j "f l"] j vt_okD(3) [OF t] by auto
  have fit: "lines_fit (n_cols t) ?ls" using lines_fit_set vt_okD(2,3,9) [OF t] f [OF l(2)] j by simp
  have c: "changes {y. base t + y = j} t (set_lines ?ls t)"
    by (rule changes_lines [OF t s(1) _ fit]) (simp_all add: s(2))
  have r: "row_cells k (set_lines ?ls t) = (if base t + k = j then Some (cell_list (f l)) else row_cells k t)" if "k < n_rows t" for k
    using screen_row [OF set_lines_ok [OF t s(1) _ fit], of k] screen_row [OF t that] that j vt_okD(4) [OF t]
    by (auto simp: row_cells_def s(2))
  show ?thesis using l c r by (auto simp: with_line_def)
qed

text \<open>A line in the range to repaint, and a change that does not show.\<close>

lemma with_line_good:
  assumes t: "vt_ok t" and j: "j = base t + y" "y < n_rows t" and d: "dirty_first t \<le> y" "y \<le> dirty_last t"
    and f: "\<And>l. line_ok (n_cols t) l \<Longrightarrow> line_ok (n_cols t) (f l)"
  shows "\<exists>ls. with_line j f t = Some (set_lines ls t) \<and> good_step t (set_lines ls t)"
proof -
  obtain l where l: "with_line j f t = Some (set_lines (cl_set j (Some (f l)) (lines t)) t)"
      "changes {k. base t + k = j} t (set_lines (cl_set j (Some (f l)) (lines t)) t)"
    using with_line_step [OF t, of j f] f j by (metis add_less_cancel_left)
  have "good_step t (set_lines (cl_set j (Some (f l)) (lines t)) t)"
    by (rule changes_good [OF l(2)]) (use j d in auto)
  then show ?thesis using l(1) by blast
qed

lemma with_line_hidden:
  assumes t: "vt_ok t" and j: "j < base t + n_rows t" and f: "\<And>l. line_ok (n_cols t) l \<Longrightarrow> line_ok (n_cols t) (f l)"
    and same: "\<And>l. cell_list (f l) = cell_list l"
  shows "\<exists>ls. with_line j f t = Some (set_lines ls t) \<and> changes {} t (set_lines ls t)"
proof -
  obtain l where l: "cl_get j (lines t) = Some l" "with_line j f t = Some (set_lines (cl_set j (Some (f l)) (lines t)) t)"
      "changes {y. base t + y = j} t (set_lines (cl_set j (Some (f l)) (lines t)) t)"
      "\<forall>k<n_rows t. row_cells k (set_lines (cl_set j (Some (f l)) (lines t)) t) = (if base t + k = j then Some (cell_list (f l)) else row_cells k t)"
    using with_line_step [OF t j, of f] f by blast
  have "row_cells k t = Some (cell_list l)" if "k < n_rows t" "base t + k = j" for k
    using screen_row [OF t that(1)] l(1) that vt_okD(3,4) [OF t] by (simp add: row_cells_def)
  with l(4) same have "row_cells k (set_lines (cl_set j (Some (f l)) (lines t)) t) = row_cells k t" if "k < n_rows t" for k
    using that by auto
  with l(2,3) show ?thesis by (auto simp: changes_def)
qed

text \<open>A loop over rows.\<close>

lemma each_rows:
  assumes t: "vt_ok t" and ns: "\<And>n. n \<in> set ns \<Longrightarrow> h n < n_rows t"
    and F: "\<And>n ls. n \<in> set ns \<Longrightarrow> F n (set_lines ls t) = with_line (base t + h n) f (set_lines ls t)"
    and f: "\<And>l. line_ok (n_cols t) l \<Longrightarrow> line_ok (n_cols t) (f l)"
  shows "\<exists>ls. each F ns t = Some (set_lines ls t) \<and> changes (h ` set ns) t (set_lines ls t)"
proof -
  have "\<exists>ls'. each F ns (set_lines ls t) = Some (set_lines ls' t) \<and> changes (h ` set ns) (set_lines ls t) (set_lines ls' t)"
    if "vt_ok (set_lines ls t)" for ls
    using ns F that
  proof (induction ns arbitrary: ls)
    case Nil
    then show ?case by (auto simp: changes_def)
  next
    case (Cons n ns)
    let ?u = "set_lines ls t"
    obtain l where l: "with_line (base t + h n) f ?u = Some (set_lines (cl_set (base t + h n) (Some (f l)) ls) t)"
        "changes {y. base t + y = base t + h n} ?u (set_lines (cl_set (base t + h n) (Some (f l)) ls) t)"
      using with_line_step [OF Cons.prems(3), of "base t + h n" f] Cons.prems(1) f by auto
    let ?v = "set_lines (cl_set (base t + h n) (Some (f l)) ls) t"
    have v: "vt_ok ?v" using l(2) by (simp add: changes_def)
    obtain ls' where ls': "each F ns ?v = Some (set_lines ls' t)" "changes (h ` set ns) ?v (set_lines ls' t)"
      using Cons.IH [OF _ _ v] Cons.prems(1,2) by auto
    have "changes (h ` set (n # ns)) ?u (set_lines ls' t)"
      by (rule changes_mono [OF changes_trans [OF l(2) ls'(2)]]) auto
    moreover have "each F (n # ns) ?u = Some (set_lines ls' t)"
      using Cons.prems(2) [of n ls] l(1) ls'(1) by simp
    ultimately show ?case by blast
  qed
  from this [of "lines t"] show ?thesis using t by (simp add: set_lines_def)
qed

text \<open>Scrolling.\<close>

lemma scroll_frame: "scroll l x b = Some b' \<Longrightarrow> scroll_top b' = scroll_top b \<and> scroll_bottom b' = scroll_bottom b"
  by (auto simp: scroll_def Let_def split: if_splits)

lemma blank_ok [simp]: "line_ok (n_cols t) (getBlankLine a w t)"
  by (simp add: getBlankLine_def line_ok_new)

lemma scrolled_row:
  assumes "i \<le> n" "n < length scr"
  shows "k < length scr \<Longrightarrow> scrolled i n x scr ! k = (if k = n then Some x else if i \<le> k \<and> k < n then scr ! (k + 1) else scr ! k)"
proof -
  assume k: "k < length scr"
  have l: "length (take i scr) = i" "length (drop (i + 1) (take (n + 1) scr)) = n - i" using assms by auto
  consider "k < i" | "i \<le> k" "k < n" | "k = n" | "n < k" by linarith
  then show ?thesis
  proof cases
    case 2
    then obtain e where e: "k = i + e" by (metis le_Suc_ex)
    moreover have "e < n - i" using 2 e by linarith
    ultimately show ?thesis using assms 2 by (simp add: scrolled_def nth_append)
  next
    case 4
    then obtain d where d: "k = Suc n + d" by (metis Suc_leI le_Suc_ex)
    have "\<not> Suc (n + d) - i < n - i" using assms(1) by linarith
    then show ?thesis using assms k d by (simp add: scrolled_def nth_append)
  qed (use assms k in \<open>simp_all add: scrolled_def nth_append\<close>)
qed

lemma scroll_screen_step:
  assumes t: "vt_ok t"
  shows "\<exists>b t'. scroll_screen w t = Some t' \<and> t' = markRangeDirty (region_top t) (region_bottom t) (t\<lparr>buf := b\<rparr>) \<and> good_step t t'
    \<and> region_top t' = region_top t \<and> region_bottom t' = region_bottom t
    \<and> (\<forall>k<n_rows t. row_cells k t' = (if k = region_bottom t then Some (replicate (n_cols t) (erase_cell t))
          else if region_top t \<le> k \<and> k < region_bottom t then row_cells (k + 1) t else row_cells k t))"
proof -
  let ?x = "getBlankLine (eraseAttrData t) w t"
  have b: "buffer_ok lines_ok items (n_rows t) (buf t)" using t by (simp add: vt_ok_def)
  obtain b' where b': "scroll circular_if ?x (buf t) = Some b'" "buffer_ok lines_ok items (n_rows t) b'"
      "screen items b' = scrolled (region_top t) (region_bottom t) ?x (screen items (buf t))"
      "history items b' = (if 0 < region_top t then history items (buf t)
        else drop (if is_full (lines t) then 1 else 0) (history items (buf t) @ [hd (screen items (buf t))]))"
    using cl.scroll_spec [OF b, of ?x] unfolding circular_full by blast
  have fr: "scroll_top b' = region_top t" "scroll_bottom b' = region_bottom t" using scroll_frame [OF b'(1)] by simp_all
  define t' where "t' = markRangeDirty (region_top t) (region_bottom t) (t\<lparr>buf := b'\<rparr>)"
  have s: "scroll_screen w t = Some t'" by (simp add: scroll_screen_def b'(1) fr t'_def)
  have ls: "length (screen items (buf t)) = n_rows t" using vt_okD(4) [OF t] by (simp add: screen_def)
  have split: "items (buf_lines c) = history items c @ screen items c" for c :: "bline clist scroll_buffer"
    by (simp add: history_def screen_def)
  let ?P = "\<lambda>x. case x of None \<Rightarrow> True | Some l \<Rightarrow> line_ok (n_cols t) l"
  have old: "list_all ?P (history items (buf t))" "list_all ?P (screen items (buf t))"
    using vt_okD(9) [OF t] unfolding lines_fit_def split list_all_append by auto
  have hd: "?P (hd (screen items (buf t)))"
    using old(2) ls vt_okD(7) [OF t] by (cases "screen items (buf t)") auto
  have "list_all ?P (screen items b')" unfolding b'(3) scrolled_def by (simp add: old(2) list_all_parts)
  moreover have "list_all ?P (history items b')" unfolding b'(4) by (simp add: old(1) hd list_all_parts)
  ultimately have fit: "lines_fit (n_cols t) (buf_lines b')" unfolding lines_fit_def split by simp
  have ok: "vt_ok (t\<lparr>buf := b'\<rparr>)" using t b'(2) fit by (simp add: vt_ok_def)
  have dirty: "dirty_first t' = min (dirty_first t) (region_top t)" "dirty_last t' = max (dirty_last t) (region_bottom t)"
    using mark_bounds(2) [OF vt_okD(5) [OF t], of "t\<lparr>buf := b'\<rparr>"] by (simp_all add: t'_def)
  have "dirty_first t' \<le> dirty_last t'" using vt_okD(11) [OF t] by (simp add: dirty min.coboundedI1 max.coboundedI1)
  then have ok': "vt_ok t'" using ok by (simp add: vt_ok_def t'_def)
  have c: "cell_list ?x = replicate (n_cols t) (erase_cell t)" by (simp add: getBlankLine_def cell_list_new erase_cell_def)
  have rows: "row_cells k t' = (if k = region_bottom t then Some (replicate (n_cols t) (erase_cell t))
      else if region_top t \<le> k \<and> k < region_bottom t then row_cells (k + 1) t else row_cells k t)" if "k < n_rows t" for k
    using scrolled_row [of "region_top t" "region_bottom t" "screen items (buf t)" k ?x] vt_okD(5,6) [OF t] ls that
    by (simp add: row_cells_def t'_def b'(3) c)
  have "changes {region_top t..region_bottom t} t t'"
    using ok' rows vt_okD(5) [OF t] unfolding changes_def dirty by (auto simp: t'_def)
  then have "good_step t t'" by (rule changes_good) (auto simp: dirty)
  with s rows fr show ?thesis unfolding t'_def by auto
qed

text \<open>A line taken out and a blank one put in.\<close>

lemma items_move:
  assumes ok: "lines_ok c" and d: "d < len c" and i: "i < len c"
  shows "items (cl_splice i 0 [x] (cl_splice d 1 [] c))
      = (let v = take d (items c) @ drop (d + 1) (items c) in take i v @ Some x # drop i v)"
    and "lines_ok (cl_splice i 0 [x] (cl_splice d 1 [] c))"
    and "len (cl_splice i 0 [x] (cl_splice d 1 [] c)) = len c"
proof -
  have c: "clist_ok c" "None \<notin> set (items c)" using ok by (simp_all add: lines_ok_def)
  let ?c = "cl_splice d 1 [] c" and ?v = "take d (items c) @ drop (d + 1) (items c)"
  have o: "splice_overflow 1 (length []) c = 0" using c(1) by (auto simp: splice_overflow_def clist_ok_def)
  have s: "items ?c = ?v" "clist_ok ?c" "max_length ?c = max_length c"
    using items_splice [OF c(1), of d 1 "[]"] d o by simp_all
  have l: "len ?c = len c - 1" using arg_cong [OF s(1), of length] d by simp
  have o': "splice_overflow 0 (length [x]) ?c = 0" using c(1) d by (auto simp: splice_overflow_def l [simplified] s(3) [simplified] clist_ok_def)
  have i': "i + 0 \<le> len ?c" using i l by simp
  have m: "items (cl_splice i 0 [x] ?c) = take i ?v @ Some x # drop i ?v"
    using items_splice(1) [OF s(2) i', of "[x]"] unfolding o' s(1) by simp
  then show "items (cl_splice i 0 [x] ?c) = (let v = ?v in take i v @ Some x # drop i v)" by (simp only: Let_def)
  have "clist_ok (cl_splice i 0 [x] ?c)" using items_splice(2) [OF s(2) i', of "[x]"] unfolding o' by simp
  moreover have "None \<notin> set (take i ?v @ Some x # drop i ?v)" using c(2) by (auto dest!: in_set_takeD in_set_dropD)
  ultimately show "lines_ok (cl_splice i 0 [x] ?c)" by (simp only: lines_ok_def m simp_thms)
  show "len (cl_splice i 0 [x] ?c) = len c" using arg_cong [OF m, of length] d i by simp
qed

lemma nth_inserted:
  assumes "i \<le> length w" and "k \<le> length w"
  shows "(take i w @ x # drop i w) ! k = (if k < i then w ! k else if k = i then x else w ! (k - 1))"
proof -
  have "i + (k - i - 1) = k - 1" if "i < k" using that by linarith
  then show ?thesis using assms by (auto simp: nth_append nth_Cons')
qed

lemma moved_row:
  assumes "d < length v" "i < length v" "k < length v"
  shows "(let w = take d v @ drop (d + 1) v in take i w @ x # drop i w) ! k
    = (if k = i then x else if d \<le> k \<and> k < i then v ! (k + 1) else if i < k \<and> k \<le> d then v ! (k - 1) else v ! k)"
proof -
  define w where "w = take d v @ drop (d + 1) v"
  have l: "length w = length v - 1" using assms(1) by (simp add: w_def)
  have w: "w ! j = (if j < d then v ! j else v ! (j + 1))" if "j < length v - 1" for j
    using assms(1) that by (simp add: w_def nth_append)
  have "(take i w @ x # drop i w) ! k = (if k < i then w ! k else if k = i then x else w ! (k - 1))"
    by (rule nth_inserted) (use l assms in linarith)+
  then show ?thesis using w [of k] w [of "k - 1"] assms unfolding Let_def w_def [symmetric] by auto
qed

lemma move_blank_step:
  assumes t: "vt_ok t" and d: "d < n_rows t" and i: "i < n_rows t"
  shows "vt_ok (move_blank (base t + d) (base t + i) a t)"
    and "k < n_rows t \<Longrightarrow> row_cells k (move_blank (base t + d) (base t + i) a t)
      = (if k = i then Some (replicate (n_cols t) (getNullCell a)) else if d \<le> k \<and> k < i then row_cells (k + 1) t
         else if i < k \<and> k \<le> d then row_cells (k - 1) t else row_cells k t)"
proof -
  let ?D = "base t + d" and ?I = "base t + i" and ?x = "getBlankLine a False t"
  let ?ls = "cl_splice ?I 0 [?x] (cl_splice ?D 1 [] (lines t))"
  have l: "?D < len (lines t)" "?I < len (lines t)" using d i vt_okD(3) [OF t] by simp_all
  note m = items_move [OF vt_okD(1) [OF t] l, of ?x]
  have fit: "lines_fit (n_cols t) ?ls"
    using vt_okD(9) [OF t] unfolding lines_fit_def m(1) by (simp add: Let_def list_all_parts del: drop_append take_append)
  show ok: "vt_ok (move_blank ?D ?I a t)" unfolding move_blank_def by (rule set_lines_ok [OF t m(2,3) fit])
  have c: "cell_list ?x = replicate (n_cols t) (getNullCell a)" by (simp add: getBlankLine_def cell_list_new)
  assume k: "k < n_rows t"
  have "items ?ls ! (base t + k) = (if k = i then Some ?x else if d \<le> k \<and> k < i then items (lines t) ! (base t + (k + 1))
      else if i < k \<and> k \<le> d then items (lines t) ! (base t + (k - 1)) else items (lines t) ! (base t + k))"
    unfolding m(1) using moved_row [of ?D "items (lines t)" ?I "base t + k" "Some ?x"] l k vt_okD(3) [OF t] by auto
  then show "row_cells k (move_blank ?D ?I a t) = (if k = i then Some (replicate (n_cols t) (getNullCell a))
      else if d \<le> k \<and> k < i then row_cells (k + 1) t else if i < k \<and> k \<le> d then row_cells (k - 1) t else row_cells k t)"
    using screen_row [OF ok, of k] screen_row [OF t] k d i by (auto simp: row_cells_def move_blank_def c)
qed

lemma move_blank_frame [simp]:
  "base (move_blank d i a t) = base t" "n_rows (move_blank d i a t) = n_rows t" "n_cols (move_blank d i a t) = n_cols t"
  "dirty_first (move_blank d i a t) = dirty_first t" "dirty_last (move_blank d i a t) = dirty_last t"
  "cur_y (move_blank d i a t) = cur_y t" "cur_x (move_blank d i a t) = cur_x t"
  "region_top (move_blank d i a t) = region_top t" "region_bottom (move_blank d i a t) = region_bottom t"
  by (simp_all add: move_blank_def)

lemma move_blanks:
  assumes "vt_ok t" and "d < n_rows t" and "i < n_rows t"
  shows "\<exists>ls. (move_blank (base t + d) (base t + i) a ^^ n) t = set_lines ls t
    \<and> changes {min d i..max d i} t (set_lines ls t)"
proof (induction n)
  case 0
  then show ?case using assms(1) by (auto simp: changes_def intro!: exI [of _ "lines t"]) (simp_all add: set_lines_def)
next
  case (Suc n)
  then obtain ls where ls: "(move_blank (base t + d) (base t + i) a ^^ n) t = set_lines ls t"
      "changes {min d i..max d i} t (set_lines ls t)" by blast
  let ?u = "set_lines ls t"
  have u: "vt_ok ?u" using ls(2) by (simp add: changes_def)
  let ?v = "move_blank (base t + d) (base t + i) a ?u"
  have v: "vt_ok ?v" using move_blank_step(1) [OF u] assms(2,3) by simp
  have "row_cells k ?v = row_cells k ?u" if "k < n_rows t" "k \<notin> {min d i..max d i}" for k
    using move_blank_step(2) [OF u, of d i k a] assms(2,3) that by auto
  then have "changes {min d i..max d i} ?u ?v" using v by (simp add: changes_def)
  then have c: "changes {min d i..max d i} t ?v" using changes_trans [OF ls(2)] by fastforce
  have "(move_blank (base t + d) (base t + i) a ^^ Suc n) t = ?v" by (simp add: ls(1))
  moreover obtain ls' where "?v = set_lines ls' t" by (simp add: move_blank_def)
  ultimately show ?case using c by auto
qed

section \<open>The handlers\<close>

text \<open>The cursor.\<close>

lemma restrict_frame [simp]:
  "buf (restrict_to x y t) = buf t" "n_cols (restrict_to x y t) = n_cols t" "n_rows (restrict_to x y t) = n_rows t"
  "cur_attr (restrict_to x y t) = cur_attr t" "origin_mode (restrict_to x y t) = origin_mode t"
  "charset (restrict_to x y t) = charset t" "charsets (restrict_to x y t) = charsets t"
  "saved_charset (restrict_to x y t) = saved_charset t" "preceding (restrict_to x y t) = preceding t"
  by (simp_all add: restrict_to_def Let_def)

text \<open>Where the cursor ends up; its row is marked. The start may lie outside, after \<open>restoreCursor\<close>.\<close>

lemma restrict_in:
  assumes "2 \<le> n_cols t" and "region_top t \<le> region_bottom t" and "region_bottom t < n_rows t" and "dirty_first t \<le> dirty_last t"
  shows "cur_x (restrict_to x y t) < n_cols t" "cur_y (restrict_to x y t) < n_rows t"
    "dirty_first (restrict_to x y t) = min (dirty_first t) (cur_y (restrict_to x y t))"
    "dirty_last (restrict_to x y t) = max (dirty_last t) (cur_y (restrict_to x y t))"
proof -
  show "cur_x (restrict_to x y t) < n_cols t" using assms(1) by (simp add: restrict_to_def Let_def)
  show "cur_y (restrict_to x y t) < n_rows t" using assms(2,3) by (simp add: restrict_to_def Let_def) linarith
  show "dirty_first (restrict_to x y t) = min (dirty_first t) (cur_y (restrict_to x y t))"
    "dirty_last (restrict_to x y t) = max (dirty_last t) (cur_y (restrict_to x y t))"
    unfolding restrict_to_def Let_def using assms(4) mark_bounds(1) by simp_all
qed

lemma restrict_step:
  assumes t: "vt_ok t"
  shows "good_step t (restrict_to x y t)" and "dirty_first (restrict_to x y t) \<le> cur_y (restrict_to x y t)"
    and "cur_y (restrict_to x y t) \<le> dirty_last (restrict_to x y t)" and "cur_x (restrict_to x y t) < n_cols t"
proof -
  note r = restrict_in [OF vt_okD(8,5,6,11) [OF t], of x y]
  show "good_step t (restrict_to x y t)" using t r by (intro good_step_same) (simp_all add: vt_ok_def)
qed (use restrict_in [OF vt_okD(8,5,6,11) [OF t], of x y] in simp_all)

lemma keeps_cursor:
  "keeps (restrict_to x y)" "keeps restrictCursor" "keeps (setCursor e k)" "keeps (moveCursor e k)"
proof -
  show r: "keeps (restrict_to x y)" for x y by (simp add: keeps_def restrict_step)
  show c: "keeps restrictCursor" by (simp add: keeps_def restrictCursor_def restrict_step)
  let ?m = "\<lambda>t. markDirty (cur_y t) t"
  show s: "keeps (setCursor e k)" for e k
    unfolding keeps_def
  proof (intro allI impI)
    fix t
    assume t: "vt_ok t"
    let ?r = "\<lambda>t. restrict_to e (if origin_mode t then int (region_top t) + k else k) t"
    have 1: "good_step t (?m t)" by (rule keepsD [OF keeps_mark t])
    have 2: "good_step (?m t) (?r (?m t))" by (rule restrict_step(1) [OF good_stepD(1) [OF 1]])
    have 3: "good_step (?r (?m t)) (?m (?r (?m t)))" by (rule keepsD [OF keeps_mark good_stepD(1) [OF 2]])
    show "good_step t (setCursor e k t)"
      unfolding setCursor_def Let_def by (rule good_step_trans [OF good_step_trans [OF 1 2] 3])
  qed
  show "keeps (moveCursor e k)"
    unfolding keeps_def moveCursor_def Let_def using keepsD [OF c] keepsD [OF s] good_stepD(1) good_step_trans by blast
qed

lemma keeps_at: "(\<And>t. vt_ok t \<Longrightarrow> \<exists>g. f t = g t \<and> keeps g) \<Longrightarrow> keeps f"
  unfolding keeps_def by (metis (no_types))

lemma keeps_x: "(\<And>t. vt_ok t \<Longrightarrow> f t \<le> n_cols t) \<Longrightarrow> keeps (\<lambda>t. t\<lparr>cur_x := f t\<rparr>)"
  unfolding keeps_def by (intro allI impI good_step_same) (simp_all add: vt_ok_def)

lemma stops_in: "vt_ok t \<Longrightarrow> nextStop t \<le> n_cols t" "vt_ok t \<Longrightarrow> prevStop t \<le> n_cols t"
  by (simp_all add: nextStop_def prevStop_def min.coboundedI1)

lemma keeps_controls:
  "keeps carriageReturn" "keeps backspace" "keeps tab" "keeps tabSet" "keeps (tabClear p)"
  "keeps (cursorForwardTab p)" "keeps (cursorBackwardTab p)"
proof -
  show "keeps carriageReturn" unfolding carriageReturn_def by (rule keeps_x) simp
  have "keeps (\<lambda>t. if 0 < cur_x t then t\<lparr>cur_x := cur_x t - 1\<rparr> else t)"
    using keeps_x [of "\<lambda>t. cur_x t - 1"] vt_okD(10) good_step_refl by (auto simp: keeps_def intro: diff_le_self [THEN order_trans])
  then show "keeps backspace" unfolding backspace_def Let_def by (rule keeps_comp [OF keeps_cursor(2)])
  show "keeps tab"
    using keeps_x [of nextStop] stops_in(1) good_step_refl by (auto simp: keeps_def tab_def)
  have "keeps (\<lambda>t. t\<lparr>tab_stops := f t\<rparr>)" for f
    unfolding keeps_def by (intro allI impI good_step_same) (simp_all add: vt_ok_def)
  note stops = this
  show "keeps tabSet" unfolding tabSet_def by (rule stops)
  show "keeps (tabClear p)"
    using keepsD [OF stops] good_step_refl by (auto simp: keeps_def tabClear_def)
  have "keeps ((\<lambda>t. t\<lparr>cur_x := nextStop t\<rparr>) ^^ count p)" "keeps ((\<lambda>t. t\<lparr>cur_x := prevStop t\<rparr>) ^^ count p)"
    by (intro keeps_funpow keeps_x stops_in; assumption)+
  then show "keeps (cursorForwardTab p)" "keeps (cursorBackwardTab p)"
    unfolding cursorForwardTab_def cursorBackwardTab_def using good_step_refl by (auto simp: keeps_def)
qed

lemma charset_ok_empty [simp]: "charset_ok Map.empty"
  by (simp add: charset_ok_def)

lemma charset_ok_table: "charset_ok (charset_table c)"
  unfolding charset_ok_def
proof (intro allI impI)
  fix k g
  assume g: "charset_table c k = Some g"
  have "list_all (\<lambda>(_, t). list_all (\<lambda>(_, g). g < 65536) t) CHARSETS" by (simp add: CHARSETS_def)
  then have small: "g < 65536" if "(names, t) \<in> set CHARSETS" "(k, g) \<in> set t" for names t using that by (fastforce simp: list_all_iff)
  obtain names t where "List.find (\<lambda>(names, _). c \<in> of_char ` set names) CHARSETS = Some (names, t)" "map_of t k = Some g"
    using g by (auto simp: charset_table_def split: option.splits)
  moreover from this(1) have "(names, t) \<in> set CHARSETS" unfolding find_Some_iff by (metis nth_mem)
  ultimately show "g < 65536" using small by (blast dest: map_of_SomeD)
qed

lemma keeps_charsets:
  "charset_ok s \<Longrightarrow> keeps (setgCharset e s)" "keeps (setgLevel e)" "keeps selectDefaultCharset" "keeps (selectCharset a b)"
proof -
  show set: "charset_ok s \<Longrightarrow> keeps (setgCharset e s)" for e s
    unfolding keeps_def by (intro allI impI good_step_same) (simp_all add: vt_ok_def setgCharset_def Let_def)
  show lev: "keeps (setgLevel e)" for e
    unfolding keeps_def by (intro allI impI good_step_same) (simp_all add: vt_ok_def setgLevel_def)
  show "keeps selectDefaultCharset" using keeps_comp [OF lev set] by (simp add: selectDefaultCharset_def [abs_def])
  show "keeps (selectCharset a b)"
    using keepsD [OF set [OF charset_ok_table]] good_step_refl by (auto simp: keeps_def selectCharset_def split: option.split)
qed

lemma keeps_moves:
  "keeps (cursorUp p)" "keeps (cursorDown p)" "keeps (cursorForward p)" "keeps (cursorBackward p)" "keeps (cursorNextLine p)"
  "keeps (cursorPrecedingLine p)" "keeps (cursorCharAbsolute p)" "keeps (cursorPosition p)" "keeps (hPositionRelative p)"
  "keeps (linePosAbsolute p)" "keeps (vPositionRelative p)"
proof -
  note m = keepsD [OF keeps_cursor(4)] and c = keepsD [OF keeps_cursor(3)]
  show u: "keeps (cursorUp p)" and d: "keeps (cursorDown p)" by (simp_all add: keeps_def cursorUp_def cursorDown_def m)
  have z: "keeps (\<lambda>t. t\<lparr>cur_x := 0\<rparr>)" by (rule keeps_x) simp
  show "keeps (cursorNextLine p)" "keeps (cursorPrecedingLine p)"
    using keeps_comp [OF d z] keeps_comp [OF u z] by (simp_all add: cursorNextLine_def [abs_def] cursorPrecedingLine_def [abs_def])
qed (simp_all add: keeps_def cursorForward_def cursorBackward_def cursorCharAbsolute_def cursorPosition_def hPositionRelative_def
    linePosAbsolute_def vPositionRelative_def keepsD [OF keeps_cursor(4)] keepsD [OF keeps_cursor(3)])

text \<open>Erasing.\<close>

lemma erase_cell_ok [simp]: "cell_ok (erase_cell t)"
  by (simp add: erase_cell_def)

lemma line_ok_wrap: "line_ok m l \<Longrightarrow> line_ok m (if w then l\<lparr>is_wrapped := False\<rparr> else l)"
  by (simp add: line_ok_ops(8))

text \<open>The cursor on the screen and its row in the range to repaint.\<close>

definition ready :: "vt \<Rightarrow> bool" where
  "ready t \<longleftrightarrow> vt_ok t \<and> dirty_first t \<le> cur_y t \<and> cur_y t \<le> dirty_last t \<and> cur_x t < n_cols t"

lemma restrict_ready: "vt_ok t \<Longrightarrow> good_step t (restrictCursor t) \<and> ready (restrictCursor t)"
  using restrict_step [of t "int (cur_x t)" "int (cur_y t)"] good_stepD(1) good_stepD(2)
  by (fastforce simp: ready_def restrictCursor_def)

lemma safe_restricted:
  assumes "\<And>t. ready t \<Longrightarrow> \<exists>t'. f t = Some t' \<and> good_step t t'"
  shows "safe (\<lambda>t. f (restrictCursor t))"
  using assms restrict_ready unfolding safe_def by (meson good_step_trans)

lemma erase_line_step:
  assumes "ready t"
  shows "\<exists>ls. eraseInBufferLine (cur_y t) k r w t = Some (set_lines ls t) \<and> good_step t (set_lines ls t)"
  unfolding eraseInBufferLine_def Let_def
  by (rule with_line_good [where y = "cur_y t"])
    (use assms in \<open>auto simp: ready_def vt_okD(7) intro!: line_ok_wrap line_ok_ops\<close>)

lemma reset_lines:
  assumes "vt_ok t" and "\<And>n. n \<in> set ns \<Longrightarrow> n < n_rows t"
  shows "\<exists>ls. each resetBufferLine ns t = Some (set_lines ls t) \<and> changes (set ns) t (set_lines ls t)"
  using each_rows [of t ns "\<lambda>n. n" resetBufferLine "\<lambda>l. (fill_line (erase_cell t) l)\<lparr>is_wrapped := False\<rparr>"] assms
  by (simp add: resetBufferLine_def erase_cell_def eraseAttrData_def line_ok_ops)

lemma erase_below_step:
  assumes t: "ready t"
  shows "\<exists>t'. erase_below t = Some t' \<and> good_step t t'"
proof -
  have v: "vt_ok t" using t by (simp add: ready_def)
  have m: "markDirty (cur_y t) t = t" using t by (simp add: markDirty_def ready_def)
  obtain ls where a: "eraseInBufferLine (cur_y t) (cur_x t) (n_cols t) (cur_x t = 0) t = Some (set_lines ls t)"
      "good_step t (set_lines ls t)" using erase_line_step [OF t] by blast
  let ?u = "set_lines ls t"
  obtain ls' where b: "each resetBufferLine [cur_y t + 1..<n_rows t] ?u = Some (set_lines ls' ?u)"
      "changes (set [cur_y t + 1..<n_rows t]) ?u (set_lines ls' ?u)"
    using reset_lines [OF good_stepD(1) [OF a(2)], of "[cur_y t + 1..<n_rows t]"] by auto
  let ?v = "markDirty (n_rows t) (set_lines ls' ?u)"
  have d: "dirty_first ?v = min (dirty_first t) (n_rows t)" "dirty_last ?v = max (dirty_last t) (n_rows t)"
    using mark_bounds(1) [of "set_lines ls' ?u" "n_rows t"] vt_okD(11) [OF v] by simp_all
  have "vt_ok (set_lines ls' ?u)" using b(2) by (simp add: changes_def)
  then have "changes {} (set_lines ls' ?u) ?v" by (intro changes_same keepsD [OF keeps_mark]) simp_all
  then have c: "changes (set [cur_y t + 1..<n_rows t]) ?u ?v" using changes_trans [OF b(2)] by fastforce
  have "good_step ?u ?v"
    by (rule changes_good [OF c]) (use t d in \<open>auto simp: ready_def\<close>)
  then have "good_step t ?v" by (rule good_step_trans [OF a(2)])
  then show ?thesis using a(1) b(1) by (simp add: erase_below_def Let_def m)
qed

lemma erase_screen_step:
  assumes t: "vt_ok t"
  shows "\<exists>t'. erase_screen t = Some t' \<and> good_step t t'"
proof -
  let ?u = "markDirty (n_rows t - 1) t"
  have u: "good_step t ?u" by (rule keepsD [OF keeps_mark t])
  have du: "dirty_first ?u = min (dirty_first t) (n_rows t - 1)" "dirty_last ?u = max (dirty_last t) (n_rows t - 1)"
    using mark_bounds(1) vt_okD(11) [OF t] by simp_all
  obtain ls where b: "each resetBufferLine (rev [0..<n_rows t]) ?u = Some (set_lines ls ?u)"
      "changes (set (rev [0..<n_rows t])) ?u (set_lines ls ?u)"
    using reset_lines [OF good_stepD(1) [OF u], of "rev [0..<n_rows t]"] by auto
  let ?v = "markDirty 0 (set_lines ls ?u)"
  have d: "dirty_first ?v = 0" "n_rows t - 1 \<le> dirty_last ?v"
    using mark_bounds(1) [of "set_lines ls ?u" 0] vt_okD(11) [OF good_stepD(1) [OF u]] du by simp_all
  have "vt_ok (set_lines ls ?u)" using b(2) by (simp add: changes_def)
  then have "changes {} (set_lines ls ?u) ?v" by (intro changes_same keepsD [OF keeps_mark]) simp_all
  then have c: "changes (set (rev [0..<n_rows t])) ?u ?v" using changes_trans [OF b(2)] by fastforce
  have "good_step ?u ?v"
    by (rule changes_good [OF c]) (use d in auto)
  then have "good_step t ?v" by (rule good_step_trans [OF u])
  then show ?thesis using b(1) by (simp add: erase_screen_def)
qed

text \<open>The line behind the last one: the first one of a full list, or a place of the array that is not in use.\<close>

lemma with_line_behind:
  assumes t: "vt_ok t" and l: "cl_get (len (lines t)) (lines t) = Some l"
    and f: "\<And>l. line_ok (n_cols t) l \<Longrightarrow> line_ok (n_cols t) (f l)" and same: "\<And>l. cell_list (f l) = cell_list l"
  shows "\<exists>ls. with_line (len (lines t)) f t = Some (set_lines ls t) \<and> changes {} t (set_lines ls t)"
proof (cases "len (lines t) = max_length (lines t)")
  case True
  have "with_line (len (lines t)) f t = with_line 0 f t"
    using get_cyclic [of 0 "lines t"] set_cyclic [of 0 "lines t"] by (simp add: with_line_def True)
  then show ?thesis using with_line_hidden [OF t, of 0 f] f same vt_okD(7) [OF t] by auto
next
  case False
  let ?ls = "cl_set (len (lines t)) (Some (f l)) (lines t)"
  have m: "len (lines t) < max_length (lines t)" using False vt_okD(2) [OF t] by (simp add: clist_ok_def)
  have i: "items ?ls = items (lines t)" using m by (auto intro!: nth_equalityI simp: get_set)
  have "changes {} t (set_lines ?ls t)"
    using vt_okD(1,9) [OF t] by (intro changes_lines [OF t]) (simp_all add: i lines_ok_def lines_fit_def)
  then show ?thesis using l by (auto simp: with_line_def)
qed

lemma unwrap_line:
  assumes "vt_ok t" and "j \<le> len (lines t)"
  shows "(with_line j (\<lambda>l. l\<lparr>is_wrapped := w\<rparr>) t = None \<and> j = len (lines t) \<and> cl_get j (lines t) = None)
    \<or> (\<exists>ls. with_line j (\<lambda>l. l\<lparr>is_wrapped := w\<rparr>) t = Some (set_lines ls t) \<and> changes {} t (set_lines ls t))"
proof (cases "j < len (lines t)")
  case True
  then show ?thesis
    using with_line_hidden [OF assms(1), of j "\<lambda>l. l\<lparr>is_wrapped := w\<rparr>"] vt_okD(3) [OF assms(1)] by (auto simp: line_ok_ops)
next
  case False
  then have j: "j = len (lines t)" using assms(2) by simp
  show ?thesis
  proof (cases "cl_get j (lines t)")
    case None
    then show ?thesis using j by (auto simp: with_line_def)
  next
    case (Some l)
    then show ?thesis using with_line_behind [OF assms(1), of l "\<lambda>l. l\<lparr>is_wrapped := w\<rparr>"] j by (auto simp: line_ok_ops)
  qed
qed

text \<open>
  When \<open>erase_above\<close> throws: nothing has scrolled off the screen, the cursor is at the end of the last row, and the
  place behind the last line was never written.
\<close>

definition above_throws :: "vt \<Rightarrow> bool" where
  "above_throws t \<longleftrightarrow> n_cols t \<le> cur_x t + 1 \<and> base t = 0 \<and> cur_y t + 1 = n_rows t \<and> cl_get (n_rows t) (lines t) = None"

lemma get_other: "i < max_length c \<Longrightarrow> j < max_length c \<Longrightarrow> i \<noteq> j \<Longrightarrow> cl_get j (cl_set i x c) = cl_get j c"
  by (simp add: get_set)

lemma behind_line_erased:
  assumes t: "ready t" and e: "eraseInBufferLine (cur_y t) k r w t = Some (set_lines ls t)"
  shows "cl_get (len (lines t)) ls = None \<longleftrightarrow> cl_get (len (lines t)) (lines t) = None"
proof -
  let ?c = "lines t" and ?j = "base t + cur_y t"
  have v: "vt_ok t" "?j < len ?c" using t vt_okD(3,7) [of t] by (auto simp: ready_def)
  obtain x where ls: "ls = cl_set ?j (Some x) ?c"
    using arg_cong [OF e, of "map_option lines"] by (auto simp: eraseInBufferLine_def with_line_def)
  obtain y where y: "cl_get ?j ?c = Some y" using fit_line [OF v(1), of ?j] v vt_okD(3) [OF v(1)] by auto
  have m: "0 < max_length ?c" "len ?c \<le> max_length ?c" using vt_okD(2) [OF v(1)] by (simp_all add: clist_ok_def)
  show ?thesis
  proof (cases "len ?c = max_length ?c")
    case True
    then have w: "cl_get (len ?c) c = cl_get 0 c" if "max_length c = max_length ?c" for c using get_cyclic [of 0 c] that by simp
    obtain z where "cl_get 0 ?c = Some z" using fit_line [OF v(1), of 0] vt_okD(7) [OF v(1)] by auto
    then show ?thesis using w [of ls] w [of ?c] m v(2) get_set [of ?j ?c 0 "Some x"] by (auto simp: ls)
  next
    case False
    then show ?thesis using get_other [of ?j ?c "len ?c" "Some x"] m v(2) by (simp add: ls)
  qed
qed

lemma erase_above_step:
  assumes t: "ready t"
  shows "if above_throws t then erase_above t = None else \<exists>t'. erase_above t = Some t' \<and> good_step t t'"
proof -
  have v: "vt_ok t" using t by (simp add: ready_def)
  have m: "markDirty (cur_y t) t = t" using t by (simp add: markDirty_def ready_def)
  obtain ls where a: "eraseInBufferLine (cur_y t) 0 (cur_x t + 1) True t = Some (set_lines ls t)"
      "good_step t (set_lines ls t)" using erase_line_step [OF t] by blast
  let ?u = "set_lines ls t"
  let ?next = "if n_cols t \<le> cur_x t + 1 then with_line (cur_y t + 1) (\<lambda>l. l\<lparr>is_wrapped := False\<rparr>) ?u else Some ?u"
  have u: "vt_ok ?u" by (rule good_stepD(1) [OF a(2)])
  have l: "len ls = base t + n_rows t" "len (lines t) = base t + n_rows t" using vt_okD(3) [OF u] vt_okD(3) [OF v] by simp_all
  have y: "cur_y t < n_rows t" by (rule vt_okD(7) [OF v])
  have eq: "erase_above t = Option.bind ?next (\<lambda>t. map_option (markDirty 0) (each resetBufferLine (rev [0..<cur_y t]) t))"
    unfolding erase_above_def Let_def m a(1) by simp
  show ?thesis
  proof (cases "above_throws t")
    case True
    then have "cl_get (cur_y t + 1) ls = None"
      using behind_line_erased [OF t a(1)] l(2) by (simp add: above_throws_def)
    then show ?thesis using True by (simp add: eq above_throws_def with_line_def)
  next
    case False
    have "\<exists>ks. ?next = Some (set_lines ks t) \<and> changes {} ?u (set_lines ks t)"
    proof (cases "n_cols t \<le> cur_x t + 1")
      case True
      have "\<not> (cur_y t + 1 = len ls \<and> cl_get (cur_y t + 1) ls = None)"
      proof
        assume h: "cur_y t + 1 = len ls \<and> cl_get (cur_y t + 1) ls = None"
        then have "base t = 0" "cur_y t + 1 = n_rows t" using l(1) y by linarith+
        then show False using h False True behind_line_erased [OF t a(1)] l by (simp add: above_throws_def)
      qed
      then show ?thesis using unwrap_line [OF u, of "cur_y t + 1" False] l y True by auto
    next
      case False
      then show ?thesis using u by (auto simp: changes_def)
    qed
    then obtain ks where n: "?next = Some (set_lines ks t)" "changes {} ?u (set_lines ks t)" by blast
    let ?w = "set_lines ks t"
    obtain ls' where b: "each resetBufferLine (rev [0..<cur_y t]) ?w = Some (set_lines ls' ?w)"
        "changes (set (rev [0..<cur_y t])) ?w (set_lines ls' ?w)"
      using reset_lines [of ?w "rev [0..<cur_y t]"] n(2) y by (auto simp: changes_def)
    let ?v = "markDirty 0 (set_lines ls' ?w)"
    have d: "dirty_first ?v = 0" "dirty_last t \<le> dirty_last ?v"
      using mark_bounds(1) [of "set_lines ls' ?w" 0] vt_okD(11) [OF v] by simp_all
    have "vt_ok (set_lines ls' ?w)" using b(2) by (simp add: changes_def)
    then have "changes {} (set_lines ls' ?w) ?v" by (intro changes_same keepsD [OF keeps_mark]) simp_all
    from changes_trans [OF n(2) changes_trans [OF b(2) this]]
    have c: "changes {0..<cur_y t} ?u ?v" by (rule changes_mono) auto
    have "good_step ?u ?v" by (rule changes_good [OF c]) (use d t in \<open>auto simp: ready_def\<close>)
    then have "good_step t ?v" by (rule good_step_trans [OF a(2)])
    then show ?thesis using False n(1) b(1) by (simp add: eq)
  qed
qed

lemma erase_history_step:
  assumes t: "vt_ok t"
  shows "good_step t (erase_history t)"
proof -
  let ?r = "len (lines t) - n_rows t"
  have r: "?r = base t" using vt_okD(3) [OF t] by simp
  let ?ls = "cl_trimStart (base t) (lines t)"
  have i: "items ?ls = drop (base t) (items (lines t))" "clist_ok ?ls" using items_trimStart vt_okD(2) [OF t] by auto
  have "lines_ok ?ls" using i vt_okD(1) [OF t] by (auto simp: lines_ok_def dest: in_set_dropD)
  moreover have "lines_fit (n_cols t) ?ls" using vt_okD(9) [OF t] by (simp add: lines_fit_def i list_all_parts)
  moreover have "length (items ?ls) = n_rows t" unfolding i using vt_okD(4) [OF t] by simp
  ultimately have "vt_ok (erase_history t)"
    using t by (simp add: vt_ok_def buffer_ok_def erase_history_def r Let_def)
  moreover have "screen items (buf (erase_history t)) = screen items (buf t)"
    by (simp add: erase_history_def r Let_def screen_def i(1))
  moreover have "n_cols (erase_history t) = n_cols t" "n_rows (erase_history t) = n_rows t"
    "dirty_first (erase_history t) = dirty_first t" "dirty_last (erase_history t) = dirty_last t"
    by (simp_all add: erase_history_def Let_def)
  ultimately show ?thesis by (simp add: good_step_def row_cells_def)
qed

lemma erase_in_display_step:
  assumes t: "vt_ok t"
  shows "if param 0 p = 1 \<and> above_throws (restrictCursor t) then eraseInDisplay p t = None
    else \<exists>t'. eraseInDisplay p t = Some t' \<and> good_step t t'"
proof -
  let ?u = "restrictCursor t"
  have u: "good_step t ?u" "ready ?u" "vt_ok ?u" using restrict_ready [OF t] by (auto dest: good_stepD(1))
  note steps = erase_below_step [OF u(2)] erase_above_step [OF u(2)] erase_screen_step [OF u(3)] erase_history_step [OF u(3)]
  consider "param 0 p = 0" | "param 0 p = 1" | "param 0 p = 2" | "param 0 p = 3" | "3 < param 0 p" by linarith
  then show ?thesis
    by cases (use steps good_step_trans [OF u(1)] u(1) in \<open>force simp: eraseInDisplay_def Let_def\<close>)+
qed

lemma safe_erase_in_line: "safe (eraseInLine p)"
proof -
  have "\<exists>t'. map_option (\<lambda>t. markDirty (cur_y t) t) (if param 0 p = 0 then eraseInBufferLine (cur_y t) (cur_x t) (n_cols t) False t
         else if param 0 p = 1 then eraseInBufferLine (cur_y t) 0 (cur_x t + 1) False t
         else if param 0 p = 2 then eraseInBufferLine (cur_y t) 0 (n_cols t) False t
         else Some t) = Some t' \<and> good_step t t'" if t: "ready t" for t
  proof -
    have m: "good_step t u \<Longrightarrow> good_step t (markDirty (cur_y u) u)" for u
      using good_step_trans keepsD [OF keeps_mark good_stepD(1)] by blast
    have r: "good_step t (markDirty (cur_y t) t)" using t m [OF good_step_refl] by (simp add: ready_def)
    have "\<exists>t'. map_option (\<lambda>t. markDirty (cur_y t) t) (eraseInBufferLine (cur_y t) k n False t) = Some t' \<and> good_step t t'" for k n
      using erase_line_step [OF t, of k n False] m by auto
    with r show ?thesis by simp
  qed
  then show ?thesis
    using safe_restricted [of "\<lambda>t. map_option (\<lambda>t. markDirty (cur_y t) t)
        (if param 0 p = 0 then eraseInBufferLine (cur_y t) (cur_x t) (n_cols t) False t
         else if param 0 p = 1 then eraseInBufferLine (cur_y t) 0 (cur_x t + 1) False t
         else if param 0 p = 2 then eraseInBufferLine (cur_y t) 0 (n_cols t) False t
         else Some t)"]
    by (simp add: eraseInLine_def [abs_def] Let_def)
qed

text \<open>Inserting and deleting.\<close>

lemma lines_in_region:
  assumes t: "vt_ok t" and d: "d < n_rows t" "i < n_rows t"
  shows "\<exists>ls. (move_blank (base t + d) (base t + i) a ^^ n) t = set_lines ls t \<and> vt_ok (set_lines ls t)
    \<and> good_step t (markRangeDirty (min d i) (max d i) (set_lines ls t))"
proof -
  obtain ls where ls: "(move_blank (base t + d) (base t + i) a ^^ n) t = set_lines ls t"
      "changes {min d i..max d i} t (set_lines ls t)" using move_blanks [OF t d] by blast
  let ?v = "markRangeDirty (min d i) (max d i) (set_lines ls t)"
  have le: "min d i \<le> max d i" by simp
  have ok: "vt_ok (set_lines ls t)" using ls(2) by (simp add: changes_def)
  have dirty: "dirty_first ?v = min (dirty_first t) (min d i)" "dirty_last ?v = max (dirty_last t) (max d i)"
    using mark_bounds(2) [OF le, of "set_lines ls t"] by simp_all
  have "good_step (set_lines ls t) ?v"
    by (rule good_step_same [OF ok]) (use ok dirty in \<open>simp_all add: vt_ok_def\<close>)
  then have "changes {} (set_lines ls t) ?v" by (rule changes_same) simp
  from changes_trans [OF ls(2) this] have "changes {min d i..max d i} t ?v" by simp
  then have "good_step t ?v" by (rule changes_good) (simp only: dirty atLeastAtMost_iff, linarith)
  then show ?thesis using ls(1) ok by blast
qed

lemma good_step_x: "good_step t u \<Longrightarrow> good_step t (u\<lparr>cur_x := 0\<rparr>)"
  using good_step_trans keepsD [OF keeps_x [of "\<lambda>_. 0"] good_stepD(1)] by fastforce

lemma keeps_lines:
  "keeps (insertLines p)" "keeps (deleteLines p)" "keeps (scrollUp p)" "keeps (scrollDown p)"
proof -
  have n: "n_rows t - 1 + base t - (n_rows t - 1 - region_bottom t) = base t + region_bottom t" if "vt_ok t" for t
    using vt_okD(6) [OF that] by simp
  have e: "eraseAttrData (set_lines ls t) = eraseAttrData t" for ls t by (simp add: eraseAttrData_def)
  have "good_step t (insertLines p t) \<and> good_step t (deleteLines p t)" if t: "vt_ok t" for t
  proof -
    let ?u = "restrictCursor t"
    have u: "good_step t ?u" "vt_ok ?u" using restrict_ready [OF t] by (auto dest: good_stepD(1))
    show ?thesis
    proof (cases "in_region ?u")
      case True
      then have r: "cur_y ?u \<le> region_bottom ?u" "region_bottom ?u < n_rows ?u" "cur_y ?u < n_rows ?u"
        using vt_okD(6,7) [OF u(2)] by (simp_all add: in_region_def)
      obtain ls ks where l: "(move_blank (base ?u + region_bottom ?u) (base ?u + cur_y ?u) (eraseAttrData ?u) ^^ count p) ?u = set_lines ls ?u"
          "good_step ?u (markRangeDirty (cur_y ?u) (region_bottom ?u) (set_lines ls ?u))"
          "(move_blank (base ?u + cur_y ?u) (base ?u + region_bottom ?u) (eraseAttrData ?u) ^^ count p) ?u = set_lines ks ?u"
          "good_step ?u (markRangeDirty (cur_y ?u) (region_bottom ?u) (set_lines ks ?u))"
        using lines_in_region [OF u(2) r(2,3), where a = "eraseAttrData ?u" and n = "count p"]
          lines_in_region [OF u(2) r(3,2), where a = "eraseAttrData ?u" and n = "count p"] r(1) by (auto simp: min_absorb1 min_absorb2 max_absorb1 max_absorb2)
      have i: "insertLines p t = (markRangeDirty (cur_y ?u) (region_bottom ?u) (set_lines ls ?u))\<lparr>cur_x := 0\<rparr>"
        using True by (simp only: insertLines_def Let_def if_True n [OF u(2)] add_diff_cancel_right' add.commute [of "cur_y ?u"] l(1)
            set_lines_frame)
      have d: "deleteLines p t = (markRangeDirty (cur_y ?u) (region_bottom ?u) (set_lines ks ?u))\<lparr>cur_x := 0\<rparr>"
        using True by (simp only: deleteLines_def Let_def if_True n [OF u(2)] add.commute [of "cur_y ?u"] l(3) set_lines_frame)
      show ?thesis unfolding i d using l(2,4) good_step_trans [OF u(1)] by (blast intro: good_step_x)
    next
      case False
      then show ?thesis using u by (simp add: insertLines_def deleteLines_def Let_def)
    qed
  qed
  then show "keeps (insertLines p)" "keeps (deleteLines p)" by (simp_all add: keeps_def)
  have "good_step t (scrollUp p t) \<and> good_step t (scrollDown p t)" if t: "vt_ok t" for t
  proof -
    have r: "region_top t \<le> region_bottom t" "region_bottom t < n_rows t" "region_top t < n_rows t"
      using vt_okD(5,6) [OF t] by simp_all
    obtain ls ks where l: "(move_blank (base t + region_top t) (base t + region_bottom t) (eraseAttrData t) ^^ count p) t = set_lines ls t"
        "good_step t (markRangeDirty (region_top t) (region_bottom t) (set_lines ls t))"
        "(move_blank (base t + region_bottom t) (base t + region_top t) DEFAULT_ATTR_DATA ^^ count p) t = set_lines ks t"
        "good_step t (markRangeDirty (region_top t) (region_bottom t) (set_lines ks t))"
      using lines_in_region [OF t r(3,2), where a = "eraseAttrData t" and n = "count p"]
        lines_in_region [OF t r(2,3), where a = DEFAULT_ATTR_DATA and n = "count p"] r(1) by (auto simp: min_absorb1 min_absorb2 max_absorb1 max_absorb2)
    then show ?thesis by (simp add: scrollUp_def scrollDown_def Let_def)
  qed
  then show "keeps (scrollUp p)" "keeps (scrollDown p)" by (simp_all add: keeps_def)
qed

lemma insertCells_mod: "insertCells e k r l = insertCells (e mod line_length l) k r l" "deleteCells e k r l = deleteCells (e mod line_length l) k r l"
  by (simp_all add: insertCells_def deleteCells_def Let_def)

lemma line_ok_cells:
  assumes "line_ok m l" and "cell_ok r" and "0 < m"
  shows "line_ok m (insertCells e k r l)" "line_ok m (deleteCells e k r l)"
proof -
  have "line_length l = m" using assms(1) by (simp add: line_ok_def)
  then have "e mod line_length l < m" using assms(3) by simp
  then show "line_ok m (insertCells e k r l)" "line_ok m (deleteCells e k r l)"
    using line_ok_ops(3,4) [OF assms(1,2)] insertCells_mod [of e k r l] by simp_all
qed

lemma keeps_edit_row:
  assumes "\<And>t l. ready t \<Longrightarrow> line_ok (n_cols t) l \<Longrightarrow> line_ok (n_cols t) (f t l)"
  shows "keeps (edit_row f)"
  unfolding keeps_def
proof (intro allI impI)
  fix t
  assume t: "vt_ok t"
  define u where "u = restrictCursor t"
  have u: "good_step t u" "ready u" using restrict_ready [OF t] by (simp_all add: u_def)
  then have v: "vt_ok u" by (simp add: ready_def)
  obtain ls where w: "with_line (base u + cur_y u) (f u) u = Some (set_lines ls u)" "good_step u (set_lines ls u)"
    using with_line_good [OF v refl vt_okD(7) [OF v], of "f u"] u(2) assms by (auto simp: ready_def)
  have "good_step u (markDirty (cur_y u) (set_lines ls u))"
    by (rule good_step_trans [OF w(2) keepsD [OF keeps_mark good_stepD(1) [OF w(2)]]])
  then show "good_step t (edit_row f t)"
    using good_step_trans [OF u(1)] w(1) by (simp add: edit_row_def Let_def u_def [symmetric] add.commute [of "cur_y u"])
qed

lemma keeps_chars: "keeps (insertChars p)" "keeps (deleteChars p)" "keeps (eraseChars p)"
  unfolding insertChars_def deleteChars_def eraseChars_def
  by (rule keeps_edit_row; simp add: ready_def line_ok_ops)+

lemma safe_edit_columns:
  assumes "vt_ok t" and f: "\<And>l. line_ok (n_cols t) l \<Longrightarrow> line_ok (n_cols t) (f l)"
  shows "\<exists>t'. edit_columns f t = Some t' \<and> good_step t t'"
proof (cases "in_region t")
  case True
  note t = assms(1)
  let ?F = "\<lambda>i t. with_line (base t + i) (\<lambda>l. (f l)\<lparr>is_wrapped := False\<rparr>) t" and ?R = "[region_top t..<region_bottom t + 1]"
  have "\<exists>ls. each ?F ?R t = Some (set_lines ls t) \<and> changes ((\<lambda>i. i) ` set ?R) t (set_lines ls t)"
    by (rule each_rows [OF t, where f = "\<lambda>l. (f l)\<lparr>is_wrapped := False\<rparr>"]) (use vt_okD(6) [OF t] in \<open>simp_all add: f line_ok_ops del: upt_Suc\<close>)
  then obtain ls where e: "each ?F ?R t = Some (set_lines ls t)" "changes (set ?R) t (set_lines ls t)"
    unfolding image_ident by blast
  let ?v = "markRangeDirty (region_top t) (region_bottom t) (set_lines ls t)"
  have d: "dirty_first ?v = min (dirty_first t) (region_top t)" "dirty_last ?v = max (dirty_last t) (region_bottom t)"
    using mark_bounds(2) [OF vt_okD(5) [OF t], of "set_lines ls t"] by simp_all
  have ok: "vt_ok (set_lines ls t)" using e(2) by (simp add: changes_def)
  have "good_step (set_lines ls t) ?v" by (rule good_step_same [OF ok]) (use ok d in \<open>simp_all add: vt_ok_def\<close>)
  then have "changes {} (set_lines ls t) ?v" by (rule changes_same) simp
  from changes_trans [OF e(2) this] have "changes (set ?R) t ?v" by simp
  then have "good_step t ?v" by (rule changes_good) (use d vt_okD(5) [OF t] in auto)
  then show ?thesis using True e(1) by (simp add: edit_columns_def)
next
  case False
  then show ?thesis using assms(1) good_step_refl by (simp add: edit_columns_def)
qed

lemma safe_columns: "safe (scrollLeft p)" "safe (scrollRight p)" "safe (insertColumns p)" "safe (deleteColumns p)"
proof -
  have c: "0 < n_cols t" if "vt_ok t" for t using vt_okD(8) [OF that] by linarith
  show "safe (scrollLeft p)" "safe (scrollRight p)" "safe (insertColumns p)" "safe (deleteColumns p)"
    unfolding safe_def scrollLeft_def scrollRight_def insertColumns_def deleteColumns_def
    using c by (intro allI impI safe_edit_columns line_ok_cells; simp)+
qed

text \<open>Scrolling.\<close>

lemma safe_scroll: "safe (scroll_screen w)"
  using scroll_screen_step by (fastforce simp: safe_def)

lemma row_below_step: "vt_ok t \<Longrightarrow> good_step t (row_below t)"
  by (rule good_step_same) (auto simp: row_below_def vt_ok_def)

lemma safe_next_row: "safe next_row"
  using safe_scroll row_below_step by (auto simp: safe_def next_row_def)

lemma safe_line_feed: "safe lineFeed"
proof -
  let ?eol = "\<lambda>t. if convert_eol t then t\<lparr>cur_x := 0\<rparr> else t"
    and ?left = "\<lambda>t. if n_cols t \<le> cur_x t then t\<lparr>cur_x := cur_x t - 1\<rparr> else t"
  have "keeps ?eol" using keeps_x [of "\<lambda>_. 0"] good_step_refl by (auto simp: keeps_def)
  then have 1: "keeps (\<lambda>t. ?eol (markDirty (cur_y t) t))" using keeps_comp [OF keeps_mark_at [of cur_y]] by blast
  have "keeps ?left" using keeps_x [of "\<lambda>t. cur_x t - 1"] good_step_refl vt_okD(10)
    by (auto simp: keeps_def intro: diff_le_self [THEN order_trans])
  then have 2: "keeps (\<lambda>t. markDirty (cur_y (?left t)) (?left t))" using keeps_comp [OF _ keeps_mark_at [of cur_y]] by blast
  have "safe (\<lambda>t. map_option (\<lambda>t. markDirty (cur_y (?left t)) (?left t)) (next_row (?eol (markDirty (cur_y t) t))))"
    using safe_map [OF safe_after [OF 1 safe_next_row] 2] by blast
  then show ?thesis by (simp only: lineFeed_def [abs_def] Let_def)
qed

lemma safe_index: "safe index" "safe nextLine"
proof -
  show i: "safe index"
    using safe_map [OF safe_after [OF keeps_cursor(2) safe_next_row] keeps_cursor(2)] by (simp add: index_def [abs_def])
  show "safe nextLine" unfolding nextLine_def by (rule safe_after [OF keeps_x [of "\<lambda>_. 0"] i]) simp
qed

lemma get_shift_forward:
  assumes c: "clist_ok c" and s: "s + k < len c"
  shows "\<exists>d. cl_shift_forward s k c = Some d \<and> clist_ok d \<and> len d = len c
    \<and> (\<forall>j<len c. cl_get j d = (if s < j \<and> j \<le> s + k then cl_get (j - 1) c else cl_get j c))"
proof (cases "k = 0")
  case True
  then show ?thesis using c by (auto simp: cl_shift_forward_def)
next
  case False
  let ?f = "\<lambda>n c. cl_set (n + 1) (cl_get n c) c"
  define d where "d = fold ?f (rev [s..<s + k]) c"
  have "rev [s..<s + k] = map (\<lambda>i. s + i) (rev [0..<k])"
    using map_add_upt [of s k] by (simp add: add.commute rev_map [symmetric])
  then have d: "d = fold (\<lambda>i c. cl_set (s + i + 1) (cl_get (s + i) c) c) (rev [0..<k]) c"
    by (simp add: d_def fold_map comp_def)
  have f: "max_length d = max_length c" "len d = len c" "start_index d = start_index c"
    using fold_frame [of ?f "rev [s..<s + k]" c] by (simp_all add: d_def)
  have m: "len c \<le> max_length c" using c by (simp add: clist_ok_def)
  have "cl_get j d = (if s < j \<and> j \<le> s + k then cl_get (j - 1) c else cl_get j c)" if "j < len c" for j
    unfolding d_def using get_move_up [of 0 s "s + k" 1 c j] that s m by auto
  moreover have "cl_shift_forward s k c = Some d"
    using False s m unfolding cl_shift_forward_def d [symmetric] by (simp add: Let_def f)
  ultimately show ?thesis using c f by (auto simp: clist_ok_def)
qed

lemma reverse_index_top:
  assumes t: "ready t" and y: "cur_y t = region_top t"
  shows "\<exists>ls. cl_shift_forward (cur_y t + base t) (region_bottom t - region_top t) (lines t) = Some ls
    \<and> good_step t (markRangeDirty (region_top t) (region_bottom t)
        (set_lines (cl_set (cur_y t + base t) (Some (getBlankLine (eraseAttrData t) False t)) ls) t))"
proof -
  have v: "vt_ok t" using t by (simp add: ready_def)
  let ?c = "lines t" and ?s = "cur_y t + base t" and ?k = "region_bottom t - region_top t" and ?x = "getBlankLine (eraseAttrData t) False t"
  have s: "?s + ?k < len ?c" "?s + ?k = base t + region_bottom t" "?s < len ?c" using vt_okD(3,5,6) [OF v] y by linarith+
  obtain d where d: "cl_shift_forward ?s ?k ?c = Some d" "clist_ok d" "len d = len ?c"
      "\<forall>j<len ?c. cl_get j d = (if ?s < j \<and> j \<le> ?s + ?k then cl_get (j - 1) ?c else cl_get j ?c)"
    using get_shift_forward [OF vt_okD(2) [OF v] s(1)] by blast
  let ?ls = "cl_set ?s (Some ?x) d"
  have i: "items ?ls = (items d)[?s := Some ?x]" using items_set [OF d(2)] s(3) d(3) by simp
  have g: "\<exists>l. cl_get j d = Some l \<and> line_ok (n_cols t) l" if "j < len ?c" for j
    using d(4) fit_line [OF v, of j] fit_line [OF v, of "j - 1"] that vt_okD(3) [OF v] by (auto split: if_splits)
  then have "list_all (\<lambda>x. case x of None \<Rightarrow> False | Some l \<Rightarrow> line_ok (n_cols t) l) (items d)"
    using d(3) by (fastforce simp: list_all_length)
  then have all: "list_all (\<lambda>x. case x of None \<Rightarrow> False | Some l \<Rightarrow> line_ok (n_cols t) l) (items ?ls)"
    unfolding i by (rule list_all_update) simp
  then have ok: "lines_ok ?ls" "lines_fit (n_cols t) ?ls"
    using d(2) by (auto simp: lines_ok_def lines_fit_def list_all_iff split: option.splits)
  have l: "len ?ls = len ?c" using d(3) by simp
  have c: "changes {region_top t..region_bottom t} t (set_lines ?ls t)"
  proof (rule changes_lines [OF v ok(1) l ok(2)])
    fix j
    assume j: "j < n_rows t" "j \<notin> {region_top t..region_bottom t}"
    then have "\<not> (?s < base t + j \<and> base t + j \<le> ?s + ?k)" "base t + j \<noteq> ?s" using s(2) y by auto
    then show "items ?ls ! (base t + j) = items ?c ! (base t + j)"
      unfolding i using d(3,4) j(1) vt_okD(3) [OF v] by auto
  qed
  let ?v = "markRangeDirty (region_top t) (region_bottom t) (set_lines ?ls t)"
  have dirty: "dirty_first ?v = min (dirty_first t) (region_top t)" "dirty_last ?v = max (dirty_last t) (region_bottom t)"
    using mark_bounds(2) [OF vt_okD(5) [OF v], of "set_lines ?ls t"] by simp_all
  have ok': "vt_ok (set_lines ?ls t)" using c by (simp add: changes_def)
  have "good_step (set_lines ?ls t) ?v" by (rule good_step_same [OF ok']) (use ok' dirty in \<open>simp_all add: vt_ok_def\<close>)
  then have "changes {} (set_lines ?ls t) ?v" by (rule changes_same) simp
  from changes_trans [OF c this] have "changes {region_top t..region_bottom t} t ?v" by simp
  then have "good_step t ?v" by (rule changes_good) (use dirty in auto)
  then show ?thesis using d(1) by blast
qed

lemma safe_reverse_index: "safe reverseIndex"
proof -
  have "\<exists>t'. (if cur_y t = region_top t then
           map_option (\<lambda>ls. markRangeDirty (region_top t) (region_bottom t)
               (set_lines (cl_set (cur_y t + base t) (Some (getBlankLine (eraseAttrData t) False t)) ls) t))
             (cl_shift_forward (cur_y t + base t) (region_bottom t - region_top t) (lines t))
         else Some (restrict_to (int (cur_x t)) (int (cur_y t) - 1) t)) = Some t' \<and> good_step t t'" if t: "ready t" for t
    using reverse_index_top [OF t] restrict_step(1) [of t] t by (cases "cur_y t = region_top t") (auto simp: ready_def)
  from safe_restricted [OF this] show ?thesis by (simp add: reverseIndex_def [abs_def] Let_def)
qed

text \<open>The region, the saved cursor and the modes.\<close>

lemma keeps_region: "keeps (setScrollRegion p)"
  unfolding keeps_def
proof (intro allI impI)
  fix t
  assume t: "vt_ok t"
  define r where "r = count p"
  define k where "k = (if length (numbers p) < 2 \<or> n_rows t < param 1 p \<or> param 1 p = 0 then n_rows t else param 1 p)"
  let ?u = "t\<lparr>buf := (buf t)\<lparr>scroll_top := r - 1, scroll_bottom := k - 1\<rparr>\<rparr>"
  have eq: "setScrollRegion p t = (if r < k then setCursor 0 0 ?u else t)"
    unfolding setScrollRegion_def Let_def r_def k_def ..
  have "good_step t (setCursor 0 0 ?u)" if "r < k"
  proof -
    have k: "k \<le> n_rows t" by (auto simp: k_def)
    then have "vt_ok ?u" using t that by (auto simp: vt_ok_def buffer_ok_def)
    then have "good_step t ?u" using t by (simp add: good_step_def row_cells_def screen_def)
    then show ?thesis using good_step_trans keepsD [OF keeps_cursor(3) good_stepD(1)] by blast
  qed
  then show "good_step t (setScrollRegion p t)" using good_step_refl [OF t] by (simp add: eq)
qed

lemma restrict_from:
  assumes t: "vt_ok t" and u: "buf u = buf t" "n_cols u = n_cols t" "n_rows u = n_rows t" "dirty_first u = dirty_first t"
      "dirty_last u = dirty_last t" "charset_ok (charset u)" "charset_ok (saved_charset u)" "\<And>e. charset_ok (charsets u e)"
      "preceding u = preceding t"
  shows "good_step t (restrict_to x y u)"
proof -
  note r = restrict_in [of u x y, unfolded u(1-5), OF vt_okD(8,5,6,11) [OF t]]
  show ?thesis using t u r by (intro good_step_same) (simp_all add: vt_ok_def)
qed

lemma keeps_modes:
  "keeps saveCursor" "keeps restoreCursor" "keeps softReset" "keeps (set_mode on p)" "keeps (set_private on n)"
  "keeps (set_modes_private on p)"
proof -
  show s: "keeps saveCursor"
    unfolding keeps_def by (intro allI impI good_step_same) (simp_all add: vt_ok_def saveCursor_def)
  show r: "keeps restoreCursor"
    unfolding keeps_def restoreCursor_def restrictCursor_def by (intro allI impI restrict_from) (simp_all add: vt_ok_def)
  show "keeps softReset"
    unfolding keeps_def
  proof (intro allI impI)
    fix t
    assume t: "vt_ok t"
    then have "vt_ok (softReset t)" by (auto simp: vt_ok_def buffer_ok_def softReset_def)
    then show "good_step t (softReset t)" by (simp add: good_step_def row_cells_def screen_def softReset_def)
  qed
  have mode: "keeps (\<lambda>t. t\<lparr>insert_mode := on\<rparr>)" "keeps (\<lambda>t. t\<lparr>origin_mode := on\<rparr>)" "keeps (\<lambda>t. t\<lparr>wraparound_mode := on\<rparr>)" for on
    unfolding keeps_def by (intro allI impI good_step_same; simp add: vt_ok_def)+
  show "keeps (set_mode on p)" using mode(1) good_step_refl by (auto simp: keeps_def set_mode_def)
  have folds: "keeps (fold f ns)" if "\<And>n. keeps (f n)" for f :: "'a \<Rightarrow> vt \<Rightarrow> vt" and ns
  proof (induction ns)
    case (Cons n ns)
    from keeps_comp [OF that [of n] this] show ?case by (simp add: keeps_def)
  qed (simp add: keeps_def good_step_refl)
  have "keeps (fold (\<lambda>e. setgCharset e Map.empty) [0, 1, 2, 3])" by (rule folds, rule keeps_charsets(1)) simp
  moreover have "keeps (\<lambda>t. setCursor 0 0 (t\<lparr>origin_mode := on\<rparr>))" for on by (rule keeps_comp [OF mode(2) keeps_cursor(3)])
  ultimately show p: "keeps (set_private on n)" for n
    using s r mode(3) good_step_refl unfolding keeps_def set_private_def by (auto simp del: fold_simps)
  show "keeps (set_modes_private on p)" unfolding set_modes_private_def by (rule folds [OF p])
qed

text \<open>\<open>screenAlignmentPattern\<close>, which reaches behind the end of the list when the region moves the origin down.\<close>

text \<open>
  A line anywhere in the ring of the list, also behind its end: when there is an object, changing it changes at most an
  item, and no item when the place belongs to none.
\<close>

lemma with_line_anywhere:
  assumes t: "vt_ok t" and f: "\<And>l. line_ok (n_cols t) l \<Longrightarrow> line_ok (n_cols t) (f l)" and u: "with_line j f t = Some u"
  shows "changes UNIV t u"
proof (cases "\<exists>i<len (lines t). cyclic_index (lines t) i = cyclic_index (lines t) j")
  case True
  then obtain i where i: "i < len (lines t)" "cyclic_index (lines t) i = cyclic_index (lines t) j" by blast
  then have "with_line j f t = with_line i f t" by (simp add: with_line_def cl_get_def cl_set_def)
  then show ?thesis using with_line_step [OF t, of i f] f i(1) vt_okD(3) [OF t] u by (auto intro: changes_mono)
next
  case False
  obtain l where l: "u = set_lines (cl_set j (Some (f l)) (lines t)) t" using u by (auto simp: with_line_def)
  let ?ls = "cl_set j (Some (f l)) (lines t)"
  have "items ?ls = items (lines t)" using False by (auto simp: items_def cl_get_def cl_set_def cyclic_index_def)
  then show ?thesis unfolding l using vt_okD(1,9) [OF t]
    by (intro changes_lines [OF t]) (simp_all add: lines_ok_def lines_fit_def clist_ok_def cl_set_def)
qed

lemma each_anywhere:
  assumes t: "vt_ok (set_lines ls t)" and f: "\<And>l. line_ok (n_cols t) l \<Longrightarrow> line_ok (n_cols t) (f l)"
    and F: "\<And>n ls. F n (set_lines ls t) = with_line (h n) f (set_lines ls t)" and u: "each F ns (set_lines ls t) = Some u"
  shows "\<exists>ls'. u = set_lines ls' t \<and> changes UNIV (set_lines ls t) u"
  using t u
proof (induction ns arbitrary: ls)
  case Nil
  then show ?case by (auto simp: changes_def)
next
  case (Cons n ns)
  obtain v where v: "with_line (h n) f (set_lines ls t) = Some v" "each F ns v = Some u"
    using Cons.prems(2) by (auto simp: F split: bind_splits)
  then obtain ks where ks: "v = set_lines ks t" by (auto simp: with_line_def)
  have c: "changes UNIV (set_lines ls t) v" by (rule with_line_anywhere [OF Cons.prems(1) _ v(1)]) (simp add: f)
  then have "vt_ok (set_lines ks t)" by (simp add: ks changes_def)
  from Cons.IH [OF this v(2) [unfolded ks]] show ?case using changes_trans [OF c] by (auto simp: ks)
qed

lemma aligned_good:
  assumes "changes UNIV u (set_lines ls u)"
  shows "good_step u (setCursor 0 0 (markRangeDirty 0 (n_rows (set_lines ls u) - 1) (set_lines ls u)))"
proof -
  define v where "v = markRangeDirty 0 (n_rows (set_lines ls u) - 1) (set_lines ls u)"
  have d: "dirty_first v = 0" "dirty_last v = max (dirty_last u) (n_rows u - 1)"
    unfolding v_def using mark_bounds(2) [of 0 "n_rows u - 1" "set_lines ls u"] by simp_all
  have ok: "vt_ok (set_lines ls u)" using assms by (simp add: changes_def)
  have "good_step (set_lines ls u) v" unfolding v_def
    by (rule good_step_same [OF ok]) (use ok d in \<open>simp_all add: vt_ok_def v_def\<close>)
  then have "changes {} (set_lines ls u) v" by (rule changes_same) (simp add: v_def)
  from changes_trans [OF assms this] have "changes UNIV u v" by simp
  then have "good_step u v" by (rule changes_good) (use d in auto)
  then show ?thesis unfolding v_def [symmetric]
    using good_step_trans keepsD [OF keeps_cursor(3) good_stepD(1)] by blast
qed

text \<open>When it returns, wherever the region has moved the origin to.\<close>

lemma alignment_good:
  assumes t: "vt_ok t" and s: "screenAlignmentPattern t = Some t'"
  shows "good_step t t'"
proof -
  define e where "e = code_cell 69 1 (cur_attr t)"
  define u where "u = setCursor 0 0 t"
  have u: "good_step t u" using keepsD [OF keeps_cursor(3) t] by (simp add: u_def)
  have v: "vt_ok (set_lines (lines u) u)" using good_stepD(1) [OF u] by (simp add: set_lines_def)
  let ?f = "\<lambda>l. (fill_line e l)\<lparr>is_wrapped := False\<rparr>"
  let ?F = "\<lambda>r t. with_line (base t + (cur_y t + r)) ?f t"
  obtain w where w: "each ?F [0..<n_rows u] u = Some w" "t' = setCursor 0 0 (markRangeDirty 0 (n_rows w - 1) w)"
    using s by (auto simp: screenAlignmentPattern_def e_def u_def Let_def)
  have e: "each ?F [0..<n_rows u] (set_lines (lines u) u) = Some w" using w(1) by (simp add: set_lines_def)
  have "cell_ok e" by (simp add: e_def cell_ok_def code_cell_def)
  then obtain ls where ls: "w = set_lines ls u" "changes UNIV (set_lines (lines u) u) w"
    using each_anywhere [OF v _ _ e, where f = ?f and h = "\<lambda>r. base u + (cur_y u + r)"] by (auto simp: line_ok_ops)
  then have "changes UNIV u (set_lines ls u)" by (simp add: set_lines_def)
  from good_step_trans [OF u aligned_good [OF this]] show ?thesis by (simp add: w(2) ls(1))
qed

text \<open>
  It throws exactly when the region moves the origin down, by more rows than there are objects behind the end of the list.
\<close>

definition align_throws :: "vt \<Rightarrow> bool" where
  "align_throws t \<longleftrightarrow> origin_mode t \<and> (\<exists>k<region_top t. cl_get (len (lines t) + k) (lines t) = None)"

lemma get_after_set: "cl_get i ls \<noteq> None \<Longrightarrow> cl_get j (cl_set i (Some x) ls) = None \<longleftrightarrow> cl_get j ls = None"
  by (auto simp: cl_get_def cl_set_def cyclic_index_def)

lemma each_missing:
  assumes F: "\<And>n ls. F n (set_lines ls t) = with_line (h n) f (set_lines ls t)"
  shows "each F ns (set_lines ls t) = None \<longleftrightarrow> (\<exists>n\<in>set ns. cl_get (h n) ls = None)"
proof (induction ns arbitrary: ls)
  case (Cons n ns)
  show ?case
  proof (cases "cl_get (h n) ls")
    case None
    then show ?thesis by (simp add: F with_line_def)
  next
    case (Some l)
    have "each F ns (set_lines (cl_set (h n) (Some (f l)) ls) t) = None \<longleftrightarrow> (\<exists>m\<in>set ns. cl_get (h m) ls = None)"
      using Cons.IH get_after_set [of "h n" ls] Some by simp
    then show ?thesis using Some by (simp add: F with_line_def)
  qed
qed simp

lemma home_row:
  assumes "vt_ok t"
  shows "cur_y (setCursor 0 0 t) = (if origin_mode t then region_top t else 0)"
  using assms vt_okD(5,6,7) [OF assms] by (auto simp: setCursor_def Let_def restrict_to_def)

lemma home_same [simp]:
  "buf (setCursor x y t) = buf t" "n_rows (setCursor x y t) = n_rows t" "origin_mode (setCursor x y t) = origin_mode t"
  by (simp_all add: setCursor_def restrictCursor_def Let_def)

lemma set_lines_self: "buf u = buf t \<Longrightarrow> set_lines (lines t) u = u"
  by (cases u) (simp add: set_lines_def)

lemma alignment_step:
  assumes t: "vt_ok t"
  shows "if align_throws t then screenAlignmentPattern t = None else \<exists>t'. screenAlignmentPattern t = Some t' \<and> good_step t t'"
proof -
  define u where "u = setCursor 0 0 t"
  define y where "y = cur_y u"
  have y: "y = (if origin_mode t then region_top t else 0)" "y \<le> n_rows t"
    using home_row [OF t] vt_okD(5,6) [OF t] by (simp_all add: y_def u_def)
  let ?f = "\<lambda>l. (fill_line (code_cell 69 1 (cur_attr t)) l)\<lparr>is_wrapped := False\<rparr>"
  let ?F = "\<lambda>r t. with_line (base t + (cur_y t + r)) ?f t"
  have "screenAlignmentPattern t = None \<longleftrightarrow> each ?F [0..<n_rows t] (set_lines (lines t) u) = None"
    using set_lines_self [of u t] by (simp add: screenAlignmentPattern_def u_def Let_def)
  also have "\<dots> \<longleftrightarrow> (\<exists>r<n_rows t. cl_get (base t + (y + r)) (lines t) = None)"
    using each_missing [where F = ?F and f = ?f and h = "\<lambda>r. base t + (y + r)" and t = u and ls = "lines t" and ns = "[0..<n_rows t]"]
    by (simp add: u_def [symmetric] y_def [symmetric]) (simp add: u_def Bex_def)
  also have "\<dots> \<longleftrightarrow> (\<exists>k<y. cl_get (len (lines t) + k) (lines t) = None)"
  proof
    assume "\<exists>r<n_rows t. cl_get (base t + (y + r)) (lines t) = None"
    then obtain r where r: "r < n_rows t" "cl_get (base t + (y + r)) (lines t) = None" by blast
    then have "n_rows t \<le> y + r" using fit_line [OF t, of "base t + (y + r)"] by (auto simp: not_le [symmetric])
    then show "\<exists>k<y. cl_get (len (lines t) + k) (lines t) = None"
      using r vt_okD(3) [OF t] by (intro exI [of _ "y + r - n_rows t"]) (auto simp: algebra_simps)
  next
    assume "\<exists>k<y. cl_get (len (lines t) + k) (lines t) = None"
    then obtain k where "k < y" "cl_get (len (lines t) + k) (lines t) = None" by blast
    then show "\<exists>r<n_rows t. cl_get (base t + (y + r)) (lines t) = None"
      using y(2) vt_okD(3) [OF t] by (intro exI [of _ "n_rows t - y + k"]) (auto simp: algebra_simps)
  qed
  also have "\<dots> \<longleftrightarrow> align_throws t" by (simp add: align_throws_def y(1))
  finally show ?thesis using alignment_good [OF t] by auto
qed

end
