(* ===== verification/XtermPrint.thy ===== *)
theory XtermPrint
  imports XtermSteps
begin

text \<open>
  What \<open>print\<close> of \<open>InputHandler\<close> in \<open>src/html/xterm.js\<close> keeps: it never throws on a well-formed screen, leaves it well formed,
  and marks every row it changes, the rows it scrolls and the one the cursor was on included.
\<close>

unbundle bit_operations_syntax

section \<open>Printing\<close>

text \<open>Codes that leave the flag of combined texts alone.\<close>

definition code_fits :: "nat \<Rightarrow> bool" where
  "code_fits c \<longleftrightarrow> \<not> is_combined (of_nat c)"

lemma small_code_fits: "c < 2097152 \<Longrightarrow> code_fits c"
  by (simp add: code_fits_def is_combined_def small_word)

lemma content_fits: "code_fits c \<Longrightarrow> n \<le> 2 \<Longrightarrow> \<not> is_combined (content_of c n)"
  by (simp add: code_fits_def is_combined_def content_of_def bit.conj_disj_distrib width_word)

lemma translated_fits: "charset_ok s \<Longrightarrow> code_fits c \<Longrightarrow> code_fits (translated s c)"
  by (fastforce simp: translated_def charset_ok_def intro: small_code_fits split: option.split)

lemma translated_small: "charset_ok s \<Longrightarrow> c < 2097152 \<Longrightarrow> translated s c < 2097152"
  by (fastforce simp: translated_def charset_ok_def split: option.split)

lemma line_ok_put:
  assumes l: "line_ok m l" and m: "0 < m" and c: "\<not> is_combined (content_of i n)"
  shows "line_ok m (put_char ins m' a x i n l)"
proof -
  have z: "\<not> is_combined (content_of 0 k)" if "k \<le> 2" for k using that by (intro content_fits small_code_fits) simp_all
  have tail: "line_ok m (fold (\<lambda>k. setCellFromCodePoint (x + k) 0 0 a) ks l)" if "line_ok m l" for ks l
    using that z [of 0] by (induction ks arbitrary: l) (simp_all add: line_ok_ops)
  show ?thesis
    using l line_ok_cells(1) [OF l null_cell_ok(1) m] z [of 1] c by (simp add: put_char_def Let_def tail line_ok_ops)
qed

lemma line_ok_combine: "line_ok m l \<Longrightarrow> i < 2097152 \<Longrightarrow> line_ok m (combine_char x i l)"
  by (simp add: combine_char_def line_ok_ops)

text \<open>A round of the loop: the rows it changes are those of the cursor and those it has marked; the cursor goes down.\<close>

definition print_step :: "vt \<Rightarrow> vt \<Rightarrow> bool" where
  "print_step t t' \<longleftrightarrow> cur_y t \<le> cur_y t' \<and> changes ({dirty_first t'..dirty_last t'} \<union> {cur_y t, cur_y t'}) t t'"

lemma put_step:
  assumes t: "vt_ok t" and x: "cur_x t + (if n = 0 then 1 else n) \<le> n_cols t" and c: "code_fits i" "n \<le> 2"
  shows "\<exists>ls. put_at_cursor i n t = Some ((set_lines ls t)\<lparr>cur_x := cur_x t + (if n = 0 then 1 else n)\<rparr>)
    \<and> changes {cur_y t} t ((set_lines ls t)\<lparr>cur_x := cur_x t + (if n = 0 then 1 else n)\<rparr>)"
proof -
  let ?f = "put_char (insert_mode t) (n_cols t) (cur_attr t) (cur_x t) i n"
  have m: "0 < n_cols t" using vt_okD(8) [OF t] by simp
  obtain l where l: "with_line (cur_y t + base t) ?f t = Some (set_lines (cl_set (cur_y t + base t) (Some (?f l)) (lines t)) t)"
      "changes {y. base t + y = cur_y t + base t} t (set_lines (cl_set (cur_y t + base t) (Some (?f l)) (lines t)) t)"
    using with_line_step [OF t, of "cur_y t + base t" ?f] line_ok_put [OF _ m content_fits [OF c]] vt_okD(7) [OF t] by auto
  let ?ls = "cl_set (cur_y t + base t) (Some (?f l)) (lines t)"
  let ?v = "(set_lines ?ls t)\<lparr>cur_x := cur_x t + (if n = 0 then 1 else n)\<rparr>"
  have ok: "vt_ok (set_lines ?ls t)" using l(2) by (simp add: changes_def)
  then have "good_step (set_lines ?ls t) ?v" by (rule good_step_same) (use ok x in \<open>simp_all add: vt_ok_def\<close>)
  then have "changes {} (set_lines ?ls t) ?v" by (rule changes_same) simp
  from changes_trans [OF l(2) this] have "changes {cur_y t} t ?v" by (simp add: add.commute)
  then show ?thesis using l(1) by (auto simp: put_at_cursor_def)
qed

lemma changes_ok: "changes R t u \<Longrightarrow> vt_ok u" "changes R t u \<Longrightarrow> n_cols u = n_cols t" "changes R t u \<Longrightarrow> n_rows u = n_rows t"
    "changes R t u \<Longrightarrow> dirty_first u \<le> dirty_first t" "changes R t u \<Longrightarrow> dirty_last t \<le> dirty_last u"
  by (simp_all add: changes_def)

lemma print_step_trans:
  assumes "print_step t u" and "changes {cur_y u} u v" and "cur_y v = cur_y u"
  shows "print_step t v"
proof -
  have "changes (({dirty_first u..dirty_last u} \<union> {cur_y t, cur_y u}) \<union> {cur_y u}) t v"
    using assms(1) changes_trans [OF _ assms(2)] by (auto simp only: print_step_def)
  then have "changes ({dirty_first v..dirty_last v} \<union> {cur_y t, cur_y v}) t v"
    by (rule changes_mono) (use changes_ok(4,5) [OF assms(2)] assms(3) in auto)
  then show ?thesis using assms(1,3) by (simp add: print_step_def)
qed

lemma wrap_step:
  assumes t: "vt_ok t"
  shows "\<exists>t'. wrap_line t = Some t' \<and> print_step t t' \<and> cur_x t' = 0"
proof -
  define u where "u = t\<lparr>cur_x := 0\<rparr>"
  have u: "good_step t u" unfolding u_def by (rule good_step_same [OF t]) (use t in \<open>simp_all add: vt_ok_def\<close>)
  then have cu: "changes {} t u" by (rule changes_same) (simp add: u_def)
  have v: "vt_ok u" by (rule good_stepD(1) [OF u])
  show ?thesis
  proof (cases "cur_y t + 1 = region_bottom t + 1")
    case True
    obtain b t' where s: "scroll_screen True u = Some t'"
        "t' = markRangeDirty (region_top u) (region_bottom u) (u\<lparr>buf := b\<rparr>)" "good_step u t'"
      using scroll_screen_step [OF v] by blast
    have "changes ({} \<union> {dirty_first t'..dirty_last t'}) t t'" by (rule changes_trans [OF cu good_changes [OF s(3)]])
    then have "changes ({dirty_first t'..dirty_last t'} \<union> {cur_y t, cur_y t'}) t t'" by (rule changes_mono) auto
    then have "print_step t t'" using s(2) by (simp add: print_step_def u_def)
    then show ?thesis using True s(1,2) by (simp add: wrap_line_def Let_def u_def)
  next
    case False
    define w where "w = row_below u"
    have w: "good_step u w" using row_below_step [OF v] by (simp add: w_def)
    then have cw: "changes {} u w" by (rule changes_same) (simp add: w_def row_below_def)
    have y: "cur_y t \<le> cur_y w" using vt_okD(7) [OF t] by (auto simp: w_def row_below_def u_def)
    obtain ls where l: "with_line (cur_y w) (\<lambda>l. l\<lparr>is_wrapped := True\<rparr>) w = Some (set_lines ls w)" "changes {} w (set_lines ls w)"
      using with_line_hidden [OF good_stepD(1) [OF w], of "cur_y w" "\<lambda>l. l\<lparr>is_wrapped := True\<rparr>"] vt_okD(7) [OF good_stepD(1) [OF w]]
      by (auto simp: line_ok_ops)
    have "changes {} t (set_lines ls w)" using changes_trans [OF changes_trans [OF cu cw] l(2)] by simp
    then have "changes ({dirty_first (set_lines ls w)..dirty_last (set_lines ls w)} \<union> {cur_y t, cur_y (set_lines ls w)}) t (set_lines ls w)"
      by (rule changes_mono) simp
    then have "print_step t (set_lines ls w)" using y by (simp add: print_step_def)
    moreover have "wrap_line t = Some (set_lines ls w)"
      using False l(1) by (simp add: wrap_line_def Let_def u_def [symmetric] w_def [symmetric]) (simp add: u_def)
    ultimately show ?thesis by (auto simp: w_def row_below_def u_def)
  qed
qed

lemma wrap_frame: "wrap_line t = Some t' \<Longrightarrow> charset t' = charset t \<and> cur_attr t' = cur_attr t \<and> insert_mode t' = insert_mode t"
  by (auto simp: wrap_line_def scroll_screen_def with_line_def row_below_def Let_def split: if_splits)

lemma print_code_step:
  assumes t: "vt_ok t" and c: "code_fits c"
  shows "\<exists>t'. print_code c t = Some t' \<and> print_step t t'"
proof -
  define n where "n = wcwidth c"
  define i where "i = translated (charset t) c"
  have n: "n \<le> 2" by (simp add: n_def wcwidth_le)
  have i: "code_fits i" using t c by (simp add: i_def translated_fits vt_ok_def)
  note x = vt_okD(10) [OF t] and m = vt_okD(8) [OF t]
  have eq: "print_code c t =
     (if n \<noteq> 0 \<or> cur_x t = 0 then
           (if n_cols t < cur_x t + n then
              (if wraparound_mode t then Option.bind (wrap_line t) (put_at_cursor i n)
               else (let t = t\<lparr>cur_x := n_cols t - 1\<rparr> in if n = 2 then Some t else put_at_cursor i n t))
            else put_at_cursor i n t)
         else with_line (cur_y t + base t) (combine_char (cur_x t) i) t)"
    by (simp only: print_code_def Let_def n_def i_def)
  have refl: "print_step t t" using t by (simp add: print_step_def changes_def)
  have place: "\<exists>t'. put_at_cursor i n u = Some t' \<and> print_step t t'"
    if u: "print_step t u" "cur_x u + (if n = 0 then 1 else n) \<le> n_cols u" for u
  proof -
    have "vt_ok u" using u(1) changes_ok(1) by (auto simp: print_step_def)
    from put_step [OF this u(2) i n] print_step_trans [OF u(1)] show ?thesis by fastforce
  qed
  consider (put) "n \<noteq> 0 \<or> cur_x t = 0" "cur_x t + n \<le> n_cols t" | (wrap) "n \<noteq> 0 \<or> cur_x t = 0" "n_cols t < cur_x t + n" "wraparound_mode t"
    | (stay) "n \<noteq> 0 \<or> cur_x t = 0" "n_cols t < cur_x t + n" "\<not> wraparound_mode t" | (combine) "n = 0" "cur_x t \<noteq> 0" by linarith
  then show ?thesis
  proof cases
    case put
    then have "cur_x t + (if n = 0 then 1 else n) \<le> n_cols t" using m by auto
    from place [OF refl this] show ?thesis using put(1,2) by (simp add: eq)
  next
    case wrap
    obtain u where u: "wrap_line t = Some u" "print_step t u" "cur_x u = 0" using wrap_step [OF t] by blast
    have "n_cols u = n_cols t" using u(2) changes_ok(2) by (auto simp: print_step_def)
    then have "cur_x u + (if n = 0 then 1 else n) \<le> n_cols u" using u(3) m n by auto
    from place [OF u(2) this] show ?thesis using wrap u(1) by (simp add: eq)
  next
    case stay
    define u where "u = t\<lparr>cur_x := n_cols t - 1\<rparr>"
    have "good_step t u" unfolding u_def by (rule good_step_same [OF t]) (use t in \<open>simp_all add: vt_ok_def\<close>)
    then have "changes {} t u" by (rule changes_same) (simp add: u_def)
    then have "changes ({dirty_first u..dirty_last u} \<union> {cur_y t, cur_y u}) t u" by (rule changes_mono) simp
    then have u: "print_step t u" by (simp add: print_step_def u_def)
    have "n = 1 \<or> n = 2" using stay(1,2) x n m by auto
    then have "n = 2 \<or> n = 1 \<and> cur_x u + (if n = 0 then 1 else n) \<le> n_cols u" using m by (auto simp: u_def)
    moreover have "print_code c t = (if n = 2 then Some u else put_at_cursor i n u)" using stay by (simp add: eq Let_def u_def)
    ultimately show ?thesis using place [OF u] u by auto
  next
    case combine
    have "c < 2097152" using wcwidth_0 combine(1) by (simp add: n_def)
    then have small: "i < 2097152" using t by (simp add: i_def translated_small vt_ok_def)
    obtain l where l: "with_line (cur_y t + base t) (combine_char (cur_x t) i) t
          = Some (set_lines (cl_set (cur_y t + base t) (Some (combine_char (cur_x t) i l)) (lines t)) t)"
        "changes {y. base t + y = cur_y t + base t} t (set_lines (cl_set (cur_y t + base t) (Some (combine_char (cur_x t) i l)) (lines t)) t)"
      using with_line_step [OF t, of "cur_y t + base t" "combine_char (cur_x t) i"] line_ok_combine [OF _ small] vt_okD(7) [OF t] by auto
    have "changes {cur_y t} t (set_lines (cl_set (cur_y t + base t) (Some (combine_char (cur_x t) i l)) (lines t)) t)"
      using l(2) by (simp add: add.commute)
    from print_step_trans [OF refl this] l(1) combine show ?thesis by (simp add: eq)
  qed
qed

text \<open>The loop, from a state whose row is marked, and \<open>print\<close>.\<close>

lemma print_loop_step:
  assumes "vt_ok t" and "list_all code_fits cs" and "dirty_first t \<le> cur_y t"
  shows "\<exists>t'. print_loop cs t = Some t' \<and> cur_y t \<le> cur_y t'
    \<and> changes {dirty_first t'..max (dirty_last t') (cur_y t')} t t'"
  using assms
proof (induction cs arbitrary: t)
  case Nil
  then show ?case by (simp add: changes_def)
next
  case (Cons c cs)
  obtain u where u: "print_code c t = Some u" "print_step t u" using print_code_step [OF Cons.prems(1)] Cons.prems(2) by auto
  then have s: "cur_y t \<le> cur_y u" "changes ({dirty_first u..dirty_last u} \<union> {cur_y t, cur_y u}) t u"
    by (simp_all add: print_step_def)
  have d: "dirty_first u \<le> cur_y t" using changes_ok(4) [OF s(2)] Cons.prems(3) by simp
  obtain v where v: "print_loop cs u = Some v" "cur_y u \<le> cur_y v"
      "changes {dirty_first v..max (dirty_last v) (cur_y v)} u v"
    using Cons.IH [OF changes_ok(1) [OF s(2)]] Cons.prems(2) d s(1) by auto
  have "changes (({dirty_first u..dirty_last u} \<union> {cur_y t, cur_y u}) \<union> {dirty_first v..max (dirty_last v) (cur_y v)}) t v"
    by (rule changes_trans [OF s(2) v(3)])
  then have "changes {dirty_first v..max (dirty_last v) (cur_y v)} t v"
    by (rule changes_mono) (use d s(1) v(2) changes_ok(4,5) [OF v(3)] in auto)
  then show ?case using u(1) v(1,2) s(1) by auto
qed

lemma remembered_fits: "\<not> is_combined (of_nat (remember_cell c))"
proof -
  have "code_fits (unat (w :: u16))" for w using u16_bound [of w] by (intro small_code_fits) simp
  moreover have "code_fits 0" by (rule small_code_fits) simp
  ultimately show ?thesis unfolding remember_cell_def Let_def code_fits_def [symmetric] by (simp add: code_fits_def)
qed

lemma print_good:
  assumes t: "vt_ok t" and cs: "list_all code_fits cs"
  shows "\<exists>t'. print cs t = Some t' \<and> good_step t t'"
proof -
  define u where "u = markDirty (cur_y t) t"
  have u: "good_step t u" "vt_ok u" using keepsD [OF keeps_mark t] by (auto simp: u_def dest: good_stepD(1))
  have d: "dirty_first u \<le> cur_y u" using mark_bounds(1) [OF vt_okD(11) [OF t]] by (simp add: u_def)
  obtain v where v: "print_loop cs u = Some v" "changes {dirty_first v..max (dirty_last v) (cur_y v)} u v" "cur_y u \<le> cur_y v"
    using print_loop_step [OF u(2) cs d] by blast
  have vv: "vt_ok v" by (rule changes_ok(1) [OF v(2)])
  obtain l where l: "cl_get (cur_y v + base v) (lines v) = Some l"
    using fit_line [OF vv, of "cur_y v + base v"] vt_okD(7) [OF vv] by auto
  define w where "w = v\<lparr>preceding := remember_cell (loadCell (cur_x v - 1) l)\<rparr>"
  have "good_step v w" unfolding w_def
    by (rule good_step_same [OF vv]) (use vv remembered_fits in \<open>simp_all add: vt_ok_def\<close>)
  then have w: "changes {} v w" "vt_ok w" by (auto simp: w_def dest: good_stepD(1) intro: changes_same)
  have "changes {} w (markDirty (cur_y w) w)" by (rule changes_same [OF keepsD [OF keeps_mark w(2)]]) simp
  from changes_trans [OF v(2) changes_trans [OF w(1) this]]
  have c: "changes {dirty_first v..max (dirty_last v) (cur_y v)} u (markDirty (cur_y w) w)" by simp
  have m: "dirty_first (markDirty (cur_y w) w) = min (dirty_first v) (cur_y v)" "dirty_last (markDirty (cur_y w) w) = max (dirty_last v) (cur_y v)"
    using mark_bounds(1) [OF vt_okD(11) [OF w(2)], of "cur_y w"] by (simp_all add: w_def)
  have "good_step u (markDirty (cur_y w) w)" by (rule changes_good [OF c]) (auto simp: m)
  moreover have "print cs t = Some (markDirty (cur_y w) w)"
    unfolding print_def u_def [symmetric] v(1) Option.bind.bind_lunit l by (simp add: w_def)
  ultimately show ?thesis using good_step_trans [OF u(1)] by blast
qed

lemma repeat_good: "vt_ok t \<Longrightarrow> \<exists>t'. repeatPrecedingCharacter p t = Some t' \<and> good_step t t'"
  using print_good [of t "replicate (count p) (preceding t)"] good_step_refl
  by (auto simp: repeatPrecedingCharacter_def vt_ok_def code_fits_def list_all_iff)

end
