(* ===== verification/XtermColors.thy ===== *)
theory XtermColors
  imports XtermCells XtermParams
begin

text \<open>
  The colours and attributes of characters in \<open>src/html/xterm.js\<close>: \<open>InputHandler.charAttributes\<close>, its
  \<open>_extractColor\<close>, and the methods of \<open>AttributeData\<close> that read what they set.
\<close>

unbundle bit_operations_syntax

section \<open>Reading attributes\<close>

definition getFgColorMode :: "attr \<Rightarrow> u32" where "getFgColorMode a = 50331648 AND fg a"
definition getBgColorMode :: "attr \<Rightarrow> u32" where "getBgColorMode a = 50331648 AND bg a"

text \<open>\<open>getFgColor\<close> and \<open>getBgColor\<close>; -1 is the default colour.\<close>

definition color_of :: "u32 \<Rightarrow> int" where
  "color_of w =
     (let mode = 50331648 AND w
      in if mode = 16777216 \<or> mode = 33554432 then uint (255 AND w)
         else if mode = 50331648 then uint (16777215 AND w) else -1)"

definition toColorRGB :: "int \<Rightarrow> int list" where
  "toColorRGB e = [drop_bit 16 e AND 255, drop_bit 8 e AND 255, 255 AND e]"

definition fromColorRGB :: "int list \<Rightarrow> u32" where
  "fromColorRGB e =
     push_bit 16 (255 AND word_of_int (e ! 0)) OR push_bit 8 (255 AND word_of_int (e ! 1)) OR (255 AND word_of_int (e ! 2))"

section \<open>Extended colours\<close>

text \<open>\<open>hasSubParams\<close> and \<open>getSubParams\<close>.\<close>

definition hasSubParams :: "params \<Rightarrow> nat \<Rightarrow> bool" where
  "hasSubParams p e \<longleftrightarrow> sub_start (subs_idx p ! e) < sub_end (subs_idx p ! e)"

definition getSubParams :: "params \<Rightarrow> nat \<Rightarrow> int list" where
  "getSubParams p e = (let w = subs_idx p ! e in take (sub_end w - sub_start w) (drop (sub_start w) (subs p)))"

text \<open>The inner loop over the subparameters \<open>s\<close> from \<open>a\<close> on: it fills the six places of \<open>i\<close>.\<close>

fun sub_colors :: "nat \<Rightarrow> nat \<Rightarrow> nat \<Rightarrow> int list \<Rightarrow> int list \<Rightarrow> int list" where
  "sub_colors k n a [] i = i"
| "sub_colors k n a (x # s) i =
     (let n = (if i ! 1 = 5 then 1 else n);
          i = i[k + a + 1 + n := x]
      in if a + 1 + k + 1 + n < 6 then sub_colors k n (a + 1) s i else i)"

text \<open>The outer loop, from the parameter \<open>t + k\<close> on; it returns the array and how many parameters it has used.\<close>

function color_loop :: "params \<Rightarrow> nat \<Rightarrow> nat \<Rightarrow> nat \<Rightarrow> int list \<Rightarrow> int list \<times> nat" where
  "color_loop p t k n i =
     (let i = i[k + n := numbers p ! (t + k)]
      in if hasSubParams p (t + k) then (sub_colors k n 0 (getSubParams p (t + k)) i, k)
         else if i ! 1 = 5 \<and> 2 \<le> k + n \<or> i ! 1 = 2 \<and> 5 \<le> k + n then (i, k)
         else
           (let n = (if i ! 1 \<noteq> 0 then 1 else n)
            in if k + 1 + t < length (numbers p) \<and> k + 1 + n < 6 then color_loop p t (k + 1) n i else (i, k + 1)))"
  by pat_completeness auto
termination
  by (relation "measure (\<lambda>(p, t, k, n, i). length (numbers p) - (t + k))") (auto simp: Let_def)

declare color_loop.simps [simp del]

text \<open>A colour put into the word of a colour: its mode and value, without the other attributes.\<close>

definition put_color :: "int list \<Rightarrow> u32 \<Rightarrow> u32" where
  "put_color i w =
     (if i ! 1 = 2 then (((w OR 50331648) AND - 16777216) OR fromColorRGB [i ! 3, i ! 4, i ! 5])
      else if i ! 1 = 5 then ((w AND - 50331904) OR (33554432 OR (255 AND word_of_int (i ! 3))))
      else w)"

definition extractColor :: "params \<Rightarrow> nat \<Rightarrow> attr \<Rightarrow> attr \<times> nat" where
  "extractColor p t r =
     (let (i, k) = color_loop p t 0 0 [0, 0, -1, 0, 0, 0];
          i = take 2 i @ map (\<lambda>x. if x = -1 then 0 else x) (drop 2 i)
      in (if i ! 0 = 38 then r\<lparr>fg := put_color i (fg r)\<rparr>
          else if i ! 0 = 48 then r\<lparr>bg := put_color i (bg r)\<rparr> else r, k))"

section \<open>charAttributes\<close>

text \<open>The parameters that stand alone; those not listed change nothing.\<close>

definition set_attribute :: "int \<Rightarrow> attr \<Rightarrow> attr" where
  "set_attribute t i =
     (if 30 \<le> t \<and> t \<le> 37 then i\<lparr>fg := (fg i AND - 50331904) OR (16777216 OR word_of_int (t - 30))\<rparr>
      else if 40 \<le> t \<and> t \<le> 47 then i\<lparr>bg := (bg i AND - 50331904) OR (16777216 OR word_of_int (t - 40))\<rparr>
      else if 90 \<le> t \<and> t \<le> 97 then i\<lparr>fg := (fg i AND - 50331904) OR (16777224 OR word_of_int (t - 90))\<rparr>
      else if 100 \<le> t \<and> t \<le> 107 then i\<lparr>bg := (bg i AND - 50331904) OR (16777224 OR word_of_int (t - 100))\<rparr>
      else if t = 0 then i\<lparr>fg := fg DEFAULT_ATTR_DATA, bg := bg DEFAULT_ATTR_DATA\<rparr>
      else if t = 1 then i\<lparr>fg := fg i OR 134217728\<rparr>
      else if t = 3 then i\<lparr>bg := bg i OR 67108864\<rparr>
      else if t = 4 then i\<lparr>fg := fg i OR 268435456\<rparr>
      else if t = 5 then i\<lparr>fg := fg i OR 536870912\<rparr>
      else if t = 7 then i\<lparr>fg := fg i OR 67108864\<rparr>
      else if t = 8 then i\<lparr>fg := fg i OR 1073741824\<rparr>
      else if t = 2 then i\<lparr>bg := bg i OR 134217728\<rparr>
      else if t = 22 then i\<lparr>fg := fg i AND - 134217729, bg := bg i AND - 134217729\<rparr>
      else if t = 23 then i\<lparr>bg := bg i AND - 67108865\<rparr>
      else if t = 24 then i\<lparr>fg := fg i AND - 268435457\<rparr>
      else if t = 25 then i\<lparr>fg := fg i AND - 536870913\<rparr>
      else if t = 27 then i\<lparr>fg := fg i AND - 67108865\<rparr>
      else if t = 28 then i\<lparr>fg := fg i AND - 1073741825\<rparr>
      else if t = 39 then i\<lparr>fg := (fg i AND - 67108864) OR (16777215 AND fg DEFAULT_ATTR_DATA)\<rparr>
      else if t = 49 then i\<lparr>bg := (bg i AND - 67108864) OR (16777215 AND bg DEFAULT_ATTR_DATA)\<rparr>
      else if t = 100 then
        i\<lparr>fg := (fg i AND - 67108864) OR (16777215 AND fg DEFAULT_ATTR_DATA),
          bg := (bg i AND - 67108864) OR (16777215 AND bg DEFAULT_ATTR_DATA)\<rparr>
      else i)"

function sgr_loop :: "params \<Rightarrow> nat \<Rightarrow> attr \<Rightarrow> attr" where
  "sgr_loop p n i =
     (if n < length (numbers p) then
        (let t = numbers p ! n
         in if t = 38 \<or> t = 48 then (let (i, k) = extractColor p n i in sgr_loop p (n + k + 1) i)
            else sgr_loop p (n + 1) (set_attribute t i))
      else i)"
  by pat_completeness auto
termination
  by (relation "measure (\<lambda>(p, n, i). length (numbers p) - n)") auto

declare sgr_loop.simps [simp del]

definition charAttributes :: "params \<Rightarrow> attr \<Rightarrow> attr" where
  "charAttributes p i =
     (if length (numbers p) = 1 \<and> numbers p ! 0 = 0 then i\<lparr>fg := fg DEFAULT_ATTR_DATA, bg := bg DEFAULT_ATTR_DATA\<rparr>
      else sgr_loop p 0 i)"

section \<open>Colours that are set\<close>

lemma masked: "(x AND c) AND d = (c AND d) AND x" "c AND (x AND d) = (c AND d) AND x" for x c d :: u32
  by (simp_all add: ac_simps)

text \<open>The parts of a word in which a colour has been put; the other attributes are its six upper bits.\<close>

lemma color_part: "c AND ((w AND d) OR v) = ((c AND d) AND w) OR (c AND v)" for w v c d :: u32
  unfolding bit.conj_disj_distrib masked(2) ..

lemma put_color_rgb: "put_color [c, 2, x, r, g, b] w = (w AND - 67108864) OR (50331648 OR fromColorRGB [r, g, b])"
proof -
  have absorb: "(w AND x) OR x = x" for x by (rule bit_word_eqI) (auto simp: bit_simps)
  have "(w OR 50331648) AND - 16777216 = (w AND (- 67108864 OR 50331648)) OR 50331648"
    by (simp add: bit.conj_disj_distrib2)
  also have "\<dots> = (w AND - 67108864) OR ((w AND 50331648) OR 50331648)"
    unfolding bit.conj_disj_distrib or.assoc ..
  finally have "(w OR 50331648) AND - 16777216 = (w AND - 67108864) OR 50331648" unfolding absorb .
  then show ?thesis by (simp add: put_color_def or.assoc)
qed

lemma put_color_palette: "put_color [c, 5, x, n, g, b] w = (w AND - 50331904) OR (33554432 OR (255 AND word_of_int n))"
  by (simp add: put_color_def)

lemma byte_and: "0 \<le> r \<Longrightarrow> r < 256 \<Longrightarrow> 255 AND (word_of_int r :: u32) = word_of_int r"
proof -
  assume r: "0 \<le> r" "r < 256"
  have m: "(255 :: u32) = mask 8" by (simp add: mask_eq_exp_minus_1)
  show ?thesis
    unfolding m and.commute [of "mask 8"] take_bit_eq_mask [symmetric]
    by (rule word_uint_eqI) (use r in \<open>simp add: unsigned_take_bit_eq uint_word_of_int_eq take_bit_int_eq_self\<close>)
qed

lemma byte_bits: "0 \<le> r \<Longrightarrow> r < 256 \<Longrightarrow> 8 \<le> n \<Longrightarrow> \<not> bit r n" for r :: int
proof -
  assume r: "0 \<le> r" "r < 256" "8 \<le> n"
  then have "take_bit 8 r = r" by (simp add: take_bit_int_eq_self)
  then have "bit r n = (n < 8 \<and> bit r n)" by (metis bit_take_bit_iff)
  then show "\<not> bit r n" using r(3) by simp
qed

lemma rgb_bytes:
  assumes "0 \<le> r" "r < 256" and "0 \<le> g" "g < 256" and "0 \<le> b" "b < 256"
  shows "toColorRGB (push_bit 16 r OR push_bit 8 g OR b) = [r, g, b]"
proof -
  note B = byte_bits [OF assms(1,2)] byte_bits [OF assms(3,4)] byte_bits [OF assms(5,6)]
  have m: "(255 :: int) = mask 8" by (simp add: mask_eq_exp_minus_1)
  let ?e = "push_bit 16 r OR push_bit 8 g OR b"
  have e: "bit ?e n \<longleftrightarrow> 16 \<le> n \<and> bit r (n - 16) \<or> 8 \<le> n \<and> bit g (n - 8) \<or> bit b n" for n
    by (simp add: bit_or_iff bit_push_bit_iff)
  have "bit (drop_bit 16 ?e AND 255) n = bit r n" for n
  proof (cases "8 \<le> n")
    case True
    then show ?thesis using B(1) [OF True] by (simp add: m bit_and_iff bit_mask_iff)
  next
    case False
    then show ?thesis using B(2) [of "8 + n"] B(3) [of "16 + n"] unfolding m bit_and_iff bit_drop_bit_eq comp_def e bit_mask_iff by simp
  qed
  moreover have "bit (drop_bit 8 ?e AND 255) n = bit g n" for n
    using B(2) [of n] B(3) [of "8 + n"] unfolding m bit_and_iff bit_drop_bit_eq comp_def e bit_mask_iff by (cases "8 \<le> n") auto
  moreover have "bit (255 AND ?e) n = bit b n" for n
    using B(3) [of n] unfolding m bit_and_iff e bit_mask_iff by (cases "8 \<le> n") auto
  ultimately have "drop_bit 16 ?e AND 255 = r" "drop_bit 8 ?e AND 255 = g" "255 AND ?e = b" by (simp_all add: bit_eq_iff)
  then show ?thesis by (simp add: toColorRGB_def)
qed

lemma rgb_word:
  assumes "0 \<le> r" "r < 256" and "0 \<le> g" "g < 256" and "0 \<le> b" "b < 256"
  shows "fromColorRGB [r, g, b] = word_of_int (push_bit 16 r OR push_bit 8 g OR b)"
    and "uint (fromColorRGB [r, g, b]) = push_bit 16 r OR push_bit 8 g OR b"
    and "16777215 AND fromColorRGB [r, g, b] = fromColorRGB [r, g, b]"
proof -
  note B = byte_bits [OF assms(1,2)] byte_bits [OF assms(3,4)] byte_bits [OF assms(5,6)]
  let ?e = "push_bit 16 r OR push_bit 8 g OR b"
  show w: "fromColorRGB [r, g, b] = word_of_int ?e"
    by (simp add: fromColorRGB_def byte_and assms) (rule bit_word_eqI, auto simp: bit_simps)
  have "bit (take_bit 24 ?e) n = bit ?e n" for n
  proof (cases "n < 24")
    case False
    then have "8 \<le> n - 16" "8 \<le> n - 8" "8 \<le> n" by linarith+
    then show ?thesis using False B by (simp add: bit_or_iff bit_push_bit_iff bit_take_bit_iff)
  qed (simp only: bit_take_bit_iff simp_thms)
  then have t: "take_bit 24 ?e = ?e" by (simp add: bit_eq_iff)
  have "take_bit 32 (take_bit 24 ?e) = take_bit 24 ?e" by (simp only: take_bit_take_bit)
  then have "take_bit 32 ?e = ?e" unfolding t .
  then show "uint (fromColorRGB [r, g, b]) = ?e" by (simp add: w uint_word_of_int_eq)
  have "16777215 = (mask 24 :: u32)" by (simp add: mask_eq_exp_minus_1)
  then show "16777215 AND fromColorRGB [r, g, b] = fromColorRGB [r, g, b]"
    using take_bit_of_int [of 24 ?e, where ?'a = u32] unfolding w t by (simp only: and.commute [of "mask 24"] take_bit_eq_mask)
qed

text \<open>A word shows a colour: its mode and value, and the other attributes are those of the word before.\<close>

definition shows_color :: "u32 \<Rightarrow> u32 \<Rightarrow> u32 \<Rightarrow> bool" where
  "shows_color mode old w \<longleftrightarrow> 50331648 AND w = mode \<and> - 67108864 AND w = - 67108864 AND old"

lemma rgb_shown:
  assumes "0 \<le> r" "r < 256" and "0 \<le> g" "g < 256" and "0 \<le> b" "b < 256"
  shows "shows_color 50331648 w (put_color [c, 2, x, r, g, b] w)" and "toColorRGB (color_of (put_color [c, 2, x, r, g, b] w)) = [r, g, b]"
proof -
  let ?v = "fromColorRGB [r, g, b]"
  have v: "16777215 AND ?v = ?v" by (rule rgb_word(3) [OF assms])
  have z: "50331648 AND ?v = 0" "- 67108864 AND ?v = 0"
    by (subst v [symmetric]; simp flip: and.assoc)+
  have k: "(50331648 AND - 67108864 :: u32) = 0" "(16777215 AND - 67108864 :: u32) = 0" "(- 67108864 AND - 67108864 :: u32) = - 67108864"
    by simp_all
  have parts: "50331648 AND put_color [c, 2, x, r, g, b] w = 50331648" "16777215 AND put_color [c, 2, x, r, g, b] w = ?v"
    "- 67108864 AND put_color [c, 2, x, r, g, b] w = - 67108864 AND w"
    unfolding put_color_rgb color_part k unfolding bit.conj_disj_distrib z v by simp_all
  then show "shows_color 50331648 w (put_color [c, 2, x, r, g, b] w)" by (simp add: shows_color_def)
  show "toColorRGB (color_of (put_color [c, 2, x, r, g, b] w)) = [r, g, b]"
    by (simp add: color_of_def Let_def parts rgb_word(2) [OF assms] rgb_bytes [OF assms])
qed

lemma uint_byte: "0 \<le> n \<Longrightarrow> n < 256 \<Longrightarrow> uint (word_of_int n :: u32) = n"
  by (simp add: uint_word_of_int_eq take_bit_int_eq_self)

lemma palette_shown:
  assumes "0 \<le> n" "n < 256"
  shows "shows_color 33554432 w (put_color [c, 5, x, n, g, b] w)" and "color_of (put_color [c, 5, x, n, g, b] w) = n"
proof -
  let ?v = "word_of_int n :: u32"
  have v: "255 AND ?v = ?v" by (rule byte_and [OF assms])
  have z: "50331648 AND ?v = 0" "- 67108864 AND ?v = 0"
    by (subst v [symmetric]; simp flip: and.assoc)+
  have k: "(50331648 AND - 50331904 :: u32) = 0" "(255 AND - 50331904 :: u32) = 0" "(- 67108864 AND - 50331904 :: u32) = - 67108864"
    by simp_all
  have parts: "50331648 AND put_color [c, 5, x, n, g, b] w = 33554432" "255 AND put_color [c, 5, x, n, g, b] w = ?v"
    "- 67108864 AND put_color [c, 5, x, n, g, b] w = - 67108864 AND w"
    unfolding put_color_palette color_part k unfolding bit.conj_disj_distrib v z by (simp_all add: v)
  then show "shows_color 33554432 w (put_color [c, 5, x, n, g, b] w)" by (simp add: shows_color_def)
  show "color_of (put_color [c, 5, x, n, g, b] w) = n"
    by (simp add: color_of_def Let_def parts uint_byte [OF assms])
qed

lemma loop_rgb:
  assumes "t + 4 < length (numbers p)" and "\<And>e. e < length (numbers p) \<Longrightarrow> \<not> hasSubParams p e"
    and "numbers p ! t = c" "numbers p ! (t + 1) = 2" "numbers p ! (t + 2) = r" "numbers p ! (t + 3) = g" "numbers p ! (t + 4) = b"
  shows "color_loop p t 0 0 [0, 0, -1, 0, 0, 0] = ([c, 2, -1, r, g, b], 4)"
  using assms by (simp add: color_loop.simps Let_def numeral_eq_Suc)

lemma loop_palette:
  assumes "t + 2 < length (numbers p)" and "\<And>e. e < length (numbers p) \<Longrightarrow> \<not> hasSubParams p e"
    and "numbers p ! t = c" "numbers p ! (t + 1) = 5" "numbers p ! (t + 2) = n"
  shows "color_loop p t 0 0 [0, 0, -1, 0, 0, 0] = ([c, 5, -1, n, 0, 0], 2)"
  using assms by (simp add: color_loop.simps Let_def numeral_eq_Suc)

lemma sgr_extended:
  assumes "t < length (numbers p)" and "numbers p ! t = 38 \<or> numbers p ! t = 48"
    and "color_loop p t 0 0 [0, 0, -1, 0, 0, 0] = ([numbers p ! t, m, -1, x, y, z], k)" and "-1 < x" "-1 < y" "-1 < z"
  shows "sgr_loop p t a = sgr_loop p (t + k + 1)
    (if numbers p ! t = 38 then a\<lparr>fg := put_color [numbers p ! t, m, 0, x, y, z] (fg a)\<rparr>
     else a\<lparr>bg := put_color [numbers p ! t, m, 0, x, y, z] (bg a)\<rparr>)"
  using assms by (subst sgr_loop.simps) (auto simp: Let_def extractColor_def numeral_2_eq_2)

text \<open>The word of the foreground for 38, that of the background for 48.\<close>

definition color_word :: "int \<Rightarrow> attr \<Rightarrow> u32" where
  "color_word c a = (if c = 38 then fg a else bg a)"

definition with_color :: "int \<Rightarrow> u32 \<Rightarrow> attr \<Rightarrow> attr" where
  "with_color c w a = (if c = 38 then a\<lparr>fg := w\<rparr> else a\<lparr>bg := w\<rparr>)"

text \<open>
  C24. The extended colours of a text: wherever in the sequence 38;2;r;g;b or 48;2;r;g;b stands, the foreground or the
  background becomes exactly that colour, the other attributes of the word and the other word stay as they are, and the
  rest of the sequence is read from behind it; 38;5;r and 48;5;r select the colour r of the palette.
\<close>

theorem colours_set:
  assumes "\<And>e. e < length (numbers p) \<Longrightarrow> \<not> hasSubParams p e" and "c = 38 \<or> c = 48"
    and "0 \<le> r" "r < 256" and "0 \<le> g" "g < 256" and "0 \<le> b" "b < 256"
  shows "(numbers p = pre @ [c, 2, r, g, b] @ post \<longrightarrow>
      (\<exists>w. sgr_loop p (length pre) a = sgr_loop p (length pre + 5) (with_color c w a)
        \<and> shows_color 50331648 (color_word c a) w \<and> toColorRGB (color_of w) = [r, g, b]))
    \<and> (numbers p = pre @ [c, 5, r] @ post \<longrightarrow>
      (\<exists>w. sgr_loop p (length pre) a = sgr_loop p (length pre + 3) (with_color c w a)
        \<and> shows_color 33554432 (color_word c a) w \<and> color_of w = r))"
proof (intro conjI impI)
  let ?t = "length pre"
  assume n: "numbers p = pre @ [c, 2, r, g, b] @ post"
  have "color_loop p ?t 0 0 [0, 0, -1, 0, 0, 0] = ([c, 2, -1, r, g, b], 4)"
    by (rule loop_rgb [OF _ assms(1)]) (simp_all add: n nth_append)
  then have "sgr_loop p ?t a = sgr_loop p (?t + 4 + 1) (with_color c (put_color [c, 2, 0, r, g, b] (color_word c a)) a)"
    using sgr_extended [of ?t p 2 r g b 4 a] assms(2-8) by (auto simp: n with_color_def color_word_def)
  moreover have "?t + 4 + 1 = ?t + 5" by simp
  ultimately show "\<exists>w. sgr_loop p ?t a = sgr_loop p (?t + 5) (with_color c w a)
      \<and> shows_color 50331648 (color_word c a) w \<and> toColorRGB (color_of w) = [r, g, b]"
    using rgb_shown [OF assms(3-8)] by metis
next
  let ?t = "length pre"
  assume n: "numbers p = pre @ [c, 5, r] @ post"
  have "color_loop p ?t 0 0 [0, 0, -1, 0, 0, 0] = ([c, 5, -1, r, 0, 0], 2)"
    by (rule loop_palette [OF _ assms(1)]) (simp_all add: n nth_append)
  then have "sgr_loop p ?t a = sgr_loop p (?t + 2 + 1) (with_color c (put_color [c, 5, 0, r, 0, 0] (color_word c a)) a)"
    using sgr_extended [of ?t p 5 r 0 0 2 a] assms(2-4) by (auto simp: n with_color_def color_word_def)
  moreover have "?t + 2 + 1 = ?t + 3" by simp
  ultimately show "\<exists>w. sgr_loop p ?t a = sgr_loop p (?t + 3) (with_color c w a)
      \<and> shows_color 33554432 (color_word c a) w \<and> color_of w = r"
    using palette_shown [OF assms(3,4)] by metis
qed

definition orange_bold :: params where
  "orange_bold = fold (\<lambda>e p. the (addParam e p)) [1, 38, 2, 255, 128, 0, 4] (the (new_params 32 32))"

theorem colours_set_witness:
  "\<exists>w. sgr_loop orange_bold 1 \<lparr>fg = 134217728, bg = 0\<rparr> = sgr_loop orange_bold 6 \<lparr>fg = w, bg = 0\<rparr>
    \<and> - 67108864 AND w = 134217728 \<and> toColorRGB (color_of w) = [255, 128, 0]"
proof -
  have n: "numbers orange_bold = [1] @ [38, 2, 255, 128, 0] @ [4]" and s: "subs_idx orange_bold = replicate 7 0"
    by (simp_all add: orange_bold_def new_params_def addParam_def Let_def clamp_def numeral_eq_Suc)
  have "\<not> hasSubParams orange_bold e" if "e < length (numbers orange_bold)" for e
    using that by (simp add: hasSubParams_def s n sub_start_def sub_end_def)
  from colours_set [OF this, of 38 255 128 0 "[1]" "[4]" "\<lparr>fg = 134217728, bg = 0\<rparr>"]
  show ?thesis by (simp add: n with_color_def color_word_def shows_color_def) blast
qed

end
