(* ===== verification/XtermDispatch.thy ===== *)
theory XtermDispatch
  imports XtermPrint XtermColors XtermSequences
begin

text \<open>
  From the events of the parser to the handlers of \<open>InputHandler\<close> in \<open>src/html/xterm.js\<close>: the table of handlers the
  constructor registers. The properties: no handler throws but in the named cases, the screen stays well formed, and
  every row a handler changes is repainted.
\<close>

unbundle bit_operations_syntax

section \<open>The handlers\<close>

definition set_attributes :: "params \<Rightarrow> vt \<Rightarrow> vt" where
  "set_attributes p t = t\<lparr>cur_attr := charAttributes p (cur_attr t)\<rparr>"

text \<open>
  \<open>triggerDataEvent\<close>: an answer to the other side scrolls the view to the bottom. \<open>deviceStatus\<close>,
  \<open>deviceStatusPrivate\<close> and the two \<open>sendDeviceAttributes\<close> of a terminal named xterm, as the pages have it.
\<close>

definition trigger_data :: "vt \<Rightarrow> vt" where
  "trigger_data t =
     (if base t \<noteq> ydisp (buf t) then t\<lparr>buf := (buf t)\<lparr>ydisp := base t, user_scrolling := False\<rparr>\<rparr> else t)"

definition deviceStatus :: "params \<Rightarrow> vt \<Rightarrow> vt" where
  "deviceStatus p t = (if param 0 p = 5 \<or> param 0 p = 6 then trigger_data t else t)"

definition deviceStatusPrivate :: "params \<Rightarrow> vt \<Rightarrow> vt" where
  "deviceStatusPrivate p t = (if param 0 p = 6 then trigger_data t else t)"

definition sendDeviceAttributes :: "params \<Rightarrow> vt \<Rightarrow> vt" where
  "sendDeviceAttributes p t = (if 0 < param 0 p then t else trigger_data t)"

text \<open>The handlers of control sequences, by the identifier of the sequence; 63, 33, 62, 32 and 39 are ? ! > space and '.\<close>

definition csi_handlers :: "params \<Rightarrow> (nat \<times> (vt \<Rightarrow> vt option)) list" where
  "csi_handlers p =
     [(64, Some \<circ> insertChars p), (32 * 256 + 64, scrollLeft p), (65, Some \<circ> cursorUp p), (32 * 256 + 65, scrollRight p),
      (66, Some \<circ> cursorDown p), (67, Some \<circ> cursorForward p), (68, Some \<circ> cursorBackward p), (69, Some \<circ> cursorNextLine p),
      (70, Some \<circ> cursorPrecedingLine p), (71, Some \<circ> cursorCharAbsolute p), (72, Some \<circ> cursorPosition p),
      (73, Some \<circ> cursorForwardTab p), (74, eraseInDisplay p), (63 * 256 + 74, eraseInDisplay p), (75, eraseInLine p),
      (63 * 256 + 75, eraseInLine p), (76, Some \<circ> insertLines p), (77, Some \<circ> deleteLines p), (80, Some \<circ> deleteChars p),
      (83, Some \<circ> scrollUp p), (84, Some \<circ> scrollDown p), (88, Some \<circ> eraseChars p), (90, Some \<circ> cursorBackwardTab p),
      (96, Some \<circ> cursorCharAbsolute p), (97, Some \<circ> hPositionRelative p), (98, repeatPrecedingCharacter p),
      (99, Some \<circ> sendDeviceAttributes p), (62 * 256 + 99, Some \<circ> sendDeviceAttributes p),
      (100, Some \<circ> linePosAbsolute p), (101, Some \<circ> vPositionRelative p), (102, Some \<circ> cursorPosition p), (103, Some \<circ> tabClear p),
      (104, Some \<circ> set_mode True p), (63 * 256 + 104, Some \<circ> set_modes_private True p),
      (108, Some \<circ> set_mode False p), (63 * 256 + 108, Some \<circ> set_modes_private False p),
      (109, Some \<circ> set_attributes p), (110, Some \<circ> deviceStatus p), (63 * 256 + 110, Some \<circ> deviceStatusPrivate p),
      (33 * 256 + 112, Some \<circ> softReset), (114, Some \<circ> setScrollRegion p), (115, Some \<circ> saveCursor), (117, Some \<circ> restoreCursor),
      (39 * 256 + 125, insertColumns p), (39 * 256 + 126, deleteColumns p)]"

text \<open>Those of control characters and of other escape sequences; the latter select character sets as well.\<close>

definition execute_handlers :: "(nat \<times> (vt \<Rightarrow> vt option)) list" where
  "execute_handlers =
     [(10, lineFeed), (11, lineFeed), (12, lineFeed), (13, Some \<circ> carriageReturn), (8, Some \<circ> backspace), (9, Some \<circ> tab),
      (14, Some \<circ> setgLevel 1), (15, Some \<circ> setgLevel 0), (132, index), (133, nextLine), (136, Some \<circ> tabSet)]"

definition esc_handlers :: "(nat \<times> (vt \<Rightarrow> vt option)) list" where
  "esc_handlers =
     [(55, Some \<circ> saveCursor), (56, Some \<circ> restoreCursor), (68, index), (69, nextLine), (72, Some \<circ> tabSet), (77, reverseIndex),
      (110, Some \<circ> setgLevel 2), (111, Some \<circ> setgLevel 3), (124, Some \<circ> setgLevel 3), (125, Some \<circ> setgLevel 2),
      (126, Some \<circ> setgLevel 1), (37 * 256 + 64, Some \<circ> selectDefaultCharset), (37 * 256 + 71, Some \<circ> selectDefaultCharset),
      (35 * 256 + 56, screenAlignmentPattern)]
     @ [(a * 256 + b, Some \<circ> selectCharset a b). a \<leftarrow> [40, 41, 42, 43, 45, 46, 47],
         (names, _) \<leftarrow> CHARSETS, b \<leftarrow> map of_char names]"

section \<open>Dispatch\<close>

text \<open>
  What becomes of an event. Left out are the handlers that replace the whole screen: the reset of the terminal, the
  switch to the other buffer and to another number of columns, and the request for settings, whose answer depends on options.
\<close>

datatype vt_outcome = Handled vt | Throws | Left_out

fun left_out :: "event \<Rightarrow> bool" where
  "left_out (Csi i p) \<longleftrightarrow> (unat i = 63 * 256 + 104 \<or> unat i = 63 * 256 + 108) \<and> (\<exists>n\<in>set (numbers p). n \<in> {3, 47, 1047, 1049})"
| "left_out (Esc i) \<longleftrightarrow> unat i = 99"
| "left_out (Hook i p) \<longleftrightarrow> unat i = 36 * 256 + 113"
| "left_out _ \<longleftrightarrow> False"

text \<open>A code without a handler only leaves a message in the log; after each sequence \<open>precedingCodepoint\<close> is 0.\<close>

definition call_handler :: "(nat \<times> (vt \<Rightarrow> vt option)) list \<Rightarrow> nat \<Rightarrow> vt \<Rightarrow> vt option" where
  "call_handler hs i t =
     map_option (\<lambda>t. t\<lparr>preceding := 0\<rparr>) (case map_of hs i of Some h \<Rightarrow> h t | None \<Rightarrow> Some t)"

fun handled :: "event \<Rightarrow> vt \<Rightarrow> vt option" where
  "handled (Print cs) t = print cs t"
| "handled (Execute c) t = call_handler execute_handlers c t"
| "handled (Csi i p) t = call_handler (csi_handlers p) (unat i) t"
| "handled (Esc i) t = call_handler esc_handlers (unat i) t"
| "handled (Unhook _) t = Some (t\<lparr>preceding := 0\<rparr>)"
| "handled (Osc_end _) t = Some (t\<lparr>preceding := 0\<rparr>)"
| "handled _ t = Some t"

definition dispatch :: "event \<Rightarrow> vt \<Rightarrow> vt_outcome" where
  "dispatch e t = (if left_out e then Left_out else case handled e t of None \<Rightarrow> Throws | Some t \<Rightarrow> Handled t)"

fun run_events :: "event list \<Rightarrow> vt \<Rightarrow> vt_outcome" where
  "run_events [] t = Handled t"
| "run_events (e # es) t = (case dispatch e t of Handled t \<Rightarrow> run_events es t | r \<Rightarrow> r)"

section \<open>What the handlers keep\<close>

text \<open>The events that may throw, \<open>CSI 1 J\<close> and \<open>ESC # 8\<close>, and when they do.\<close>

fun erases_above :: "event \<Rightarrow> bool" where
  "erases_above (Csi i p) \<longleftrightarrow> (unat i = 74 \<or> unat i = 63 * 256 + 74) \<and> param 0 p = 1"
| "erases_above _ \<longleftrightarrow> False"

fun aligns :: "event \<Rightarrow> bool" where
  "aligns (Esc i) \<longleftrightarrow> unat i = 35 * 256 + 56"
| "aligns _ \<longleftrightarrow> False"

fun codes_fit :: "event \<Rightarrow> bool" where
  "codes_fit (Print cs) \<longleftrightarrow> list_all (\<lambda>c. c < 2097152) cs"
| "codes_fit _ \<longleftrightarrow> True"

lemma keeps_answers: "keeps trigger_data" "keeps (deviceStatus p)" "keeps (deviceStatusPrivate p)" "keeps (sendDeviceAttributes p)"
proof -
  show d: "keeps trigger_data"
    unfolding keeps_def trigger_data_def
    by (auto simp: good_step_refl) (auto simp: good_step_def vt_ok_def buffer_ok_def row_cells_def screen_def)
  show "keeps (deviceStatus p)" "keeps (deviceStatusPrivate p)" "keeps (sendDeviceAttributes p)"
    using keepsD [OF d] good_step_refl by (auto simp: keeps_def deviceStatus_def deviceStatusPrivate_def sendDeviceAttributes_def)
qed

lemma keeps_attributes: "keeps (set_attributes p)"
  unfolding keeps_def set_attributes_def by (intro allI impI good_step_same) (simp_all add: vt_ok_def)

lemma keeps_preceding: "keeps (\<lambda>t. t\<lparr>preceding := 0\<rparr>)"
  unfolding keeps_def by (intro allI impI good_step_same) (simp_all add: vt_ok_def is_combined_def)

lemma safe_comp: "keeps f \<Longrightarrow> safe (Some \<circ> f)"
  using safe_Some by (simp add: comp_def)

lemma safe_repeat: "safe (repeatPrecedingCharacter p)"
  using repeat_good by (simp add: safe_def)

text \<open>All handlers but the two.\<close>

lemmas keeps_all = keeps_controls keeps_charsets keeps_moves keeps_lines keeps_chars keeps_region keeps_modes keeps_answers
  keeps_attributes

lemma safe_csi: "(i, h) \<in> set (csi_handlers p) \<Longrightarrow> i \<noteq> 74 \<Longrightarrow> i \<noteq> 63 * 256 + 74 \<Longrightarrow> safe h"
  by (auto simp: csi_handlers_def intro: safe_comp keeps_all safe_columns safe_erase_in_line safe_repeat)

lemma safe_execute: "(i, h) \<in> set execute_handlers \<Longrightarrow> safe h"
  by (auto simp: execute_handlers_def intro: safe_comp keeps_all safe_line_feed safe_index)

lemma safe_esc: "(i, h) \<in> set esc_handlers \<Longrightarrow> i \<noteq> 35 * 256 + 56 \<Longrightarrow> safe h"
  unfolding esc_handlers_def set_append Un_iff
  by (elim disjE) (auto intro: safe_comp safe_Some keeps_all safe_index safe_reverse_index)

lemma call_good:
  assumes t: "vt_ok t" and h: "\<And>h. map_of hs i = Some h \<Longrightarrow> \<exists>t'. h t = Some t' \<and> good_step t t'"
  shows "\<exists>t'. call_handler hs i t = Some t' \<and> good_step t t'"
proof -
  have p: "\<exists>t'. map_option (\<lambda>t. t\<lparr>preceding := 0\<rparr>) (Some u) = Some t' \<and> good_step t t'" if "good_step t u" for u
    using good_step_trans [OF that keepsD [OF keeps_preceding good_stepD(1) [OF that]]] by simp
  show ?thesis
  proof (cases "map_of hs i")
    case None
    then show ?thesis using p [OF good_step_refl [OF t]] by (simp add: call_handler_def)
  next
    case (Some h)
    obtain u where "h t = Some u" "good_step t u" using h [OF Some] by blast
    then show ?thesis using p Some by (simp add: call_handler_def)
  qed
qed

lemma erase_handlers: "map_of (csi_handlers p) 74 = Some (eraseInDisplay p)" "map_of (csi_handlers p) (63 * 256 + 74) = Some (eraseInDisplay p)"
  by (simp_all add: csi_handlers_def)

lemma align_handler: "map_of esc_handlers (35 * 256 + 56) = Some screenAlignmentPattern"
  by (simp add: esc_handlers_def)

definition throwing :: "event \<Rightarrow> vt \<Rightarrow> bool" where
  "throwing e t \<longleftrightarrow> erases_above e \<and> above_throws (restrictCursor t) \<or> aligns e \<and> align_throws t"

lemma handled_good:
  assumes t: "vt_ok t" and f: "codes_fit e"
  shows "if throwing e t then handled e t = None
    else \<exists>t'. handled e t = Some t' \<and> good_step t t'"
proof (cases e)
  case (Print cs)
  then show ?thesis using print_good [OF t, of cs] f by (simp add: throwing_def list_all_iff small_code_fits)
next
  case (Csi i p)
  show ?thesis
  proof (cases "unat i = 74 \<or> unat i = 63 * 256 + 74")
    case True
    then have h: "map_of (csi_handlers p) (unat i) = Some (eraseInDisplay p)" using erase_handlers by auto
    have "handled e t = call_handler (csi_handlers p) (unat i) t" by (simp add: Csi)
    then show ?thesis
      using erase_in_display_step [OF t, of p] call_good [OF t, of "csi_handlers p" "unat i"] True h
      by (cases "param 0 p = 1 \<and> above_throws (restrictCursor t)") (auto simp: throwing_def Csi call_handler_def)
  next
    case False
    then have "safe h" if "map_of (csi_handlers p) (unat i) = Some h" for h
      using safe_csi [OF map_of_SomeD [OF that]] by simp
    then show ?thesis using call_good [OF t, of "csi_handlers p" "unat i"] t False by (auto simp: throwing_def Csi safe_def)
  qed
next
  case (Execute c)
  then show ?thesis
    using call_good [OF t, of execute_handlers c] t safe_execute [OF map_of_SomeD] by (auto simp: throwing_def safe_def)
next
  case (Esc i)
  show ?thesis
  proof (cases "unat i = 35 * 256 + 56")
    case True
    then have h: "map_of esc_handlers (unat i) = Some screenAlignmentPattern" using align_handler by simp
    have "handled e t = call_handler esc_handlers (unat i) t" by (simp add: Esc)
    then show ?thesis
      using alignment_step [OF t] call_good [OF t, of esc_handlers "unat i"] True h
      by (cases "align_throws t") (auto simp: throwing_def Esc call_handler_def)
  next
    case False
    then show ?thesis
      using call_good [OF t, of esc_handlers "unat i"] t safe_esc [OF map_of_SomeD] by (auto simp: throwing_def Esc safe_def)
  qed
qed (use t keepsD [OF keeps_preceding t] good_step_refl [OF t] in \<open>simp_all add: throwing_def\<close>)

lemma good_rows: "good_step t u \<Longrightarrow> j < n_rows t \<Longrightarrow> row_cells j u \<noteq> row_cells j t \<Longrightarrow> dirty_first u \<le> j \<and> j \<le> dirty_last u"
  by (auto simp: good_step_def not_le [symmetric])

text \<open>
  C5. The handlers of the terminal, for every event but those that replace the screen or ask for settings (\<open>left_out\<close>:
  \<open>ESC c\<close>, the private modes 3, 47, 1047 and 1049, \<open>DCS $ q\<close>). On a well-formed screen the event is handled without
  an exception and leaves a well-formed screen of the same size, with the cursor on it, and each row whose cells have changed
  lies in the range of rows the terminal repaints; except that the handler throws in exactly two cases:
  \<open>CSI 1 J\<close> when the cursor is in the last column of the last row, nothing has scrolled off the screen and the list of lines
  has an unused place, and \<open>ESC # 8\<close> when the region moves the origin down by more rows than there are objects behind the
  end of the list. (The array of \<open>CSI n b\<close> is taken to be allocated.)
\<close>

theorem screen_kept:
  assumes "vt_ok t" and "codes_fit e" and "\<not> left_out e"
  shows "if throwing e t then dispatch e t = Throws
    else \<exists>t'. dispatch e t = Handled t' \<and> vt_ok t' \<and> n_cols t' = n_cols t \<and> n_rows t' = n_rows t
      \<and> (\<forall>j<n_rows t. row_cells j t' \<noteq> row_cells j t \<longrightarrow> dirty_first t' \<le> j \<and> j \<le> dirty_last t')"
proof (cases "throwing e t")
  case True
  then show ?thesis using handled_good [OF assms(1,2)] assms(3) by (simp add: dispatch_def)
next
  case False
  then obtain t' where "handled e t = Some t'" "good_step t t'" using handled_good [OF assms(1,2)] by auto
  then show ?thesis using good_rows False assms(3) by (auto simp: dispatch_def dest: good_stepD)
qed

section \<open>A chunk\<close>

text \<open>
  \<open>InputHandler.parse\<close> clears the range before a chunk and repaints it after the chunk. A fresh terminal: the constructor
  of the buffer, \<open>fillViewportRows\<close> and \<open>_setup\<close>, with tab stops \<open>w\<close> apart and room for \<open>spare\<close> lines more than the screen has.
\<close>

definition handle_events :: "event list \<Rightarrow> vt \<Rightarrow> vt_outcome" where
  "handle_events es t = run_events es (clearRange t)"

definition blank_line :: "nat \<Rightarrow> bline" where
  "blank_line cols = new_line cols (getNullCell DEFAULT_ATTR_DATA) False"

definition new_vt :: "nat \<Rightarrow> nat \<Rightarrow> nat \<Rightarrow> nat \<Rightarrow> bool \<Rightarrow> vt" where
  "new_vt cols rows spare w eol =
     \<lparr>buf = \<lparr>buf_lines = (cl_push (blank_line cols) ^^ rows) (new_clist (rows + spare)), ybase = 0, ydisp = 0, scroll_top = 0,
        scroll_bottom = rows - 1, user_scrolling = False\<rparr>,
      cur_x = 0, cur_y = 0, tab_stops = (\<lambda>e. e < cols \<and> e mod w = 0), saved_x = 0, saved_y = 0,
      saved_attr = DEFAULT_ATTR_DATA, saved_charset = Map.empty, n_cols = cols, n_rows = rows, cur_attr = DEFAULT_ATTR_DATA,
      charset = Map.empty, charsets = (\<lambda>_. Map.empty), glevel = 0, origin_mode = False, insert_mode = False,
      wraparound_mode = True, convert_eol = eol, preceding = 0, dirty_first = 0, dirty_last = 0\<rparr>"

lemma clear_range_ok: "vt_ok t \<Longrightarrow> vt_ok (clearRange t) \<and> (\<forall>j. row_cells j (clearRange t) = row_cells j t)"
  by (simp add: clearRange_def vt_ok_def row_cells_def)

lemma dispatch_cases:
  assumes "vt_ok t" and "codes_fit e"
  shows "case dispatch e t of Handled t' \<Rightarrow> good_step t t' | Throws \<Rightarrow> throwing e t | Left_out \<Rightarrow> left_out e"
  using handled_good [OF assms] by (auto simp: dispatch_def split: if_splits)

lemma run_good:
  assumes "vt_ok t" and "list_all codes_fit es"
  shows "case run_events es t of Handled t' \<Rightarrow> good_step t t'
    | Throws \<Rightarrow> \<exists>xs e ys u. es = xs @ e # ys \<and> run_events xs t = Handled u \<and> throwing e u
    | Left_out \<Rightarrow> \<exists>e\<in>set es. left_out e"
  using assms
proof (induction es arbitrary: t)
  case (Cons e es)
  have c: "codes_fit e" "list_all codes_fit es" using Cons.prems(2) by simp_all
  show ?case
  proof (cases "dispatch e t")
    case (Handled t')
    then have g: "good_step t t'" using dispatch_cases [OF Cons.prems(1) c(1)] by simp
    note h = Cons.IH [OF good_stepD(1) [OF g] c(2)]
    show ?thesis
    proof (cases "run_events es t'")
      case Throws
      then obtain xs x ys u where "es = xs @ x # ys" "run_events xs t' = Handled u" "throwing x u" using h by auto
      then have "e # es = (e # xs) @ x # ys \<and> run_events (e # xs) t = Handled u \<and> throwing x u" using Handled by simp
      moreover have r: "run_events (e # es) t = Throws" using Handled Throws by simp
      ultimately show ?thesis unfolding r vt_outcome.case by blast
    qed (use h Handled good_step_trans [OF g] in auto)
  next
    case Throws
    then have "e # es = [] @ e # es \<and> run_events [] t = Handled t \<and> throwing e t"
      using dispatch_cases [OF Cons.prems(1) c(1)] by simp
    moreover have r: "run_events (e # es) t = Throws" using Throws by simp
    ultimately show ?thesis unfolding r vt_outcome.case by blast
  qed (use dispatch_cases [OF Cons.prems(1) c(1)] in simp)
qed (simp add: good_step_refl)

lemma run_handled:
  assumes "vt_ok t" and "list_all (\<lambda>e. codes_fit e \<and> \<not> aligns e \<and> \<not> left_out e \<and> \<not> erases_above e) es"
  shows "\<exists>t'. run_events es t = Handled t'"
  using assms
proof (induction es arbitrary: t)
  case (Cons e es)
  obtain u where u: "handled e t = Some u" "good_step t u"
    using handled_good [OF Cons.prems(1), of e] Cons.prems(2) by (auto simp: throwing_def)
  then show ?case using Cons.IH [OF good_stepD(1) [OF u(2)]] Cons.prems(2) by (simp add: dispatch_def)
qed simp

lemma fresh_lines:
  assumes "0 < m" and "k \<le> m"
  shows "lines_ok ((cl_push l ^^ k) (new_clist m)) \<and> max_length ((cl_push l ^^ k) (new_clist m)) = m
    \<and> items ((cl_push l ^^ k) (new_clist m)) = replicate k (Some l)"
  using assms(2)
proof (induction k)
  case 0
  then show ?case using assms(1) by (simp add: lines_ok_def clist_ok_def new_clist_def items_def)
next
  case (Suc k)
  let ?c = "(cl_push l ^^ k) (new_clist m)"
  have c: "lines_ok ?c" "max_length ?c = m" "items ?c = replicate k (Some l)" using Suc by simp_all
  have "len ?c = k" using arg_cong [OF c(3), of length] by simp
  then show ?case using push_line_ok [OF c(1), of l] c Suc.prems by (simp add: replicate_append_same)
qed

lemma new_vt_ok:
  assumes "2 \<le> cols" and "0 < rows"
  shows "vt_ok (new_vt cols rows spare w eol)"
proof -
  have f: "lines_ok ((cl_push (blank_line cols) ^^ rows) (new_clist (rows + spare)))"
      "items ((cl_push (blank_line cols) ^^ rows) (new_clist (rows + spare))) = replicate rows (Some (blank_line cols))"
    using fresh_lines [of "rows + spare" rows "blank_line cols"] assms(2) by simp_all
  have l: "length (items ((cl_push (blank_line cols) ^^ rows) (new_clist (rows + spare)))) = rows" unfolding f(2) by simp
  have "line_ok cols (blank_line cols)" by (simp add: blank_line_def line_ok_new)
  then show ?thesis
    using assms f(1) l by (simp add: vt_ok_def new_vt_def buffer_ok_def lines_fit_def f(2) list_all_parts is_combined_def del: length_items)
qed

text \<open>
  C6. A chunk of input, whatever its events. When all its handlers return, the screen is well formed, of the same size and with
  the cursor on it, and every row whose cells differ from those before the chunk lies in the range of rows that is repainted
  then. Otherwise the chunk has stopped at an event, without a repaint: one of the two of C5 that throw,
  after events that have been handled, or one that is left out.
\<close>

theorem chunk_repainted:
  assumes "vt_ok t" and "list_all codes_fit es"
  shows "case handle_events es t of
      Handled t' \<Rightarrow> vt_ok t' \<and> n_cols t' = n_cols t \<and> n_rows t' = n_rows t
        \<and> (\<forall>j<n_rows t. row_cells j t' \<noteq> row_cells j t \<longrightarrow> dirty_first t' \<le> j \<and> j \<le> dirty_last t')
    | Throws \<Rightarrow> \<exists>xs e ys u. es = xs @ e # ys \<and> handle_events xs t = Handled u \<and> throwing e u
    | Left_out \<Rightarrow> \<exists>e\<in>set es. left_out e"
proof -
  have c: "vt_ok (clearRange t)" "\<And>j. row_cells j (clearRange t) = row_cells j t" "n_cols (clearRange t) = n_cols t"
    "n_rows (clearRange t) = n_rows t" using clear_range_ok [OF assms(1)] by (simp_all add: clearRange_def)
  note r = run_good [OF c(1) assms(2)]
  show ?thesis
  proof (cases "handle_events es t")
    case (Handled t')
    then have g: "good_step (clearRange t) t'" using r by (simp add: handle_events_def)
    then show ?thesis using good_rows [OF g] c Handled by (auto dest: good_stepD)
  qed (use r in \<open>simp_all add: handle_events_def\<close>)
qed

lemma screen_kept_witness:
  "\<exists>t'. dispatch (Print [72]) (new_vt 80 24 1000 8 True) = Handled t' \<and> vt_ok t' \<and> n_cols t' = 80 \<and> n_rows t' = 24"
proof -
  have "vt_ok (new_vt 80 24 1000 8 True)" by (rule new_vt_ok) simp_all
  from screen_kept [OF this, of "Print [72]"] show ?thesis by (auto simp: throwing_def new_vt_def)
qed

lemma chunk_repainted_witness:
  "\<exists>t'. handle_events [Print [72, 105], Execute 10] (new_vt 80 24 1000 8 True) = Handled t' \<and> vt_ok t'
    \<and> (\<forall>j<24. row_cells j t' \<noteq> row_cells j (new_vt 80 24 1000 8 True) \<longrightarrow> dirty_first t' \<le> j \<and> j \<le> dirty_last t')"
proof -
  have v: "vt_ok (new_vt 80 24 1000 8 True)" by (rule new_vt_ok) simp_all
  obtain t' where t: "handle_events [Print [72, 105], Execute 10] (new_vt 80 24 1000 8 True) = Handled t'"
    using run_handled [of "clearRange (new_vt 80 24 1000 8 True)" "[Print [72, 105], Execute 10]"] clear_range_ok [OF v]
    by (auto simp: handle_events_def)
  have "n_rows (new_vt 80 24 1000 8 True) = 24" by (simp add: new_vt_def)
  then show ?thesis using chunk_repainted [OF v, of "[Print [72, 105], Execute 10]"] t by simp
qed

section \<open>The handler that throws\<close>

lemma fresh_cells:
  assumes "k \<le> m" and "0 < m"
  shows "(cl_push l ^^ k) (new_clist m)
    = \<lparr>max_length = m, cells = (\<lambda>j. if j < k then Some l else None), start_index = 0, len = k, trims = []\<rparr>"
  using assms(1)
proof (induction k)
  case (Suc k)
  then have "(cl_push l ^^ Suc k) (new_clist m) = cl_push l
      \<lparr>max_length = m, cells = (\<lambda>j. if j < k then Some l else None), start_index = 0, len = k, trims = []\<rparr>" by simp
  also have "\<dots> = \<lparr>max_length = m, cells = (\<lambda>j. if j < Suc k then Some l else None), start_index = 0, len = Suc k, trims = []\<rparr>"
    using Suc.prems by (auto simp: cl_push_def cl_set_def cyclic_index_def is_full_def fun_eq_iff)
  finally show ?case .
qed (simp add: new_clist_def)

lemma at_the_end:
  assumes "2 \<le> cols" and "0 < rows" and "0 < spare"
  shows "above_throws (restrictCursor ((setCursor (int cols - 1) (int rows - 1) (new_vt cols rows spare w eol))\<lparr>preceding := 0\<rparr>))"
proof -
  let ?t = "new_vt cols rows spare w eol"
  let ?u = "restrictCursor ((setCursor (int cols - 1) (int rows - 1) ?t)\<lparr>preceding := 0\<rparr>)"
  have f: "n_cols ?t = cols" "n_rows ?t = rows" "base ?t = 0" "\<not> origin_mode ?t" by (simp_all add: new_vt_def)
  have "nat (int cols - 1) = cols - 1" "nat (int rows - 1) = rows - 1" by linarith+
  then have u: "cur_x ?u = cols - 1" "cur_y ?u = rows - 1" "buf ?u = buf ?t" "n_cols ?u = cols" "n_rows ?u = rows"
    using f assms by (simp_all add: restrictCursor_def setCursor_def restrict_to_def Let_def)
  have "cl_get rows (lines ?t) = None"
    using assms by (simp add: new_vt_def fresh_cells cl_get_def cyclic_index_def)
  then show ?thesis using assms f(3) by (simp add: above_throws_def u)
qed

text \<open>
  C40. The handler of \<open>CSI 1 J\<close> throws a \<open>TypeError\<close>: on a fresh terminal of any size that can scroll, the cursor is put in
  the last cell of the screen, and the screen is erased up to the cursor. The handler looks for the line behind the cursor,
  of which there is none.
\<close>

theorem erase_above_throws:
  assumes "2 \<le> cols" and "0 < rows" and "0 < spare" and "numbers p = [int rows, int cols]" and "numbers q = [1]"
  shows "handle_events [Csi 72 p, Csi 74 q] (new_vt cols rows spare w eol) = Throws"
proof -
  let ?t = "clearRange (new_vt cols rows spare w eol)"
  let ?u = "(setCursor (int cols - 1) (int rows - 1) (new_vt cols rows spare w eol))\<lparr>preceding := 0\<rparr>"
  have c: "?t = new_vt cols rows spare w eol" by (simp add: clearRange_def new_vt_def)
  have v: "vt_ok (new_vt cols rows spare w eol)" by (rule new_vt_ok [OF assms(1,2)])
  have h: "cursorPosition p ?t = setCursor (int cols - 1) (int rows - 1) (new_vt cols rows spare w eol)"
    using assms(1,2,4) by (simp add: cursorPosition_def param_def count_def c)
  have "map_of (csi_handlers p) 72 = Some (Some \<circ> cursorPosition p)" by (simp add: csi_handlers_def)
  then have 1: "handled (Csi 72 p) ?t = Some ?u" by (simp add: call_handler_def h)
  have "vt_ok ?u" using handled_good [OF v, of "Csi 72 p"] 1 c by (simp add: throwing_def good_step_def)
  then have "handled (Csi 74 q) ?u = None"
    using handled_good [of ?u "Csi 74 q"] at_the_end [OF assms(1-3)] assms(5) by (simp add: throwing_def param_def)
  then show ?thesis using 1 unfolding handle_events_def by (simp add: dispatch_def)
qed

lemma erase_above_throws_witness:
  "let p = parser_params new_parser
   in handle_events [Csi 72 (p\<lparr>numbers := [24, 80]\<rparr>), Csi 74 (p\<lparr>numbers := [1]\<rparr>)] (new_vt 80 24 1000 8 True) = Throws"
  unfolding Let_def by (rule erase_above_throws) simp_all

end
