(* ===== verification/XtermDisplay.thy ===== *)
theory XtermDisplay
  imports XtermDispatch XtermWrite
begin

text \<open>
  The terminal of \<open>src/html/xterm.js\<close> from the bytes of the messages to the text on the screen: the decoder, the parser and
  the handlers together implement a typewriter.
\<close>

section \<open>A typewriter\<close>

text \<open>
  What the terminal promises for plain text, with the option \<open>convertEol\<close> the pages set: rows of at most \<open>m\<close> characters,
  one row for each line and one more when a row is full; a carriage return types over the row. Its state is the rows
  above, the current row, and the place in it.
\<close>

type_synonym typing = "nat list list \<times> nat list \<times> nat"

definition overwrite :: "nat \<Rightarrow> nat \<Rightarrow> nat list \<Rightarrow> nat list" where
  "overwrite x c cur = take x cur @ c # drop (Suc x) cur"

fun type_code :: "nat \<Rightarrow> nat \<Rightarrow> typing \<Rightarrow> typing" where
  "type_code m c (ls, cur, x) =
     (if c = 10 then (ls @ [cur], [], 0)
      else if c = 13 then (ls, cur, 0)
      else if x < m then (ls, overwrite x c cur, Suc x)
      else (ls @ [cur], [c], 1))"

definition typed_rows :: "nat \<Rightarrow> nat list \<Rightarrow> nat list list" where
  "typed_rows m cs = (case fold (type_code m) cs ([], [], 0) of (ls, cur, _) \<Rightarrow> ls @ [cur])"

text \<open>Of the rows the last \<open>n\<close> are seen; the row \<open>j\<close> of the screen.\<close>

definition visible :: "nat \<Rightarrow> nat list list \<Rightarrow> nat \<Rightarrow> nat list" where
  "visible n rs j = (let i = length rs - n + j in if i < length rs then rs ! i else [])"

definition plain_code :: "nat \<Rightarrow> bool" where
  "plain_code c \<longleftrightarrow> c = 10 \<or> c = 13 \<or> 32 \<le> c \<and> c < 127"

lemma type_line:
  assumes "length cur + length l \<le> m" and "\<forall>c\<in>set l. 32 \<le> c"
  shows "fold (type_code m) l (ls, cur, length cur) = (ls, cur @ l, length cur + length l)"
  using assms
proof (induction l arbitrary: cur)
  case (Cons c l)
  then show ?case using Cons.IH [of "cur @ [c]"] by (simp add: overwrite_def)
qed simp

text \<open>Lines that fit are the rows, whether they end in LF or in CR LF.\<close>

lemma typed_lines:
  assumes "\<forall>l\<in>set ls. length l \<le> m \<and> (\<forall>c\<in>set l. 32 \<le> c)" and "e = [10] \<or> e = [13, 10]"
  shows "typed_rows m (concat (map (\<lambda>l. l @ e) ls)) = ls @ [[]]"
proof -
  have "fold (type_code m) (concat (map (\<lambda>l. l @ e) ls)) (rs, [], 0) = (rs @ ls, [], 0)" for rs
    using assms(1)
  proof (induction ls arbitrary: rs)
    case (Cons l ls)
    have "fold (type_code m) l (rs, [], 0) = (rs, l, length l)" using type_line [of "[]" l m rs] Cons.prems by simp
    then show ?case using Cons assms(2) by auto
  qed simp
  then show ?thesis by (simp add: typed_rows_def)
qed

lemma visible_here: "0 < n \<Longrightarrow> visible n (ls @ [cur]) (min (length ls) (n - 1)) = cur"
  by (auto simp: visible_def Let_def nth_append min_def)

lemma visible_other: "j < n \<Longrightarrow> j \<noteq> min (length ls) (n - 1) \<Longrightarrow> visible n (ls @ [a]) j = visible n (ls @ [b]) j"
  by (auto simp: visible_def Let_def nth_append min_def split: if_splits)

lemma visible_more:
  assumes "j < n"
  shows "visible n (ls @ [a, []]) j
    = (if n \<le> length ls + 1 then (if j = n - 1 then [] else visible n (ls @ [a]) (Suc j)) else visible n (ls @ [a]) j)"
  using assms by (auto simp: visible_def Let_def nth_append nth_Cons' Suc_diff_le)

text \<open>The cells that show a row.\<close>

definition cells_of_row :: "nat \<Rightarrow> nat list \<Rightarrow> cell_data list" where
  "cells_of_row m r = map (\<lambda>c. code_cell c 1 DEFAULT_ATTR_DATA) r @ replicate (m - length r) (getNullCell DEFAULT_ATTR_DATA)"

lemma cells_of_row_overwrite:
  assumes "x < m" and "x \<le> length r" and "length r \<le> m"
  shows "(cells_of_row m r)[x := code_cell c 1 DEFAULT_ATTR_DATA] = cells_of_row m (overwrite x c r)"
  using assms by (intro nth_equalityI) (auto simp: cells_of_row_def overwrite_def nth_append nth_list_update nth_Cons')

lemma cells_of_row_text:
  assumes "\<forall>c\<in>set r. 32 \<le> c \<and> c < 127"
  shows "cells_text (cells_of_row m r) = map of_nat r @ replicate (m - length r) 32"
proof -
  have b: "cell_text (getNullCell DEFAULT_ATTR_DATA) = [32]" "width_bits (content (getNullCell DEFAULT_ATTR_DATA)) = 1"
    by (simp_all add: cell_text_def getNullCell_def is_combined_def code_bits_def width_bits_def)
  have n: "cells_text (replicate k (getNullCell DEFAULT_ATTR_DATA)) = replicate k 32" for k
    by (induction k) (simp_all add: b)
  have "cells_text (map (\<lambda>c. code_cell c 1 DEFAULT_ATTR_DATA) r @ replicate k (getNullCell DEFAULT_ATTR_DATA))
      = map of_nat r @ replicate k 32" for k
    using assms
  proof (induction r)
    case (Cons c r)
    then have c: "c < 2097152" "c \<noteq> 0" "\<not> 65535 < c" by auto
    have "cell_text (code_cell c 1 DEFAULT_ATTR_DATA) = [of_nat c]"
      using c by (simp add: cell_text_def code_cell_def stringFromCodePoint_def)
    moreover have "width_bits (content (code_cell c 1 DEFAULT_ATTR_DATA)) = 1" using c by (simp add: code_cell_def)
    ultimately show ?case using Cons by simp
  qed (simp add: n)
  then show ?thesis by (simp add: cells_of_row_def)
qed

section \<open>The screen shows what is typed\<close>

text \<open>The modes of a terminal that is only written text to, and the screen that goes with the state of the typewriter.\<close>

definition plain_modes :: "nat \<Rightarrow> nat \<Rightarrow> vt \<Rightarrow> bool" where
  "plain_modes m n t \<longleftrightarrow> n_cols t = m \<and> n_rows t = n \<and> cur_attr t = DEFAULT_ATTR_DATA \<and> charset t = Map.empty
     \<and> \<not> insert_mode t \<and> wraparound_mode t \<and> convert_eol t \<and> region_top t = 0 \<and> region_bottom t = n - 1
     \<and> ydisp (buf t) = base t \<and> \<not> user_scrolling (buf t)"

definition shows_rows :: "nat \<Rightarrow> nat \<Rightarrow> nat list list \<Rightarrow> vt \<Rightarrow> bool" where
  "shows_rows m n rs t \<longleftrightarrow> (\<forall>j<n. row_cells j t = Some (cells_of_row m (visible n rs j)))"

fun on_screen :: "nat \<Rightarrow> nat \<Rightarrow> typing \<Rightarrow> vt \<Rightarrow> bool" where
  "on_screen m n (ls, cur, x) t \<longleftrightarrow> vt_ok t \<and> plain_modes m n t \<and> shows_rows m n (ls @ [cur]) t
     \<and> x \<le> length cur \<and> length cur \<le> m \<and> cur_x t = x \<and> cur_y t = min (length ls) (n - 1)"

lemma plain_modes_lines [simp]:
  "convert_eol (set_lines ls t) = convert_eol t" "user_scrolling (buf (set_lines ls t)) = user_scrolling (buf t)"
  "plain_modes m n (set_lines ls t) = plain_modes m n t"
  by (simp_all add: plain_modes_def set_lines_def)

lemma length_overwrite [simp]: "x \<le> length cur \<Longrightarrow> length (overwrite x c cur) = max (length cur) (Suc x)"
  by (simp add: overwrite_def)

lemma shows_same: "buf u = buf t \<Longrightarrow> shows_rows m n rs u = shows_rows m n rs t"
  by (simp add: shows_rows_def row_cells_def)

lemma rows_pos: "vt_ok t \<Longrightarrow> 0 < n_rows t"
  using vt_okD(7) [of t] by simp

lemma typed_same:
  assumes "on_screen m n (ls, cur, x) t" and "vt_ok u" and "plain_modes m n t \<Longrightarrow> plain_modes m n u"
    and "buf u = buf t" and "cur_y u = cur_y t" and "cur_x u = y" and "y \<le> length cur"
  shows "on_screen m n (ls, cur, y) u"
  using assms by (simp add: shows_same [OF assms(4)])

lemma typed_mark: "on_screen m n st t \<Longrightarrow> on_screen m n st (markDirty e t)"
proof (cases st)
  fix ls cur x
  assume t: "on_screen m n st t" and st: "st = (ls, cur, x)"
  then have "vt_ok (markDirty e t)" using good_stepD(1) [OF keepsD [OF keeps_mark]] by simp
  from typed_same [OF t [unfolded st] this] t st show ?thesis by (simp add: plain_modes_def)
qed

lemma typed_preceding: "on_screen m n st t \<Longrightarrow> \<not> is_combined (of_nat k) \<Longrightarrow> on_screen m n st (t\<lparr>preceding := k\<rparr>)"
proof (cases st)
  fix ls cur x
  assume t: "on_screen m n st t" and k: "\<not> is_combined (of_nat k)" and st: "st = (ls, cur, x)"
  then have "vt_ok (t\<lparr>preceding := k\<rparr>)" by (simp add: vt_ok_def)
  from typed_same [OF t [unfolded st] this] t st show ?thesis by (simp add: plain_modes_def)
qed

lemma typed_return: "on_screen m n (ls, cur, x) t \<Longrightarrow> on_screen m n (ls, cur, 0) (t\<lparr>cur_x := 0\<rparr>)"
proof -
  assume t: "on_screen m n (ls, cur, x) t"
  then have "vt_ok (t\<lparr>cur_x := 0\<rparr>)" by (simp add: vt_ok_def)
  from typed_same [OF t this] show ?thesis by (simp add: plain_modes_def)
qed

lemma null_erase: "cur_attr t = DEFAULT_ATTR_DATA \<Longrightarrow> erase_cell t = getNullCell DEFAULT_ATTR_DATA"
  by (simp add: erase_cell_def eraseAttrData_def getNullCell_def DEFAULT_ATTR_DATA_def)

text \<open>A character at the cursor.\<close>

lemma typed_put:
  assumes t: "on_screen m n (ls, cur, x) t" and x: "x < m" and c: "32 \<le> c" "c < 127"
  shows "\<exists>t'. put_at_cursor c 1 t = Some t' \<and> on_screen m n (ls, overwrite x c cur, Suc x) t'"
proof -
  have v: "vt_ok t" and m: "plain_modes m n t" and r: "shows_rows m n (ls @ [cur]) t" and l: "x \<le> length cur" "length cur \<le> m"
    and y: "cur_x t = x" "cur_y t = min (length ls) (n - 1)" using t by simp_all
  have nm: "n_cols t = m" "n_rows t = n" using m by (simp_all add: plain_modes_def)
  have n: "0 < n" using rows_pos [OF v] nm by simp
  define f where "f = put_char (insert_mode t) (n_cols t) (cur_attr t) x c 1"
  have f: "f l = setCellFromCodePoint x c 1 DEFAULT_ATTR_DATA l" for l
    using m by (simp add: f_def put_char_def plain_modes_def del: One_nat_def)
  have ok: "line_ok (n_cols t) (f l)" if "line_ok (n_cols t) l" for l
    using line_ok_put [OF that] content_fits [OF small_code_fits] c x nm by (simp add: f_def)
  obtain l where s: "cl_get (cur_y t + base t) (lines t) = Some l"
      "with_line (cur_y t + base t) f t = Some (set_lines (cl_set (cur_y t + base t) (Some (f l)) (lines t)) t)"
      "vt_ok (set_lines (cl_set (cur_y t + base t) (Some (f l)) (lines t)) t)"
      "\<forall>k<n. row_cells k (set_lines (cl_set (cur_y t + base t) (Some (f l)) (lines t)) t)
        = (if base t + k = cur_y t + base t then Some (cell_list (f l)) else row_cells k t)"
    using with_line_step [OF v, of "cur_y t + base t" f] ok vt_okD(7) [OF v] changes_ok(1) unfolding nm(2) by auto
  define u where "u = set_lines (cl_set (cur_y t + base t) (Some (f l)) (lines t)) t"
  have "Some (cell_list l) = row_cells (cur_y t) t"
    using screen_row [OF v, of "cur_y t"] vt_okD(7) [OF v] fit_line [OF v, of "cur_y t + base t"] s(1)
    by (auto simp: row_cells_def add.commute)
  also have "\<dots> = Some (cells_of_row m cur)" using r vt_okD(7) [OF v] visible_here [OF n] by (simp add: shows_rows_def nm y(2))
  finally have here: "cell_list (f l) = cells_of_row m (overwrite x c cur)"
    unfolding f using c cell_list_code [of c 1 x DEFAULT_ATTR_DATA l] cells_of_row_overwrite [OF x l, of c] by simp
  have "row_cells j u = Some (cells_of_row m (visible n (ls @ [overwrite x c cur]) j))" if j: "j < n" for j
  proof (cases "j = cur_y t")
    case True
    then show ?thesis using s(4) j here visible_here [OF n, of ls] by (simp add: u_def y(2))
  next
    case False
    then have "row_cells j u = row_cells j t" using s(4) j by (simp add: u_def)
    then show ?thesis using r j visible_other [OF j, of ls cur "overwrite x c cur"] False by (simp add: shows_rows_def y(2))
  qed
  then have "shows_rows m n (ls @ [overwrite x c cur]) (u\<lparr>cur_x := Suc x\<rparr>)"
    using shows_same [of "u\<lparr>cur_x := Suc x\<rparr>" u] by (simp add: shows_rows_def)
  moreover have "vt_ok u" using s(3) by (simp add: u_def)
  moreover have "plain_modes m n (u\<lparr>cur_x := Suc x\<rparr>)" using m by (simp add: u_def plain_modes_def)
  ultimately have "on_screen m n (ls, overwrite x c cur, Suc x) (u\<lparr>cur_x := Suc x\<rparr>)"
    using l x y nm by (simp add: vt_ok_def u_def)
  then show ?thesis using s(2) y by (simp add: put_at_cursor_def f_def u_def)
qed

text \<open>A new row, by scrolling or by moving down.\<close>

lemma scroll_view:
  assumes "scroll l x b = Some b'" and "ydisp b = ybase b" and "\<not> user_scrolling b"
  shows "ydisp b' = ybase b' \<and> \<not> user_scrolling b'"
  using assms by (auto simp: scroll_def Let_def split: if_splits)

lemma eol_mark_range [simp]: "convert_eol (markRangeDirty e k t) = convert_eol t"
  by (simp add: markRangeDirty_def Let_def split: prod.splits)

lemma typed_scroll:
  assumes t: "on_screen m n (ls, cur, x) t" and y: "n \<le> length ls + 1"
  shows "\<exists>t'. scroll_screen w (t\<lparr>cur_x := 0\<rparr>) = Some t' \<and> on_screen m n (ls @ [cur], [], 0) t'"
proof -
  define u where "u = t\<lparr>cur_x := 0\<rparr>"
  have tu: "on_screen m n (ls, cur, 0) u" unfolding u_def by (rule typed_return [OF t])
  have v: "vt_ok u" and m: "plain_modes m n u" and r: "shows_rows m n (ls @ [cur]) u" using tu by simp_all
  obtain b t' where s: "scroll_screen w u = Some t'" "t' = markRangeDirty (region_top u) (region_bottom u) (u\<lparr>buf := b\<rparr>)"
      "good_step u t'" "region_top t' = region_top u" "region_bottom t' = region_bottom u"
      "\<forall>k<n_rows u. row_cells k t' = (if k = region_bottom u then Some (replicate (n_cols u) (erase_cell u))
          else if region_top u \<le> k \<and> k < region_bottom u then row_cells (k + 1) u else row_cells k u)"
    using scroll_screen_step [OF v, of w] by blast
  have "ydisp (buf t') = base t' \<and> \<not> user_scrolling (buf t')"
    using s(1) m scroll_view [of circular_if _ "buf u"] by (auto simp: scroll_screen_def plain_modes_def)
  then have m': "plain_modes m n t'" using m s(2,4,5) by (simp add: plain_modes_def)
  have "row_cells j t' = Some (cells_of_row m (visible n (ls @ [cur, []]) j))" if j: "j < n" for j
    using s(6) j m r visible_more [OF j, of ls cur] y null_erase [of u]
    by (auto simp: plain_modes_def shows_rows_def cells_of_row_def)
  then have "shows_rows m n (ls @ [cur, []]) t'" by (simp add: shows_rows_def)
  then show ?thesis using s(1,2) m' good_stepD(1) [OF s(3)] y tu unfolding u_def [symmetric] by auto
qed

lemma typed_below:
  assumes t: "on_screen m n (ls, cur, x) t" and y: "length ls + 1 < n"
  shows "on_screen m n (ls @ [cur], [], 0) (row_below (t\<lparr>cur_x := 0\<rparr>))"
proof -
  define u where "u = row_below (t\<lparr>cur_x := 0\<rparr>)"
  have v: "vt_ok u" using good_stepD(1) [OF row_below_step] typed_return [OF t] by (simp add: u_def)
  have b: "buf u = buf t" "plain_modes m n u" using t by (simp_all add: u_def row_below_def plain_modes_def)
  have "shows_rows m n (ls @ [cur, []]) u"
    unfolding shows_same [OF b(1)] using t visible_more [of _ n ls cur] y by (simp add: shows_rows_def)
  then show ?thesis using t y v b unfolding u_def [symmetric] by (simp add: u_def row_below_def plain_modes_def)
qed

text \<open>The handlers.\<close>

lemma typed_newline:
  assumes t: "on_screen m n st t" and st: "st = (ls, cur, x)"
  shows "\<exists>t'. lineFeed t = Some t' \<and> on_screen m n (ls @ [cur], [], 0) t'"
proof -
  define u where "u = markDirty (cur_y t) t"
  have u: "on_screen m n (ls, cur, x) u" using typed_mark [OF t] by (simp add: u_def st)
  then have m: "convert_eol u" "region_bottom u = n - 1" "cur_y u = min (length ls) (n - 1)" "vt_ok u" "n_rows u = n"
    by (simp_all add: plain_modes_def)
  have n: "0 < n" using rows_pos [OF m(4)] m(5) by simp
  have "\<exists>v. next_row (u\<lparr>cur_x := 0\<rparr>) = Some v \<and> on_screen m n (ls @ [cur], [], 0) v"
  proof (cases "n \<le> length ls + 1")
    case True
    then show ?thesis using typed_scroll [OF u True, of False] m n by (auto simp: next_row_def)
  next
    case False
    then show ?thesis using typed_below [OF u] m by (auto simp: next_row_def)
  qed
  then obtain v where v: "next_row (u\<lparr>cur_x := 0\<rparr>) = Some v" "on_screen m n (ls @ [cur], [], 0) v" by blast
  have "\<not> n_cols v \<le> cur_x v" using v(2) vt_okD(8) [of v] by auto
  then have "lineFeed t = Some (markDirty (cur_y v) v)"
    using v(1) m(1) unfolding lineFeed_def u_def [symmetric] by (simp add: Let_def)
  then show ?thesis using typed_mark [OF v(2)] by blast
qed

lemma typed_wrap:
  assumes t: "on_screen m n (ls, cur, x) t"
  shows "\<exists>t'. wrap_line t = Some t' \<and> on_screen m n (ls @ [cur], [], 0) t'"
proof -
  have m: "region_bottom t = n - 1" "cur_y t = min (length ls) (n - 1)" "vt_ok t" "n_rows t = n"
    using t by (simp_all add: plain_modes_def)
  have n: "0 < n" using rows_pos [OF m(3)] m(4) by simp
  show ?thesis
  proof (cases "n \<le> length ls + 1")
    case True
    then show ?thesis using typed_scroll [OF t True, of True] m n by (auto simp: wrap_line_def Let_def)
  next
    case False
    define u where "u = row_below (t\<lparr>cur_x := 0\<rparr>)"
    have u: "on_screen m n (ls @ [cur], [], 0) u" using typed_below [OF t] False by (simp add: u_def)
    then have v: "vt_ok u" and k: "cur_y u < base u + n_rows u" "n_rows u = n"
      using vt_okD(7) [of u] by (simp_all add: plain_modes_def)
    obtain ks where l: "with_line (cur_y u) (\<lambda>l. l\<lparr>is_wrapped := True\<rparr>) u = Some (set_lines ks u)" "changes {} u (set_lines ks u)"
      using with_line_hidden [OF v, of "cur_y u" "\<lambda>l. l\<lparr>is_wrapped := True\<rparr>"] k by (auto simp: line_ok_ops)
    have "shows_rows m n (ls @ [cur, []]) (set_lines ks u)" using l(2) u k(2) by (simp add: changes_def shows_rows_def)
    then have "on_screen m n (ls @ [cur], [], 0) (set_lines ks u)" using u changes_ok(1) [OF l(2)] by simp
    then show ?thesis using l(1) False m by (auto simp: wrap_line_def Let_def u_def)
  qed
qed

lemma plain_width: "32 \<le> c \<Longrightarrow> c < 127 \<Longrightarrow> wcwidth c = 1"
  by (auto simp: wcwidth_spec in_ranges_def COMBINING_def COMBINING_HIGH_def wide_def)

lemma typed_code:
  assumes t: "on_screen m n st t" and c: "32 \<le> c" "c < 127"
  shows "\<exists>t'. print_code c t = Some t' \<and> on_screen m n (type_code m c st) t'"
proof -
  obtain ls cur x where st: "st = (ls, cur, x)" by (cases st)
  have m: "charset t = Map.empty" "wraparound_mode t" "n_cols t = m" "cur_x t = x" "2 \<le> m" "x \<le> m"
    using t vt_okD(8) [of t] by (auto simp: st plain_modes_def)
  have eq: "print_code c t = (if x < m then put_at_cursor c 1 t else Option.bind (wrap_line t) (put_at_cursor c 1))"
    using m by (simp add: print_code_def plain_width [OF c] translated_def Let_def)
  show ?thesis
  proof (cases "x < m")
    case True
    then show ?thesis using typed_put [OF t [unfolded st] True c] c by (simp add: eq st)
  next
    case False
    obtain u where u: "wrap_line t = Some u" "on_screen m n (ls @ [cur], [], 0) u" using typed_wrap t st by blast
    then show ?thesis using typed_put [OF u(2) _ c] False c m by (simp add: eq st overwrite_def)
  qed
qed

lemma typed_print:
  assumes t: "on_screen m n st t" and c: "\<forall>c\<in>set cs. 32 \<le> c \<and> c < 127"
  shows "\<exists>t'. print cs t = Some t' \<and> on_screen m n (fold (type_code m) cs st) t'"
proof -
  have loop: "\<exists>v. print_loop cs u = Some v \<and> on_screen m n (fold (type_code m) cs st) v" if "on_screen m n st u" for u st
    using that c
  proof (induction cs arbitrary: u st)
    case (Cons c cs)
    obtain v where "print_code c u = Some v" "on_screen m n (type_code m c st) v" using typed_code [OF Cons.prems(1)] Cons.prems(2) by auto
    then show ?case using Cons.IH [of _ v] Cons.prems(2) by simp
  qed simp
  obtain v where v: "print_loop cs (markDirty (cur_y t) t) = Some v" "on_screen m n (fold (type_code m) cs st) v"
    using loop [OF typed_mark [OF t]] by blast
  then have ok: "vt_ok v" by (cases "fold (type_code m) cs st") simp
  obtain l where l: "cl_get (cur_y v + base v) (lines v) = Some l"
    using fit_line [OF ok, of "cur_y v + base v"] vt_okD(7) [OF ok] by auto
  show ?thesis using typed_mark [OF typed_preceding [OF v(2) remembered_fits]] by (simp add: print_def v(1) l)
qed

section \<open>From the messages to the screen\<close>

lemma typed_event:
  assumes t: "on_screen m n st t"
  shows "\<exists>t'. dispatch (Execute 10) t = Handled t' \<and> on_screen m n (type_code m 10 st) t'"
    and "\<exists>t'. dispatch (Execute 13) t = Handled t' \<and> on_screen m n (type_code m 13 st) t'"
    and "\<forall>c\<in>set cs. 32 \<le> c \<and> c < 127 \<Longrightarrow> \<exists>t'. dispatch (Print cs) t = Handled t' \<and> on_screen m n (fold (type_code m) cs st) t'"
proof -
  obtain ls cur x where st: "st = (ls, cur, x)" by (cases st)
  have z: "\<not> is_combined (of_nat 0)" by (simp add: is_combined_def)
  obtain u where u: "lineFeed t = Some u" "on_screen m n (ls @ [cur], [], 0) u" using typed_newline [OF t st] by blast
  show "\<exists>t'. dispatch (Execute 10) t = Handled t' \<and> on_screen m n (type_code m 10 st) t'"
    using typed_preceding [OF u(2) z] u(1) by (simp add: dispatch_def call_handler_def execute_handlers_def st)
  show "\<exists>t'. dispatch (Execute 13) t = Handled t' \<and> on_screen m n (type_code m 13 st) t'"
    using typed_preceding [OF typed_return [OF t [unfolded st]] z]
    by (simp add: dispatch_def call_handler_def execute_handlers_def carriageReturn_def st)
  show "\<exists>t'. dispatch (Print cs) t = Handled t' \<and> on_screen m n (fold (type_code m) cs st) t'" if "\<forall>c\<in>set cs. 32 \<le> c \<and> c < 127"
    using typed_print [OF t that] by (auto simp: dispatch_def)
qed

lemma run_append: "run_events (es @ fs) t = (case run_events es t of Handled t' \<Rightarrow> run_events fs t' | r \<Rightarrow> r)"
  by (induction es arbitrary: t) (simp_all split: vt_outcome.split)

lemma entry_newline: "c = 10 \<or> c = 13 \<Longrightarrow> entry_at 0 c = (3, 0)"
  by (auto simp: entry_at_def state_entries simp del: upt_rec_numeral)

lemma plain_round:
  assumes "plain_code c" and "\<forall>c\<in>set cs. plain_code c" and "current_state s = 0"
  shows "iteration c cs s = (if 32 \<le> c then ([Print (c # takeWhile in_text cs)], dropWhile in_text cs, s) else ([Execute c], cs, s))"
proof (cases "32 \<le> c")
  case True
  then have "entry_at (current_state s) (table_index c) = (2, 0)" using text_entry [of c] assms(1,3) by (auto simp: plain_code_def in_text_def)
  then show ?thesis using True assms(3) by (simp add: iteration_by_entry)
next
  case False
  then have c: "c = 10 \<or> c = 13" using assms(1) by (auto simp: plain_code_def)
  then have "table_index c = c" by (auto simp: table_index_def)
  then have "entry_at (current_state s) (table_index c) = (3, 0)" using entry_newline [OF c] assms(3) by simp
  then show ?thesis using c assms(3) by (auto simp: iteration_by_entry)
qed

text \<open>Plain codes leave the parser in its state, and the screen shows them typed.\<close>

lemma typed_codes:
  assumes "\<forall>c\<in>set cs. plain_code c" and "current_state s = 0" and "on_screen m n st t"
  shows "\<exists>es t'. parse cs s = (es, s) \<and> run_events es t = Handled t' \<and> on_screen m n (fold (type_code m) cs st) t'"
  using assms
proof (induction cs arbitrary: st t rule: length_induct)
  case (1 cs)
  show ?case
  proof (cases cs)
    case Nil
    then show ?thesis using 1(4) by simp
  next
    case (Cons c ds)
    have c: "plain_code c" "\<forall>c\<in>set ds. plain_code c" using 1(2) by (simp_all add: Cons)
    obtain e rest t' st' where i: "iteration c ds s = ([e], rest, s)" "dispatch e t = Handled t'" "on_screen m n st' t'"
        "length rest < length cs" "\<forall>c\<in>set rest. plain_code c" "fold (type_code m) cs st = fold (type_code m) rest st'"
    proof (cases "32 \<le> c")
      case True
      let ?run = "c # takeWhile in_text ds"
      have "\<forall>c\<in>set ?run. 32 \<le> c \<and> c < 127"
        using c True by (auto simp: plain_code_def in_text_def dest!: set_takeWhileD)
      then obtain t' where "dispatch (Print ?run) t = Handled t'" "on_screen m n (fold (type_code m) ?run st) t'"
        using typed_event(3) [OF 1(4)] by blast
      moreover have "fold (type_code m) cs st = fold (type_code m) (dropWhile in_text ds) (fold (type_code m) ?run st)"
        by (simp add: Cons flip: fold_append [THEN fun_cong, simplified comp_def])
      ultimately show ?thesis
        using that [of "Print ?run" "dropWhile in_text ds" t' "fold (type_code m) ?run st"] plain_round [OF c 1(3)] True c
        by (auto simp: Cons length_dropWhile_le le_imp_less_Suc dest: set_dropWhileD)
    next
      case False
      then have "c = 10 \<or> c = 13" using c by (auto simp: plain_code_def)
      then obtain t' where "dispatch (Execute c) t = Handled t'" "on_screen m n (type_code m c st) t'"
        using typed_event(1,2) [OF 1(4)] by blast
      then show ?thesis using that [of "Execute c" ds t' "type_code m c st"] plain_round [OF c 1(3)] False c by (simp add: Cons)
    qed
    obtain es u where "parse rest s = (es, s)" "run_events es t' = Handled u" "on_screen m n (fold (type_code m) rest st') u"
      using 1(1) i(3,4,5) 1(3) by blast
    then show ?thesis using i(1,2,6) by (simp add: Cons)
  qed
qed

text \<open>
  A chunk of the \<open>WriteBuffer\<close> with what it does: it is decoded and parsed, the handlers are called, each once the
  parser comes to it. The parser does not see the screen, so its events can be given to the handlers afterwards. When a
  handler throws, so does the action; what the terminal is then is not followed.
\<close>

definition show_chunk :: "chunk \<Rightarrow> input_handler \<times> vt_outcome \<Rightarrow> (input_handler \<times> vt_outcome) called" where
  "show_chunk e =
     (\<lambda>(h, r). case r of
        Handled t \<Rightarrow>
          (let h = input_parse e (h\<lparr>events := []\<rparr>); r = handle_events (events h) t
           in if r = Throws then Thrown (h, r) else Returned (h, r))
      | _ \<Rightarrow> Thrown (h, r))"

fun chunk_codes :: "chunk \<Rightarrow> nat list" where
  "chunk_codes (Bytes e) = map unat e"
| "chunk_codes (Units u) = map unat u"

lemma plain_bytes: "\<forall>b\<in>set e. plain_code (unat b) \<Longrightarrow> Utf8ToUtf32_decode new_interim e = (map unat e, new_interim)"
proof -
  assume "\<forall>b\<in>set e. plain_code (unat b)"
  then have "utf8_text e = (map unat e, [])"
  proof (induction e)
    case (Cons b e)
    have "b < 128" using Cons.prems by (auto simp: plain_code_def word_less_nat_alt)
    then show ?case using Cons by (simp add: utf8_text_ascii)
  qed simp
  then show ?thesis by (simp add: decode_new)
qed

lemma plain_units: "\<forall>c\<in>set u. plain_code (unat c) \<Longrightarrow> StringToUtf32_decode 0 u = (map unat u, 0)"
proof -
  assume "\<forall>c\<in>set u. plain_code (unat c)"
  then have "string_loop u = (map unat u, 0)"
    by (induction u rule: string_loop.induct) (auto simp: plain_code_def high_surrogate_def)
  then show ?thesis by (simp add: decode_string)
qed

definition idle :: "input_handler \<Rightarrow> bool" where
  "idle h \<longleftrightarrow> string_left h = 0 \<and> bytes_left h = new_interim \<and> current_state (input_parser h) = 0"

lemma typed_piece:
  assumes "\<forall>c\<in>set cs. plain_code c" and "idle h" and "run_events (events h) t0 = Handled t" and "on_screen m n st t"
  shows "\<exists>t'. idle (parse_codes cs h) \<and> run_events (events (parse_codes cs h)) t0 = Handled t' \<and> on_screen m n (fold (type_code m) cs st) t'"
proof -
  obtain es t' where "parse cs (input_parser h) = (es, input_parser h)" "run_events es t = Handled t'"
      "on_screen m n (fold (type_code m) cs st) t'"
    using typed_codes [OF assms(1) _ assms(4)] assms(2) unfolding idle_def by blast
  then show ?thesis using assms(2,3) by (simp add: parse_codes_def run_append idle_def)
qed

lemma typed_pieces:
  assumes "\<And>p k. p \<in> set ps \<Longrightarrow> idle k \<Longrightarrow> f p k = parse_codes (map unat p) k" and "\<forall>p\<in>set ps. \<forall>b\<in>set p. plain_code (unat b)"
    and "idle h" and "run_events (events h) t0 = Handled t" and "on_screen m n st t"
  shows "\<exists>t'. idle (fold f ps h) \<and> run_events (events (fold f ps h)) t0 = Handled t'
    \<and> on_screen m n (fold (type_code m) (map unat (concat ps)) st) t'"
  using assms
proof (induction ps arbitrary: h t st)
  case (Cons p ps)
  have c: "\<forall>c\<in>set (map unat p). plain_code c" using Cons.prems(2) by simp
  obtain u where u: "idle (parse_codes (map unat p) h)" "run_events (events (parse_codes (map unat p) h)) t0 = Handled u"
      "on_screen m n (fold (type_code m) (map unat p) st) u"
    using typed_piece [OF c Cons.prems(3-5)] by blast
  have p: "f p h = parse_codes (map unat p) h" using Cons.prems(1,3) by simp
  show ?case using Cons.IH [OF Cons.prems(1) _ u] Cons.prems(2) by (simp add: p)
qed auto

lemma idle_units: "idle k \<Longrightarrow> \<forall>b\<in>set p. plain_code (unat b) \<Longrightarrow> parse_units p k = parse_codes (map unat p) k"
  by (cases k) (simp add: parse_units_def idle_def plain_units)

lemma idle_bytes: "idle k \<Longrightarrow> \<forall>b\<in>set p. plain_code (unat b) \<Longrightarrow> parse_bytes p k = parse_codes (map unat p) k"
  by (cases k) (simp add: parse_bytes_def idle_def plain_bytes)

lemma in_pieces: "p \<in> set (pieces x) \<Longrightarrow> b \<in> set p \<Longrightarrow> b \<in> set x"
  using arg_cong [OF concat_pieces [of x], of set] by auto

lemma typed_chunk:
  assumes "\<forall>c\<in>set (chunk_codes e). plain_code c" and "idle h" and "on_screen m n st t"
  shows "\<exists>h' t'. show_chunk e (h, Handled t) = Returned (h', Handled t') \<and> idle h' \<and> on_screen m n (fold (type_code m) (chunk_codes e) st) t'"
proof -
  have t: "on_screen m n st (clearRange t)"
    using assms(3) clear_range_ok [of t] typed_same [of m n _ _ _ t "clearRange t"]
    by (cases st) (auto simp: clearRange_def plain_modes_def)
  have h: "idle (h\<lparr>events := []\<rparr>)" "run_events (events (h\<lparr>events := []\<rparr>)) (clearRange t) = Handled (clearRange t)"
    using assms(2) by (simp_all add: idle_def)
  show ?thesis
  proof (cases e)
    case (Units u)
    have "\<exists>t'. idle (fold parse_units (pieces u) (h\<lparr>events := []\<rparr>))
        \<and> run_events (events (fold parse_units (pieces u) (h\<lparr>events := []\<rparr>))) (clearRange t) = Handled t'
        \<and> on_screen m n (fold (type_code m) (map unat (concat (pieces u))) st) t'"
      by (rule typed_pieces [OF _ _ h t]) (use assms(1) in_pieces [of _ u] idle_units in \<open>auto simp: Units\<close>)
    then show ?thesis by (auto simp: show_chunk_def Units handle_events_def concat_pieces Let_def)
  next
    case (Bytes u)
    have "\<exists>t'. idle (fold parse_bytes (pieces u) (h\<lparr>events := []\<rparr>))
        \<and> run_events (events (fold parse_bytes (pieces u) (h\<lparr>events := []\<rparr>))) (clearRange t) = Handled t'
        \<and> on_screen m n (fold (type_code m) (map unat (concat (pieces u))) st) t'"
      by (rule typed_pieces [OF _ _ h t]) (use assms(1) in_pieces [of _ u] idle_bytes in \<open>auto simp: Bytes\<close>)
    then show ?thesis by (auto simp: show_chunk_def Bytes handle_events_def concat_pieces Let_def)
  qed
qed

section \<open>The text on the screen\<close>

text \<open>The text of the row \<open>j\<close> of the view.\<close>

definition row_text :: "nat \<Rightarrow> vt \<Rightarrow> u16 list" where
  "row_text j t =
     (case cl_get (ydisp (buf t) + j) (lines t) of Some l \<Rightarrow> translateToString l 0 (n_cols t) | None \<Rightarrow> [])"

definition padded :: "nat \<Rightarrow> nat list \<Rightarrow> u16 list" where
  "padded m r = map of_nat r @ replicate (m - length r) 32"

lemma typed_text:
  assumes t: "on_screen m n (ls, cur, x) t" and j: "j < n" and p: "\<forall>r\<in>set (ls @ [cur]). \<forall>c\<in>set r. 32 \<le> c \<and> c < 127"
  shows "row_text j t = padded m (visible n (ls @ [cur]) j)"
proof -
  have v: "vt_ok t" "n_cols t = m" "n_rows t = n" "ydisp (buf t) = base t" using t by (simp_all add: plain_modes_def)
  obtain l where l: "items (lines t) ! (base t + j) = Some l" "cl_get (base t + j) (lines t) = Some l" "line_ok m l"
    using fit_line [OF v(1), of "base t + j"] j v(2,3) by auto
  have "row_cells j t = Some (cells_of_row m (visible n (ls @ [cur]) j))" using t j by (simp add: shows_rows_def)
  then have "cell_list l = cells_of_row m (visible n (ls @ [cur]) j)"
    using j l(1) screen_row [OF v(1), of j] v(3) by (simp add: row_cells_def)
  moreover have "translateToString l 0 m = cells_text (cell_list l)"
    using translate_cells [of m l 0] l(3) by (simp add: line_ok_def)
  moreover have "\<forall>c\<in>set (visible n (ls @ [cur]) j). 32 \<le> c \<and> c < 127"
    using p by (auto simp: visible_def Let_def simp del: set_append dest: nth_mem)
  ultimately show ?thesis using l(2) v(2,4) by (simp add: row_text_def padded_def cells_of_row_text)
qed

lemma set_overwrite: "set (overwrite x c cur) \<subseteq> insert c (set cur)"
  using set_take_subset [of x cur] set_drop_subset [of "Suc x" cur] by (auto simp: overwrite_def)

lemma typed_plain:
  assumes "\<forall>c\<in>set cs. plain_code c" and "fold (type_code m) cs (ls, cur, x) = (ls', cur', x')"
    and "\<forall>r\<in>set (ls @ [cur]). \<forall>c\<in>set r. 32 \<le> c \<and> c < 127"
  shows "\<forall>r\<in>set (ls' @ [cur']). \<forall>c\<in>set r. 32 \<le> c \<and> c < 127"
  using assms
proof (induction cs arbitrary: ls cur x)
  case (Cons c cs)
  obtain ks k y where s: "type_code m c (ls, cur, x) = (ks, k, y)" by (cases "type_code m c (ls, cur, x)")
  have "\<forall>r\<in>set (ks @ [k]). \<forall>c\<in>set r. 32 \<le> c \<and> c < 127"
    using s Cons.prems(1,3)
    by (auto simp: plain_code_def split: if_splits dest!: set_overwrite [THEN subsetD])
  moreover have "fold (type_code m) cs (ks, k, y) = (ls', cur', x')" using Cons.prems(2) unfolding fold_simps s .
  moreover have "\<forall>c\<in>set cs. plain_code c" using Cons.prems(1) by simp
  ultimately show ?case by (intro Cons.IH)
qed simp

lemma fresh_typed:
  assumes "2 \<le> m" and "0 < n"
  shows "on_screen m n ([], [], 0) (new_vt m n spare w True)"
proof -
  let ?t = "new_vt m n spare w True"
  have v: "vt_ok ?t" by (rule new_vt_ok [OF assms])
  have f: "items (lines ?t) = replicate n (Some (blank_line m))"
    using fresh_lines [of "n + spare" n "blank_line m"] assms(2) by (simp add: new_vt_def)
  have b: "base ?t = 0" "n_rows ?t = n" by (simp_all add: new_vt_def)
  have "row_cells j ?t = Some (cells_of_row m (visible n [[]] j))" if "j < n" for j
    using screen_row [OF v, of j] that unfolding b f
    by (simp add: row_cells_def blank_line_def cell_list_new visible_def cells_of_row_def Let_def)
  then show ?thesis using v by (simp add: shows_rows_def plain_modes_def new_vt_def)
qed

lemma typed_chunks:
  assumes "\<forall>e\<in>set es. \<forall>c\<in>set (chunk_codes e). plain_code c" and "idle h" and "on_screen m n st t"
  shows "\<exists>h' t'. handle_all show_chunk (map (\<lambda>e. (e, None)) es) (h, Handled t) = Returned (h', Handled t')
    \<and> on_screen m n (fold (type_code m) (concat (map chunk_codes es)) st) t'"
  using assms
proof (induction es arbitrary: h t st)
  case (Cons e es)
  obtain h' t' where "show_chunk e (h, Handled t) = Returned (h', Handled t')" "idle h'" "on_screen m n (fold (type_code m) (chunk_codes e) st) t'"
    using typed_chunk [OF _ Cons.prems(2,3), of e] Cons.prems(1) by auto
  then show ?case using Cons.IH [of h' "fold (type_code m) (chunk_codes e) st" t'] Cons.prems(1) by (simp add: handle_chunk_def call_back_def)
qed simp

text \<open>
  C2. From the messages to the text on the screen: plain text that is written to a fresh terminal, in any chunks of bytes
  or strings and with any timing of the page, is what the screen shows once the timers have fired: no handler throws, and
  the rows of the view are the last rows the typewriter makes of the whole text, filled up with spaces.
\<close>

theorem text_on_screen:
  assumes "2 \<le> m" and "0 < n" and "\<forall>e\<in>set es. \<forall>c\<in>set (chunk_codes e). plain_code c"
    and "written show_chunk (new_input, Handled (new_vt m n spare w True)) (map (\<lambda>e. (e, None)) es) b"
    and "length (waiting b) \<le> length lates"
  shows "\<exists>t. snd (target (timers_fire lates show_chunk b)) = Handled t \<and> vt_ok t
    \<and> (\<forall>j<n. row_text j t = padded m (visible n (typed_rows m (concat (map chunk_codes es))) j))"
proof -
  have i: "idle new_input" by (simp add: idle_def new_input_def new_parser_def)
  obtain h t where t: "handle_all show_chunk (map (\<lambda>e. (e, None)) es) (new_input, Handled (new_vt m n spare w True)) = Returned (h, Handled t)"
      "on_screen m n (fold (type_code m) (concat (map chunk_codes es)) ([], [], 0)) t"
    using typed_chunks [OF assms(3) i fresh_typed [OF assms(1,2)]] by blast
  obtain ls cur x where f: "fold (type_code m) (concat (map chunk_codes es)) ([], [], 0) = (ls, cur, x)" by (cases "fold (type_code m) (concat (map chunk_codes es)) ([], [], 0)")
  have "\<forall>r\<in>set (ls @ [cur]). \<forall>c\<in>set r. 32 \<le> c \<and> c < 127" by (rule typed_plain [OF _ f]) (use assms(3) in auto)
  then have "\<forall>j<n. row_text j t = padded m (visible n (ls @ [cur]) j)" using typed_text t(2) f by simp
  moreover have "target (timers_fire lates show_chunk b) = (h, Handled t)"
    using written_holds [OF assms(4) t(1)] timers_fire_holds [OF _ _ _ assms(5)] by blast
  moreover have "vt_ok t" using t(2) f by simp
  ultimately show ?thesis by (simp add: typed_rows_def f)
qed

theorem text_on_screen_witness:
  "(let b = the (buffer_write (Units [111, 13, 10, 107]) None
        (the (buffer_write (Bytes [72, 105, 10, 103]) None (new_write_buffer (new_input, Handled (new_vt 4 2 3 8 True))))))
    in \<exists>t. snd (target (timers_fire [\<lambda>_. True, \<lambda>_. True] show_chunk b)) = Handled t
      \<and> row_text 0 t = [103, 111, 32, 32] \<and> row_text 1 t = [107, 32, 32, 32])"
proof -
  define a where "a = the (buffer_write (Bytes [72, 105, 10, 103]) None (new_write_buffer (new_input, Handled (new_vt 4 2 3 8 True))))"
  define b where "b = the (buffer_write (Units [111, 13, 10, 107]) None a)"
  have b: "buffer_write (Bytes [72, 105, 10, 103]) None (new_write_buffer (new_input, Handled (new_vt 4 2 3 8 True))) = Some a"
    "buffer_write (Units [111, 13, 10, 107]) None a = Some b" "length (waiting b) \<le> length [\<lambda>_ :: nat. True, \<lambda>_. True]"
    by (simp_all add: b_def a_def buffer_write_def new_write_buffer_def waiting_def)
  have w: "written show_chunk (new_input, Handled (new_vt 4 2 3 8 True)) (map (\<lambda>e. (e, None)) [Bytes [72, 105, 10, 103], Units [111, 13, 10, 107]]) b"
    using writing [OF writing [OF untouched b(1)] b(2)] by simp
  have p: "\<forall>e\<in>set [Bytes [72, 105, 10, 103], Units [111, 13, 10, 107]]. \<forall>c\<in>set (chunk_codes e). plain_code c"
    by (simp add: plain_code_def)
  have r: "typed_rows 4 (concat (map chunk_codes [Bytes [72, 105, 10, 103], Units [111, 13, 10, 107]])) = [[72, 105], [103, 111], [107]]"
    by (simp add: typed_rows_def overwrite_def)
  obtain t where "snd (target (timers_fire [\<lambda>_. True, \<lambda>_. True] show_chunk b)) = Handled t"
      "\<forall>j<2. row_text j t = padded 4 (visible 2 [[72, 105], [103, 111], [107]] j)"
    using text_on_screen [OF _ _ p w b(3)] unfolding r by auto
  then show ?thesis unfolding b_def [symmetric] a_def [symmetric] Let_def
    by (auto simp: visible_def padded_def numeral_eq_Suc)
qed

end
