(* ===== verification/Spec2Isabelle.thy ===== *)
theory Spec2Isabelle
  imports DebugLog Bridge GdbSessions JsModules FitAddon UpgradePage DebugPage OtaTftp HttpServer XtermWrite XtermStrings
    XtermDisplay
begin

text \<open>
  The firmware of a wireless debug probe for the ESP8266, and the pages it serves. The probe runs the GDB
  server of the Black Magic project for several debuggers at once over TCP, bridges a serial port to
  TCP, UDP and a terminal in the browser, shows its own log in the browser, and updates itself over TFTP
  or from a page. This development models the code of the repository under \<open>src/\<close>: the C and C++ files
  of \<open>main/\<close> and \<open>components/blackmagic/\<close>, and the scripts of \<open>html/\<close>.

  \<^bold>\<open>Parts, theories and files.\<close>

  \<^item> Prelude: bytes, the 32-bit integers, C strings, and the type \<open>outcome\<close> of code that may not return:
    \<open>Ret value state\<close>, or \<open>Stop reason state\<close> when the task was deleted, an exception was raised, it waits
    for ever, an access was out of bounds or otherwise undefined, or the fuel has run out. Clib: the
    formatted input and output of the C library.
  \<^item> Cbuf (\<open>main/CBUF.h\<close>): the ring buffer macros for any index width. DebugLog (\<open>main/platform.c\<close>,
    \<open>main/http.c\<close>): the log, from \<open>putc_remote\<close> over the ring buffer and \<open>dbg_task\<close> to the web socket messages
    of \<open>http_debug_putc\<close>.
  \<^item> GdbLock (\<open>main/gdb_if.cpp\<close>, \<open>main/gdb_if.hpp\<close>): the recursive lock of the server, as one task uses it and as
    a step relation of many tasks. Exceptions (\<open>components/blackmagic/exception.c\<close>, \<open>.h\<close>): the chain of
    handlers, raising, \<open>TRY_CATCH\<close>.
  \<^item> Channel: what the packet layer relies on, the characters of a debugger connection. GdbClient
    (\<open>main/gdb_if.cpp\<close>): the record \<open>client\<close> is the class \<open>GDB_client\<close>, with its two buffers, its socket and
    the lock; its methods provide the channel.
  \<^item> GdbPacket (\<open>main/gdb_packet.cpp\<close>): receiving and sending of packets over a channel.
  \<^item> GdbServer and GdbMain (\<open>main/gdb_main.cpp\<close>, \<open>main/gdb_if.hpp\<close>): the record \<open>gdb_server\<close> extends the client by
    the members of the class \<open>GDB\<close> and by the target pointers; one definition for each packet, composed by
    \<open>handle_packet\<close>, \<open>handle_q_packet\<close>, \<open>handle_v_packet\<close>, \<open>handle_z_packet\<close>, \<open>main_step\<close>, \<open>gdb_main_loop\<close> and
    \<open>client_task\<close>. GdbSafety, GdbReplies and GdbSessions hold their properties.
  \<^item> OtaTftp (\<open>main/ota-tftp.c\<close>): the TFTP server task and the client, with the data transfer they share.
  \<^item> Platform (\<open>main/platform.c\<close>): the debug clock, the rates of the UART, the Wi-Fi events. Bridge (\<open>main/platform.c\<close>): the
    two tasks of the serial bridge, \<open>net_uart_task\<close> and \<open>uart_rx_task\<close>, each a machine whose positions are the calls it
    may block in, and whose steps interleave. HttpServer (\<open>main/http.c\<close>, \<open>main/hashmap.cpp\<close>): the handlers of the web server, the status
    page, the table of URLs.
  \<^item> JsDoubles, JsNumbers and Json: the arithmetic of doubles, rounded as JavaScript rounds it, \<open>parseInt\<close> and \<open>JSON.parse\<close>,
    as the scripts use them.
    JsModules (\<open>html/xterm.js\<close>, \<open>html/xterm-addon-fit.js\<close>, \<open>html/index.js\<close>): the module wrappers and the module
    runtime of the two bundles. FitAddon: the class of \<open>html/xterm-addon-fit.js\<close>, the resize of the
    terminal it calls, and the sizes the canvas renderer computes after it.
  \<^item> The terminal emulator (\<open>html/xterm.js\<close>), along the way of what is written to it. XtermWrite: the class
    \<open>WriteBuffer\<close>, whose timers are steps of a relation and whose action and callbacks may throw (\<open>called\<close>), and \<open>InputHandler.parse\<close>. XtermText: the decoders of UTF-8
    and UTF-16. XtermTable, XtermParams and XtermParser: the table of transitions as the script builds it, the numbers
    of a sequence, and \<open>EscapeSequenceParser.parse\<close> with its runs; XtermSequences: what it makes of control
    sequences. XtermStrings: \<open>OscParser\<close> and \<open>OscHandler\<close>. XtermLists: \<open>CircularList\<close> and \<open>Terminal.scroll\<close>.
    XtermCells: \<open>CellData\<close> and \<open>BufferLine\<close>, three words of 32 bits for a cell; XtermWidth: \<open>wcwidth\<close> with its tables
    and \<open>getStringCellWidth\<close>. XtermScreen: the record \<open>vt\<close> holds the active buffer with cursor, modes, character sets and
    the rows to repaint (\<open>DirtyRowService\<close>); one definition for each handler of \<open>InputHandler\<close> that changes it, \<open>print\<close>
    included, where \<open>None\<close> is a \<open>TypeError\<close>. XtermColors: \<open>charAttributes\<close>. XtermDispatch: the tables of handlers, as
    the constructor registers them, and \<open>dispatch\<close>, which takes an event of XtermParser to its handler. XtermSteps and
    XtermPrint hold what each handler keeps. XtermDisplay puts the buffer of chunks, the decoders, the parser and the
    handlers together (\<open>show_chunk\<close>) and states what they promise for plain text, a typewriter.
  \<^item> WebPages (\<open>html/index.html\<close>), UpgradePage (\<open>html/flash/index.html\<close>, with the helpers of
    \<open>html/flash/140medley.min.js\<close>) and DebugPage (\<open>html/debug.html\<close>): the scripts of the three pages. The
    browser delivers events; a handler returns or throws, and leaves a page behind in both cases.
  \<^item> This theory: the properties that span components, the dialog about the baud rate, the way of a log
    line to the debug page, the requests of the pages and the table of URLs.

  \<^bold>\<open>How the parts interact.\<close> A debugger's bytes pass GdbClient, GdbPacket and GdbMain; all debuggers share the
  server lock, the target list and the chain of exceptions. The pages talk to HttpServer by requests and
  web sockets; HttpServer sets the UART of Platform, and gets the log from DebugLog. A log line is also
  what \<open>dbg_task\<close> takes out of the ring buffer Cbuf.

  \<^bold>\<open>Interfaces.\<close> Each is a locale, interpreted on the model of the code that provides it: \<open>fifo\<close> by the ring
  buffer macros (\<open>cb\<close>), \<open>nesting_lock\<close> by the server lock (\<open>gl\<close>), \<open>gdb_channel\<close> by the methods of \<open>GDB_client\<close>
  (\<open>cl\<close>, with other tasks interfering while the lock is given up, and \<open>quiet\<close> without), \<open>target_library\<close> by
  the server with any library that keeps the contract (\<open>server\<close>), \<open>task_map\<close> by the hash map (\<open>times\<close>), \<open>line_store\<close>,
  on which scrolling rests, by the \<open>CircularList\<close> of the terminal (\<open>cl\<close>).

  \<^bold>\<open>What the lemmas show.\<close> Refinement of the ring buffer to a bounded queue, for one task and for a reader and
  a writer that interleave; mutual exclusion and nesting of the lock; that \<open>TRY_CATCH\<close> is a structured
  handler; that the packet layer receives and sends what it should, stays in its buffers and terminates;
  that no handler uses a freed target; what the handlers answer, errors included; that an update is
  complete before the device restarts; invariants of the bridge and of the pages; that texts fit their
  buffers; that the module runtime runs each module once; that fitting a terminal is idempotent when a pixel of the page is one of the device; that what is
  written to the terminal is handled once and in order as long as nothing throws, decoded and parsed the same however it is
  cut (but for two named exceptions), and reaches the handlers it is for; that its lines scroll as they should; that the words of a line are a list of cells;
  that no event but those left out makes the screen ill-formed, throws (two cases aside) or changes a row that is not repainted;
  that plain text stands on the screen as it was written. Several
  properties state defects as they are: what the code does on the inputs where it fails.

  \<^bold>\<open>Parameters and contracts.\<close> What is not under \<open>src/\<close> is an argument of the definitions that use it: the
  target library and the remote-control interface of the Black Magic sources (\<open>env\<close>, \<open>remote\<close>), the sockets
  (the list of events still to come), the flash and boot functions (\<open>tftp_env\<close>), the UART driver (\<open>rate\<close>), the
  query helper of the web server (\<open>find_arg\<close>) and its matching of URLs (\<open>matches\<close>). Where a property relies on
  their documented behaviour it says so in a hypothesis, which its witness shows to hold for a concrete
  function. The macro \<open>gdb_putpacketz\<close>, defined outside, is taken to send a NUL-terminated string.
  While a client waits for its debugger the lock is given up, and \<open>others\<close> is what the other tasks do to
  the shared state meanwhile.

  \<^bold>\<open>Bounds and fuel.\<close> \<open>char\<close> is unsigned and \<open>int\<close> and \<open>long\<close> have 32 bits, as on the Xtensa core. The loops of the
  packet receiver take a byte in every round, so a fuel above the number of bytes to come is enough, as
  the lemmas about termination show; the module runtime needs one unit for each module of the bundle,
  the JSON reader the length of the text. The main loop of the server never ends by itself and runs for a
  given number of rounds. All other recursions terminate by a measure.

  \<^bold>\<open>Not modelled.\<close> Of the emulator in \<open>html/xterm.js\<close>: the handlers that replace the whole screen (\<open>left_out\<close>: the full
  reset, the other buffer, the switch of the number of columns) with the reflow of lines on a resize, the answers to
  requests for settings, the modes that only concern mouse, keyboard and the look of the cursor, markers and titles; the
  drawing, selection, mouse, keyboard, links and accessibility, which are calls of the browser and long tables. The start-up sequence, the socket options, pins and register accesses
  (\<open>main/include/platform.h\<close>): calls of the SDK without a result the program uses. A switch between the two bridge
  tasks takes place in their calls only. What the terminal is after a handler has thrown is not followed, and the arrays of the
  scripts are taken to be allocated. Style sheets hold no code. The data of
  JSON answers are flat objects, as the firmware makes them.
\<close>

section \<open>Setting the baud rate, from the page to the UART and back\<close>

text \<open>The text of an answer: its bytes are ASCII characters.\<close>

definition response_text :: "byte list \<Rightarrow> string" where
  "response_text b = map (\<lambda>x. char_of (unat x)) b"

text \<open>
  The query helper of the web server, \<open>httpdFindArg\<close>, is outside the repository: \<open>find_arg url name\<close>.
  What the firmware relies on: for a URL with the one argument \<open>set\<close>, whose value has no special
  characters and is shorter than the buffer of 64 bytes, it is that value.
\<close>

definition plain_char :: "char \<Rightarrow> bool" where
  "plain_char c \<longleftrightarrow> c \<notin> set ''&%+=?#'' \<and> (of_char c :: nat) \<noteq> 0"

definition finds_set :: "(string \<Rightarrow> string \<Rightarrow> byte list option) \<Rightarrow> bool" where
  "finds_set find_arg \<longleftrightarrow>
     (\<forall>path v. (\<forall>c\<in>set (path @ v). plain_char c) \<longrightarrow> v \<noteq> [] \<longrightarrow> length v < 64 \<longrightarrow>
        find_arg (path @ ''?set='' @ v) ''set'' = Some (str v))"

text \<open>
  One use of the button \<open>set baud\<close>: the page makes a request, the handler of the firmware answers it,
  the page gets the answer.
\<close>

definition baud_dialog ::
  "(string \<Rightarrow> string \<Rightarrow> byte list option) \<Rightarrow> (u32 \<Rightarrow> u32) \<Rightarrow> string \<Rightarrow> page \<Rightarrow> uart \<Rightarrow> (page + page) \<times> uart" where
  "baud_dialog find_arg rate typed p u =
     (let p' = set_baud_clicked (Some typed) p
      in case drop (length (outs p)) (outs p') of
           [Http_get url] \<Rightarrow>
             (case cgi_baud rate False (find_arg url ''set'') u of
                (Some (Some body), u') \<Rightarrow> (baud_answer (response_text body) p', u')
              | (_, u') \<Rightarrow> (Inl p', u'))
         | _ \<Rightarrow> (Inr p', u))"

lemma response_text_append [simp]: "response_text (a @ b) = response_text a @ response_text b"
  by (simp add: response_text_def)

lemma unat_of_char: "unat (of_char c :: byte) = of_char c"
proof -
  have "(of_char c :: nat) mod 256 = of_char c" by (rule of_char_mod_256)
  then have "unat (of_nat (of_char c) :: byte) = of_char c" by (simp add: unat_of_nat)
  then show ?thesis by (simp only: of_nat_of_char)
qed

lemma response_text_str [simp]: "response_text (str s) = s"
  by (induction s) (simp_all add: response_text_def unat_of_char)

lemma str_dec_string: "str (dec_string n) = fmt_dec n"
proof -
  have s: "str (map (\<lambda>d. char_of (48 + d)) ds) = map hexdigit ds" if "\<forall>d\<in>set ds. d < 10" for ds :: "nat list"
    using that
  proof (induction ds)
    case (Cons d ds)
    then have d: "d < 10" by simp
    then have "(of_char (char_of (48 + d) :: char) :: nat) = 48 + d"
      by (simp add: of_char_of take_bit_nat_eq_self)
    then have "of_char (char_of (48 + d) :: char) = (of_nat (48 + d) :: byte)"
      by (metis of_nat_of_char)
    with d Cons show ?case by (simp add: hexdigit_def)
  qed simp
  show ?thesis
    unfolding dec_string_def fmt_dec_def
    by (rule s) (use digits_less [of 10 _ n] in auto)
qed

lemma dec_string_plain: "\<forall>c\<in>set (dec_string n). plain_char c"
proof
  fix c assume "c \<in> set (dec_string n)"
  then obtain d :: nat where d: "c = char_of (48 + d)" "d < 10"
    using digits_less [of 10 _ n] by (auto simp: dec_string_def)
  then have "(of_char c :: nat) = 48 + d" by (simp add: of_char_of take_bit_nat_eq_self)
  with d(2) show "plain_char c" by (auto simp: plain_char_def)
qed

lemma length_dec_string: "n < 2 ^ 32 \<Longrightarrow> length (dec_string n) \<le> 10"
  using length_digits_bound [of 10 n 9] by (simp add: dec_string_def)

lemma finds_setD:
  assumes "finds_set find_arg" and "\<forall>c\<in>set v. plain_char c" and "v \<noteq> []" and "length v < 64"
  shows "find_arg (''/uart/baud?set='' @ v) ''set'' = Some (str v)"
proof -
  have "\<forall>c\<in>set ''/uart/baud''. plain_char c" by (simp add: plain_char_def)
  with assms(2) have "\<forall>c\<in>set (''/uart/baud'' @ v). plain_char c" by (metis Un_iff set_append)
  with assms(1,3,4) have "find_arg (''/uart/baud'' @ ''?set='' @ v) ''set'' = Some (str v)"
    unfolding finds_set_def by blast
  then show ?thesis by simp
qed

text \<open>The answer of the handler: the rate set, as a JSON object the page reads.\<close>

definition baud_json :: "nat \<Rightarrow> string" where
  "baud_json n = ''{'' @ [CHR 0x22] @ ''baudrate'' @ [CHR 0x22] @ '': '' @ dec_string n @ '' }''"

lemma baud_body:
  "snprintf_sent 64 (str ''{'' @ quoted ''baudrate'' @ str '': %u }'') [FNum n] = Some (str (baud_json (unat n)))"
proof -
  have l: "length (fmt_dec (unat n)) \<le> 10" by (rule length_fmt_dec_u32)
  have v: "vasprintf (str ''{'' @ quoted ''baudrate'' @ str '': %u }'') [FNum n]
    = Some (str ''{'' @ quoted ''baudrate'' @ str '': '' @ fmt_dec (unat n) @ str '' }'')"
    by (simp add: quoted_def parse_conv_def fmt_width_def pad_to_def)
  then show ?thesis
    unfolding snprintf_sent_def v using l by (simp add: str_dec_string quoted_def baud_json_def)
qed

lemma baud_read: "json_parse (baud_json n) = Some [(''baudrate'', JNum n)]"
  unfolding baud_json_def by (rule json_one_number) simp

lemma baud_shown: "baud_answer (baud_json n) p = Inr (p\<lparr>curbaud := dec_string n\<rparr>)"
  unfolding baud_answer_def baud_read by (simp add: json_get_def)

text \<open>One dialog, given what the page asks for and what the handler answers.\<close>

lemma dialog_step:
  assumes "set_baud_clicked (Some t) p = emit (Http_get url) p" and "find_arg url ''set'' = Some v"
    and "cgi_baud rate False (Some v) u = (Some (Some (str (baud_json (unat n)))), u')"
  shows "baud_dialog find_arg rate t p u = (Inr (p\<lparr>outs := outs p @ [Http_get url], curbaud := dec_string (unat n)\<rparr>), u')"
  unfolding baud_dialog_def Let_def assms(1) by (simp add: assms(2,3) baud_shown) (simp add: emit_def)

lemma baud_handler:
  "cgi_baud rate False (Some v) u =
     (let u' = (if v \<noteq> [] \<and> atoi v \<noteq> 0 then platform_set_baud rate (atoi v) u else u)
      in (Some (Some (str (baud_json (unat (baud0 u'))))), u'))"
  unfolding cgi_baud_def baud_body by (simp add: Let_def)

text \<open>A number in the query, as \<open>atoi\<close> of the handler reads it.\<close>

lemma number_text: "num_text (Fin (of_int k)) = (if k < 0 then ''-'' else []) @ dec_string (nat \<bar>k\<bar>)"
  unfolding num_text_def num.case of_int_abs [symmetric] floor_of_int by simp

lemma minus_plain: "plain_char CHR ''-''"
  by (simp add: plain_char_def)

lemma number_in_query:
  assumes "finds_set find_arg" and "- (2 ^ 31) \<le> k" and "k < 2 ^ 31"
  shows "\<exists>v. find_arg (''/uart/baud?set='' @ num_text (Fin (of_int k))) ''set'' = Some v \<and> v \<noteq> [] \<and> atoi v = of_int k"
proof -
  let ?n = "nat \<bar>k\<bar>"
  have n: "?n \<le> 2 ^ 31" "0 \<le> k \<Longrightarrow> ?n < 2 ^ 31" using assms(2,3) by auto
  have ne: "fmt_dec ?n \<noteq> []" by (simp add: fmt_dec_def)
  have l: "length (dec_string ?n) \<le> 10" using n(1) by (intro length_dec_string) simp
  have "\<forall>c\<in>set (num_text (Fin (of_int k))). plain_char c"
    unfolding number_text set_append using dec_string_plain [of ?n] minus_plain by (intro ballI) (elim UnE, auto split: if_splits)
  moreover have "num_text (Fin (of_int k)) \<noteq> []" unfolding number_text by (simp add: dec_string_def)
  moreover have "length (num_text (Fin (of_int k))) < 64" unfolding number_text using l by (cases "k < 0") simp_all
  ultimately have "find_arg (''/uart/baud?set='' @ num_text (Fin (of_int k))) ''set'' = Some (str (num_text (Fin (of_int k))))"
    by (intro finds_setD [OF assms(1)])
  moreover have "str (num_text (Fin (of_int k))) \<noteq> [] \<and> atoi (str (num_text (Fin (of_int k)))) = of_int k"
  proof (cases "k < 0")
    case True
    then have "str (num_text (Fin (of_int k))) = 45 # fmt_dec ?n" unfolding number_text by (simp add: str_dec_string)
    then show ?thesis using atoi_minus [OF n(1)] True by simp
  next
    case False
    then have "str (num_text (Fin (of_int k))) = fmt_dec ?n" unfolding number_text by (simp add: str_dec_string)
    then show ?thesis using atoi_fmt_dec [OF n(2)] ne False by simp
  qed
  ultimately show ?thesis by blast
qed

lemma small_int_nonzero: "- (2 ^ 31) \<le> k \<Longrightarrow> k < 2 ^ 31 \<Longrightarrow> (of_int k :: u32) = 0 \<longleftrightarrow> k = 0"
proof
  assume k: "- (2 ^ 31) \<le> k" "k < 2 ^ 31" and z: "(of_int k :: u32) = 0"
  from z have "(2 :: int) ^ 32 dvd k" by (simp add: word_of_int_eq_0_iff)
  then show "k = 0" using k dvd_imp_le_int [of k "2 ^ 32"] by (cases "k = 0") auto
qed simp

text \<open>
  C13. The dialog about the baud rate, from the page through the web server to the UART and back. What \<open>parseInt\<close> reads at the
  start of the answer counts, so \<open>12abc\<close> is 12. A number other than 0, from \<open>- 2 ^ 31\<close> up to \<open>2 ^ 31 - 1\<close>, is set on both
  UARTs and stored, a negative one as the unsigned number of its 32 bits, and the page shows the rate the driver really
  uses. After 0, and after an answer that is not a number, which reaches the handler as \<open>NaN\<close>, nothing is set, and the page
  shows the rate there is. An empty answer makes no request.
\<close>

theorem baud_dialog_sets:
  assumes "finds_set find_arg"
  shows "(t \<noteq> [] \<longrightarrow> parseInt t 0 = Fin (of_int k) \<longrightarrow> - (2 ^ 31) \<le> k \<longrightarrow> k < 2 ^ 31 \<longrightarrow>
      baud_dialog find_arg rate t p u =
        (let u' = (if k = 0 then u
               else u\<lparr>baud0 := rate (of_int k), baud1 := rate (of_int k), nvs_baud := Some (of_int k)\<rparr>)
         in (Inr (p\<lparr>outs := outs p @ [Http_get (''/uart/baud?set='' @ num_text (Fin (of_int k)))],
                  curbaud := dec_string (unat (baud0 u'))\<rparr>), u')))
    \<and> (t \<noteq> [] \<longrightarrow> parseInt t 0 = NaN \<longrightarrow>
      baud_dialog find_arg rate t p u =
        (Inr (p\<lparr>outs := outs p @ [Http_get ''/uart/baud?set=NaN''], curbaud := dec_string (unat (baud0 u))\<rparr>), u))
    \<and> baud_dialog find_arg rate [] p u = (Inr p, u)"
proof (intro conjI impI)
  assume t: "t \<noteq> []" "parseInt t 0 = Fin (of_int k)" and k: "- (2 ^ 31) \<le> k" "k < 2 ^ 31"
  let ?url = "''/uart/baud?set='' @ num_text (Fin (of_int k))"
  define u' where "u' = (if k = 0 then u
    else u\<lparr>baud0 := rate (of_int k), baud1 := rate (of_int k), nvs_baud := Some (of_int k)\<rparr>)"
  have pressed: "set_baud_clicked (Some t) p = emit (Http_get ?url) p"
    using t by (simp add: set_baud_clicked_def setBaud_def)
  obtain v where v: "find_arg ?url ''set'' = Some v" "v \<noteq> []" "atoi v = of_int k"
    using number_in_query [OF assms k] by blast
  have "cgi_baud rate False (Some v) u = (Some (Some (str (baud_json (unat (baud0 u'))))), u')"
    using v(2,3) small_int_nonzero [OF k] by (simp add: baud_handler u'_def platform_set_baud_def Let_def)
  note step = dialog_step [where n = "baud0 u'" and find_arg = find_arg, OF pressed v(1) this]
  show "baud_dialog find_arg rate t p u =
      (let u' = (if k = 0 then u
             else u\<lparr>baud0 := rate (of_int k), baud1 := rate (of_int k), nvs_baud := Some (of_int k)\<rparr>)
       in (Inr (p\<lparr>outs := outs p @ [Http_get ?url], curbaud := dec_string (unat (baud0 u'))\<rparr>), u'))"
    unfolding u'_def [symmetric] Let_def by (rule step)
next
  assume t: "t \<noteq> []" "parseInt t 0 = NaN"
  have arg: "find_arg ''/uart/baud?set=NaN'' ''set'' = Some (str ''NaN'')"
    using finds_setD [OF assms, of "''NaN''"] by (simp add: plain_char_def)
  have pressed: "set_baud_clicked (Some t) p = emit (Http_get ''/uart/baud?set=NaN'') p"
    using t by (simp add: set_baud_clicked_def setBaud_def num_text_def)
  have "atoi (str ''NaN'') = 0"
    by (simp add: atoi_def cstr_def scan_dec_def isspace_def sign_len_def)
  then have "cgi_baud rate False (Some (str ''NaN'')) u = (Some (Some (str (baud_json (unat (baud0 u))))), u)"
    unfolding baud_handler Let_def by simp
  note step = dialog_step [of t p "''/uart/baud?set=NaN''" find_arg "str ''NaN''" rate u "baud0 u", OF pressed arg this]
  show "baud_dialog find_arg rate t p u =
        (Inr (p\<lparr>outs := outs p @ [Http_get ''/uart/baud?set=NaN''], curbaud := dec_string (unat (baud0 u))\<rparr>), u)"
    by (rule step)
next
  show "baud_dialog find_arg rate [] p u = (Inr p, u)"
    by (simp add: baud_dialog_def set_baud_clicked_def)
qed

text \<open>A helper that finds a first argument, for the dialog at a concrete rate.\<close>

definition first_arg :: "string \<Rightarrow> string \<Rightarrow> byte list option" where
  "first_arg url name =
     (let q = tl (dropWhile (\<lambda>c. c \<noteq> CHR ''?'') url); n = length name + 1
      in if take n q = name @ ''='' then Some (str (drop n q)) else None)"

lemma first_arg_finds: "finds_set first_arg"
  unfolding finds_set_def
proof (intro allI impI)
  fix path v assume "\<forall>c\<in>set (path @ v). plain_char c"
  then have "\<forall>c\<in>set path. c \<noteq> CHR ''?''" by (auto simp: plain_char_def)
  then have "dropWhile (\<lambda>c. c \<noteq> CHR ''?'') (path @ ''?set='' @ v) = ''?set='' @ v"
    by (subst dropWhile_append2) auto
  then show "first_arg (path @ ''?set='' @ v) ''set'' = Some (str v)"
    by (simp add: first_arg_def)
qed

theorem baud_dialog_sets_witness:
  "\<exists>p' u'. baud_dialog first_arg (\<lambda>b. b) (dec_string 9600) (page_loaded ''bm'')
      \<lparr>baud0 = 115200, baud1 = 115200, nvs_baud = None, wire = []\<rparr> = (Inr p', u')
    \<and> curbaud p' = dec_string 9600 \<and> baud0 u' = 9600 \<and> nvs_baud u' = Some 9600"
proof -
  have "parseInt (dec_string 9600) 0 = Fin (of_int 9600)" "dec_string 9600 \<noteq> []"
    using parseInt_dec [of "[]" 9600] by (simp_all add: ends_number_def dec_string_def)
  then show ?thesis
    using baud_dialog_sets [OF first_arg_finds, of "dec_string 9600" 9600 "\<lambda>b. b" "page_loaded ''bm''"
        "\<lparr>baud0 = 115200, baud1 = 115200, nvs_baud = None, wire = []\<rparr>"]
    by (simp add: Let_def)
qed

section \<open>The log, from the firmware to the page\<close>

text \<open>A byte that ends a line empties the buffer the messages are collected in.\<close>

lemma flushed_newline:
  assumes "dbg_ok d" and "pending d \<noteq> []" and "last (pending d) = 10"
  shows "http_bufsize (dbg_drain d) = 0"
  using assms
proof (induction d rule: dbg_drain.induct)
  case (1 d)
  obtain c cs where c: "cbuf_contents (dbg_msg_queue d) = c # cs"
    using "1.prems"(2) by (auto simp: pending_def neq_Nil_conv)
  let ?q = "snd (CBUF_Pop (dbg_msg_queue d))"
  let ?d = "http_debug_putc c (c = 10) (d\<lparr>dbg_msg_queue := ?q\<rparr>)"
  have wf: "cbuf_wf (dbg_msg_queue d)" using "1.prems" by (simp add: dbg_ok_def)
  have ne: "\<not> CBUF_IsEmpty (dbg_msg_queue d)" by (simp add: CBUF_IsEmpty_iff c)
  have p: "CBUF_Pop (dbg_msg_queue d) = (c, ?q)" using cb.pop_first [OF wf c] by (metis prod.collapse)
  have eq: "dbg_drain d = dbg_drain ?d" by (subst dbg_drain.simps, subst p) (simp add: ne)
  have d': "dbg_ok ?d" "pending ?d = cs"
    using "1.prems" cb.ok_pop [OF wf] cb.contents_pop [OF wf c]
    by (auto simp: dbg_ok_def pending_def http_debug_putc_bound)
  show ?case
  proof (cases "cs = []")
    case True
    then have "CBUF_IsEmpty ?q" using d'(2) by (simp add: pending_def CBUF_IsEmpty_iff)
    then have "dbg_drain ?d = ?d" by (subst dbg_drain.simps) simp
    moreover have "c = 10" using "1.prems"(3) c True by (simp add: pending_def)
    ultimately show ?thesis unfolding eq by (simp add: http_debug_putc_def Let_def)
  next
    case False
    then have "last cs = 10" using "1.prems"(3) c by (simp add: pending_def)
    with "1.IH" [OF ne refl p [symmetric] d'(1)] d'(2) False show ?thesis unfolding eq by simp
  qed
qed

text \<open>
  C32. A line of log text, from \<open>putc_remote\<close> to the terminal of the debug page: when the queue is empty and
  the line, with its CR LF ends, fits it, one round of \<open>dbg_task\<close> sends messages with which the open
  page shows exactly the line, after what was shown before.
\<close>

theorem log_line_shown:
  assumes "dbg_ok d" and "pending d = []" and "http_bufsize d = 0" and "debugws d = []"
    and "length (crlf (t @ [10])) \<le> 255" and "log_socket p = Open"
  shows "\<exists>e q. dbg_task_round (fold putc_remote (t @ [10]) d) = Some e
    \<and> log_run (map Log_message (debugws e)) p q \<and> shown q = shown p @ crlf (t @ [10])"
proof -
  let ?f = "fold putc_remote (t @ [10]) d"
  let ?g = "?f\<lparr>dbg_sem := False\<rparr>"
  have f: "dbg_ok ?f" "pending ?f = crlf (t @ [10])" "delivered ?f = delivered d" "dbg_sem ?f"
    using putc_remote_text [OF assms(1), of "t @ [10]"] assms(2,5) by simp_all
  have g: "dbg_ok ?g" "pending ?g = crlf t @ [13, 10]" "delivered ?g = []"
    using f assms(3,4) by (simp_all add: dbg_ok_def pending_def delivered_def)
  have "http_bufsize (dbg_drain ?g) = 0" using flushed_newline [OF g(1)] g(2) by simp
  with dbg_drain_all [OF g(1)] g have sent: "concat (debugws (dbg_drain ?g)) = crlf (t @ [10])"
    by (simp add: delivered_def)
  have run: "\<exists>q. log_run (map Log_message ms) p q" if "log_socket p = Open" for ms p
    using that
  proof (induction ms arbitrary: p)
    case (Cons b ms)
    then have "log_step (Log_message b) p (log_onmessage b p)" by (simp add: log_step.intros)
    moreover obtain q where "log_run (map Log_message ms) (log_onmessage b p) q"
      using Cons.IH [of "log_onmessage b p"] Cons.prems by auto
    ultimately show ?case using log_run.step by (metis list.map(2))
  qed (metis list.map(1) log_run.stop)
  from run [OF assms(6)] obtain q where q: "log_run (map Log_message (debugws (dbg_drain ?g))) p q" by blast
  have "received_log (map Log_message ms) = concat ms" for ms by (simp add: received_log_def comp_def)
  with log_run_shown [OF q] sent have "shown q = shown p @ crlf (t @ [10])" by simp
  moreover have "dbg_task_round ?f = Some (dbg_drain ?g)" using f(4) by (simp add: dbg_task_round_def)
  ultimately show ?thesis using q by blast
qed

theorem log_line_shown_witness:
  "\<exists>e q. dbg_task_round (fold putc_remote ([104, 105] @ [10]) dbg_example) = Some e
    \<and> log_run (map Log_message (debugws e)) (log_onopen (log_loaded ''bm'')) q \<and> shown q = [104, 105, 13, 10]"
proof -
  have i: "http_bufsize dbg_example = 0" "debugws dbg_example = []"
    by (simp_all add: dbg_example_def dbg_init_def)
  have s: "shown (log_loaded ''bm'') = []" by (simp add: shown_def log_loaded_def)
  show ?thesis
    using log_line_shown [OF dbg_example_ok(1,2) i, of "[104, 105]" "log_onopen (log_loaded ''bm'')"] by (simp add: s)
qed

section \<open>The requests of the pages\<close>

text \<open>What a page may ask the server for: a path of the table, without what follows a question mark.\<close>

definition url_path :: "string \<Rightarrow> string" where
  "url_path url = takeWhile (\<lambda>c. c \<noteq> CHR ''?'') url"

definition term_request_ok :: "string \<Rightarrow> page_out \<Rightarrow> bool" where
  "term_request_ok host x =
     (case x of
        Http_get url \<Rightarrow> url_path url \<in> {''/uart/baud'', ''/uart/break''}
      | Open_socket url \<Rightarrow> url = ''ws://'' @ host @ ''/terminal''
      | _ \<Rightarrow> True)"

lemma outs_emit [simp]: "list_all P (outs (emit x p)) = (list_all P (outs p) \<and> P x)"
  by simp

lemma send_requests: "list_all (term_request_ok host) (outs p) \<Longrightarrow> list_all (term_request_ok host) (outs (page_after (socket_send d p)))"
  by (simp add: socket_send_def page_after_def term_request_ok_def split: sock.split)

lemma sendLine_requests:
  assumes "list_all (term_request_ok host) (outs p)"
  shows "list_all (term_request_ok host) (outs (page_after (sendLine p)))"
proof -
  have "outs (remember l p) = outs p" for l by (simp add: remember_def)
  then show ?thesis
    unfolding sendLine_def Let_def using assms by (intro send_requests) (simp add: term_request_ok_def)
qed

lemma baud_path: "url_path (''/uart/baud?set='' @ v) = ''/uart/baud''"
  by (simp add: url_path_def)

lemma handle_requests:
  assumes "list_all (term_request_ok host) (outs p)"
  shows "list_all (term_request_ok host) (outs (page_after (handle host ev p)))"
proof (cases ev)
  case (Key k)
  then show ?thesis
    using assms sendLine_requests [OF assms]
    by (simp add: keydown_def page_after_def arrow_up_def arrow_down_def Let_def)
next
  case (Click_baud a)
  have "list_all (term_request_ok host) (outs (setBaud n p))" for n
    using assms baud_path [of "num_text n"] unfolding setBaud_def outs_emit by (simp add: term_request_ok_def)
  then show ?thesis
    using assms Click_baud by (simp add: page_after_def set_baud_clicked_def split: option.split)
qed (use assms send_requests [OF assms] sendLine_requests [OF assms] in
      \<open>simp_all add: page_after_def sendBreak_def term_request_ok_def url_path_def socket_opened_def socket_message_def
         socket_closed_def createSocket_def first_baud_answer_def baud_answer_def split: option.split\<close>)

lemma term_requests: "page_reachable host p \<Longrightarrow> list_all (term_request_ok host) (outs p)"
proof (induction rule: page_reachable.induct)
  case loaded
  show ?case by (simp add: page_loaded_def createSocket_def term_request_ok_def url_path_def)
next
  case (event p ev)
  then show ?case using handle_requests by blast
qed

lemma upgrade_requests:
  "upage_run evs p \<Longrightarrow> Send m url b \<in> set (uouts p) \<Longrightarrow> url \<in> {''/flash/next'', ''/flash/upload'', ''/flash/reboot''}"
proof (induction rule: upage_run.induct)
  case shown
  then show ?case by (simp add: upage_shown_def upage_onload_def)
next
  case (event evs p ev)
  then show ?case by (auto simp: uhandle_outs reboot_request_def split: upage_event.splits option.splits if_splits)
qed

text \<open>
  Every request the terminal page and the upgrade page ever make has its handler in the table of the web
  server, but one: the name of the next firmware, which the upgrade page asks for when it is loaded,
  has no entry any more and goes to the file system. When that does not know it, the page keeps
  showing that it is loading, until the user starts an upload.
\<close>

theorem requests_routed:
  assumes "url_matching matches"
  shows "(\<forall>host p url. page_reachable host p \<longrightarrow> Http_get url \<in> set (outs p) \<longrightarrow>
            route matches (url_path url) \<in> {Some Baud, Some Uart_break})
    \<and> route matches ''/terminal'' = Some Term_socket \<and> route matches ''/debugws'' = Some Debug_socket
    \<and> (\<forall>evs p m url b. upage_run evs p \<longrightarrow> Send m url b \<in> set (uouts p) \<longrightarrow>
            route matches url = Some (if url = ''/flash/upload'' then Upload_firmware
              else if url = ''/flash/reboot'' then Reboot_firmware else File_system))
    \<and> (\<forall>os s t. Send ''GET'' ''/flash/next'' None \<in> set (uouts (upage_shown os))
         \<and> (\<not> ok_status s \<longrightarrow> page_after (xhr_done s t (upage_shown os)) = (upage_shown os)\<lparr>in_flight := None\<rparr>)
         \<and> remark (upage_shown os) = ''Loading...'')"
proof (intro conjI allI impI)
  note routes = route_map_of [OF assms]
  fix host p url
  assume "page_reachable host p" "Http_get url \<in> set (outs p)"
  then have "url_path url \<in> {''/uart/baud'', ''/uart/break''}"
    using term_requests [of host p] by (auto simp: list_all_iff term_request_ok_def)
  then show "route matches (url_path url) \<in> {Some Baud, Some Uart_break}"
    by (auto simp: routes builtInUrls_def)
next
  show "route matches ''/terminal'' = Some Term_socket" "route matches ''/debugws'' = Some Debug_socket"
    by (simp_all add: route_map_of [OF assms] builtInUrls_def)
next
  fix evs p m url b
  assume "upage_run evs p" "Send m url b \<in> set (uouts p)"
  from upgrade_requests [OF this] show "route matches url = Some (if url = ''/flash/upload'' then Upload_firmware
              else if url = ''/flash/reboot'' then Reboot_firmware else File_system)"
    by (auto simp: route_map_of [OF assms] builtInUrls_def)
next
  fix os s t
  show "Send ''GET'' ''/flash/next'' None \<in> set (uouts (upage_shown os))" "remark (upage_shown os) = ''Loading...''"
    by (simp_all add: upage_shown_def upage_onload_def)
  assume "\<not> ok_status s"
  then show "page_after (xhr_done s t (upage_shown os)) = (upage_shown os)\<lparr>in_flight := None\<rparr>"
    by (simp add: xhr_done_def page_after_def Let_def)
qed

definition star_match :: "string \<Rightarrow> string \<Rightarrow> bool" where
  "star_match pat path \<longleftrightarrow>
     (if pat \<noteq> [] \<and> last pat = CHR ''*'' then take (length pat - 1) path = butlast pat else path = pat)"

lemma star_matching: "url_matching star_match"
  by (auto simp: url_matching_def star_match_def dest: last_in_set)

theorem requests_routed_witness:
  "route star_match ''/terminal'' = Some Term_socket \<and> route star_match ''/flash/next'' = Some File_system"
proof -
  note r = requests_routed [OF star_matching]
  have sent: "Send ''GET'' ''/flash/next'' None \<in> set (uouts (upage_shown []))" using r by blast
  have "route star_match ''/flash/next'' = Some (if ''/flash/next'' = ''/flash/upload'' then Upload_firmware
              else if ''/flash/next'' = ''/flash/reboot'' then Reboot_firmware else File_system)"
    using r upage_run.shown sent by blast
  moreover have "route star_match ''/terminal'' = Some Term_socket" using r by blast
  ultimately show ?thesis by simp
qed

end
